(* ===== verification/Kes_Prelude.thy ===== *)
theory Kes_Prelude
  imports Main "HOL-Library.Word" "HOL-Library.Monad_Syntax"
begin

text \<open>
  Shared material of the development: the machine integer types of the C sources, the
  convention for calls that do not return (\<open>None\<close>: undefined behaviour, self-deadlock or
  divergence), bounds-checked byte buffers, the bit view of a byte buffer, little-endian
  images of integers, and the generic lemmas on lists, options and words that the component
  theories use.
\<close>

unbundle bit_operations_syntax

section \<open>Machine integers\<close>

type_synonym u8 = "8 word"
type_synonym u16 = "16 word"
type_synonym u32 = "32 word"
type_synonym u64 = "64 word"

text \<open>Lemma collections: \<open>kes_wf\<close> holds the facts that an operation keeps an invariant,
  \<open>kes_spec\<close> the functional description of the operations on well-formed arguments.\<close>

named_theorems kes_wf
named_theorems kes_spec

lemma unat_add_no_overflow:
  "unat (a :: 'a::len word) + unat b < 2 ^ LENGTH('a) \<Longrightarrow> unat (a + b) = unat a + unat b"
  by (simp add: unat_word_ariths)

lemma unat_mult_no_overflow:
  "unat (a :: 'a::len word) * unat b < 2 ^ LENGTH('a) \<Longrightarrow> unat (a * b) = unat a * unat b"
  by (simp add: unat_word_ariths)

lemma unat_diff_le: "b \<le> a \<Longrightarrow> unat (a - b :: 'a::len word) = unat a - unat b"
  by (rule unat_sub)

lemma unat_u64_bound: "unat (w :: u64) < 18446744073709551616"
  using unsigned_less [of w, where ?'a = nat] by simp

lemma unat_u32_bound: "unat (w :: u32) < 4294967296"
  using unsigned_less [of w, where ?'a = nat] by simp

lemma unat_u32_to_u64 [simp]: "unat (ucast (w :: u32) :: u64) = unat w"
  by (simp add: unsigned_ucast_eq take_bit_nat_eq_self less_trans [OF unat_u32_bound])

lemma unat_plus_one: "unat (w :: 'a::len word) + 1 < 2 ^ LENGTH('a) \<Longrightarrow> unat (w + 1) = unat w + 1"
  by (subst unat_add_no_overflow) auto

lemma word_less_plus_one:
  assumes "w < (v :: 'a::len word)"
  shows "unat (w + 1) = unat w + 1"
proof (rule unat_plus_one)
  have "unat v < 2 ^ LENGTH('a)" by simp
  with assms show "unat w + 1 < 2 ^ LENGTH('a)"
    unfolding word_less_nat_alt by linarith
qed

section \<open>Byte buffers\<close>

text \<open>A read or write outside the buffer is undefined behaviour in C: \<open>None\<close>.\<close>

definition byte_at :: "u8 list \<Rightarrow> nat \<Rightarrow> u8 option" where
  "byte_at xs i = (if i < length xs then Some (xs ! i) else None)"

definition byte_put :: "u8 list \<Rightarrow> nat \<Rightarrow> u8 \<Rightarrow> u8 list option" where
  "byte_put xs i v = (if i < length xs then Some (xs[i := v]) else None)"

text \<open>\<open>overlay\<close> is what a \<open>read()\<close> that transfers \<open>ys\<close> leaves in the buffer \<open>xs\<close>.\<close>

definition overlay :: "u8 list \<Rightarrow> u8 list \<Rightarrow> u8 list" where
  "overlay ys xs = ys @ drop (length ys) xs"

lemma length_overlay: "length ys \<le> length xs \<Longrightarrow> length (overlay ys xs) = length xs"
  by (simp add: overlay_def)

lemma overlay_full: "length ys = length xs \<Longrightarrow> overlay ys xs = ys"
  by (simp add: overlay_def)

section \<open>The bits of a byte buffer\<close>

definition mbit :: "u8 list \<Rightarrow> nat \<Rightarrow> bool" where
  "mbit xs i \<longleftrightarrow> i div 8 < length xs \<and> bit (xs ! (i div 8)) (i mod 8)"

definition mbits :: "u8 list \<Rightarrow> nat set" where
  "mbits xs = {i. mbit xs i}"

lemma mbit_Nil [simp]: "\<not> mbit [] i"
  by (simp add: mbit_def)

lemma mbit_bound: "mbit xs i \<Longrightarrow> i < 8 * length xs"
  by (simp add: mbit_def) linarith

lemma mbits_subset: "mbits xs \<subseteq> {..<8 * length xs}"
  by (auto simp: mbits_def dest: mbit_bound)

lemma finite_mbits [simp]: "finite (mbits xs)"
  by (rule finite_subset [OF mbits_subset]) simp

lemma mbit_replicate_0 [simp]: "\<not> mbit (replicate n 0) i"
  by (simp add: mbit_def)

lemma mbits_replicate_0 [simp]: "mbits (replicate n 0) = {}"
  by (simp add: mbits_def)

lemma mbit_update:
  assumes "k < length xs"
  shows "mbit (xs[k := v]) i \<longleftrightarrow> (if i div 8 = k then bit v (i mod 8) else mbit xs i)"
  using assms by (auto simp: mbit_def)

lemma mbit_Cons: "mbit (x # xs) i \<longleftrightarrow> (if i < 8 then bit x i else mbit xs (i - 8))"
proof (cases "i < 8")
  case True
  then show ?thesis by (simp add: mbit_def)
next
  case False
  then obtain j where i: "i = j + 8" using le_add_diff_inverse2 not_less by metis
  have "(j + 8) div 8 = Suc (j div 8)" "(j + 8) mod 8 = j mod 8" by simp_all
  then show ?thesis unfolding i by (simp add: mbit_def)
qed

lemma mbits_Cons: "mbits (x # xs) = {i. i < 8 \<and> bit x i} \<union> (\<lambda>i. i + 8) ` mbits xs"
proof (rule set_eqI)
  fix i
  show "i \<in> mbits (x # xs) \<longleftrightarrow> i \<in> {i. i < 8 \<and> bit x i} \<union> (\<lambda>i. i + 8) ` mbits xs"
  proof (cases "i < 8")
    case True
    then show ?thesis by (auto simp: mbits_def mbit_Cons)
  next
    case False
    then have "i = (i - 8) + 8" by simp
    with False show ?thesis by (auto simp: mbits_def mbit_Cons image_iff)
  qed
qed

definition byte_weight :: "u8 \<Rightarrow> nat" where
  "byte_weight x = card {i. i < 8 \<and> bit x i}"

lemma card_mbits: "card (mbits xs) = sum_list (map byte_weight xs)"
proof (induction xs)
  case Nil
  then show ?case by (simp add: mbits_def)
next
  case (Cons x xs)
  have "card ((\<lambda>i. i + 8) ` mbits xs) = card (mbits xs)"
    by (rule card_image) (simp add: inj_on_def)
  moreover have "{i. i < 8 \<and> bit x i} \<inter> (\<lambda>i. i + 8) ` mbits xs = {}" by auto
  ultimately show ?case
    using Cons.IH by (simp add: mbits_Cons card_Un_disjoint byte_weight_def)
qed

section \<open>Little-endian images of integers\<close>

text \<open>The storage descriptor is written to disk as the raw image of a C struct; the model uses
  the little-endian layout of the platforms the library is built for.\<close>

definition le_bytes :: "nat \<Rightarrow> 'a::len word \<Rightarrow> u8 list" where
  "le_bytes n w = map (\<lambda>i. ucast (drop_bit (8 * i) w)) [0..<n]"

primrec le_word :: "u8 list \<Rightarrow> 'a::len word" where
  "le_word [] = 0"
| "le_word (b # bs) = (push_bit 8 (le_word bs) OR ucast b)"

lemma length_le_bytes [simp]: "length (le_bytes n w) = n"
  by (simp add: le_bytes_def)

lemma bit_le_word: "bit (le_word bs :: 'a::len word) k \<longleftrightarrow> k < LENGTH('a) \<and> mbit bs k"
proof (induction bs arbitrary: k)
  case Nil
  then show ?case by simp
next
  case (Cons b bs)
  show ?case
    by (cases "k < 8")
       (auto simp: bit_or_iff bit_push_bit_iff bit_ucast_iff Cons.IH mbit_Cons
          dest: bit_imp_le_length)
qed

lemma mbit_le_bytes:
  "mbit (le_bytes n (w :: 'a::len word)) k \<longleftrightarrow> k < 8 * n \<and> bit w k"
proof -
  have "8 * (k div 8) + k mod 8 = k" by simp
  moreover have "k div 8 < n \<longleftrightarrow> k < 8 * n" by linarith
  ultimately show ?thesis
    by (auto simp: mbit_def le_bytes_def bit_ucast_iff bit_drop_bit_eq add.commute
        dest: bit_imp_le_length)
qed

lemma le_word_le_bytes: "LENGTH('a) \<le> 8 * n \<Longrightarrow> le_word (le_bytes n w) = (w :: 'a::len word)"
  by (rule bit_word_eqI) (auto simp: bit_le_word mbit_le_bytes)

lemma mbit_ext:
  assumes "length xs = length ys" and "\<And>i. i < 8 * length xs \<Longrightarrow> mbit xs i = mbit ys i"
  shows "xs = ys"
proof (rule nth_equalityI [OF assms(1)])
  fix k assume k: "k < length xs"
  show "xs ! k = ys ! k"
  proof (rule bit_word_eqI)
    fix j assume j: "j < LENGTH(8)"
    then have "8 * k + j < 8 * length xs" using k by simp
    then have "mbit xs (8 * k + j) = mbit ys (8 * k + j)" by (rule assms(2))
    then show "bit (xs ! k) j = bit (ys ! k) j"
      using j k assms(1) by (simp add: mbit_def)
  qed
qed

lemma le_bytes_le_word:
  assumes "length bs = n" and "8 * n \<le> LENGTH('a)"
  shows "le_bytes n (le_word bs :: 'a::len word) = bs"
  by (rule mbit_ext) (use assms in \<open>auto simp: mbit_le_bytes bit_le_word\<close>)

end
