(* ===== verification/Kes_Types.thy ===== *)
theory Kes_Types
  imports Kes_Prelude
begin

text \<open>
  The declarations of \<open>include/kes/kes_types.h\<close>: return codes, constants, the structs of the
  public interface as records (field names carry a short prefix per struct, since the C
  structs share field names), and the utility macros with their arithmetic meaning.
\<close>

section \<open>Return codes and constants\<close>

abbreviation (input) KES_SUCCESS :: int where "KES_SUCCESS \<equiv> 0"
abbreviation (input) KES_ERROR_INVALID :: int where "KES_ERROR_INVALID \<equiv> - 1"
abbreviation (input) KES_ERROR_NOMEM :: int where "KES_ERROR_NOMEM \<equiv> - 2"
abbreviation (input) KES_ERROR_NOTFOUND :: int where "KES_ERROR_NOTFOUND \<equiv> - 3"
abbreviation (input) KES_ERROR_EXISTS :: int where "KES_ERROR_EXISTS \<equiv> - 4"
abbreviation (input) KES_ERROR_IO :: int where "KES_ERROR_IO \<equiv> - 5"
abbreviation (input) KES_ERROR_NOSPACE :: int where "KES_ERROR_NOSPACE \<equiv> - 6"
abbreviation (input) KES_ERROR_CORRUPT :: int where "KES_ERROR_CORRUPT \<equiv> - 7"
abbreviation (input) KES_ERROR_BUSY :: int where "KES_ERROR_BUSY \<equiv> - 8"

abbreviation (input) KES_VERSION_MAJOR :: u16 where "KES_VERSION_MAJOR \<equiv> 2"
abbreviation (input) KES_VERSION_MINOR :: u16 where "KES_VERSION_MINOR \<equiv> 0"
abbreviation (input) KES_VERSION_PATCH :: u16 where "KES_VERSION_PATCH \<equiv> 0"

abbreviation (input) KES_MAGIC_NUMBER :: u32 where "KES_MAGIC_NUMBER \<equiv> 0x4B455353"
abbreviation (input) KES_DEFAULT_BLOCK_SIZE :: u32 where "KES_DEFAULT_BLOCK_SIZE \<equiv> 8192"
abbreviation (input) KES_MIN_BLOCK_SIZE :: u32 where "KES_MIN_BLOCK_SIZE \<equiv> 4096"
abbreviation (input) KES_MAX_BLOCK_SIZE :: u32 where "KES_MAX_BLOCK_SIZE \<equiv> 65536"

abbreviation (input) KES_STORAGE_READONLY :: u32 where "KES_STORAGE_READONLY \<equiv> 0x01"
abbreviation (input) KES_STORAGE_CREATE :: u32 where "KES_STORAGE_CREATE \<equiv> 0x02"
abbreviation (input) KES_STORAGE_TRUNCATE :: u32 where "KES_STORAGE_TRUNCATE \<equiv> 0x04"
abbreviation (input) KES_STORAGE_SYNC :: u32 where "KES_STORAGE_SYNC \<equiv> 0x08"

datatype kes_allocation_strategy =
  KES_ALLOC_FIRST_FIT | KES_ALLOC_BEST_FIT | KES_ALLOC_WORST_FIT | KES_ALLOC_NEXT_FIT

section \<open>Structs\<close>

record kes_extent_descriptor =
  x_start_block :: u64
  x_block_count :: u32
  x_flags :: u32
  x_extent_id :: u64

text \<open>The storage descriptor. \<open>d_pad\<close> names the four alignment bytes that the compiler puts
  between \<open>block_size\<close> and \<open>total_blocks\<close>: they travel with the raw struct image.\<close>

record kes_storage_descriptor =
  d_magic :: u32
  d_version_major :: u16
  d_version_minor :: u16
  d_block_size :: u32
  d_pad :: u32
  d_total_blocks :: u64
  d_bitmap_start_block :: u64
  d_bitmap_blocks :: u64
  d_user_start_block :: u64
  d_user_blocks :: u64
  d_free_blocks :: u64
  d_used_blocks :: u64
  d_next_extent_id :: u64
  d_bitmap_checksum :: u32
  d_reserved :: "u8 list"

record kes_storage_config =
  cfg_device_path :: "string option"
  cfg_device_size :: u64
  cfg_block_size :: u32
  cfg_flags :: u32
  cfg_strategy :: kes_allocation_strategy

record kes_extent_request =
  rq_block_count :: u32
  rq_alignment :: u32
  rq_hint_block :: u64
  rq_flags :: u32

record kes_storage_stats =
  st_total_blocks :: u64
  st_free_blocks :: u64
  st_used_blocks :: u64
  st_allocated_extents :: u64
  st_fragmentation :: u64
  st_reads_completed :: u64
  st_writes_completed :: u64
  st_bytes_read :: u64
  st_bytes_written :: u64

section \<open>Utility macros\<close>

definition KES_BLOCKS_TO_BYTES :: "u64 \<Rightarrow> u64 \<Rightarrow> u64" where
  "KES_BLOCKS_TO_BYTES blocks block_size = blocks * block_size"

text \<open>Division by zero is undefined behaviour: \<open>None\<close>.\<close>

definition KES_BYTES_TO_BLOCKS :: "u64 \<Rightarrow> u64 \<Rightarrow> u64 option" where
  "KES_BYTES_TO_BLOCKS bytes block_size =
     (if block_size = 0 then None else Some ((bytes + block_size - 1) div block_size))"

definition KES_ALIGN_UP :: "'a::len word \<Rightarrow> 'a word \<Rightarrow> 'a word" where
  "KES_ALIGN_UP value alignment = (value + alignment - 1) AND NOT (alignment - 1)"

definition KES_IS_POWER_OF_2 :: "'a::len word \<Rightarrow> bool" where
  "KES_IS_POWER_OF_2 x \<longleftrightarrow> x \<noteq> 0 \<and> x AND (x - 1) = 0"

subsection \<open>What the macros compute\<close>

lemma bit_word_div: "bit (w :: 'a::len word) k \<longleftrightarrow> odd (unat w div 2 ^ k)"
  by (simp add: bit_iff_odd [symmetric] bit_unsigned_iff)

lemma nat_between_powers:
  assumes "0 < (n :: nat)"
  obtains k where "2 ^ k \<le> n" and "n < 2 ^ Suc k"
  using ex_power_ivl1 [of 2 n] assms by auto

lemma power_of_2_and_pred:
  fixes x :: "'a::len word"
  assumes "unat x = 2 ^ k"
  shows "x AND (x - 1) = 0"
proof (rule bit_word_eqI)
  fix j
  have x0: "x \<noteq> 0" using assms by auto
  then have pred: "unat (x - 1) = 2 ^ k - 1"
    by (subst unat_diff_le) (use assms in \<open>auto simp: word_le_nat_alt\<close>)
  show "bit (x AND (x - 1)) j = bit (0 :: 'a word) j"
  proof (cases j k rule: linorder_cases)
    case less
    then have "even (2 ^ k div 2 ^ j :: nat)" by (simp add: power_diff [symmetric])
    then show ?thesis unfolding bit_and_iff using assms by (simp add: bit_word_div)
  next
    case equal
    then show ?thesis unfolding bit_and_iff using pred by (simp add: bit_word_div)
  next
    case greater
    then have "(2 ^ k :: nat) < 2 ^ j" by simp
    then show ?thesis unfolding bit_and_iff using assms by (simp add: bit_word_div)
  qed
qed

lemma KES_IS_POWER_OF_2_iff:
  "KES_IS_POWER_OF_2 (x :: 'a::len word) \<longleftrightarrow> (\<exists>k. unat x = 2 ^ k)"
proof
  assume p: "KES_IS_POWER_OF_2 x"
  then have pos: "0 < unat x" by (simp add: KES_IS_POWER_OF_2_def unat_gt_0)
  then obtain k where k: "2 ^ k \<le> unat x" "unat x < 2 ^ Suc k" by (rule nat_between_powers)
  have "unat x = 2 ^ k"
  proof (rule ccontr)
    assume "unat x \<noteq> 2 ^ k"
    then have "2 ^ k \<le> unat (x - 1)" "unat (x - 1) < 2 ^ Suc k"
      using k pos by (auto simp: unat_diff_le word_le_nat_alt)
    then have "unat x div 2 ^ k = 1" "unat (x - 1) div 2 ^ k = 1"
      using k by (auto intro!: div_nat_eqI)
    then have "bit (x AND (x - 1)) k" unfolding bit_and_iff by (simp add: bit_word_div)
    with p show False by (simp add: KES_IS_POWER_OF_2_def)
  qed
  then show "\<exists>k. unat x = 2 ^ k" ..
next
  assume "\<exists>k. unat x = 2 ^ k"
  then show "KES_IS_POWER_OF_2 x"
    by (auto simp: KES_IS_POWER_OF_2_def power_of_2_and_pred)
qed

end
