(* ===== verification/Kes_Os.thy ===== *)
theory Kes_Os
  imports Kes_Types
begin

text \<open>
  The part of POSIX that the library uses: regular files with holes, open file descriptions
  with a position, an access mode and an advisory \<open>flock\<close> lock, and the calls \<open>open\<close>,
  \<open>close\<close>, \<open>lseek\<close>, \<open>read\<close>, \<open>write\<close>, \<open>fsync\<close>, \<open>flock\<close>, \<open>calloc\<close> and
  \<open>pthread_mutex_init\<close>. A schedule \<open>os_sched\<close> decides, call by call, whether a call works,
  fails or transfers fewer bytes than asked for; when it is exhausted every call works.
\<close>

section \<open>Files\<close>

text \<open>\<open>f_dirty\<close> is set by a write that only reached the page cache and cleared by
  \<open>fsync\<close>.\<close>

record ofile =
  f_size :: nat
  f_bytes :: "nat \<Rightarrow> u8"
  f_dirty :: bool

definition empty_file :: ofile where
  "empty_file = \<lparr>f_size = 0, f_bytes = (\<lambda>_. 0), f_dirty = False\<rparr>"

definition fread :: "ofile \<Rightarrow> nat \<Rightarrow> nat \<Rightarrow> u8 list" where
  "fread f off n = map (f_bytes f) [off..<off + min n (f_size f - off)]"

definition fwrite :: "ofile \<Rightarrow> nat \<Rightarrow> u8 list \<Rightarrow> ofile" where
  "fwrite f off bs = (if bs = [] then f else f\<lparr>
     f_size := max (f_size f) (off + length bs),
     f_bytes := (\<lambda>j. if off \<le> j \<and> j < off + length bs then bs ! (j - off)
                     else if j < f_size f then f_bytes f j else 0)\<rparr>)"

text \<open>\<open>f_holds f off bs\<close>: the file stores \<open>bs\<close> at offset \<open>off\<close>.\<close>

definition f_holds :: "ofile \<Rightarrow> nat \<Rightarrow> u8 list \<Rightarrow> bool" where
  "f_holds f off bs \<longleftrightarrow> off + length bs \<le> f_size f \<and>
     (\<forall>i < length bs. f_bytes f (off + i) = bs ! i)"

text \<open>Random-access storage: what a read returns after writes. The offsets and contents the
  library stores (descriptor, bitmap, extents) are reasoned about through these laws.\<close>

locale random_access =
  fixes rd :: "'f \<Rightarrow> nat \<Rightarrow> nat \<Rightarrow> 'b list"
    and wr :: "'f \<Rightarrow> nat \<Rightarrow> 'b list \<Rightarrow> 'f"
    and holds :: "'f \<Rightarrow> nat \<Rightarrow> 'b list \<Rightarrow> bool"
  assumes rd_holds: "holds f off bs \<Longrightarrow> rd f off (length bs) = bs"
    and rd_full: "length (rd f off n) = n \<Longrightarrow> 0 < n \<Longrightarrow> holds f off (rd f off n)"
    and wr_same: "bs \<noteq> [] \<Longrightarrow> holds (wr f off bs) off bs"
    and wr_disjoint: "holds f off' cs \<Longrightarrow> off + length bs \<le> off' \<or> off' + length cs \<le> off
          \<Longrightarrow> holds (wr f off bs) off' cs"
    and holds_unique: "holds f off bs \<Longrightarrow> holds f off cs \<Longrightarrow> length bs = length cs \<Longrightarrow> bs = cs"
begin

lemma read_after_write: "bs \<noteq> [] \<Longrightarrow> rd (wr f off bs) off (length bs) = bs"
  by (rule rd_holds) (rule wr_same)

lemma read_after_disjoint_write:
  assumes "holds f off' cs" "off + length bs \<le> off' \<or> off' + length cs \<le> off"
  shows "rd (wr f off bs) off' (length cs) = rd f off' (length cs)"
  using rd_holds [OF wr_disjoint [OF assms]] rd_holds [OF assms(1)] by simp

lemma two_writes:
  assumes "bs \<noteq> []" "cs \<noteq> []" "off + length bs \<le> off' \<or> off' + length cs \<le> off"
  shows "holds (wr (wr f off bs) off' cs) off bs \<and> holds (wr (wr f off bs) off' cs) off' cs"
  using assms wr_disjoint [OF wr_same [OF assms(1)], of off' cs] wr_same [OF assms(2)] by auto

end

lemma f_holds_fread:
  assumes "f_holds f off bs"
  shows "fread f off (length bs) = bs"
proof (rule nth_equalityI)
  show "length (fread f off (length bs)) = length bs"
    using assms by (auto simp: fread_def f_holds_def)
  fix i assume "i < length (fread f off (length bs))"
  then show "fread f off (length bs) ! i = bs ! i"
    using assms by (simp add: fread_def f_holds_def)
qed

lemma fread_full_holds:
  assumes "length (fread f off n) = n" "0 < n"
  shows "f_holds f off (fread f off n)"
proof -
  have "n \<le> f_size f - off" using assms(1) by (simp add: fread_def)
  with assms(2) show ?thesis by (auto simp: f_holds_def fread_def)
qed

lemma fwrite_holds: "bs \<noteq> [] \<Longrightarrow> f_holds (fwrite f off bs) off bs"
  by (auto simp: f_holds_def fwrite_def)

lemma fwrite_holds_disjoint:
  assumes "f_holds f off' cs" "off + length bs \<le> off' \<or> off' + length cs \<le> off"
  shows "f_holds (fwrite f off bs) off' cs"
  using assms by (auto simp: f_holds_def fwrite_def)

lemma f_holds_unique:
  "f_holds f off bs \<Longrightarrow> f_holds f off cs \<Longrightarrow> length bs = length cs \<Longrightarrow> bs = cs"
  by (rule nth_equalityI) (auto simp: f_holds_def)

interpretation disk: random_access fread fwrite f_holds
  by unfold_locales
     (auto intro: f_holds_fread fread_full_holds fwrite_holds fwrite_holds_disjoint
        dest: f_holds_unique)

lemma f_holds_append:
  "f_holds f off (xs @ ys) \<longleftrightarrow> f_holds f off xs \<and> f_holds f (off + length xs) ys"
proof
  assume h: "f_holds f off (xs @ ys)"
  have "f_bytes f (off + length xs + i) = ys ! i" if "i < length ys" for i
    using h that unfolding f_holds_def
    by (metis (no_types, lifting) add.assoc length_append nat_add_left_cancel_less nth_append_length_plus)
  with h show "f_holds f off xs \<and> f_holds f (off + length xs) ys"
    by (auto simp: f_holds_def nth_append)
next
  assume "f_holds f off xs \<and> f_holds f (off + length xs) ys"
  then show "f_holds f off (xs @ ys)"
    by (auto simp: f_holds_def nth_append add.assoc)
       (metis add.assoc add_diff_inverse_nat add_less_cancel_left)
qed

lemma length_fread_le: "length (fread f off n) \<le> n"
  by (simp add: fread_def)

lemma fread_take: "take k (fread f off n) = fread f off (min k n)"
  by (simp add: fread_def take_map min.assoc [symmetric] take_upt min_def)

section \<open>Open file descriptions and the schedule\<close>

datatype flock_mode = LOCK_UN | LOCK_SH | LOCK_EX

record ofd =
  of_path :: string
  of_rd :: bool
  of_wr :: bool
  of_sync :: bool
  of_lock :: flock_mode

datatype sys_result = SysOk | SysFail | SysShort nat

text \<open>\<open>os_pos\<close> holds the file position of every descriptor. Descriptors are numbered by their
  place in \<open>os_fds\<close> and a closed one is not reused, so a number names one open file
  description for good.\<close>

record os =
  os_files :: "string \<Rightarrow> ofile option"
  os_fds :: "ofd option list"
  os_pos :: "nat \<Rightarrow> nat"
  os_sched :: "sys_result list"

definition sys_next :: "os \<Rightarrow> sys_result \<times> os" where
  "sys_next os = (case os_sched os of [] \<Rightarrow> (SysOk, os) | r # rs \<Rightarrow> (r, os\<lparr>os_sched := rs\<rparr>))"

definition fd_get :: "os \<Rightarrow> int \<Rightarrow> ofd option" where
  "fd_get os fd = (if 0 \<le> fd \<and> nat fd < length (os_fds os) then os_fds os ! nat fd else None)"

definition fd_put :: "os \<Rightarrow> int \<Rightarrow> ofd option \<Rightarrow> os" where
  "fd_put os fd x = os\<lparr>os_fds := (os_fds os)[nat fd := x]\<rparr>"

section \<open>System calls\<close>

text \<open>\<open>calloc\<close> and \<open>pthread_mutex_init\<close>: does the call succeed? Whether \<open>calloc\<close> of zero bytes gives a pointer is left to the
  implementation; the schedule has both answers.\<close>

definition c_alloc :: "os \<Rightarrow> bool \<times> os" where
  "c_alloc os = (let (r, os1) = sys_next os in (r \<noteq> SysFail, os1))"

definition new_fd :: "os \<Rightarrow> string \<Rightarrow> ofile \<Rightarrow> bool \<Rightarrow> bool \<Rightarrow> int \<times> os" where
  "new_fd os path f wr sync = (int (length (os_fds os)),
     os\<lparr>os_files := (os_files os)(path \<mapsto> f),
        os_fds := os_fds os @ [Some \<lparr>of_path = path, of_rd = True, of_wr = wr, of_sync = sync,
           of_lock = LOCK_UN\<rparr>],
        os_pos := (os_pos os)(length (os_fds os) := 0)\<rparr>)"

definition c_open :: "os \<Rightarrow> string \<Rightarrow> bool \<Rightarrow> bool \<Rightarrow> bool \<Rightarrow> bool \<Rightarrow> int \<times> os" where
  "c_open os path wr creat trunc sync =
    (let (r, os1) = sys_next os in
     if r = SysFail then (- 1, os1)
     else case os_files os1 path of
        None \<Rightarrow> if creat then new_fd os1 path empty_file wr sync else (- 1, os1)
      | Some f \<Rightarrow> new_fd os1 path (if trunc then empty_file else f) wr sync)"

definition c_close :: "os \<Rightarrow> int \<Rightarrow> os" where
  "c_close os fd = fd_put os fd None"

definition c_lseek :: "os \<Rightarrow> int \<Rightarrow> int \<Rightarrow> int \<times> os" where
  "c_lseek os fd off =
    (let (r, os1) = sys_next os in
     if fd_get os1 fd = None \<or> r = SysFail \<or> off < 0 then (- 1, os1)
     else (off, os1\<lparr>os_pos := (os_pos os1)(nat fd := nat off)\<rparr>))"

text \<open>\<open>read\<close> returns the count and the bytes transferred into the start of the buffer.\<close>

definition c_read :: "os \<Rightarrow> int \<Rightarrow> nat \<Rightarrow> int \<times> u8 list \<times> os" where
  "c_read os fd n =
    (let (r, os1) = sys_next os in
     case fd_get os1 fd of
       None \<Rightarrow> (- 1, [], os1)
     | Some x \<Rightarrow> case os_files os1 (of_path x) of
         None \<Rightarrow> (- 1, [], os1)
       | Some f \<Rightarrow> if r = SysFail \<or> \<not> of_rd x then (- 1, [], os1)
           else let pos = os_pos os1 (nat fd);
                    bs = fread f pos (case r of SysShort k \<Rightarrow> min k n | _ \<Rightarrow> n) in
             (int (length bs), bs, os1\<lparr>os_pos := (os_pos os1)(nat fd := pos + length bs)\<rparr>))"

definition c_write :: "os \<Rightarrow> int \<Rightarrow> u8 list \<Rightarrow> int \<times> os" where
  "c_write os fd bs =
    (let (r, os1) = sys_next os in
     case fd_get os1 fd of
       None \<Rightarrow> (- 1, os1)
     | Some x \<Rightarrow> case os_files os1 (of_path x) of
         None \<Rightarrow> (- 1, os1)
       | Some f \<Rightarrow> if r = SysFail \<or> \<not> of_wr x then (- 1, os1)
           else let pos = os_pos os1 (nat fd);
                    cs = (case r of SysShort k \<Rightarrow> take k bs | _ \<Rightarrow> bs);
                    f1 = (fwrite f pos cs)\<lparr>f_dirty := f_dirty f \<or> (cs \<noteq> [] \<and> \<not> of_sync x)\<rparr>
             in (int (length cs), os1\<lparr>os_files := (os_files os1)(of_path x \<mapsto> f1),
                   os_pos := (os_pos os1)(nat fd := pos + length cs)\<rparr>))"

definition c_fsync :: "os \<Rightarrow> int \<Rightarrow> int \<times> os" where
  "c_fsync os fd =
    (let (r, os1) = sys_next os in
     case fd_get os1 fd of
       None \<Rightarrow> (- 1, os1)
     | Some x \<Rightarrow> case os_files os1 (of_path x) of
         None \<Rightarrow> (- 1, os1)
       | Some f \<Rightarrow> if r \<noteq> SysOk then (- 1, os1)
           else (0, os1\<lparr>os_files := (os_files os1)(of_path x \<mapsto> f\<lparr>f_dirty := False\<rparr>)\<rparr>))"

text \<open>\<open>flock\<close> waits while another open file description of the same file holds a conflicting
  lock; a call that has to wait does not return here: \<open>None\<close>.\<close>

definition lock_conflict :: "flock_mode \<Rightarrow> flock_mode \<Rightarrow> bool" where
  "lock_conflict m h \<longleftrightarrow> (m = LOCK_EX \<and> h \<noteq> LOCK_UN) \<or> (m = LOCK_SH \<and> h = LOCK_EX)"

definition would_block :: "os \<Rightarrow> int \<Rightarrow> ofd \<Rightarrow> flock_mode \<Rightarrow> bool" where
  "would_block os fd x m \<longleftrightarrow> list_ex (\<lambda>i. case os_fds os ! i of None \<Rightarrow> False
      | Some y \<Rightarrow> i \<noteq> nat fd \<and> of_path y = of_path x \<and> lock_conflict m (of_lock y))
      [0..<length (os_fds os)]"

text \<open>Taking a lock may fail; giving one back through an open descriptor does not.\<close>

definition c_flock :: "os \<Rightarrow> int \<Rightarrow> flock_mode \<Rightarrow> (int \<times> os) option" where
  "c_flock os fd m =
    (let (r, os1) = sys_next os in
     case fd_get os1 fd of
       None \<Rightarrow> Some (- 1, os1)
     | Some x \<Rightarrow> if m = LOCK_UN then Some (0, fd_put os1 fd (Some (x\<lparr>of_lock := LOCK_UN\<rparr>)))
         else if r = SysFail then Some (- 1, os1)
         else if would_block os1 fd x m then None
         else Some (0, fd_put os1 fd (Some (x\<lparr>of_lock := m\<rparr>))))"

section \<open>What the calls do\<close>

text \<open>\<open>fd_on os fd x f\<close>: descriptor \<open>fd\<close> is open as \<open>x\<close> on a file with contents \<open>f\<close>. The
  calls are described by their effect on files and descriptors; \<open>quiet\<close> says that no fault is
  scheduled.\<close>

definition fd_on :: "os \<Rightarrow> int \<Rightarrow> ofd \<Rightarrow> ofile \<Rightarrow> bool" where
  "fd_on os fd x f \<longleftrightarrow> fd_get os fd = Some x \<and> os_files os (of_path x) = Some f"

definition quiet :: "os \<Rightarrow> bool" where
  "quiet os \<longleftrightarrow> os_sched os = []"

text \<open>Only positions and the schedule differ.\<close>

definition os_same :: "os \<Rightarrow> os \<Rightarrow> bool" where
  "os_same os os' \<longleftrightarrow> os_files os' = os_files os \<and> os_fds os' = os_fds os \<and> (quiet os \<longrightarrow> quiet os')"

lemma os_same_refl [simp]: "os_same os os"
  by (simp add: os_same_def)

lemma os_same_trans: "os_same a b \<Longrightarrow> os_same b c \<Longrightarrow> os_same a c"
  by (simp add: os_same_def)

lemma fd_get_same: "os_fds os' = os_fds os \<Longrightarrow> fd_get os' fd = fd_get os fd"
  by (simp add: fd_get_def)

lemma fd_on_same: "os_same os os' \<Longrightarrow> fd_on os' fd x f = fd_on os fd x f"
  by (simp add: os_same_def fd_on_def fd_get_same [of os' os])

lemma fd_on_sameD:
  "os_same os os' \<Longrightarrow> fd_on os fd x f \<Longrightarrow> fd_get os' fd = Some x \<and> os_files os' (of_path x) = Some f"
  using fd_on_same [of os os'] by (simp add: fd_on_def)

lemma fd_on_nonneg: "fd_on os fd x f \<Longrightarrow> 0 \<le> fd"
  by (auto simp: fd_on_def fd_get_def split: if_splits)

lemma fd_get_nonneg: "fd_get os fd = Some x \<Longrightarrow> 0 \<le> fd \<and> nat fd < length (os_fds os)"
  by (auto simp: fd_get_def split: if_splits)

lemma sys_next_same: "sys_next os = (r, os') \<Longrightarrow> os_same os os' \<and> os_pos os' = os_pos os \<and> (quiet os \<longrightarrow> r = SysOk)"
  by (auto simp: sys_next_def os_same_def quiet_def split: list.splits)

lemma c_alloc_same: "c_alloc os = (r, os') \<Longrightarrow> os_same os os' \<and> (quiet os \<longrightarrow> r)"
  by (auto simp: c_alloc_def dest: sys_next_same split: prod.splits)

lemma c_lseek_spec:
  assumes "c_lseek os fd off = (r, os')" "fd_on os fd x f" "0 \<le> off"
  shows "os_same os os' \<and> (r = off \<longrightarrow> os_pos os' (nat fd) = nat off) \<and> (quiet os \<longrightarrow> r = off)"
proof -
  obtain sr os1 where sn: "sys_next os = (sr, os1)" by fastforce
  from sys_next_same [OF this] have 1: "os_same os os1" "quiet os \<longrightarrow> sr = SysOk" by simp_all
  from fd_on_sameD [OF 1(1)] assms(2) have "fd_get os1 fd = Some x" by blast
  with assms(1,3) 1 show ?thesis
    unfolding c_lseek_def sn by (auto simp: os_same_def quiet_def split: if_splits)
qed

lemma c_read_spec:
  assumes "c_read os fd n = (r, bs, os')" "fd_on os fd x f" "of_rd x"
  shows "os_same os os' \<and> length bs \<le> n \<and> (\<exists>m \<le> n. bs = fread f (os_pos os (nat fd)) m) \<and>
    (r = int n \<longrightarrow> length bs = n \<and> bs = fread f (os_pos os (nat fd)) n) \<and>
    (quiet os \<longrightarrow> bs = fread f (os_pos os (nat fd)) n \<and> r = int (length bs))"
proof -
  obtain sr os1 where sn: "sys_next os = (sr, os1)" by fastforce
  from sys_next_same [OF this] have 1: "os_same os os1" "os_pos os1 = os_pos os" "quiet os \<longrightarrow> sr = SysOk"
    by simp_all
  from fd_on_sameD [OF 1(1)] assms(2) have on: "fd_get os1 fd = Some x" "os_files os1 (of_path x) = Some f"
    by blast+
  define pos where "pos = os_pos os (nat fd)"
  have full: "bs = fread f pos n" if "bs = fread f pos (min k n)" "length bs = n" for k
    using that length_fread_le [of f pos "min k n"] by (simp add: min_def split: if_splits)
  have zero: "fread f (os_pos os (nat fd)) 0 = []" by (simp add: fread_def)
  have part: "\<exists>m \<le> n. fread f (os_pos os (nat fd)) (min k n) = fread f (os_pos os (nat fd)) m" for k
    using min.cobounded2 by blast
  show ?thesis
    using assms(1,3) 1 full zero part unfolding c_read_def sn
    by (auto simp: on pos_def os_same_def quiet_def Let_def length_fread_le le_trans [OF length_fread_le]
        split: if_splits sys_result.splits)
qed

text \<open>A write puts some prefix of the data at the current position; the whole of it when the call
  reports so.\<close>

lemma c_write_spec:
  assumes "c_write os fd bs = (r, os')" "fd_on os fd x f"
  obtains k f' where "k \<le> length bs" "os_files os' = (os_files os)(of_path x \<mapsto> f')"
    "f' = (fwrite f (os_pos os (nat fd)) (take k bs))\<lparr>f_dirty := f_dirty f'\<rparr>"
    "os_fds os' = os_fds os" "quiet os \<longrightarrow> quiet os'"
    "r = int (length bs) \<longrightarrow> k = length bs" "quiet os \<and> of_wr x \<longrightarrow> r = int (length bs)"
    "\<not> of_wr x \<longrightarrow> k = 0"
proof -
  obtain sr os1 where sn: "sys_next os = (sr, os1)" by fastforce
  from sys_next_same [OF this] have 1: "os_same os os1" "os_pos os1 = os_pos os" "quiet os \<longrightarrow> sr = SysOk"
    by simp_all
  from fd_on_sameD [OF 1(1)] assms(2) have on: "fd_get os1 fd = Some x" "os_files os1 (of_path x) = Some f"
    by blast+
  show thesis
  proof (cases "sr = SysFail \<or> \<not> of_wr x")
    case True
    then have "r = - 1" "os' = os1" using assms(1) by (auto simp: c_write_def sn on)
    then show thesis
      using that [of 0 f] 1 on True by (auto simp: os_same_def quiet_def fwrite_def fun_upd_idem)
  next
    case False
    define k where "k = (case sr of SysShort k \<Rightarrow> min k (length bs) | _ \<Rightarrow> length bs)"
    have cs: "(case sr of SysShort k \<Rightarrow> take k bs | _ \<Rightarrow> bs) = take k bs"
      by (simp add: k_def min_def split: sys_result.splits)
    let ?f = "(fwrite f (os_pos os (nat fd)) (take k bs))
      \<lparr>f_dirty := f_dirty f \<or> (take k bs \<noteq> [] \<and> \<not> of_sync x)\<rparr>"
    have eq: "r = int (length (take k bs))" "os' = os1\<lparr>os_files := (os_files os1)(of_path x \<mapsto> ?f),
        os_pos := (os_pos os1)(nat fd := os_pos os (nat fd) + length (take k bs))\<rparr>"
      using assms(1) False unfolding c_write_def sn by (auto simp: on Let_def cs 1(2))
    have k: "k \<le> length bs" by (simp add: k_def split: sys_result.splits)
    show thesis
      using that [of k ?f] eq k 1 False
      by (auto simp: os_same_def quiet_def k_def split: sys_result.splits)
  qed
qed

lemma c_fsync_spec:
  assumes "c_fsync os fd = (r, os')" "fd_on os fd x f"
  obtains f' where "f' = f\<lparr>f_dirty := f_dirty f'\<rparr>" "os_files os' = (os_files os)(of_path x \<mapsto> f')"
    "os_fds os' = os_fds os" "quiet os \<longrightarrow> quiet os'" "r = 0 \<longrightarrow> \<not> f_dirty f'" "quiet os \<longrightarrow> r = 0"
proof -
  obtain sr os1 where sn: "sys_next os = (sr, os1)" by fastforce
  from sys_next_same [OF this] have 1: "os_same os os1" "quiet os \<longrightarrow> sr = SysOk" by simp_all
  from fd_on_sameD [OF 1(1)] assms(2) have on: "fd_get os1 fd = Some x" "os_files os1 (of_path x) = Some f"
    by blast+
  have on': "os_files os (of_path x) = Some f" using assms(2) by (simp add: fd_on_def)
  show thesis
  proof (cases "sr = SysOk")
    case True
    then show thesis
      using that [of "f\<lparr>f_dirty := False\<rparr>"] assms(1) 1
      by (auto simp: c_fsync_def sn on os_same_def quiet_def)
  next
    case False
    then show thesis
      using that [of f] assms(1) 1 on'
      by (auto simp: c_fsync_def sn on os_same_def quiet_def fun_upd_idem)
  qed
qed

text \<open>Locks: \<open>unlocked os\<close> says that no open file description holds an advisory lock.\<close>

definition unlocked :: "os \<Rightarrow> bool" where
  "unlocked os \<longleftrightarrow> (\<forall>y. Some y \<in> set (os_fds os) \<longrightarrow> of_lock y = LOCK_UN)"

lemma fd_get_put: "fd_get os fd = Some x \<Longrightarrow> fd_get (fd_put os fd y) fd = y"
  by (auto simp: fd_get_def fd_put_def split: if_splits)

lemma unlocked_no_block:
  assumes "unlocked os"
  shows "\<not> would_block os fd x m"
proof
  assume "would_block os fd x m"
  then obtain i where i: "i < length (os_fds os)" "case os_fds os ! i of None \<Rightarrow> False
      | Some y \<Rightarrow> i \<noteq> nat fd \<and> of_path y = of_path x \<and> lock_conflict m (of_lock y)"
    by (auto simp: would_block_def list_ex_iff)
  then obtain y where "i < length (os_fds os)" "os_fds os ! i = Some y" "lock_conflict m (of_lock y)"
    by (cases "os_fds os ! i") auto
  moreover from this have "of_lock y = LOCK_UN"
    using assms nth_mem [of i "os_fds os"] by (simp add: unlocked_def)
  ultimately show False by (simp add: lock_conflict_def)
qed

lemma fd_on_unlocked:
  assumes "fd_on os fd x f" "unlocked os"
  shows "of_lock x = LOCK_UN"
proof -
  have "nat fd < length (os_fds os)" "os_fds os ! nat fd = Some x"
    using assms(1) by (auto simp: fd_on_def fd_get_def split: if_splits)
  then show ?thesis using assms(2) nth_mem [of "nat fd" "os_fds os"] by (simp add: unlocked_def)
qed

lemma c_flock_lock:
  assumes "fd_on os fd x f" "unlocked os" "m \<noteq> LOCK_UN"
  obtains os' where "c_flock os fd m = Some (- 1, os')" "os_same os os'" "\<not> quiet os"
    | os' where "c_flock os fd m = Some (0, os')" "os_files os' = os_files os"
      "os_fds os' = (os_fds os)[nat fd := Some (x\<lparr>of_lock := m\<rparr>)]" "quiet os \<longrightarrow> quiet os'"
      "fd_on os' fd (x\<lparr>of_lock := m\<rparr>) f"
proof -
  obtain sr os1 where sn: "sys_next os = (sr, os1)" by fastforce
  from sys_next_same [OF this] have 1: "os_same os os1" "quiet os \<longrightarrow> sr = SysOk" by simp_all
  then have "unlocked os1" using assms(2) by (simp add: unlocked_def os_same_def)
  then have nb: "\<not> would_block os1 fd x m" by (rule unlocked_no_block)
  from fd_on_sameD [OF 1(1)] assms(1) have on: "fd_get os1 fd = Some x" "os_files os1 (of_path x) = Some f"
    by blast+
  show thesis
  proof (cases "sr = SysFail")
    case True
    then show thesis using that(1) [of os1] 1 assms(3) by (auto simp: c_flock_def sn on)
  next
    case False
    then show thesis
      using that(2) [of "fd_put os1 fd (Some (x\<lparr>of_lock := m\<rparr>))"] 1 assms(3) nb on
      by (auto simp: c_flock_def sn os_same_def fd_put_def quiet_def fd_on_def fd_get_def split: if_splits)
  qed
qed

lemma c_flock_unlock:
  assumes "fd_on os fd x f"
  obtains os' where "c_flock os fd LOCK_UN = Some (0, os')" "os_files os' = os_files os"
    "os_fds os' = (os_fds os)[nat fd := Some (x\<lparr>of_lock := LOCK_UN\<rparr>)]" "quiet os \<longrightarrow> quiet os'"
proof -
  obtain sr os1 where sn: "sys_next os = (sr, os1)" by fastforce
  from sys_next_same [OF this] have 1: "os_same os os1" by simp
  from fd_on_sameD [OF 1] assms have on: "fd_get os1 fd = Some x" by blast
  show thesis
    using that [of "fd_put os1 fd (Some (x\<lparr>of_lock := LOCK_UN\<rparr>))"] 1
    by (auto simp: c_flock_def sn on os_same_def fd_put_def quiet_def)
qed

end
