(* ===== verification/Kes_Bitmap.thy ===== *)
theory Kes_Bitmap
  imports Kes_Os
begin

text \<open>
  The block bitmap (\<open>src/kes_bitmap.c\<close>, \<open>include/kes/kes_bitmap.h\<close>). A pointer
  \<open>kes_bitmap_t *\<close> is an \<open>option\<close>; an access outside the data buffer makes the whole call
  \<open>None\<close>, and so does a search loop that never ends. \<open>kfl_crc32c\<close> belongs to another
  library and is the argument \<open>crc\<close>.
\<close>

section \<open>Definitions\<close>

record kes_bitmap =
  bm_data :: "u8 list"
  bm_total_bits :: u64
  bm_total_bytes :: u64
  bm_free_bits :: u64
  bm_search_hint :: u64

definition BIT_BYTE_INDEX :: "u64 \<Rightarrow> u64" where
  "BIT_BYTE_INDEX b = b div 8"

definition BIT_OFFSET :: "u64 \<Rightarrow> u64" where
  "BIT_OFFSET b = b mod 8"

text \<open>\<open>1U << off\<close> is computed in \<open>unsigned int\<close> and stored in a \<open>uint8_t\<close>.\<close>

definition BIT_MASK :: "u64 \<Rightarrow> u8" where
  "BIT_MASK b = ucast (push_bit (unat (BIT_OFFSET b)) (1 :: u32))"

definition popcount_table :: "nat list" where
  "popcount_table =
    [0,1,1,2,1,2,2,3,1,2,2,3,2,3,3,4,1,2,2,3,2,3,3,4,2,3,3,4,3,4,4,5,
     1,2,2,3,2,3,3,4,2,3,3,4,3,4,4,5,2,3,3,4,3,4,4,5,3,4,4,5,4,5,5,6,
     1,2,2,3,2,3,3,4,2,3,3,4,3,4,4,5,2,3,3,4,3,4,4,5,3,4,4,5,4,5,5,6,
     2,3,3,4,3,4,4,5,3,4,4,5,4,5,5,6,3,4,4,5,4,5,5,6,4,5,5,6,5,6,6,7,
     1,2,2,3,2,3,3,4,2,3,3,4,3,4,4,5,2,3,3,4,3,4,4,5,3,4,4,5,4,5,5,6,
     2,3,3,4,3,4,4,5,3,4,4,5,4,5,5,6,3,4,4,5,4,5,5,6,4,5,5,6,5,6,6,7,
     2,3,3,4,3,4,4,5,3,4,4,5,4,5,5,6,3,4,4,5,4,5,5,6,4,5,5,6,5,6,6,7,
     3,4,4,5,4,5,5,6,4,5,5,6,5,6,6,7,4,5,5,6,5,6,6,7,5,6,6,7,6,7,7,8]"

definition popcount_byte :: "u8 \<Rightarrow> nat" where
  "popcount_byte byte = popcount_table ! unat byte"

text \<open>The loop adds the population of the first \<open>total_bytes\<close> bytes in a \<open>uint64_t\<close>.\<close>

fun count_used_loop :: "u8 list \<Rightarrow> nat \<Rightarrow> nat \<Rightarrow> u64 \<Rightarrow> u64 option" where
  "count_used_loop xs i 0 acc = Some acc"
| "count_used_loop xs i (Suc n) acc = do {
     x \<leftarrow> byte_at xs i;
     count_used_loop xs (Suc i) n (acc + of_nat (popcount_byte x)) }"

definition count_used_bits :: "kes_bitmap \<Rightarrow> u64 option" where
  "count_used_bits b = count_used_loop (bm_data b) 0 (unat (bm_total_bytes b)) 0"

text \<open>\<open>outp\<close> tells whether the caller's result pointer is non-NULL.\<close>

definition kes_bitmap_create :: "os \<Rightarrow> u64 \<Rightarrow> bool \<Rightarrow> int \<times> kes_bitmap option \<times> os" where
  "kes_bitmap_create os total_blocks outp =
    (if \<not> outp \<or> total_blocks = 0 then (KES_ERROR_INVALID, None, os)
     else let (ok1, os1) = c_alloc os in
       if \<not> ok1 then (KES_ERROR_NOMEM, None, os1)
       else let nbytes = (total_blocks + 8 - 1) div 8; (ok2, os2) = c_alloc os1 in
         if \<not> ok2 then (KES_ERROR_NOMEM, None, os2)
         else (KES_SUCCESS, Some \<lparr>bm_data = replicate (unat nbytes) 0, bm_total_bits = total_blocks,
                 bm_total_bytes = nbytes, bm_free_bits = total_blocks, bm_search_hint = 0\<rparr>, os2))"

definition kes_bitmap_destroy :: "kes_bitmap option \<Rightarrow> kes_bitmap option" where
  "kes_bitmap_destroy bm = None"

definition kes_bitmap_set :: "kes_bitmap option \<Rightarrow> u64 \<Rightarrow> (int \<times> kes_bitmap option) option" where
  "kes_bitmap_set bm bit_index = (case bm of None \<Rightarrow> Some (KES_ERROR_INVALID, None) | Some b \<Rightarrow>
     if bit_index \<ge> bm_total_bits b then Some (KES_ERROR_INVALID, Some b)
     else do {
       let byte_idx = unat (BIT_BYTE_INDEX bit_index);
       let bit_mask = BIT_MASK bit_index;
       x \<leftarrow> byte_at (bm_data b) byte_idx;
       if x AND bit_mask \<noteq> 0 then Some (KES_SUCCESS, Some b)
       else do {
         d \<leftarrow> byte_put (bm_data b) byte_idx (x OR bit_mask);
         Some (KES_SUCCESS, Some (b\<lparr>bm_data := d, bm_free_bits := bm_free_bits b - 1\<rparr>)) } })"

definition kes_bitmap_clear :: "kes_bitmap option \<Rightarrow> u64 \<Rightarrow> (int \<times> kes_bitmap option) option" where
  "kes_bitmap_clear bm bit_index = (case bm of None \<Rightarrow> Some (KES_ERROR_INVALID, None) | Some b \<Rightarrow>
     if bit_index \<ge> bm_total_bits b then Some (KES_ERROR_INVALID, Some b)
     else do {
       let byte_idx = unat (BIT_BYTE_INDEX bit_index);
       let bit_mask = BIT_MASK bit_index;
       x \<leftarrow> byte_at (bm_data b) byte_idx;
       if \<not> (x AND bit_mask \<noteq> 0) then Some (KES_SUCCESS, Some b)
       else do {
         d \<leftarrow> byte_put (bm_data b) byte_idx (x AND NOT bit_mask);
         Some (KES_SUCCESS, Some (b\<lparr>bm_data := d, bm_free_bits := bm_free_bits b + 1\<rparr>)) } })"

definition kes_bitmap_test :: "kes_bitmap option \<Rightarrow> u64 \<Rightarrow> bool option" where
  "kes_bitmap_test bm bit_index = (case bm of None \<Rightarrow> Some False | Some b \<Rightarrow>
     if bit_index \<ge> bm_total_bits b then Some False
     else do {
       x \<leftarrow> byte_at (bm_data b) (unat (BIT_BYTE_INDEX bit_index));
       Some (x AND BIT_MASK bit_index \<noteq> 0) })"

text \<open>The loop of \<open>kes_bitmap_set_range\<close> and \<open>kes_bitmap_clear_range\<close>: \<open>k\<close> iterations are
  left, \<open>i\<close> is the counter; \<open>start_bit + i\<close> is computed in \<open>uint64_t\<close>.\<close>

fun set_range_loop :: "kes_bitmap option \<Rightarrow> u64 \<Rightarrow> u32 \<Rightarrow> nat \<Rightarrow> (int \<times> kes_bitmap option) option" where
  "set_range_loop bm start_bit i 0 = Some (KES_SUCCESS, bm)"
| "set_range_loop bm start_bit i (Suc k) = do {
     (result, bm1) \<leftarrow> kes_bitmap_set bm (start_bit + ucast i);
     if result \<noteq> KES_SUCCESS then Some (result, bm1)
     else set_range_loop bm1 start_bit (i + 1) k }"

fun clear_range_loop :: "kes_bitmap option \<Rightarrow> u64 \<Rightarrow> u32 \<Rightarrow> nat \<Rightarrow> (int \<times> kes_bitmap option) option" where
  "clear_range_loop bm start_bit i 0 = Some (KES_SUCCESS, bm)"
| "clear_range_loop bm start_bit i (Suc k) = do {
     (result, bm1) \<leftarrow> kes_bitmap_clear bm (start_bit + ucast i);
     if result \<noteq> KES_SUCCESS then Some (result, bm1)
     else clear_range_loop bm1 start_bit (i + 1) k }"

definition kes_bitmap_set_range ::
    "kes_bitmap option \<Rightarrow> u64 \<Rightarrow> u32 \<Rightarrow> (int \<times> kes_bitmap option) option" where
  "kes_bitmap_set_range bm start_bit bit_count = (case bm of
      None \<Rightarrow> Some (KES_ERROR_INVALID, None)
    | Some b \<Rightarrow>
       if start_bit \<ge> bm_total_bits b \<or> start_bit + ucast bit_count > bm_total_bits b
       then Some (KES_ERROR_INVALID, Some b)
       else set_range_loop bm start_bit 0 (unat bit_count))"

definition kes_bitmap_clear_range ::
    "kes_bitmap option \<Rightarrow> u64 \<Rightarrow> u32 \<Rightarrow> (int \<times> kes_bitmap option) option" where
  "kes_bitmap_clear_range bm start_bit bit_count = (case bm of
      None \<Rightarrow> Some (KES_ERROR_INVALID, None)
    | Some b \<Rightarrow>
       if start_bit \<ge> bm_total_bits b \<or> start_bit + ucast bit_count > bm_total_bits b
       then Some (KES_ERROR_INVALID, Some b)
       else clear_range_loop bm start_bit 0 (unat bit_count))"

text \<open>The inner loop of the search: are the \<open>k\<close> bits from \<open>start + i\<close> on free?\<close>

fun run_free_loop :: "kes_bitmap option \<Rightarrow> u64 \<Rightarrow> u32 \<Rightarrow> nat \<Rightarrow> bool option" where
  "run_free_loop bm start i 0 = Some True"
| "run_free_loop bm start i (Suc k) = do {
     t \<leftarrow> kes_bitmap_test bm (start + ucast i);
     if t then Some False else run_free_loop bm start (i + 1) k }"

text \<open>The two outer loops. \<open>Some None\<close> is leaving the loop without a hit; \<open>start + 1\<close> wraps,
  so that a loop whose bound is the largest \<open>uint64_t\<close> would not end.\<close>

partial_function (option) scan_up :: "kes_bitmap option \<Rightarrow> u32 \<Rightarrow> u64 \<Rightarrow> u64 \<Rightarrow> u64 option option" where
  "scan_up bm bit_count limit start =
    (if start \<le> limit then do {
       found \<leftarrow> run_free_loop bm start 0 (unat bit_count);
       if found then Some (Some start) else scan_up bm bit_count limit (start + 1) }
     else Some None)"

partial_function (option) scan_wrap ::
    "kes_bitmap option \<Rightarrow> u32 \<Rightarrow> u64 \<Rightarrow> u64 \<Rightarrow> u64 \<Rightarrow> u64 option option" where
  "scan_wrap bm bit_count search_start limit start =
    (if start < search_start \<and> start \<le> limit then do {
       found \<leftarrow> run_free_loop bm start 0 (unat bit_count);
       if found then Some (Some start) else scan_wrap bm bit_count search_start limit (start + 1) }
     else Some None)"

text \<open>Result: the code, the value stored through \<open>found_start\<close> (if any) and the bitmap.\<close>

definition kes_bitmap_find_free ::
    "kes_bitmap option \<Rightarrow> u32 \<Rightarrow> u64 \<Rightarrow> bool \<Rightarrow> (int \<times> u64 option \<times> kes_bitmap option) option" where
  "kes_bitmap_find_free bm bit_count start_hint outp = (case bm of
      None \<Rightarrow> Some (KES_ERROR_INVALID, None, None)
    | Some b \<Rightarrow>
      if bit_count = 0 \<or> \<not> outp then Some (KES_ERROR_INVALID, None, Some b)
      else if bm_free_bits b < ucast bit_count then Some (KES_ERROR_NOSPACE, None, Some b)
      else do {
        let search_start = (if start_hint \<ge> bm_total_bits b then 0 else start_hint);
        let limit = bm_total_bits b - ucast bit_count;
        hit \<leftarrow> scan_up bm bit_count limit search_start;
        case hit of
          Some start \<Rightarrow>
            Some (KES_SUCCESS, Some start, Some (b\<lparr>bm_search_hint := start + ucast bit_count\<rparr>))
        | None \<Rightarrow>
            if search_start > 0 then do {
              hit2 \<leftarrow> scan_wrap bm bit_count search_start limit 0;
              case hit2 of
                Some start \<Rightarrow>
                  Some (KES_SUCCESS, Some start, Some (b\<lparr>bm_search_hint := start + ucast bit_count\<rparr>))
              | None \<Rightarrow> Some (KES_ERROR_NOSPACE, None, Some b) }
            else Some (KES_ERROR_NOSPACE, None, Some b) })"

text \<open>Statistics: total, free and used bits, where the caller passed a place for them.\<close>

definition kes_bitmap_get_stats ::
    "kes_bitmap option \<Rightarrow> bool \<Rightarrow> bool \<Rightarrow> bool \<Rightarrow> int \<times> u64 option \<times> u64 option \<times> u64 option" where
  "kes_bitmap_get_stats bm p_total p_free p_used = (case bm of
      None \<Rightarrow> (KES_ERROR_INVALID, None, None, None)
    | Some b \<Rightarrow> (KES_SUCCESS,
        if p_total then Some (bm_total_bits b) else None,
        if p_free then Some (bm_free_bits b) else None,
        if p_used then Some (bm_total_bits b - bm_free_bits b) else None))"

definition kes_bitmap_load ::
    "kes_bitmap option \<Rightarrow> os \<Rightarrow> int \<Rightarrow> int \<Rightarrow> (int \<times> kes_bitmap option \<times> os) option" where
  "kes_bitmap_load bm os fd offset = (case bm of
      None \<Rightarrow> Some (KES_ERROR_INVALID, None, os)
    | Some b \<Rightarrow>
      if fd < 0 then Some (KES_ERROR_INVALID, Some b, os)
      else let (pos, os1) = c_lseek os fd offset in
      if pos \<noteq> offset then Some (KES_ERROR_IO, Some b, os1)
      else let (bytes_read, bs, os2) = c_read os1 fd (unat (bm_total_bytes b)) in
      if length bs > length (bm_data b) then None
      else let b1 = b\<lparr>bm_data := overlay bs (bm_data b)\<rparr> in
      if bytes_read \<noteq> sint (bm_total_bytes b) then Some (KES_ERROR_IO, Some b1, os2)
      else do {
        used_bits \<leftarrow> count_used_bits b1;
        Some (KES_SUCCESS, Some (b1\<lparr>bm_free_bits := bm_total_bits b1 - used_bits\<rparr>), os2) })"

definition kes_bitmap_save ::
    "kes_bitmap option \<Rightarrow> os \<Rightarrow> int \<Rightarrow> int \<Rightarrow> (int \<times> os) option" where
  "kes_bitmap_save bm os fd offset = (case bm of
      None \<Rightarrow> Some (KES_ERROR_INVALID, os)
    | Some b \<Rightarrow>
      if fd < 0 then Some (KES_ERROR_INVALID, os)
      else let (pos, os1) = c_lseek os fd offset in
      if pos \<noteq> offset then Some (KES_ERROR_IO, os1)
      else if unat (bm_total_bytes b) > length (bm_data b) then None
      else let (bytes_written, os2) = c_write os1 fd (take (unat (bm_total_bytes b)) (bm_data b)) in
      if bytes_written \<noteq> sint (bm_total_bytes b) then Some (KES_ERROR_IO, os2)
      else Some (KES_SUCCESS, os2))"

definition kes_bitmap_checksum ::
    "(u32 \<Rightarrow> u8 list \<Rightarrow> u32) \<Rightarrow> kes_bitmap option \<Rightarrow> bool \<Rightarrow> (int \<times> u32 option) option" where
  "kes_bitmap_checksum crc bm outp = (case bm of
      None \<Rightarrow> Some (KES_ERROR_INVALID, None)
    | Some b \<Rightarrow>
      if \<not> outp then Some (KES_ERROR_INVALID, None)
      else if unat (bm_total_bytes b) > length (bm_data b) then None
      else Some (KES_SUCCESS, Some (crc 0 (take (unat (bm_total_bytes b)) (bm_data b)))))"

section \<open>The set of used blocks and the invariants\<close>

text \<open>\<open>bm_mem\<close> is what memory safety needs: the buffer has exactly the bytes for the bits. The
  bound excludes bitmaps whose buffer could not be allocated. \<open>bm_ok\<close> adds what the counters
  promise: the unused bits of the last byte are clear, and \<open>free_bits\<close> counts the clear bits.\<close>

definition bm_used :: "kes_bitmap \<Rightarrow> nat set" where
  "bm_used b = {i. i < unat (bm_total_bits b) \<and> mbit (bm_data b) i}"

definition bm_mem :: "kes_bitmap \<Rightarrow> bool" where
  "bm_mem b \<longleftrightarrow> length (bm_data b) = unat (bm_total_bytes b) \<and>
     unat (bm_total_bytes b) = (unat (bm_total_bits b) + 7) div 8 \<and>
     unat (bm_total_bits b) \<le> 2 ^ 63"

definition bm_ok :: "kes_bitmap \<Rightarrow> bool" where
  "bm_ok b \<longleftrightarrow> bm_mem b \<and> mbits (bm_data b) \<subseteq> {..<unat (bm_total_bits b)} \<and>
     unat (bm_free_bits b) + card (bm_used b) = unat (bm_total_bits b)"

lemma bm_ok_mem [kes_wf]: "bm_ok b \<Longrightarrow> bm_mem b"
  by (simp add: bm_ok_def)

lemma finite_bm_used [simp]: "finite (bm_used b)"
  by (simp add: bm_used_def)

lemma bm_used_subset: "bm_used b \<subseteq> {..<unat (bm_total_bits b)}"
  by (auto simp: bm_used_def)

lemma bm_used_eq_mbits: "bm_ok b \<Longrightarrow> bm_used b = mbits (bm_data b)"
  by (auto simp: bm_ok_def bm_used_def mbits_def)

lemma bm_used_cong: "bm_data b = bm_data b' \<Longrightarrow> bm_total_bits b = bm_total_bits b' \<Longrightarrow> bm_used b = bm_used b'"
  by (simp add: bm_used_def)

lemma bm_ok_search_hint [simp]:
  "bm_ok (b\<lparr>bm_search_hint := h\<rparr>) = bm_ok b" "bm_mem (b\<lparr>bm_search_hint := h\<rparr>) = bm_mem b"
  "bm_used (b\<lparr>bm_search_hint := h\<rparr>) = bm_used b"
  by (simp_all add: bm_ok_def bm_mem_def bm_used_def)

lemma bm_index_in_buffer:
  "bm_mem b \<Longrightarrow> i < unat (bm_total_bits b) \<Longrightarrow> i div 8 < length (bm_data b)"
  by (simp add: bm_mem_def)

section \<open>Single bits\<close>

lemma unat_BIT_BYTE_INDEX [simp]: "unat (BIT_BYTE_INDEX i) = unat i div 8"
  by (simp add: BIT_BYTE_INDEX_def unat_div)

lemma unat_BIT_OFFSET [simp]: "unat (BIT_OFFSET i) = unat i mod 8"
  by (simp add: BIT_OFFSET_def unat_mod)

lemma bit_BIT_MASK: "bit (BIT_MASK i) j \<longleftrightarrow> j = unat i mod 8"
proof -
  have "unat i mod 8 < 8" by simp
  then show ?thesis
    by (auto simp: BIT_MASK_def bit_ucast_iff bit_exp_iff)
qed

lemma and_BIT_MASK: "x AND BIT_MASK i = 0 \<longleftrightarrow> \<not> bit x (unat i mod 8)"
proof
  assume "x AND BIT_MASK i = 0"
  then have "\<not> bit (x AND BIT_MASK i) (unat i mod 8)" by simp
  then show "\<not> bit x (unat i mod 8)" by (simp add: bit_and_iff bit_BIT_MASK)
next
  assume "\<not> bit x (unat i mod 8)"
  then show "x AND BIT_MASK i = 0"
    by (intro bit_word_eqI) (auto simp: bit_and_iff bit_BIT_MASK)
qed

lemma div_mod_8_eq: "j = i \<longleftrightarrow> j div 8 = i div 8 \<and> j mod 8 = (i :: nat) mod 8"
  by (metis div_mult_mod_eq)

lemma mbit_set_byte:
  assumes "unat i div 8 < length xs"
  shows "mbit (xs[unat i div 8 := xs ! (unat i div 8) OR BIT_MASK i]) j \<longleftrightarrow> j = unat i \<or> mbit xs j"
proof (cases "j div 8 = unat i div 8")
  case True
  with assms show ?thesis
    unfolding mbit_update [OF assms] div_mod_8_eq [of j]
    by (auto simp: bit_or_iff bit_BIT_MASK mbit_def)
next
  case False
  then show ?thesis unfolding mbit_update [OF assms] by auto
qed

lemma mbit_clear_byte:
  assumes "unat i div 8 < length xs"
  shows "mbit (xs[unat i div 8 := xs ! (unat i div 8) AND NOT (BIT_MASK i)]) j \<longleftrightarrow> j \<noteq> unat i \<and> mbit xs j"
proof (cases "j div 8 = unat i div 8")
  case True
  with assms show ?thesis
    unfolding mbit_update [OF assms] div_mod_8_eq [of j]
    by (auto simp: bit_and_iff bit_not_iff bit_BIT_MASK mbit_def dest: bit_imp_le_length)
next
  case False
  then show ?thesis unfolding mbit_update [OF assms] by auto
qed

lemma kes_bitmap_test_spec [kes_spec]:
  assumes "bm_mem b"
  shows "kes_bitmap_test (Some b) i = Some (unat i \<in> bm_used b)"
proof (cases "i \<ge> bm_total_bits b")
  case True
  then show ?thesis by (simp add: kes_bitmap_test_def bm_used_def word_le_nat_alt)
next
  case False
  then have i: "unat i < unat (bm_total_bits b)" by (simp add: word_le_nat_alt)
  with assms have "unat i div 8 < length (bm_data b)" by (rule bm_index_in_buffer)
  with False i show ?thesis
    by (simp add: kes_bitmap_test_def byte_at_def and_BIT_MASK bm_used_def mbit_def)
qed

text \<open>The fields that set and clear leave alone.\<close>

definition bm_shape :: "kes_bitmap \<Rightarrow> u64 \<times> u64 \<times> u64" where
  "bm_shape b = (bm_total_bits b, bm_total_bytes b, bm_search_hint b)"

lemma bm_set_step:
  assumes ok: "bm_ok b" and i: "i < bm_total_bits b"
  shows "\<exists>b'. kes_bitmap_set (Some b) i = Some (KES_SUCCESS, Some b') \<and> bm_ok b' \<and>
    bm_used b' = insert (unat i) (bm_used b) \<and> bm_shape b' = bm_shape b"
proof (cases "unat i \<in> bm_used b")
  case True
  then have "mbit (bm_data b) (unat i)" by (simp add: bm_used_def)
  then show ?thesis
    using True ok i
    by (auto simp: kes_bitmap_set_def byte_at_def Let_def and_BIT_MASK mbit_def insert_absorb not_le)
next
  case False
  have iN: "unat i < unat (bm_total_bits b)" using i by (simp add: word_less_nat_alt)
  have k: "unat i div 8 < length (bm_data b)"
    using bm_ok_mem [OF ok] iN by (rule bm_index_in_buffer)
  have nb: "\<not> mbit (bm_data b) (unat i)" using False iN by (simp add: bm_used_def)
  define b' where "b' = b\<lparr>bm_data := (bm_data b)[unat i div 8 := bm_data b ! (unat i div 8) OR BIT_MASK i],
    bm_free_bits := bm_free_bits b - 1\<rparr>"
  have run: "kes_bitmap_set (Some b) i = Some (KES_SUCCESS, Some b')"
    using i k nb
    by (simp add: kes_bitmap_set_def byte_at_def byte_put_def and_BIT_MASK mbit_def b'_def not_le Let_def)
  have used: "bm_used b' = insert (unat i) (bm_used b)"
    using iN by (auto simp: bm_used_def b'_def mbit_set_byte [OF k])
  have sub: "insert (unat i) (bm_used b) \<subseteq> {..<unat (bm_total_bits b)}"
    using iN bm_used_subset by auto
  have "card (insert (unat i) (bm_used b)) \<le> unat (bm_total_bits b)"
    using card_mono [OF _ sub] by simp
  then have "card (bm_used b) < unat (bm_total_bits b)" using False by simp
  then have pos: "0 < unat (bm_free_bits b)" using ok by (simp add: bm_ok_def)
  then have "unat (bm_free_bits b - 1) = unat (bm_free_bits b) - 1"
    by (subst unat_diff_le) (auto simp: word_le_nat_alt)
  then have cnt: "unat (bm_free_bits b') + card (bm_used b') = unat (bm_total_bits b')"
    using ok pos False unfolding used by (simp add: bm_ok_def b'_def)
  have "mbits (bm_data b') \<subseteq> {..<unat (bm_total_bits b')}"
    using ok iN by (auto simp: bm_ok_def b'_def mbits_def mbit_set_byte [OF k])
  then have "bm_ok b'" using ok cnt by (simp add: bm_ok_def bm_mem_def b'_def)
  then show ?thesis using run used by (auto simp: bm_shape_def b'_def)
qed

lemma bm_clear_step:
  assumes ok: "bm_ok b" and i: "i < bm_total_bits b"
  shows "\<exists>b'. kes_bitmap_clear (Some b) i = Some (KES_SUCCESS, Some b') \<and> bm_ok b' \<and>
    bm_used b' = bm_used b - {unat i} \<and> bm_shape b' = bm_shape b"
proof -
  have iN: "unat i < unat (bm_total_bits b)" using i by (simp add: word_less_nat_alt)
  have k: "unat i div 8 < length (bm_data b)"
    using bm_ok_mem [OF ok] iN by (rule bm_index_in_buffer)
  show ?thesis
  proof (cases "unat i \<in> bm_used b")
    case False
    then show ?thesis
      using ok i iN k
      by (auto simp: kes_bitmap_clear_def byte_at_def Let_def and_BIT_MASK mbit_def bm_used_def not_le)
  next
    case True
    then have nb: "mbit (bm_data b) (unat i)" by (simp add: bm_used_def)
    define b' where "b' = b\<lparr>bm_data := (bm_data b)[unat i div 8 := bm_data b ! (unat i div 8) AND NOT (BIT_MASK i)],
      bm_free_bits := bm_free_bits b + 1\<rparr>"
    have run: "kes_bitmap_clear (Some b) i = Some (KES_SUCCESS, Some b')"
      using i k nb
      by (simp add: kes_bitmap_clear_def byte_at_def byte_put_def and_BIT_MASK mbit_def b'_def not_le Let_def)
    have used: "bm_used b' = bm_used b - {unat i}"
      using iN by (auto simp: bm_used_def b'_def mbit_clear_byte [OF k])
    have cpos: "0 < card (bm_used b)" using True by (auto simp: card_gt_0_iff)
    have "unat (bm_free_bits b) < unat (bm_total_bits b)" using ok cpos by (simp add: bm_ok_def)
    then have "unat (bm_free_bits b + 1) = unat (bm_free_bits b) + 1"
      by (intro word_less_plus_one [where v = "bm_total_bits b"]) (simp add: word_less_nat_alt)
    then have cnt: "unat (bm_free_bits b') + card (bm_used b') = unat (bm_total_bits b')"
      using ok cpos True unfolding used by (simp add: bm_ok_def b'_def)
    have "mbits (bm_data b') \<subseteq> {..<unat (bm_total_bits b')}"
      using ok by (auto simp: bm_ok_def b'_def mbits_def mbit_clear_byte [OF k])
    then have "bm_ok b'" using ok cnt by (simp add: bm_ok_def bm_mem_def b'_def)
    then show ?thesis using run used by (auto simp: bm_shape_def b'_def)
  qed
qed

section \<open>Ranges\<close>

lemma unat_index:
  "unat (s :: u64) + unat (i :: u32) < 2 ^ 64 \<Longrightarrow> unat (s + ucast i) = unat s + unat i"
  by (subst unat_add_no_overflow) simp_all

lemma unat_u32_Suc: "unat (i :: u32) + Suc k < 2 ^ 32 \<Longrightarrow> unat (i + 1) = Suc (unat i)"
  by (subst unat_plus_one) simp_all

lemma bm_total_bits_shape: "bm_shape b' = bm_shape b \<Longrightarrow> bm_total_bits b' = bm_total_bits b"
  by (simp add: bm_shape_def)

lemma set_range_loop_spec:
  assumes "bm_ok b" "unat s + unat i + k \<le> unat (bm_total_bits b)" "unat i + k < 2 ^ 32"
  shows "\<exists>b'. set_range_loop (Some b) s i k = Some (KES_SUCCESS, Some b') \<and> bm_ok b' \<and>
    bm_used b' = bm_used b \<union> {unat s + unat i..<unat s + unat i + k} \<and> bm_shape b' = bm_shape b"
  using assms
proof (induction k arbitrary: b i)
  case 0
  then show ?case by simp
next
  case (Suc k)
  have lt: "unat s + unat i < unat (bm_total_bits b)" using Suc.prems(2) by simp
  then have idx: "unat (s + ucast i) = unat s + unat i"
    using unat_u64_bound [of "bm_total_bits b"] by (intro unat_index) simp
  then have "s + ucast i < bm_total_bits b" using lt by (simp add: word_less_nat_alt)
  from bm_set_step [OF Suc.prems(1) this] obtain b1 where
    b1: "kes_bitmap_set (Some b) (s + ucast i) = Some (KES_SUCCESS, Some b1)" "bm_ok b1"
      "bm_used b1 = insert (unat s + unat i) (bm_used b)" "bm_shape b1 = bm_shape b"
    unfolding idx by blast
  have i1: "unat (i + 1) = Suc (unat i)" using Suc.prems(3) by (rule unat_u32_Suc)
  have "unat s + unat (i + 1) + k \<le> unat (bm_total_bits b1)" "unat (i + 1) + k < 2 ^ 32"
    using Suc.prems(2,3) b1(4) unfolding i1 by (auto simp: bm_shape_def)
  from Suc.IH [OF b1(2) this] obtain b2 where
    b2: "set_range_loop (Some b1) s (i + 1) k = Some (KES_SUCCESS, Some b2)" "bm_ok b2"
      "bm_used b2 = bm_used b1 \<union> {Suc (unat s + unat i)..<Suc (unat s + unat i) + k}"
      "bm_shape b2 = bm_shape b1"
    unfolding i1 by auto
  have "{unat s + unat i..<unat s + unat i + Suc k} =
      insert (unat s + unat i) {Suc (unat s + unat i)..<Suc (unat s + unat i) + k}" by auto
  then show ?case using b1 b2 by auto
qed

lemma clear_range_loop_spec:
  assumes "bm_ok b" "unat s + unat i + k \<le> unat (bm_total_bits b)" "unat i + k < 2 ^ 32"
  shows "\<exists>b'. clear_range_loop (Some b) s i k = Some (KES_SUCCESS, Some b') \<and> bm_ok b' \<and>
    bm_used b' = bm_used b - {unat s + unat i..<unat s + unat i + k} \<and> bm_shape b' = bm_shape b"
  using assms
proof (induction k arbitrary: b i)
  case 0
  then show ?case by simp
next
  case (Suc k)
  have lt: "unat s + unat i < unat (bm_total_bits b)" using Suc.prems(2) by simp
  then have idx: "unat (s + ucast i) = unat s + unat i"
    using unat_u64_bound [of "bm_total_bits b"] by (intro unat_index) simp
  then have "s + ucast i < bm_total_bits b" using lt by (simp add: word_less_nat_alt)
  from bm_clear_step [OF Suc.prems(1) this] obtain b1 where
    b1: "kes_bitmap_clear (Some b) (s + ucast i) = Some (KES_SUCCESS, Some b1)" "bm_ok b1"
      "bm_used b1 = bm_used b - {unat s + unat i}" "bm_shape b1 = bm_shape b"
    unfolding idx by blast
  have i1: "unat (i + 1) = Suc (unat i)" using Suc.prems(3) by (rule unat_u32_Suc)
  have "unat s + unat (i + 1) + k \<le> unat (bm_total_bits b1)" "unat (i + 1) + k < 2 ^ 32"
    using Suc.prems(2,3) b1(4) unfolding i1 by (auto simp: bm_shape_def)
  from Suc.IH [OF b1(2) this] obtain b2 where
    b2: "clear_range_loop (Some b1) s (i + 1) k = Some (KES_SUCCESS, Some b2)" "bm_ok b2"
      "bm_used b2 = bm_used b1 - {Suc (unat s + unat i)..<Suc (unat s + unat i) + k}"
      "bm_shape b2 = bm_shape b1"
    unfolding i1 by auto
  have "{unat s + unat i..<unat s + unat i + Suc k} =
      insert (unat s + unat i) {Suc (unat s + unat i)..<Suc (unat s + unat i) + k}" by auto
  then show ?case using b1 b2 by auto
qed

text \<open>The block numbers of an extent.\<close>

abbreviation blocks :: "u64 \<Rightarrow> u32 \<Rightarrow> nat set" where
  "blocks s n \<equiv> {unat s..<unat s + unat n}"

text \<open>The range check of \<open>set_range\<close> and \<open>clear_range\<close> is exact: the bound in \<open>bm_mem\<close> rules
  out a wrap of \<open>start_bit + bit_count\<close>.\<close>

lemma range_check_iff:
  fixes n :: u32
  assumes "bm_mem b"
  shows "(s \<ge> bm_total_bits b \<or> s + ucast n > bm_total_bits b) \<longleftrightarrow>
    \<not> (unat s < unat (bm_total_bits b) \<and> unat s + unat n \<le> unat (bm_total_bits b))"
proof (cases "unat s < unat (bm_total_bits b)")
  case True
  have "unat (bm_total_bits b) \<le> 2 ^ 63" using assms by (simp add: bm_mem_def)
  then have "unat s + unat n < 2 ^ 64" using True unat_u32_bound [of n] by simp
  then have "unat (s + ucast n) = unat s + unat n" by (rule unat_index)
  with True show ?thesis by (auto simp: word_le_nat_alt word_less_nat_alt)
next
  case False
  then show ?thesis by (simp add: word_le_nat_alt)
qed

lemma kes_bitmap_set_range_spec [kes_spec]:
  assumes "bm_ok b" "unat s < unat (bm_total_bits b)" "unat s + unat n \<le> unat (bm_total_bits b)"
  shows "\<exists>b'. kes_bitmap_set_range (Some b) s n = Some (KES_SUCCESS, Some b') \<and> bm_ok b' \<and>
    bm_used b' = bm_used b \<union> blocks s n \<and> bm_shape b' = bm_shape b"
  using set_range_loop_spec [OF assms(1), of s 0 "unat n"] assms(2,3)
    range_check_iff [OF bm_ok_mem [OF assms(1)], of s n] unat_u32_bound [of n]
  by (simp add: kes_bitmap_set_range_def)

lemma kes_bitmap_clear_range_spec [kes_spec]:
  assumes "bm_ok b" "unat s < unat (bm_total_bits b)" "unat s + unat n \<le> unat (bm_total_bits b)"
  shows "\<exists>b'. kes_bitmap_clear_range (Some b) s n = Some (KES_SUCCESS, Some b') \<and> bm_ok b' \<and>
    bm_used b' = bm_used b - blocks s n \<and> bm_shape b' = bm_shape b"
  using clear_range_loop_spec [OF assms(1), of s 0 "unat n"] assms(2,3)
    range_check_iff [OF bm_ok_mem [OF assms(1)], of s n] unat_u32_bound [of n]
  by (simp add: kes_bitmap_clear_range_def)

lemma kes_bitmap_range_invalid:
  assumes "bm_mem b" "\<not> (unat s < unat (bm_total_bits b) \<and> unat s + unat n \<le> unat (bm_total_bits b))"
  shows "kes_bitmap_set_range (Some b) s n = Some (KES_ERROR_INVALID, Some b)"
    and "kes_bitmap_clear_range (Some b) s n = Some (KES_ERROR_INVALID, Some b)"
  using assms range_check_iff [OF assms(1), of s n]
  by (simp_all add: kes_bitmap_set_range_def kes_bitmap_clear_range_def)

section \<open>Searching for a free run\<close>

lemma run_free_loop_spec:
  assumes "bm_mem b" "unat s + unat i + k < 2 ^ 64" "unat i + k < 2 ^ 32"
  shows "run_free_loop (Some b) s i k =
    Some ({unat s + unat i..<unat s + unat i + k} \<inter> bm_used b = {})"
  using assms(2,3)
proof (induction k arbitrary: i)
  case 0
  then show ?case by simp
next
  case (Suc k)
  have idx: "unat (s + ucast i) = unat s + unat i" using Suc.prems(1) by (intro unat_index) simp
  have i1: "unat (i + 1) = Suc (unat i)" using Suc.prems(2) by (rule unat_u32_Suc)
  have IH: "run_free_loop (Some b) s (i + 1) k =
      Some ({Suc (unat s + unat i)..<Suc (unat s + unat i) + k} \<inter> bm_used b = {})"
    using Suc.IH [of "i + 1"] Suc.prems unfolding i1 by simp
  have "{unat s + unat i..<unat s + unat i + Suc k} =
      insert (unat s + unat i) {Suc (unat s + unat i)..<Suc (unat s + unat i) + k}" by auto
  then show ?case
    using IH by (simp add: kes_bitmap_test_spec [OF assms(1)] idx)
qed

text \<open>\<open>free_at b n j\<close>: the \<open>n\<close> blocks from \<open>j\<close> on exist and are free.\<close>

definition free_at :: "kes_bitmap \<Rightarrow> nat \<Rightarrow> nat \<Rightarrow> bool" where
  "free_at b n j \<longleftrightarrow> j + n \<le> unat (bm_total_bits b) \<and> {j..<j + n} \<inter> bm_used b = {}"

lemma run_free_at:
  fixes n :: u32
  assumes "bm_mem b" "unat s + unat n \<le> unat (bm_total_bits b)"
  shows "run_free_loop (Some b) s 0 (unat n) = Some (free_at b (unat n) (unat s))"
proof -
  have "unat (bm_total_bits b) < 2 ^ 64" using unat_u64_bound [of "bm_total_bits b"] by simp
  then show ?thesis
    using run_free_loop_spec [OF assms(1), of s 0 "unat n"] unat_u32_bound [of n] assms(2)
    by (simp add: free_at_def)
qed

text \<open>What a search loop from \<open>lo\<close> to \<open>hi\<close> (exclusive) reports: the first hit, or none.\<close>

definition first_hit :: "(nat \<Rightarrow> bool) \<Rightarrow> nat \<Rightarrow> nat \<Rightarrow> u64 option \<Rightarrow> bool" where
  "first_hit P lo hi r = (case r of
      None \<Rightarrow> \<forall>j. lo \<le> j \<and> j < hi \<longrightarrow> \<not> P j
    | Some s \<Rightarrow> lo \<le> unat s \<and> unat s < hi \<and> P (unat s) \<and> (\<forall>j. lo \<le> j \<and> j < unat s \<longrightarrow> \<not> P j))"

lemma first_hit_now: "lo < hi \<Longrightarrow> P lo \<Longrightarrow> unat s = lo \<Longrightarrow> first_hit P lo hi (Some s)"
  by (auto simp: first_hit_def)

lemma first_hit_skip:
  assumes "\<not> P lo" "first_hit P (Suc lo) hi r"
  shows "first_hit P lo hi r"
proof -
  have "\<not> P j" if "lo \<le> j" "Suc lo \<le> j \<Longrightarrow> \<not> P j" for j
    using assms(1) that by (cases "j = lo") auto
  then show ?thesis using assms(2) by (auto simp: first_hit_def split: option.splits)
qed

lemma first_hit_empty: "hi \<le> lo \<Longrightarrow> first_hit P lo hi None"
  by (auto simp: first_hit_def)

lemma scan_up_spec:
  assumes mem: "bm_mem b" and lim: "unat limit + unat n \<le> unat (bm_total_bits b)"
  shows "\<exists>r. scan_up (Some b) n limit s = Some r \<and>
    first_hit (free_at b (unat n)) (unat s) (Suc (unat limit)) r"
proof (induction "Suc (unat limit) - unat s" arbitrary: s)
  case 0
  then have "\<not> s \<le> limit" by (simp add: word_le_nat_alt)
  then have "scan_up (Some b) n limit s = Some None" by (subst scan_up.simps) simp
  with 0 show ?case by (auto intro: first_hit_empty)
next
  case (Suc m)
  have le: "unat s \<le> unat limit" using Suc.hyps(2) by simp
  then have sl: "s \<le> limit" by (simp add: word_le_nat_alt)
  have run: "run_free_loop (Some b) s 0 (unat n) = Some (free_at b (unat n) (unat s))"
    using lim le by (intro run_free_at [OF mem]) simp
  have "unat (bm_total_bits b) \<le> 2 ^ 63" using mem by (simp add: bm_mem_def)
  then have s1: "unat (s + 1) = Suc (unat s)"
    using le lim by (subst unat_plus_one) simp_all
  show ?case
  proof (cases "free_at b (unat n) (unat s)")
    case True
    then have "scan_up (Some b) n limit s = Some (Some s)"
      using sl run by (subst scan_up.simps) simp
    with True le show ?thesis by (auto intro: first_hit_now)
  next
    case False
    then have step: "scan_up (Some b) n limit s = scan_up (Some b) n limit (s + 1)"
      using sl run by (subst scan_up.simps) simp
    have "m = Suc (unat limit) - unat (s + 1)" using Suc.hyps(2) s1 by simp
    from Suc.hyps(1) [OF this] False show ?thesis
      unfolding step s1 by (blast intro: first_hit_skip)
  qed
qed

lemma scan_wrap_spec:
  assumes mem: "bm_mem b" and lim: "unat limit + unat n \<le> unat (bm_total_bits b)"
  shows "\<exists>r. scan_wrap (Some b) n h limit s = Some r \<and>
    first_hit (free_at b (unat n)) (unat s) (min (unat h) (Suc (unat limit))) r"
proof (induction "min (unat h) (Suc (unat limit)) - unat s" arbitrary: s)
  case 0
  then have "\<not> (s < h \<and> s \<le> limit)" by (auto simp: word_le_nat_alt word_less_nat_alt)
  then have "scan_wrap (Some b) n h limit s = Some None" by (subst scan_wrap.simps) auto
  with 0 show ?case by (auto intro!: first_hit_empty)
next
  case (Suc m)
  have le: "unat s \<le> unat limit" "unat s < unat h" using Suc.hyps(2) by simp_all
  then have sl: "s < h \<and> s \<le> limit" by (simp add: word_le_nat_alt word_less_nat_alt)
  have run: "run_free_loop (Some b) s 0 (unat n) = Some (free_at b (unat n) (unat s))"
    using lim le by (intro run_free_at [OF mem]) simp
  have "unat (bm_total_bits b) \<le> 2 ^ 63" using mem by (simp add: bm_mem_def)
  then have s1: "unat (s + 1) = Suc (unat s)"
    using le lim by (subst unat_plus_one) simp_all
  show ?case
  proof (cases "free_at b (unat n) (unat s)")
    case True
    then have "scan_wrap (Some b) n h limit s = Some (Some s)"
      using sl run by (subst scan_wrap.simps) simp
    with True le show ?thesis by (auto intro: first_hit_now)
  next
    case False
    then have step: "scan_wrap (Some b) n h limit s = scan_wrap (Some b) n h limit (s + 1)"
      using sl run by (subst scan_wrap.simps) simp
    have "m = min (unat h) (Suc (unat limit)) - unat (s + 1)" using Suc.hyps(2) s1 by simp
    from Suc.hyps(1) [OF this] False show ?thesis
      unfolding step s1 by (blast intro: first_hit_skip)
  qed
qed

lemma free_run_needs_free_bits:
  assumes "bm_ok b" "free_at b n j"
  shows "n \<le> unat (bm_free_bits b)"
proof -
  have "card ({j..<j + n} \<union> bm_used b) = n + card (bm_used b)"
    using assms(2) by (subst card_Un_disjoint) (auto simp: free_at_def)
  moreover have "{j..<j + n} \<union> bm_used b \<subseteq> {..<unat (bm_total_bits b)}"
    using assms(2) bm_used_subset [of b] by (auto simp: free_at_def)
  then have "card ({j..<j + n} \<union> bm_used b) \<le> unat (bm_total_bits b)"
    using card_mono [of "{..<unat (bm_total_bits b)}"] by simp
  ultimately show ?thesis using assms(1) by (simp add: bm_ok_def)
qed

text \<open>Where the search starts, and which of the free runs it prefers: the first one from the start
  position on, or else the first one of all.\<close>

definition search_start :: "kes_bitmap \<Rightarrow> u64 \<Rightarrow> nat" where
  "search_start b hint = (if hint \<ge> bm_total_bits b then 0 else unat hint)"

definition next_fit :: "kes_bitmap \<Rightarrow> nat \<Rightarrow> nat \<Rightarrow> nat \<Rightarrow> bool" where
  "next_fit b n from s \<longleftrightarrow> free_at b n s \<and>
     (if from \<le> s then \<forall>j. from \<le> j \<and> j < s \<longrightarrow> \<not> free_at b n j
      else (\<forall>j. from \<le> j \<longrightarrow> \<not> free_at b n j) \<and> (\<forall>j < s. \<not> free_at b n j))"

lemma find_free_cases:
  assumes ok: "bm_ok b" and n0: "n \<noteq> 0" and run: "kes_bitmap_find_free (Some b) n hint True = res"
  shows "(\<exists>s. res = Some (KES_SUCCESS, Some s, Some (b\<lparr>bm_search_hint := s + ucast n\<rparr>)) \<and>
            next_fit b (unat n) (search_start b hint) (unat s)) \<or>
         (res = Some (KES_ERROR_NOSPACE, None, Some b) \<and> (\<forall>j. \<not> free_at b (unat n) j))"
proof (cases "bm_free_bits b < ucast n")
  case True
  then have "unat (bm_free_bits b) < unat n" by (simp add: word_less_nat_alt)
  then have "\<not> free_at b (unat n) j" for j using free_run_needs_free_bits [OF ok, of "unat n" j] by auto
  with True n0 show ?thesis unfolding run [symmetric] by (simp add: kes_bitmap_find_free_def)
next
  case False
  have mem: "bm_mem b" using ok by (rule bm_ok_mem)
  define start where "start = (if hint \<ge> bm_total_bits b then 0 else hint)"
  have ss: "unat start = search_start b hint" by (simp add: start_def search_start_def)
  have nf: "unat n \<le> unat (bm_free_bits b)" using False by (simp add: word_less_nat_alt)
  then have nt: "unat n \<le> unat (bm_total_bits b)" using ok by (simp add: bm_ok_def)
  define limit where "limit = bm_total_bits b - ucast n"
  have lim: "unat limit + unat n = unat (bm_total_bits b)"
    unfolding limit_def by (subst unat_diff_le) (use nt in \<open>simp_all add: word_le_nat_alt\<close>)
  have inlim: "j < Suc (unat limit)" if "free_at b (unat n) j" for j
    using that lim by (simp add: free_at_def)
  obtain r where r: "scan_up (Some b) n limit start = Some r"
    "first_hit (free_at b (unat n)) (unat start) (Suc (unat limit)) r"
    using scan_up_spec [OF mem, of limit n start] lim by auto
  obtain r2 where r2: "scan_wrap (Some b) n start limit 0 = Some r2"
    "first_hit (free_at b (unat n)) 0 (min (unat start) (Suc (unat limit))) r2"
    using scan_wrap_spec [OF mem, of limit n start 0] lim by auto
  have eq: "res = (case r of
       Some s \<Rightarrow> Some (KES_SUCCESS, Some s, Some (b\<lparr>bm_search_hint := s + ucast n\<rparr>))
     | None \<Rightarrow> if start > 0 then (case r2 of
          Some s \<Rightarrow> Some (KES_SUCCESS, Some s, Some (b\<lparr>bm_search_hint := s + ucast n\<rparr>))
        | None \<Rightarrow> Some (KES_ERROR_NOSPACE, None, Some b))
       else Some (KES_ERROR_NOSPACE, None, Some b))"
    unfolding run [symmetric] using n0 False r(1) r2(1)
    by (simp add: kes_bitmap_find_free_def Let_def start_def [symmetric] limit_def [symmetric]
        split: option.splits)
  show ?thesis
  proof (cases r)
    case (Some s)
    then have "next_fit b (unat n) (search_start b hint) (unat s)"
      using r(2) by (simp add: first_hit_def next_fit_def ss)
    with eq Some show ?thesis by simp
  next
    case None
    then have up: "\<not> free_at b (unat n) j" if "unat start \<le> j" for j
      using r(2) that inlim by (auto simp: first_hit_def)
    show ?thesis
    proof (cases r2)
      case (Some s)
      then have "0 < start" using r2(2) by (auto simp: first_hit_def word_less_nat_alt)
      moreover have "next_fit b (unat n) (search_start b hint) (unat s)"
        using r2(2) Some up by (auto simp: first_hit_def next_fit_def ss)
      ultimately show ?thesis using eq None Some by simp
    next
      case N2: None
      have "\<not> free_at b (unat n) j" for j
        using up [of j] r2(2) inlim [of j] N2 by (cases "unat start \<le> j") (auto simp: first_hit_def)
      then show ?thesis using eq None N2 by simp
    qed
  qed
qed

section \<open>The contract of a block allocator\<close>

text \<open>The same choice on a set \<open>U\<close> of used blocks out of \<open>T\<close>: \<open>fits\<close> is a free run, \<open>picks\<close> the run that
  the search prefers.\<close>

definition fits :: "nat set \<Rightarrow> nat \<Rightarrow> nat \<Rightarrow> nat \<Rightarrow> bool" where
  "fits U T n j \<longleftrightarrow> j + n \<le> T \<and> {j..<j + n} \<inter> U = {}"

definition picks :: "nat set \<Rightarrow> nat \<Rightarrow> nat \<Rightarrow> nat \<Rightarrow> nat \<Rightarrow> bool" where
  "picks U T n hint s \<longleftrightarrow> fits U T n s \<and>
     (let from = (if T \<le> hint then 0 else hint) in
      if from \<le> s then \<forall>j. from \<le> j \<and> j < s \<longrightarrow> \<not> fits U T n j
      else (\<forall>j. from \<le> j \<longrightarrow> \<not> fits U T n j) \<and> (\<forall>j < s. \<not> fits U T n j))"

lemma picks_fits: "picks U T n hint s \<Longrightarrow> s + n \<le> T \<and> {s..<s + n} \<inter> U = {}"
  by (simp add: picks_def fits_def)

lemma free_at_fits: "free_at b n j = fits (bm_used b) (unat (bm_total_bits b)) n j"
  by (simp add: free_at_def fits_def)

lemma next_fit_picks:
  "next_fit b n (search_start b hint) s = picks (bm_used b) (unat (bm_total_bits b)) n (unat hint) s"
  by (simp add: next_fit_def picks_def free_at_fits search_start_def word_le_nat_alt)

text \<open>What the storage layer relies on: a search that returns a free run when there is one, and
  range updates of the set of used blocks.\<close>

locale block_allocator =
  fixes find :: "'b option \<Rightarrow> u32 \<Rightarrow> u64 \<Rightarrow> bool \<Rightarrow> (int \<times> u64 option \<times> 'b option) option"
    and mark :: "'b option \<Rightarrow> u64 \<Rightarrow> u32 \<Rightarrow> (int \<times> 'b option) option"
    and release :: "'b option \<Rightarrow> u64 \<Rightarrow> u32 \<Rightarrow> (int \<times> 'b option) option"
    and used :: "'b \<Rightarrow> nat set"
    and cap :: "'b \<Rightarrow> nat"
    and ok :: "'b \<Rightarrow> bool"
  assumes find_cases: "ok b \<Longrightarrow> n \<noteq> 0 \<Longrightarrow>
      (\<exists>s b1. find (Some b) n hint True = Some (KES_SUCCESS, Some s, Some b1) \<and> ok b1 \<and>
          used b1 = used b \<and> cap b1 = cap b \<and>
          picks (used b) (cap b) (unat n) (unat hint) (unat s)) \<or>
      (find (Some b) n hint True = Some (KES_ERROR_NOSPACE, None, Some b) \<and>
          (\<forall>j. \<not> fits (used b) (cap b) (unat n) j))"
    and mark_range: "ok b \<Longrightarrow> unat s < cap b \<Longrightarrow> unat s + unat n \<le> cap b \<Longrightarrow>
      \<exists>b'. mark (Some b) s n = Some (KES_SUCCESS, Some b') \<and> ok b' \<and> cap b' = cap b \<and>
          used b' = used b \<union> blocks s n"
    and release_range: "ok b \<Longrightarrow> unat s < cap b \<Longrightarrow> unat s + unat n \<le> cap b \<Longrightarrow>
      \<exists>b'. release (Some b) s n = Some (KES_SUCCESS, Some b') \<and> ok b' \<and> cap b' = cap b \<and>
          used b' = used b - blocks s n"
begin

text \<open>Searching and then marking, as the allocator's client does.\<close>

lemma find_then_mark:
  assumes "ok b" "n \<noteq> 0"
  obtains (hit) s b1 b2 where "find (Some b) n hint True = Some (KES_SUCCESS, Some s, Some b1)"
      and "mark (Some b1) s n = Some (KES_SUCCESS, Some b2)" and "ok b2" and "cap b2 = cap b"
      and "picks (used b) (cap b) (unat n) (unat hint) (unat s)"
      and "used b2 = used b \<union> blocks s n"
    | (miss) "find (Some b) n hint True = Some (KES_ERROR_NOSPACE, None, Some b)"
      and "\<forall>j. \<not> fits (used b) (cap b) (unat n) j"
  using find_cases [OF assms, of hint]
proof (elim disjE exE conjE)
  fix s b1
  assume f: "find (Some b) n hint True = Some (KES_SUCCESS, Some s, Some b1)" "ok b1"
    "used b1 = used b" "cap b1 = cap b" "picks (used b) (cap b) (unat n) (unat hint) (unat s)"
  note run = picks_fits [OF f(5)]
  have "unat s < cap b1" using f(4) run assms(2) unat_gt_0 [of n] by simp
  with f run obtain b2 where "mark (Some b1) s n = Some (KES_SUCCESS, Some b2)" "ok b2"
      "cap b2 = cap b" "used b2 = used b \<union> blocks s n"
    using mark_range [of b1 s n] by auto
  with f hit show thesis by blast
qed (use miss in blast)

lemma mark_then_release:
  assumes "ok b" "n \<noteq> 0" "unat s + unat n \<le> cap b" "blocks s n \<inter> used b = {}"
    and "mark (Some b) s n = Some (r, Some b1)" "release (Some b1) s n = Some (r', Some b2)"
  shows "r = KES_SUCCESS \<and> r' = KES_SUCCESS \<and> used b2 = used b"
proof -
  have lt: "unat s < cap b" using assms(2,3) unat_gt_0 [of n] by simp
  have b1: "r = KES_SUCCESS" "ok b1" "cap b1 = cap b" "used b1 = used b \<union> blocks s n"
    using mark_range [OF assms(1) lt assms(3)] assms(5) by auto
  have "r' = KES_SUCCESS" "used b2 = used b1 - blocks s n"
    using release_range [OF b1(2), of s n] lt assms(3,6) b1(3) by auto
  then show ?thesis using assms(4) b1 by auto
qed

end

interpretation bm: block_allocator kes_bitmap_find_free kes_bitmap_set_range kes_bitmap_clear_range
  bm_used "\<lambda>b. unat (bm_total_bits b)" bm_ok
proof unfold_locales
  fix b and n :: u32 and hint
  assume ok: "bm_ok b" and n: "n \<noteq> 0"
  show "(\<exists>s b1. kes_bitmap_find_free (Some b) n hint True = Some (KES_SUCCESS, Some s, Some b1) \<and>
      bm_ok b1 \<and> bm_used b1 = bm_used b \<and> unat (bm_total_bits b1) = unat (bm_total_bits b) \<and>
      picks (bm_used b) (unat (bm_total_bits b)) (unat n) (unat hint) (unat s)) \<or>
    (kes_bitmap_find_free (Some b) n hint True = Some (KES_ERROR_NOSPACE, None, Some b) \<and>
      (\<forall>j. \<not> fits (bm_used b) (unat (bm_total_bits b)) (unat n) j))"
    using find_free_cases [OF ok n refl, of hint] ok
    by (auto simp: next_fit_picks free_at_fits bm_used_def [abs_def])
qed (use kes_bitmap_set_range_spec kes_bitmap_clear_range_spec in
      \<open>fastforce dest: bm_total_bits_shape\<close>)+

section \<open>Counting\<close>

text \<open>The table is built by doubling: the second half of a table for \<open>k + 1\<close> bits is the first half
  plus one.\<close>

fun pop_list :: "nat \<Rightarrow> nat list" where
  "pop_list 0 = [0]"
| "pop_list (Suc k) = pop_list k @ map Suc (pop_list k)"

lemma length_pop_list [simp]: "length (pop_list k) = 2 ^ k"
  by (induction k) simp_all

lemma odd_bits_top:
  assumes "m < 2 ^ k"
  shows "{i. odd ((2 ^ k + m) div 2 ^ i)} = insert k {i. odd (m div 2 ^ i :: nat)}"
proof (rule set_eqI)
  fix i
  show "i \<in> {i. odd ((2 ^ k + m) div 2 ^ i)} \<longleftrightarrow> i \<in> insert k {i. odd (m div 2 ^ i)}"
  proof (cases i k rule: linorder_cases)
    case less
    then have "2 ^ k = (2 ^ (k - i) * 2 ^ i :: nat)" by (simp add: power_add [symmetric])
    then have "(2 ^ k + m) div 2 ^ i = 2 ^ (k - i) + m div 2 ^ i" by simp
    with less show ?thesis by simp
  next
    case equal
    have "(2 ^ k + m) div 2 ^ k = 1" using assms by (intro div_nat_eqI) simp_all
    with equal show ?thesis by simp
  next
    case greater
    then have "(2 ^ Suc k :: nat) \<le> 2 ^ i" by (intro power_increasing) auto
    with assms greater show ?thesis by simp
  qed
qed

lemma pop_list_nth: "n < 2 ^ k \<Longrightarrow> finite {i. odd (n div 2 ^ i)} \<and> pop_list k ! n = card {i. odd (n div 2 ^ i)}"
proof (induction k arbitrary: n)
  case 0
  then show ?case by simp
next
  case (Suc k)
  show ?case
  proof (cases "n < 2 ^ k")
    case True
    with Suc.IH [OF True] show ?thesis by (simp add: nth_append)
  next
    case False
    define m where "m = n - 2 ^ k"
    have m: "m < 2 ^ k" "n = 2 ^ k + m" using Suc.prems False by (simp_all add: m_def)
    with Suc.IH [OF m(1)] show ?thesis
      unfolding m(2) odd_bits_top [OF m(1)] by (simp add: nth_append)
  qed
qed

lemma popcount_table_pop_list: "popcount_table = pop_list 8"
  by (simp add: popcount_table_def numeral_eq_Suc)

lemma popcount_byte_weight: "popcount_byte x = byte_weight x"
proof -
  have "unat x < 2 ^ 8" using unsigned_less [of x, where ?'a = nat] by simp
  then have "popcount_byte x = card {i. odd (unat x div 2 ^ i)}"
    using pop_list_nth by (simp add: popcount_byte_def popcount_table_pop_list)
  also have "{i. odd (unat x div 2 ^ i)} = {i. i < 8 \<and> bit x i}"
    by (auto simp: bit_word_div [symmetric] dest: bit_imp_le_length)
  finally show ?thesis by (simp add: byte_weight_def)
qed

lemma byte_weight_le: "byte_weight x \<le> 8"
proof -
  have "card {i. i < 8 \<and> bit x i} \<le> card {..<8::nat}" by (rule card_mono) auto
  then show ?thesis by (simp add: byte_weight_def)
qed

lemma count_used_loop_spec:
  assumes "i + n = length xs"
  shows "count_used_loop xs i n acc = Some (acc + of_nat (sum_list (map byte_weight (drop i xs))))"
  using assms
proof (induction n arbitrary: i acc)
  case 0
  then show ?case by simp
next
  case (Suc n)
  then have "i < length xs" by simp
  then have "drop i xs = xs ! i # drop (Suc i) xs" by (simp add: Cons_nth_drop_Suc)
  then show ?case
    using Suc.IH [of "Suc i"] Suc.prems \<open>i < length xs\<close>
    by (simp add: byte_at_def popcount_byte_weight algebra_simps)
qed

lemma count_used_bits_spec:
  assumes "length (bm_data b) = unat (bm_total_bytes b)"
  shows "count_used_bits b = Some (of_nat (card (mbits (bm_data b))))"
  using count_used_loop_spec [of 0 "unat (bm_total_bytes b)" "bm_data b" 0] assms
  by (simp add: count_used_bits_def card_mbits)

section \<open>Creation\<close>

lemma bytes_for_bits:
  assumes "unat (t :: u64) \<le> 2 ^ 63"
  shows "unat ((t + 8 - 1) div 8) = (unat t + 7) div 8"
proof -
  have t7: "t + 8 - 1 = t + 7" by simp
  have "unat (t + 7) = unat t + 7"
    by (subst unat_add_no_overflow) (use assms in simp_all)
  then show ?thesis unfolding unat_div t7 by (simp only: unat_numeral) simp
qed

lemma kes_bitmap_create_ok:
  assumes "kes_bitmap_create os t outp = (r, bm, os')" "unat t \<le> 2 ^ 63"
  shows "(r = KES_SUCCESS \<longrightarrow> (\<exists>b. bm = Some b \<and> bm_ok b \<and> bm_used b = {} \<and> bm_total_bits b = t \<and>
            bm_data b = replicate (unat (bm_total_bytes b)) 0)) \<and>
         (r \<noteq> KES_SUCCESS \<longrightarrow> bm = None)"
proof (cases "r = KES_SUCCESS")
  case True
  then have bm: "bm = Some \<lparr>bm_data = replicate (unat ((t + 8 - 1) div 8)) 0, bm_total_bits = t,
      bm_total_bytes = (t + 8 - 1) div 8, bm_free_bits = t, bm_search_hint = 0\<rparr>"
    using assms(1) by (auto simp: kes_bitmap_create_def Let_def split: if_splits prod.splits)
  show ?thesis
    unfolding bm using True bytes_for_bits [OF assms(2)] assms(2)
    by (simp add: bm_ok_def bm_mem_def bm_used_def)
next
  case False
  then show ?thesis
    using assms(1) by (auto simp: kes_bitmap_create_def Let_def split: if_splits prod.splits)
qed

section \<open>Loading and saving\<close>

lemma sint_small:
  assumes "unat (w :: u64) < 2 ^ 63"
  shows "sint w = int (unat w)"
proof -
  have "uint w = int (unat w)" by simp
  moreover have "int (unat w) < int (2 ^ 63)" using assms by (simp only: of_nat_less_iff)
  moreover have "- (2 ^ 63) \<le> uint w" by (rule order_trans [OF _ unsigned_greater_eq]) simp
  ultimately show ?thesis unfolding sint_uint by (simp add: signed_take_bit_int_eq_self_iff)
qed

lemma bm_mem_bytes_small: "bm_mem b \<Longrightarrow> sint (bm_total_bytes b) = int (unat (bm_total_bytes b))"
  by (rule sint_small) (auto simp: bm_mem_def)

lemma bm_ok_recount:
  assumes "bm_mem b" "mbits (bm_data b) \<subseteq> {..<unat (bm_total_bits b)}"
    and "bm_free_bits b = bm_total_bits b - of_nat (card (mbits (bm_data b)))"
  shows "bm_ok b"
proof -
  have le: "card (mbits (bm_data b)) \<le> unat (bm_total_bits b)"
    using card_mono [OF _ assms(2)] by simp
  then have "card (mbits (bm_data b)) < 2 ^ LENGTH(64)"
    using unat_u64_bound [of "bm_total_bits b"] by simp
  then have c: "unat (of_nat (card (mbits (bm_data b))) :: u64) = card (mbits (bm_data b))"
    by (simp add: unat_of_nat)
  have "unat (bm_free_bits b) = unat (bm_total_bits b) - card (mbits (bm_data b))"
    unfolding assms(3) by (subst unat_diff_le) (simp_all add: word_le_nat_alt c le)
  moreover have "bm_used b = mbits (bm_data b)" using assms(2) by (auto simp: bm_used_def mbits_def)
  ultimately show ?thesis using assms le by (simp add: bm_ok_def)
qed

text \<open>Loading either fills the buffer with the bytes stored at the offset and recounts, or reports
  an I/O error; in both cases files and descriptors are untouched.\<close>

lemma kes_bitmap_load_spec:
  assumes mem: "bm_mem b" and on: "fd_on os fd x f" and rd: "of_rd x" and off: "0 \<le> off"
    and pos: "0 < unat (bm_total_bytes b)"
  obtains r b' os' where "kes_bitmap_load (Some b) os fd off = Some (r, Some b', os')"
    "os_same os os'" "bm_mem b'" "bm_shape b' = bm_shape b"
    "r = KES_SUCCESS \<Longrightarrow> f_holds f (nat off) (bm_data b') \<and>
       (mbits (bm_data b') \<subseteq> {..<unat (bm_total_bits b)} \<longrightarrow> bm_ok b')"
    "r = KES_SUCCESS \<or> r = KES_ERROR_IO"
    "\<And>bs. quiet os \<Longrightarrow> f_holds f (nat off) bs \<Longrightarrow> length bs = unat (bm_total_bytes b) \<Longrightarrow>
       r = KES_SUCCESS \<and> bm_data b' = bs"
proof -
  have fd: "\<not> fd < 0" using fd_on_nonneg [OF on] by simp
  obtain p os1 where sk: "c_lseek os fd off = (p, os1)" by fastforce
  from c_lseek_spec [OF sk on off] have
    1: "os_same os os1" "p = off \<Longrightarrow> os_pos os1 (nat fd) = nat off" "quiet os \<Longrightarrow> p = off" by auto
  show thesis
  proof (cases "p = off")
    case False
    then have "kes_bitmap_load (Some b) os fd off = Some (KES_ERROR_IO, Some b, os1)"
      using fd sk by (simp add: kes_bitmap_load_def)
    then show thesis using that 1 mem False by fastforce
  next
    case True
    obtain n bs os2 where rd2: "c_read os1 fd (unat (bm_total_bytes b)) = (n, bs, os2)"
      using prod_cases3 by blast
    have on1: "fd_on os1 fd x f" using on fd_on_same [OF 1(1)] by simp
    from c_read_spec [OF rd2 on1 rd] 1(2) [OF True] have
      2: "os_same os1 os2" "length bs \<le> unat (bm_total_bytes b)"
        "n = int (unat (bm_total_bytes b)) \<Longrightarrow>
           length bs = unat (bm_total_bytes b) \<and> bs = fread f (nat off) (unat (bm_total_bytes b))"
        "quiet os1 \<Longrightarrow> bs = fread f (nat off) (unat (bm_total_bytes b)) \<and> n = int (length bs)"
      by auto
    have same: "os_same os os2" using 1(1) 2(1) by (rule os_same_trans)
    have len: "length (bm_data b) = unat (bm_total_bytes b)" using mem by (simp add: bm_mem_def)
    define b1 where "b1 = b\<lparr>bm_data := overlay bs (bm_data b)\<rparr>"
    have b1: "bm_mem b1" "bm_shape b1 = bm_shape b"
      using mem 2(2) len by (simp_all add: b1_def bm_mem_def bm_shape_def length_overlay)
    have q: "n = int (unat (bm_total_bytes b)) \<and> bs = cs"
      if "quiet os" "f_holds f (nat off) cs" "length cs = unat (bm_total_bytes b)" for cs
      using 2(4) that 1(1) disk.rd_holds [OF that(2)] by (simp add: os_same_def)
    show thesis
    proof (cases "n = int (unat (bm_total_bytes b))")
      case False
      then have "kes_bitmap_load (Some b) os fd off = Some (KES_ERROR_IO, Some b1, os2)"
        using fd sk rd2 True 2(2) len bm_mem_bytes_small [OF mem]
        by (simp add: kes_bitmap_load_def b1_def Let_def)
      then show thesis using that same b1 False q by fastforce
    next
      case n: True
      define b2 where "b2 = b1\<lparr>bm_free_bits := bm_total_bits b1 - of_nat (card (mbits (bm_data b1)))\<rparr>"
      have "length (bm_data b1) = unat (bm_total_bytes b1)" using b1(1) by (simp add: bm_mem_def)
      then have run: "kes_bitmap_load (Some b) os fd off = Some (KES_SUCCESS, Some b2, os2)"
        using fd sk rd2 True n 2(2) len bm_mem_bytes_small [OF mem] count_used_bits_spec [of b1]
        by (simp add: kes_bitmap_load_def b1_def [symmetric] b2_def Let_def)
      have lbs: "length bs = unat (bm_total_bytes b)" "bs = fread f (nat off) (unat (bm_total_bytes b))"
        using 2(3) [OF n] by blast+
      then have d: "bm_data b2 = bs" by (simp add: b2_def b1_def overlay_full len)
      have "f_holds f (nat off) (bm_data b2)"
        unfolding d using lbs pos disk.rd_full by metis
      moreover have "bm_mem b2" "bm_shape b2 = bm_shape b"
        using b1 by (simp_all add: b2_def bm_mem_def bm_shape_def)
      moreover from this have "bm_ok b2" if "mbits (bm_data b2) \<subseteq> {..<unat (bm_total_bits b)}"
        using that by (intro bm_ok_recount) (simp_all add: b2_def b1_def)
      ultimately show thesis using that [OF run same] q d by blast
    qed
  qed
qed

text \<open>Saving writes some prefix of the buffer at the offset, all of it when it reports success.\<close>

lemma kes_bitmap_save_spec:
  assumes mem: "bm_mem b" and on: "fd_on os fd x f" and off: "0 \<le> off"
  obtains r k f' os' where "kes_bitmap_save (Some b) os fd off = Some (r, os')"
    "k \<le> length (bm_data b)" "f' = (fwrite f (nat off) (take k (bm_data b)))\<lparr>f_dirty := f_dirty f'\<rparr>"
    "os_files os' = (os_files os)(of_path x \<mapsto> f')" "os_fds os' = os_fds os" "quiet os \<longrightarrow> quiet os'"
    "r = KES_SUCCESS \<longrightarrow> k = length (bm_data b)" "r = KES_SUCCESS \<or> r = KES_ERROR_IO"
    "quiet os \<and> of_wr x \<longrightarrow> r = KES_SUCCESS" "\<not> of_wr x \<longrightarrow> k = 0"
proof -
  have fd: "\<not> fd < 0" using fd_on_nonneg [OF on] by simp
  have len: "length (bm_data b) = unat (bm_total_bytes b)" using mem by (simp add: bm_mem_def)
  have onf: "os_files os (of_path x) = Some f" using on by (simp add: fd_on_def)
  obtain p os1 where sk: "c_lseek os fd off = (p, os1)" by fastforce
  from c_lseek_spec [OF sk on off] have
    1: "os_same os os1" "p = off \<Longrightarrow> os_pos os1 (nat fd) = nat off" "quiet os \<Longrightarrow> p = off" by auto
  show thesis
  proof (cases "p = off")
    case False
    then have "kes_bitmap_save (Some b) os fd off = Some (KES_ERROR_IO, os1)"
      using fd sk by (simp add: kes_bitmap_save_def)
    then show thesis
      using that [of KES_ERROR_IO os1 0 f] 1 False onf by (auto simp: os_same_def fwrite_def fun_upd_idem)
  next
    case True
    obtain n os2 where wr: "c_write os1 fd (bm_data b) = (n, os2)" by fastforce
    have on1: "fd_on os1 fd x f" using on fd_on_same [OF 1(1)] by simp
    obtain k f' where w: "k \<le> length (bm_data b)" "os_files os2 = (os_files os1)(of_path x \<mapsto> f')"
      "f' = (fwrite f (os_pos os1 (nat fd)) (take k (bm_data b)))\<lparr>f_dirty := f_dirty f'\<rparr>"
      "os_fds os2 = os_fds os1" "quiet os1 \<longrightarrow> quiet os2"
      "n = int (length (bm_data b)) \<longrightarrow> k = length (bm_data b)"
      "quiet os1 \<and> of_wr x \<longrightarrow> n = int (length (bm_data b))" "\<not> of_wr x \<longrightarrow> k = 0"
      by (rule c_write_spec [OF wr on1])
    have run: "kes_bitmap_save (Some b) os fd off =
        Some (if n = int (length (bm_data b)) then KES_SUCCESS else KES_ERROR_IO, os2)"
      using fd sk wr True len bm_mem_bytes_small [OF mem] by (simp add: kes_bitmap_save_def)
    have pos: "os_pos os1 (nat fd) = nat off" using 1(2) True by simp
    show thesis
      by (rule that [OF run w(1) w(3) [unfolded pos]]) (use w 1 in \<open>auto simp: os_same_def\<close>)
  qed
qed

section \<open>Properties\<close>

lemma bm_ok_check:
  assumes "bm_mem b" "\<forall>i \<in> set [unat (bm_total_bits b)..<8 * length (bm_data b)]. \<not> mbit (bm_data b) i"
    and "unat (bm_free_bits b) + sum_list (map popcount_byte (bm_data b)) = unat (bm_total_bits b)"
  shows "bm_ok b"
proof -
  have sub: "mbits (bm_data b) \<subseteq> {..<unat (bm_total_bits b)}"
  proof
    fix i assume "i \<in> mbits (bm_data b)"
    then have m: "mbit (bm_data b) i" by (simp add: mbits_def)
    show "i \<in> {..<unat (bm_total_bits b)}"
    proof (rule ccontr)
      assume "i \<notin> {..<unat (bm_total_bits b)}"
      then have "i \<in> set [unat (bm_total_bits b)..<8 * length (bm_data b)]"
        using mbit_bound [OF m] by simp
      with assms(2) m show False by blast
    qed
  qed
  then have "bm_used b = mbits (bm_data b)" by (auto simp: bm_used_def mbits_def)
  then have "card (bm_used b) = sum_list (map popcount_byte (bm_data b))"
    by (simp add: card_mbits popcount_byte_weight [abs_def])
  then show ?thesis using assms(1,3) sub by (simp add: bm_ok_def)
qed

text \<open>A bitmap of ten blocks with the first three and the sixth in use.\<close>

definition sample_bitmap :: kes_bitmap where
  "sample_bitmap = \<lparr>bm_data = [39, 0], bm_total_bits = 10, bm_total_bytes = 2, bm_free_bits = 6,
     bm_search_hint = 0\<rparr>"

lemma sample_bitmap_ok: "bm_ok sample_bitmap"
proof (rule bm_ok_check)
  show "bm_mem sample_bitmap" by (simp add: sample_bitmap_def bm_mem_def)
  show "\<forall>i \<in> set [unat (bm_total_bits sample_bitmap)..<8 * length (bm_data sample_bitmap)].
      \<not> mbit (bm_data sample_bitmap) i"
    by (auto simp: sample_bitmap_def mbit_Cons)
  show "unat (bm_free_bits sample_bitmap) + sum_list (map popcount_byte (bm_data sample_bitmap)) =
      unat (bm_total_bits sample_bitmap)"
    by (simp add: sample_bitmap_def popcount_byte_def popcount_table_def)
qed

text \<open>
  C11. Searching a well-formed bitmap for \<open>n > 0\<close> contiguous free blocks always returns, without
  touching memory outside the bitmap. Either it reports success with the first free run at or
  after the (clamped) hint, or the first free run of all when there is none after the hint, and
  only the search hint of the bitmap changes; or it reports \<open>KES_ERROR_NOSPACE\<close>, changes
  nothing, and there is no free run of that length anywhere.
\<close>

theorem bitmap_find_free_correct:
  assumes "bm_ok b" "n \<noteq> 0"
  shows "(\<exists>s. kes_bitmap_find_free (Some b) n hint True =
              Some (KES_SUCCESS, Some s, Some (b\<lparr>bm_search_hint := s + ucast n\<rparr>)) \<and>
            next_fit b (unat n) (search_start b hint) (unat s)) \<or>
         (kes_bitmap_find_free (Some b) n hint True = Some (KES_ERROR_NOSPACE, None, Some b) \<and>
            (\<forall>j. \<not> free_at b (unat n) j))"
  using find_free_cases [OF assms refl] .

theorem bitmap_find_free_correct_witness:
  "bm_ok sample_bitmap \<and> (3 :: u32) \<noteq> 0 \<and>
   ((\<exists>s. kes_bitmap_find_free (Some sample_bitmap) 3 0 True =
          Some (KES_SUCCESS, Some s, Some (sample_bitmap\<lparr>bm_search_hint := s + ucast (3 :: u32)\<rparr>)) \<and>
        next_fit sample_bitmap (unat (3 :: u32)) (search_start sample_bitmap 0) (unat s)) \<or>
    (kes_bitmap_find_free (Some sample_bitmap) 3 0 True = Some (KES_ERROR_NOSPACE, None, Some sample_bitmap) \<and>
        (\<forall>j. \<not> free_at sample_bitmap (unat (3 :: u32)) j)))"
  using bitmap_find_free_correct [OF sample_bitmap_ok, of 3 0] sample_bitmap_ok by simp

text \<open>
  C12. Marking and releasing a range refine set union and set difference on the set of used
  blocks: for a well-formed bitmap, a range inside it is added to (removed from) the used blocks,
  the free-block counter and the rest of the invariant stay exact, and a range that does not fit
  is refused with \<open>KES_ERROR_INVALID\<close> and no change. Neither call touches memory outside the
  bitmap.
\<close>

theorem bitmap_range_refines_sets:
  assumes "bm_ok b"
  shows "if unat s < unat (bm_total_bits b) \<and> unat s + unat n \<le> unat (bm_total_bits b)
    then (\<exists>b'. kes_bitmap_set_range (Some b) s n = Some (KES_SUCCESS, Some b') \<and> bm_ok b' \<and>
            bm_used b' = bm_used b \<union> blocks s n \<and> bm_shape b' = bm_shape b) \<and>
         (\<exists>b'. kes_bitmap_clear_range (Some b) s n = Some (KES_SUCCESS, Some b') \<and> bm_ok b' \<and>
            bm_used b' = bm_used b - blocks s n \<and> bm_shape b' = bm_shape b)
    else kes_bitmap_set_range (Some b) s n = Some (KES_ERROR_INVALID, Some b) \<and>
         kes_bitmap_clear_range (Some b) s n = Some (KES_ERROR_INVALID, Some b)"
  using kes_bitmap_set_range_spec [OF assms] kes_bitmap_clear_range_spec [OF assms]
    kes_bitmap_range_invalid [OF bm_ok_mem [OF assms]]
  by simp

theorem bitmap_range_refines_sets_witness:
  "bm_ok sample_bitmap \<and>
   (\<exists>b'. kes_bitmap_set_range (Some sample_bitmap) 6 4 = Some (KES_SUCCESS, Some b') \<and> bm_ok b' \<and>
      bm_used b' = bm_used sample_bitmap \<union> blocks 6 4) \<and>
   kes_bitmap_set_range (Some sample_bitmap) 6 5 = Some (KES_ERROR_INVALID, Some sample_bitmap)"
  using bitmap_range_refines_sets [OF sample_bitmap_ok, of 6 4]
    bitmap_range_refines_sets [OF sample_bitmap_ok, of 6 5] sample_bitmap_ok
  by (auto simp: sample_bitmap_def)

text \<open>
  C26. The population table and the byte-wise count agree with the definition of a set bit:
  \<open>popcount_byte\<close> is the number of set bits of its argument, and \<open>count_used_bits\<close> returns the
  number of set bits of the whole buffer (modulo the width of its counter).
\<close>

theorem bitmap_count_correct:
  assumes "bm_mem b"
  shows "(\<forall>x. popcount_byte x = card {i. i < 8 \<and> bit x i}) \<and>
    count_used_bits b = Some (of_nat (card (mbits (bm_data b))))"
  using count_used_bits_spec [of b] assms popcount_byte_weight
  by (simp add: bm_mem_def byte_weight_def)

theorem bitmap_count_correct_witness:
  "bm_mem sample_bitmap \<and> count_used_bits sample_bitmap = Some (of_nat (card (mbits [39, 0])))"
  using bitmap_count_correct [OF bm_ok_mem [OF sample_bitmap_ok]] bm_ok_mem [OF sample_bitmap_ok]
  by (simp add: sample_bitmap_def)

text \<open>
  C27. Saving a bitmap and loading it into any bitmap of the same size gives back the same bits and
  the same free-block count, when no I/O call fails.
\<close>

theorem bitmap_save_load_roundtrip:
  assumes "bm_ok b" "bm_mem b0" "bm_total_bits b0 = bm_total_bits b" "bm_total_bits b \<noteq> 0"
    and "fd_on os fd x f" "of_rd x" "of_wr x" "quiet os" "0 \<le> off"
  shows "\<exists>os1 os2 b1. kes_bitmap_save (Some b) os fd off = Some (KES_SUCCESS, os1) \<and>
    kes_bitmap_load (Some b0) os1 fd off = Some (KES_SUCCESS, Some b1, os2) \<and>
    bm_ok b1 \<and> bm_data b1 = bm_data b \<and> bm_free_bits b1 = bm_free_bits b"
proof -
  note mem = bm_ok_mem [OF assms(1)]
  have len: "unat (bm_total_bytes b0) = length (bm_data b)" "0 < length (bm_data b)"
    using mem assms(2-4) unat_gt_0 [of "bm_total_bits b"] by (auto simp: bm_mem_def)
  obtain r k f' os1 where sv: "kes_bitmap_save (Some b) os fd off = Some (r, os1)"
    "f' = (fwrite f (nat off) (take k (bm_data b)))\<lparr>f_dirty := f_dirty f'\<rparr>"
    "os_files os1 = (os_files os)(of_path x \<mapsto> f')" "os_fds os1 = os_fds os" "quiet os \<longrightarrow> quiet os1"
    "r = KES_SUCCESS \<longrightarrow> k = length (bm_data b)" "quiet os \<and> of_wr x \<longrightarrow> r = KES_SUCCESS"
    by (rule kes_bitmap_save_spec [OF mem assms(5,9)])
  then have r: "r = KES_SUCCESS" "k = length (bm_data b)" "quiet os1" using assms(7,8) by auto
  have "f_holds (fwrite f (nat off) (bm_data b)) (nat off) (bm_data b)"
    using len(2) by (intro disk.wr_same) auto
  moreover have "f' = (fwrite f (nat off) (bm_data b))\<lparr>f_dirty := f_dirty f'\<rparr>" using sv(2) r(2) by simp
  ultimately have h: "f_holds f' (nat off) (bm_data b)"
    by (metis (no_types, lifting) f_holds_def ofile.select_convs(1,2) ofile.surjective ofile.update_convs(3))
  have on1: "fd_on os1 fd x f'"
    using assms(5) sv(3,4) by (simp add: fd_on_def fd_get_same [of os1 os])
  obtain r1 b1 os2 where ld: "kes_bitmap_load (Some b0) os1 fd off = Some (r1, Some b1, os2)"
    "bm_mem b1" "bm_shape b1 = bm_shape b0"
    "r1 = KES_SUCCESS \<Longrightarrow> f_holds f' (nat off) (bm_data b1) \<and>
       (mbits (bm_data b1) \<subseteq> {..<unat (bm_total_bits b0)} \<longrightarrow> bm_ok b1)"
    "\<And>bs. quiet os1 \<Longrightarrow> f_holds f' (nat off) bs \<Longrightarrow> length bs = unat (bm_total_bytes b0) \<Longrightarrow>
       r1 = KES_SUCCESS \<and> bm_data b1 = bs"
    by (rule kes_bitmap_load_spec [OF assms(2) on1 assms(6,9)]) (use len in auto)
  have d: "r1 = KES_SUCCESS" "bm_data b1 = bm_data b" using ld(5) [OF r(3) h] len by simp_all
  have ok1: "bm_ok b1" using ld(4) d assms(1,3) by (simp add: bm_ok_def)
  have "bm_total_bits b1 = bm_total_bits b" using ld(3) assms(3) by (simp add: bm_shape_def)
  then have "unat (bm_free_bits b1) = unat (bm_free_bits b)"
    using ok1 assms(1) d(2) bm_used_cong [of b1 b] by (auto simp: bm_ok_def)
  then have "bm_free_bits b1 = bm_free_bits b" by (rule unsigned_word_eqI)
  with sv(1) ld(1) r d ok1 show ?thesis by blast
qed

definition sample_os :: os where
  "sample_os = \<lparr>os_files = [''dev'' \<mapsto> empty_file],
     os_fds = [Some \<lparr>of_path = ''dev'', of_rd = True, of_wr = True, of_sync = False, of_lock = LOCK_UN\<rparr>],
     os_pos = (\<lambda>_. 0), os_sched = []\<rparr>"

lemma sample_os_fd:
  "fd_on sample_os 0 \<lparr>of_path = ''dev'', of_rd = True, of_wr = True, of_sync = False, of_lock = LOCK_UN\<rparr> empty_file"
  "quiet sample_os"
  by (simp_all add: sample_os_def fd_on_def fd_get_def quiet_def)

theorem bitmap_save_load_roundtrip_witness:
  "bm_ok sample_bitmap \<and> quiet sample_os \<and>
   (\<exists>os1 os2 b1. kes_bitmap_save (Some sample_bitmap) sample_os 0 64 = Some (KES_SUCCESS, os1) \<and>
      kes_bitmap_load (Some (sample_bitmap\<lparr>bm_data := [0, 0]\<rparr>)) os1 0 64 = Some (KES_SUCCESS, Some b1, os2) \<and>
      bm_data b1 = [39, 0])"
proof -
  have "bm_mem (sample_bitmap\<lparr>bm_data := [0, 0]\<rparr>)" by (simp add: sample_bitmap_def bm_mem_def)
  then show ?thesis
    using bitmap_save_load_roundtrip [OF sample_bitmap_ok, of "sample_bitmap\<lparr>bm_data := [0, 0]\<rparr>",
        OF _ _ _ sample_os_fd(1), of 64] sample_bitmap_ok sample_os_fd(2)
    by (auto simp: sample_bitmap_def)
qed

end
