(* ===== verification/Kes_Storage.thy ===== *)
theory Kes_Storage
  imports Kes_Bitmap
begin

text \<open>
  The storage layer (\<open>src/kes_storage.c\<close>, \<open>include/kes/kes_storage.h\<close>): one definition per
  function, over the handle \<open>kes_storage_t\<close> and the operating system state. Every call takes
  the operating system state and returns the new one; \<open>None\<close> is undefined behaviour or a call
  that does not return (a lock that is never released). NULL pointers are \<open>None\<close> arguments.
  Trace output is left out. The blocks that several functions repeat verbatim (reload from
  disk, persist to disk) are named once.
\<close>

section \<open>The handle\<close>

text \<open>\<open>sto_lock\<close> tells whether the storage-wide mutex is held.\<close>

record kes_storage =
  sto_fd :: int
  sto_desc :: kes_storage_descriptor
  sto_bitmap :: "kes_bitmap option"
  sto_strategy :: kes_allocation_strategy
  sto_lock :: bool
  sto_stats :: kes_storage_stats
  sto_readonly :: bool
  sto_sync_writes :: bool

definition zero_desc :: kes_storage_descriptor where
  "zero_desc = \<lparr>d_magic = 0, d_version_major = 0, d_version_minor = 0, d_block_size = 0, d_pad = 0,
     d_total_blocks = 0, d_bitmap_start_block = 0, d_bitmap_blocks = 0, d_user_start_block = 0,
     d_user_blocks = 0, d_free_blocks = 0, d_used_blocks = 0, d_next_extent_id = 0,
     d_bitmap_checksum = 0, d_reserved = replicate 28 0\<rparr>"

definition zero_stats :: kes_storage_stats where
  "zero_stats = \<lparr>st_total_blocks = 0, st_free_blocks = 0, st_used_blocks = 0,
     st_allocated_extents = 0, st_fragmentation = 0, st_reads_completed = 0,
     st_writes_completed = 0, st_bytes_read = 0, st_bytes_written = 0\<rparr>"

text \<open>The zeroed struct that \<open>calloc\<close> returns.\<close>

definition zero_storage :: kes_storage where
  "zero_storage = \<lparr>sto_fd = 0, sto_desc = zero_desc, sto_bitmap = None,
     sto_strategy = KES_ALLOC_FIRST_FIT, sto_lock = False, sto_stats = zero_stats,
     sto_readonly = False, sto_sync_writes = False\<rparr>"

definition pthread_mutex_lock :: "kes_storage \<Rightarrow> kes_storage option" where
  "pthread_mutex_lock s = (if sto_lock s then None else Some (s\<lparr>sto_lock := True\<rparr>))"

definition pthread_mutex_unlock :: "kes_storage \<Rightarrow> kes_storage option" where
  "pthread_mutex_unlock s = (if sto_lock s then Some (s\<lparr>sto_lock := False\<rparr>) else None)"

section \<open>The descriptor on disk\<close>

text \<open>The image of \<open>kes_storage_descriptor_t\<close>: \<open>sizeof\<close> is 112.\<close>

definition enc_desc :: "kes_storage_descriptor \<Rightarrow> u8 list" where
  "enc_desc d = le_bytes 4 (d_magic d) @ le_bytes 2 (d_version_major d) @
     le_bytes 2 (d_version_minor d) @ le_bytes 4 (d_block_size d) @ le_bytes 4 (d_pad d) @
     le_bytes 8 (d_total_blocks d) @ le_bytes 8 (d_bitmap_start_block d) @
     le_bytes 8 (d_bitmap_blocks d) @ le_bytes 8 (d_user_start_block d) @
     le_bytes 8 (d_user_blocks d) @ le_bytes 8 (d_free_blocks d) @ le_bytes 8 (d_used_blocks d) @
     le_bytes 8 (d_next_extent_id d) @ le_bytes 4 (d_bitmap_checksum d) @ d_reserved d"

definition field :: "u8 list \<Rightarrow> nat \<Rightarrow> nat \<Rightarrow> 'a::len word" where
  "field bs off n = le_word (take n (drop off bs))"

definition dec_desc :: "u8 list \<Rightarrow> kes_storage_descriptor" where
  "dec_desc bs = \<lparr>d_magic = field bs 0 4, d_version_major = field bs 4 2,
     d_version_minor = field bs 6 2, d_block_size = field bs 8 4, d_pad = field bs 12 4,
     d_total_blocks = field bs 16 8, d_bitmap_start_block = field bs 24 8,
     d_bitmap_blocks = field bs 32 8, d_user_start_block = field bs 40 8,
     d_user_blocks = field bs 48 8, d_free_blocks = field bs 56 8, d_used_blocks = field bs 64 8,
     d_next_extent_id = field bs 72 8, d_bitmap_checksum = field bs 80 4,
     d_reserved = drop 84 bs\<rparr>"

definition load_storage_descriptor :: "kes_storage \<Rightarrow> os \<Rightarrow> int \<times> kes_storage \<times> os" where
  "load_storage_descriptor s os =
    (let (pos, os1) = c_lseek os (sto_fd s) 0 in
     if pos \<noteq> 0 then (KES_ERROR_IO, s, os1)
     else let (bytes_read, bs, os2) = c_read os1 (sto_fd s) 112;
              s1 = s\<lparr>sto_desc := dec_desc (overlay bs (enc_desc (sto_desc s)))\<rparr> in
     if bytes_read \<noteq> 112 then (KES_ERROR_IO, s1, os2)
     else if d_magic (sto_desc s1) \<noteq> KES_MAGIC_NUMBER then (KES_ERROR_CORRUPT, s1, os2)
     else if d_version_major (sto_desc s1) \<noteq> KES_VERSION_MAJOR then (KES_ERROR_CORRUPT, s1, os2)
     else (KES_SUCCESS, s1, os2))"

definition save_storage_descriptor :: "kes_storage \<Rightarrow> os \<Rightarrow> int \<times> os" where
  "save_storage_descriptor s os =
    (let (pos, os1) = c_lseek os (sto_fd s) 0 in
     if pos \<noteq> 0 then (KES_ERROR_IO, os1)
     else let (bytes_written, os2) = c_write os1 (sto_fd s) (enc_desc (sto_desc s)) in
     if bytes_written \<noteq> 112 then (KES_ERROR_IO, os2)
     else (KES_SUCCESS, os2))"

text \<open>\<open>off_t bitmap_offset = desc.bitmap_start_block * desc.block_size\<close>: a \<open>uint64_t\<close> product
  converted to a signed offset.\<close>

definition bitmap_offset :: "kes_storage_descriptor \<Rightarrow> int" where
  "bitmap_offset d = sint (d_bitmap_start_block d * ucast (d_block_size d))"

section \<open>Configuration and layout\<close>

definition validate_config :: "kes_storage_config option \<Rightarrow> int" where
  "validate_config config = (case config of None \<Rightarrow> KES_ERROR_INVALID | Some c \<Rightarrow>
     if cfg_device_path c = None then KES_ERROR_INVALID
     else if \<not> KES_IS_POWER_OF_2 (cfg_block_size c) \<or> cfg_block_size c < KES_MIN_BLOCK_SIZE \<or>
       cfg_block_size c > KES_MAX_BLOCK_SIZE then KES_ERROR_INVALID
     else if cfg_device_size c < ucast (cfg_block_size c * 10) then KES_ERROR_INVALID
     else if cfg_strategy c \<noteq> KES_ALLOC_FIRST_FIT then KES_ERROR_INVALID
     else KES_SUCCESS)"

definition kes_config_validate :: "kes_storage_config option \<Rightarrow> int" where
  "kes_config_validate config = validate_config config"

definition calculate_bitmap_blocks :: "u64 \<Rightarrow> u32 \<Rightarrow> u64" where
  "calculate_bitmap_blocks total_blocks block_size =
    (let bitmap_bytes = (total_blocks + 7) div 8
     in (bitmap_bytes + ucast block_size - 1) div ucast block_size)"

definition init_storage_descriptor :: "kes_storage \<Rightarrow> u64 \<Rightarrow> int \<times> kes_storage" where
  "init_storage_descriptor s sz =
    (let total = sz div ucast KES_DEFAULT_BLOCK_SIZE;
         bitmap_blocks = calculate_bitmap_blocks total KES_DEFAULT_BLOCK_SIZE;
         bitmap_start = total - bitmap_blocks;
         user_blocks = bitmap_start - 1
     in (KES_SUCCESS, s\<lparr>sto_desc := (sto_desc s)\<lparr>
          d_magic := KES_MAGIC_NUMBER, d_version_major := KES_VERSION_MAJOR,
          d_version_minor := KES_VERSION_MINOR, d_block_size := KES_DEFAULT_BLOCK_SIZE,
          d_total_blocks := total, d_bitmap_start_block := bitmap_start,
          d_bitmap_blocks := bitmap_blocks, d_user_start_block := 1,
          d_user_blocks := user_blocks, d_free_blocks := user_blocks, d_used_blocks := 0,
          d_next_extent_id := 1\<rparr>\<rparr>))"

section \<open>Lifecycle\<close>

text \<open>The checksum step: \<open>kes_bitmap_checksum\<close> and, when it succeeds, the assignment to
  \<open>desc.bitmap_checksum\<close>.\<close>

definition refresh_checksum ::
    "(u32 \<Rightarrow> u8 list \<Rightarrow> u32) \<Rightarrow> kes_storage \<Rightarrow> (int \<times> kes_storage) option" where
  "refresh_checksum crc s = do {
     (result, ck) \<leftarrow> kes_bitmap_checksum crc (sto_bitmap s) True;
     Some (result, case ck of
        Some c \<Rightarrow> s\<lparr>sto_desc := (sto_desc s)\<lparr>d_bitmap_checksum := c\<rparr>\<rparr>
      | None \<Rightarrow> s) }"

text \<open>The part of \<open>kes_storage_create\<close> after the file is open: descriptor, bitmap, checksum, and both
  written out. On every error path the file is closed.\<close>

definition create_layout ::
    "(u32 \<Rightarrow> u8 list \<Rightarrow> u32) \<Rightarrow> kes_storage \<Rightarrow> u64 \<Rightarrow> os \<Rightarrow> (int \<times> kes_storage option \<times> os) option" where
  "create_layout crc s0 device_size os3 =
    (let fd = sto_fd s0; (result, s1) = init_storage_descriptor s0 device_size in
     if result \<noteq> KES_SUCCESS then Some (result, None, c_close os3 fd)
     else let (result, bm, os4) = kes_bitmap_create os3 (d_user_blocks (sto_desc s1)) True in
     if result \<noteq> KES_SUCCESS then Some (result, None, c_close os4 fd)
     else do {
       (result, s2) \<leftarrow> refresh_checksum crc (s1\<lparr>sto_bitmap := bm\<rparr>);
       if result \<noteq> KES_SUCCESS then Some (result, None, c_close os4 fd)
       else do {
         (result, os5) \<leftarrow> kes_bitmap_save (sto_bitmap s2) os4 fd (bitmap_offset (sto_desc s2));
         if result \<noteq> KES_SUCCESS then Some (result, None, c_close os5 fd)
         else let (result, os6) = save_storage_descriptor s2 os5 in
         if result \<noteq> KES_SUCCESS then Some (result, None, c_close os6 fd)
         else Some (KES_SUCCESS, Some s2, os6) } })"

text \<open>\<open>kes_storage_create\<close>. On every error path the bitmap and the handle are freed and the file
  is closed; no handle is returned.\<close>

definition kes_storage_create ::
    "(u32 \<Rightarrow> u8 list \<Rightarrow> u32) \<Rightarrow> os \<Rightarrow> kes_storage_config option \<Rightarrow> bool \<Rightarrow>
     (int \<times> kes_storage option \<times> os) option" where
  "kes_storage_create crc os config outp = (case config of
     None \<Rightarrow> Some (KES_ERROR_INVALID, None, os)
   | Some c \<Rightarrow> if \<not> outp then Some (KES_ERROR_INVALID, None, os)
     else let result = validate_config config in
     if result \<noteq> KES_SUCCESS then Some (result, None, os)
     else let (ok1, os1) = c_alloc os in
     if \<not> ok1 then Some (KES_ERROR_NOMEM, None, os1)
     else let (ok2, os2) = c_alloc os1 in
     if \<not> ok2 then Some (KES_ERROR_NOMEM, None, os2)
     else case cfg_device_path c of None \<Rightarrow> None | Some path \<Rightarrow>
       let (fd, os3) = c_open os2 path True (cfg_flags c AND KES_STORAGE_CREATE \<noteq> 0)
             (cfg_flags c AND KES_STORAGE_TRUNCATE \<noteq> 0) (cfg_flags c AND KES_STORAGE_SYNC \<noteq> 0) in
     if fd < 0 then Some (KES_ERROR_IO, None, os3)
     else let s0 = zero_storage\<lparr>sto_fd := fd, sto_strategy := cfg_strategy c,
             sto_readonly := (cfg_flags c AND KES_STORAGE_READONLY \<noteq> 0),
             sto_sync_writes := (cfg_flags c AND KES_STORAGE_SYNC \<noteq> 0)\<rparr> in
     create_layout crc s0 (cfg_device_size c) os3)"

text \<open>Leaving \<open>kes_storage_open\<close> on an error: unlock, close and free.\<close>

definition open_fail :: "int \<Rightarrow> int \<Rightarrow> os \<Rightarrow> (int \<times> kes_storage option \<times> os) option" where
  "open_fail result fd os = do { (rc, os1) \<leftarrow> c_flock os fd LOCK_UN; Some (result, None, c_close os1 fd) }"

text \<open>The part of \<open>kes_storage_open\<close> that runs under the shared lock.\<close>

definition open_load ::
    "(u32 \<Rightarrow> u8 list \<Rightarrow> u32) \<Rightarrow> kes_storage \<Rightarrow> os \<Rightarrow> (int \<times> kes_storage option \<times> os) option" where
  "open_load crc s0 os4 = (let fd = sto_fd s0; (result, s1, os5) = load_storage_descriptor s0 os4 in
     if result \<noteq> KES_SUCCESS then open_fail result fd os5
     else let (result, bm, os6) = kes_bitmap_create os5 (d_user_blocks (sto_desc s1)) True in
     if result \<noteq> KES_SUCCESS then open_fail result fd os6
     else do {
       (result, bm1, os7) \<leftarrow> kes_bitmap_load bm os6 fd (bitmap_offset (sto_desc s1));
       if result \<noteq> KES_SUCCESS then open_fail result fd os7
       else do {
         (result, ck) \<leftarrow> kes_bitmap_checksum crc bm1 True;
         let result = (if result = KES_SUCCESS \<and> ck \<noteq> Some (d_bitmap_checksum (sto_desc s1))
                       then KES_ERROR_CORRUPT else result);
         if result \<noteq> KES_SUCCESS then open_fail result fd os7
         else do {
           (rc, os8) \<leftarrow> c_flock os7 fd LOCK_UN;
           Some (KES_SUCCESS, Some (s1\<lparr>sto_bitmap := bm1\<rparr>), os8) } } })"

definition kes_storage_open ::
    "(u32 \<Rightarrow> u8 list \<Rightarrow> u32) \<Rightarrow> os \<Rightarrow> string option \<Rightarrow> u32 \<Rightarrow> bool \<Rightarrow>
     (int \<times> kes_storage option \<times> os) option" where
  "kes_storage_open crc os device_path flags outp = (case device_path of
     None \<Rightarrow> Some (KES_ERROR_INVALID, None, os)
   | Some path \<Rightarrow> if \<not> outp then Some (KES_ERROR_INVALID, None, os)
     else let (ok1, os1) = c_alloc os in
     if \<not> ok1 then Some (KES_ERROR_NOMEM, None, os1)
     else let (ok2, os2) = c_alloc os1 in
     if \<not> ok2 then Some (KES_ERROR_NOMEM, None, os2)
     else let (fd, os3) = c_open os2 path (\<not> (flags AND KES_STORAGE_READONLY \<noteq> 0)) False False
             (flags AND KES_STORAGE_SYNC \<noteq> 0) in
     if fd < 0 then Some (KES_ERROR_IO, None, os3)
     else let s0 = zero_storage\<lparr>sto_fd := fd, sto_readonly := (flags AND KES_STORAGE_READONLY \<noteq> 0),
             sto_sync_writes := (flags AND KES_STORAGE_SYNC \<noteq> 0),
             sto_strategy := KES_ALLOC_FIRST_FIT\<rparr> in do {
       (rc, os4) \<leftarrow> c_flock os3 fd LOCK_SH;
       if rc \<noteq> 0 then Some (KES_ERROR_IO, None, c_close os4 fd)
       else open_load crc s0 os4 })"

text \<open>The reload that \<open>kes_storage_sync\<close>, \<open>kes_extent_allocate\<close> and \<open>kes_extent_free\<close> do under
  the file lock: the descriptor and, when that worked, the bitmap.\<close>

definition reload :: "kes_storage \<Rightarrow> os \<Rightarrow> (int \<times> kes_storage \<times> os) option" where
  "reload s os = (let (result, s1, os1) = load_storage_descriptor s os in
     if result \<noteq> KES_SUCCESS then Some (result, s1, os1)
     else do {
       (result, bm, os2) \<leftarrow> kes_bitmap_load (sto_bitmap s1) os1 (sto_fd s1) (bitmap_offset (sto_desc s1));
       Some (result, s1\<lparr>sto_bitmap := bm\<rparr>, os2) })"

text \<open>Persisting: the bitmap, its checksum, the descriptor, then \<open>fsync\<close>; it stops at the first
  error.\<close>

definition persist ::
    "(u32 \<Rightarrow> u8 list \<Rightarrow> u32) \<Rightarrow> kes_storage \<Rightarrow> os \<Rightarrow> (int \<times> kes_storage \<times> os) option" where
  "persist crc s os = do {
     (result, os1) \<leftarrow> kes_bitmap_save (sto_bitmap s) os (sto_fd s) (bitmap_offset (sto_desc s));
     if result \<noteq> KES_SUCCESS then Some (result, s, os1)
     else do {
       (result, s1) \<leftarrow> refresh_checksum crc s;
       if result \<noteq> KES_SUCCESS then Some (result, s1, os1)
       else let (result, os2) = save_storage_descriptor s1 os1 in
       if result \<noteq> KES_SUCCESS then Some (result, s1, os2)
       else let (rc, os3) = c_fsync os2 (sto_fd s1) in
         Some (if rc \<noteq> 0 then KES_ERROR_IO else KES_SUCCESS, s1, os3) } }"

text \<open>Leaving an operation: the file lock and the mutex are released.\<close>

definition unlock_all :: "kes_storage \<Rightarrow> os \<Rightarrow> (kes_storage \<times> os) option" where
  "unlock_all s os = do {
     (rc, os1) \<leftarrow> c_flock os (sto_fd s) LOCK_UN;
     s1 \<leftarrow> pthread_mutex_unlock s;
     Some (s1, os1) }"

text \<open>\<open>kes_storage_close\<close> ignores the results of its reload, save and \<open>fsync\<close> steps.\<close>

definition close_writeback ::
    "(u32 \<Rightarrow> u8 list \<Rightarrow> u32) \<Rightarrow> kes_storage \<Rightarrow> os \<Rightarrow> os option" where
  "close_writeback crc s os = do {
     (result, s2, os2) \<leftarrow> reload s os;
     (result, os3) \<leftarrow> kes_bitmap_save (sto_bitmap s2) os2 (sto_fd s2) (bitmap_offset (sto_desc s2));
     (result, s3) \<leftarrow> refresh_checksum crc s2;
     let (result, os4) = save_storage_descriptor s3 os3;
     let (rc, os5) = c_fsync os4 (sto_fd s3);
     (rc, os6) \<leftarrow> c_flock os5 (sto_fd s3) LOCK_UN;
     Some os6 }"

definition kes_storage_close ::
    "(u32 \<Rightarrow> u8 list \<Rightarrow> u32) \<Rightarrow> kes_storage option \<Rightarrow> os \<Rightarrow> (int \<times> os) option" where
  "kes_storage_close crc st os = (case st of None \<Rightarrow> Some (KES_ERROR_INVALID, os) | Some s \<Rightarrow> do {
     s1 \<leftarrow> pthread_mutex_lock s;
     os3 \<leftarrow> (if \<not> sto_readonly s1 then do {
              (rc, os1) \<leftarrow> c_flock os (sto_fd s1) LOCK_EX;
              if rc = 0 then close_writeback crc s1 os1 else Some os1 }
            else Some os);
     Some (KES_SUCCESS, c_close os3 (sto_fd s1)) })"

definition kes_storage_sync ::
    "(u32 \<Rightarrow> u8 list \<Rightarrow> u32) \<Rightarrow> kes_storage option \<Rightarrow> os \<Rightarrow>
     (int \<times> kes_storage option \<times> os) option" where
  "kes_storage_sync crc st os = (case st of None \<Rightarrow> Some (KES_ERROR_INVALID, None, os) | Some s \<Rightarrow>
     if sto_readonly s then Some (KES_ERROR_INVALID, Some s, os)
     else do {
       s1 \<leftarrow> pthread_mutex_lock s;
       (rc, os1) \<leftarrow> c_flock os (sto_fd s1) LOCK_EX;
       if rc \<noteq> 0 then do { s2 \<leftarrow> pthread_mutex_unlock s1; Some (KES_ERROR_IO, Some s2, os1) }
       else do {
         (result, s2, os2) \<leftarrow> reload s1 os1;
         (result, s3, os3) \<leftarrow> (if result = KES_SUCCESS then persist crc s2 os2
                               else Some (result, s2, os2));
         (s4, os4) \<leftarrow> unlock_all s3 os3;
         Some (result, Some s4, os4) } })"

section \<open>Extents\<close>

definition allocate_extent_first_fit ::
    "kes_storage \<Rightarrow> kes_extent_request \<Rightarrow> kes_extent_descriptor \<Rightarrow>
     (int \<times> kes_storage \<times> kes_extent_descriptor) option" where
  "allocate_extent_first_fit s request extent = do {
     (result, found, bm1) \<leftarrow> kes_bitmap_find_free (sto_bitmap s) (rq_block_count request)
        (rq_hint_block request) True;
     if result \<noteq> KES_SUCCESS then Some (result, s\<lparr>sto_bitmap := bm1\<rparr>, extent)
     else case found of None \<Rightarrow> None | Some found_start \<Rightarrow> do {
       (result, bm2) \<leftarrow> kes_bitmap_set_range bm1 found_start (rq_block_count request);
       if result \<noteq> KES_SUCCESS then Some (result, s\<lparr>sto_bitmap := bm2\<rparr>, extent)
       else Some (KES_SUCCESS, s\<lparr>sto_bitmap := bm2\<rparr>,
              extent\<lparr>x_start_block := found_start, x_block_count := rq_block_count request,
                     x_flags := rq_flags request, x_extent_id := 0\<rparr>) } }"

text \<open>The bookkeeping of a successful allocation; \<open>extent_id = ++next_extent_id\<close>.\<close>

definition note_allocation ::
    "kes_storage \<Rightarrow> kes_extent_request \<Rightarrow> kes_extent_descriptor \<Rightarrow> kes_storage \<times> kes_extent_descriptor" where
  "note_allocation s request extent =
    (let n = ucast (rq_block_count request) :: u64; d = sto_desc s;
         s1 = s\<lparr>sto_stats := (sto_stats s)\<lparr>st_allocated_extents := st_allocated_extents (sto_stats s) + 1\<rparr>,
           sto_desc := d\<lparr>d_used_blocks := d_used_blocks d + n, d_free_blocks := d_free_blocks d - n,
              d_next_extent_id := d_next_extent_id d + 1\<rparr>\<rparr>
     in (s1, extent\<lparr>x_extent_id := d_next_extent_id (sto_desc s1)\<rparr>))"

text \<open>Every allocation strategy falls through to first fit.\<close>

definition kes_extent_allocate ::
    "(u32 \<Rightarrow> u8 list \<Rightarrow> u32) \<Rightarrow> kes_storage option \<Rightarrow> kes_extent_request option \<Rightarrow>
     kes_extent_descriptor option \<Rightarrow> os \<Rightarrow>
     (int \<times> kes_storage option \<times> kes_extent_descriptor option \<times> os) option" where
  "kes_extent_allocate crc st req ext os = (case (st, req, ext) of
     (Some s, Some request, Some extent) \<Rightarrow>
       if sto_readonly s then Some (KES_ERROR_INVALID, st, ext, os)
       else if rq_block_count request = 0 then Some (KES_ERROR_INVALID, st, ext, os)
       else do {
         s1 \<leftarrow> pthread_mutex_lock s;
         (rc, os1) \<leftarrow> c_flock os (sto_fd s1) LOCK_EX;
         if rc \<noteq> 0 then do { s2 \<leftarrow> pthread_mutex_unlock s1; Some (KES_ERROR_IO, Some s2, ext, os1) }
         else do {
           (result, s2, os2) \<leftarrow> reload s1 os1;
           (result, s3, extent1) \<leftarrow>
             (if result = KES_SUCCESS then allocate_extent_first_fit s2 request extent
              else Some (result, s2, extent));
           (result, s4, extent2, os3) \<leftarrow>
             (if result = KES_SUCCESS then let (s', extent') = note_allocation s3 request extent1 in do {
                  (result, s'', os') \<leftarrow> persist crc s' os2;
                  Some (result, s'', extent', os') }
              else Some (result, s3, extent1, os2));
           (s5, os4) \<leftarrow> unlock_all s4 os3;
           Some (result, Some s5, Some extent2, os4) } }
   | _ \<Rightarrow> Some (KES_ERROR_INVALID, st, ext, os))"

text \<open>The loop that checks that every block of the extent is allocated.\<close>

fun all_allocated_loop :: "kes_bitmap option \<Rightarrow> u64 \<Rightarrow> u32 \<Rightarrow> nat \<Rightarrow> bool option" where
  "all_allocated_loop bm start i 0 = Some True"
| "all_allocated_loop bm start i (Suc k) = do {
     t \<leftarrow> kes_bitmap_test bm (start + ucast i);
     if \<not> t then Some False else all_allocated_loop bm start (i + 1) k }"

definition note_free :: "kes_storage \<Rightarrow> kes_extent_descriptor \<Rightarrow> kes_storage" where
  "note_free s extent =
    (let n = ucast (x_block_count extent) :: u64; d = sto_desc s
     in s\<lparr>sto_desc := d\<lparr>d_used_blocks := d_used_blocks d - n, d_free_blocks := d_free_blocks d + n\<rparr>,
          sto_stats := (sto_stats s)\<lparr>st_allocated_extents := st_allocated_extents (sto_stats s) - 1\<rparr>\<rparr>)"

definition kes_extent_free ::
    "(u32 \<Rightarrow> u8 list \<Rightarrow> u32) \<Rightarrow> kes_storage option \<Rightarrow> kes_extent_descriptor option \<Rightarrow> os \<Rightarrow>
     (int \<times> kes_storage option \<times> os) option" where
  "kes_extent_free crc st ext os = (case (st, ext) of
     (Some s, Some extent) \<Rightarrow>
       if sto_readonly s then Some (KES_ERROR_INVALID, st, os)
       else do {
         s1 \<leftarrow> pthread_mutex_lock s;
         (rc, os1) \<leftarrow> c_flock os (sto_fd s1) LOCK_EX;
         if rc \<noteq> 0 then do { s2 \<leftarrow> pthread_mutex_unlock s1; Some (KES_ERROR_IO, Some s2, os1) }
         else do {
           (result, s2, os2) \<leftarrow> reload s1 os1;
           if result \<noteq> KES_SUCCESS then do { (s3, os3) \<leftarrow> unlock_all s2 os2; Some (result, Some s3, os3) }
           else do {
             ok \<leftarrow> all_allocated_loop (sto_bitmap s2) (x_start_block extent) 0 (unat (x_block_count extent));
             if \<not> ok then do {
               (s3, os3) \<leftarrow> unlock_all s2 os2; Some (KES_ERROR_NOTFOUND, Some s3, os3) }
             else do {
               (result, bm) \<leftarrow> kes_bitmap_clear_range (sto_bitmap s2) (x_start_block extent)
                  (x_block_count extent);
               let s3 = s2\<lparr>sto_bitmap := bm\<rparr>;
               (result, s4, os4) \<leftarrow>
                 (if result = KES_SUCCESS then persist crc (note_free s3 extent) os2
                  else Some (result, s3, os2));
               (s5, os5) \<leftarrow> unlock_all s4 os4;
               Some (result, Some s5, os5) } } } }
   | _ \<Rightarrow> Some (KES_ERROR_INVALID, st, os))"

text \<open>Reading and writing: \<open>file_offset\<close> and the bounds check are computed in \<open>uint64_t\<close>; the
  buffer of a read is \<open>buf\<close> (\<open>None\<close> for NULL), of which \<open>sz\<close> bytes may be overwritten.\<close>

definition extent_file_offset :: "kes_storage_descriptor \<Rightarrow> kes_extent_descriptor \<Rightarrow> u64 \<Rightarrow> int" where
  "extent_file_offset d extent offset =
     sint ((d_user_start_block d + x_start_block extent) * ucast (d_block_size d) + offset)"

definition extent_size :: "kes_storage_descriptor \<Rightarrow> kes_extent_descriptor \<Rightarrow> u64" where
  "extent_size d extent = ucast (x_block_count extent) * ucast (d_block_size d)"

definition kes_extent_read ::
    "kes_storage option \<Rightarrow> kes_extent_descriptor option \<Rightarrow> u8 list option \<Rightarrow> u64 \<Rightarrow> u64 \<Rightarrow> os \<Rightarrow>
     (int \<times> kes_storage option \<times> u8 list option \<times> os) option" where
  "kes_extent_read st ext buf sz offset os = (case (st, ext, buf) of
     (Some s, Some extent, Some buffer) \<Rightarrow>
       let file_offset = extent_file_offset (sto_desc s) extent offset in
       if offset + sz > extent_size (sto_desc s) extent then Some (KES_ERROR_INVALID, st, buf, os)
       else do {
         s1 \<leftarrow> pthread_mutex_lock s;
         let (pos, os1) = c_lseek os (sto_fd s1) file_offset;
         if pos \<noteq> file_offset then do {
           s2 \<leftarrow> pthread_mutex_unlock s1; Some (KES_ERROR_IO, Some s2, buf, os1) }
         else do {
           let (bytes_read, bs, os2) = c_read os1 (sto_fd s1) (unat sz);
           if length bs > length buffer then None
           else let buf1 = Some (overlay bs buffer) in
           if bytes_read \<noteq> sint sz then do {
             s2 \<leftarrow> pthread_mutex_unlock s1; Some (KES_ERROR_IO, Some s2, buf1, os2) }
           else do {
             s2 \<leftarrow> pthread_mutex_unlock (s1\<lparr>sto_stats := (sto_stats s1)
                \<lparr>st_reads_completed := st_reads_completed (sto_stats s1) + 1,
                 st_bytes_read := st_bytes_read (sto_stats s1) + sz\<rparr>\<rparr>);
             Some (KES_SUCCESS, Some s2, buf1, os2) } } }
   | _ \<Rightarrow> Some (KES_ERROR_INVALID, st, buf, os))"

definition kes_extent_write ::
    "kes_storage option \<Rightarrow> kes_extent_descriptor option \<Rightarrow> u8 list option \<Rightarrow> u64 \<Rightarrow> u64 \<Rightarrow> os \<Rightarrow>
     (int \<times> kes_storage option \<times> os) option" where
  "kes_extent_write st ext buf sz offset os = (case (st, ext, buf) of
     (Some s, Some extent, Some buffer) \<Rightarrow>
       if sto_readonly s then Some (KES_ERROR_INVALID, st, os)
       else let file_offset = extent_file_offset (sto_desc s) extent offset in
       if offset + sz > extent_size (sto_desc s) extent then Some (KES_ERROR_INVALID, st, os)
       else do {
         s1 \<leftarrow> pthread_mutex_lock s;
         let (pos, os1) = c_lseek os (sto_fd s1) file_offset;
         if pos \<noteq> file_offset then do {
           s2 \<leftarrow> pthread_mutex_unlock s1; Some (KES_ERROR_IO, Some s2, os1) }
         else if unat sz > length buffer then None
         else do {
           let (bytes_written, os2) = c_write os1 (sto_fd s1) (take (unat sz) buffer);
           if bytes_written \<noteq> sint sz then do {
             s2 \<leftarrow> pthread_mutex_unlock s1; Some (KES_ERROR_IO, Some s2, os2) }
           else do {
             s2 \<leftarrow> pthread_mutex_unlock (s1\<lparr>sto_stats := (sto_stats s1)
                \<lparr>st_writes_completed := st_writes_completed (sto_stats s1) + 1,
                 st_bytes_written := st_bytes_written (sto_stats s1) + sz\<rparr>\<rparr>);
             Some (KES_SUCCESS, Some s2, os2) } } }
   | _ \<Rightarrow> Some (KES_ERROR_INVALID, st, os))"

section \<open>Information and utilities\<close>

definition kes_storage_get_descriptor ::
    "kes_storage option \<Rightarrow> bool \<Rightarrow> (int \<times> kes_storage option \<times> kes_storage_descriptor option) option" where
  "kes_storage_get_descriptor st outp = (case st of
     None \<Rightarrow> Some (KES_ERROR_INVALID, None, None)
   | Some s \<Rightarrow> if \<not> outp then Some (KES_ERROR_INVALID, st, None) else do {
       s1 \<leftarrow> pthread_mutex_lock s;
       s2 \<leftarrow> pthread_mutex_unlock s1;
       Some (KES_SUCCESS, Some s2, Some (sto_desc s1)) })"

definition kes_get_version :: "bool \<Rightarrow> bool \<Rightarrow> bool \<Rightarrow> u16 option \<times> u16 option \<times> u16 option" where
  "kes_get_version p_major p_minor p_patch =
    (if p_major then Some KES_VERSION_MAJOR else None,
     if p_minor then Some KES_VERSION_MINOR else None,
     if p_patch then Some KES_VERSION_PATCH else None)"

definition error_strings :: "string list" where
  "error_strings = [''Success'', ''Invalid parameters'', ''Out of memory'', ''Resource not found'',
     ''Resource already exists'', ''I/O error'', ''No space available'',
     ''Data corruption detected'', ''Resource busy'']"

text \<open>\<open>int\<close> has 32 bits: negating the smallest one is undefined.\<close>

definition kes_get_error_string :: "int \<Rightarrow> string option" where
  "kes_get_error_string error_code =
    (if error_code = - (2 ^ 31) then None
     else let index = - error_code in
       if index < 0 \<or> index \<ge> int (length error_strings) then Some ''Unknown error''
       else Some (error_strings ! nat index))"

definition kes_calculate_blocks_needed :: "u64 \<Rightarrow> u32 \<Rightarrow> u32 option" where
  "kes_calculate_blocks_needed byte_size block_size =
     map_option ucast (KES_BYTES_TO_BLOCKS byte_size (ucast block_size))"

definition kes_calculate_extent_size :: "kes_extent_descriptor option \<Rightarrow> u64" where
  "kes_calculate_extent_size ext = (case ext of None \<Rightarrow> 0
     | Some extent \<Rightarrow> ucast (x_block_count extent) * ucast KES_DEFAULT_BLOCK_SIZE)"

end
