(* ===== verification/Kes_Disk.thy ===== *)
theory Kes_Disk
  imports Kes_Storage
begin

text \<open>
  The on-disk format of a storage file: the descriptor image and its round trip, the layout that
  \<open>init_storage_descriptor\<close> chooses, what a file stores (descriptor, bitmap, used blocks), and what
  the reload and persist steps of the storage operations do to it, with and without I/O faults.
\<close>

section \<open>The descriptor image\<close>

definition desc_wf :: "kes_storage_descriptor \<Rightarrow> bool" where
  "desc_wf d \<longleftrightarrow> length (d_reserved d) = 28"

lemma length_enc_desc: "desc_wf d \<Longrightarrow> length (enc_desc d) = 112"
  by (simp add: enc_desc_def desc_wf_def)

lemma desc_wf_dec: "length bs = 112 \<Longrightarrow> desc_wf (dec_desc bs)"
  by (simp add: dec_desc_def desc_wf_def)

lemma dec_enc_desc: "desc_wf d \<Longrightarrow> dec_desc (enc_desc d) = d"
  by (simp add: dec_desc_def enc_desc_def field_def le_word_le_bytes desc_wf_def)

lemma slice_join: "take n (drop k xs) @ drop (k + n) xs = drop k xs"
  by (metis add.commute append_take_drop_id drop_drop)

lemma le_bytes_field:
  "off + n \<le> length bs \<Longrightarrow> 8 * n \<le> LENGTH('a) \<Longrightarrow>
    le_bytes n (field bs off n :: 'a::len word) = take n (drop off bs)"
  unfolding field_def by (rule le_bytes_le_word) simp_all

lemma enc_dec_desc:
  assumes "length bs = 112"
  shows "enc_desc (dec_desc bs) = bs"
  using assms slice_join [of 4 80 bs] slice_join [of 8 72 bs] slice_join [of 8 64 bs]
    slice_join [of 8 56 bs] slice_join [of 8 48 bs] slice_join [of 8 40 bs] slice_join [of 8 32 bs]
    slice_join [of 8 24 bs] slice_join [of 8 16 bs] slice_join [of 4 12 bs] slice_join [of 4 8 bs]
    slice_join [of 2 6 bs] slice_join [of 2 4 bs] slice_join [of 4 0 bs]
  by (simp add: enc_desc_def dec_desc_def le_bytes_field)

text \<open>The layout: the fields that are fixed when the file is created, bytes 0 to 55 of the image.\<close>

definition layout :: "kes_storage_descriptor \<Rightarrow> kes_storage_descriptor" where
  "layout d = d\<lparr>d_free_blocks := 0, d_used_blocks := 0, d_next_extent_id := 0,
     d_bitmap_checksum := 0, d_reserved := []\<rparr>"

lemma layout_fields:
  assumes "layout d = layout d'"
  shows "d_magic d = d_magic d'" "d_version_major d = d_version_major d'"
    "d_version_minor d = d_version_minor d'" "d_pad d = d_pad d'"
    "d_block_size d = d_block_size d'" "d_bitmap_start_block d = d_bitmap_start_block d'"
    "d_user_start_block d = d_user_start_block d'" "d_user_blocks d = d_user_blocks d'"
    "d_bitmap_blocks d = d_bitmap_blocks d'" "d_total_blocks d = d_total_blocks d'"
proof -
  have "d_magic (layout d) = d_magic (layout d')" "d_version_major (layout d) = d_version_major (layout d')"
    "d_version_minor (layout d) = d_version_minor (layout d')" "d_pad (layout d) = d_pad (layout d')"
    "d_block_size (layout d) = d_block_size (layout d')"
    "d_bitmap_start_block (layout d) = d_bitmap_start_block (layout d')"
    "d_user_start_block (layout d) = d_user_start_block (layout d')"
    "d_user_blocks (layout d) = d_user_blocks (layout d')"
    "d_bitmap_blocks (layout d) = d_bitmap_blocks (layout d')"
    "d_total_blocks (layout d) = d_total_blocks (layout d')"
    using assms by simp_all
  then show "d_magic d = d_magic d'" "d_version_major d = d_version_major d'"
    "d_version_minor d = d_version_minor d'" "d_pad d = d_pad d'"
    "d_block_size d = d_block_size d'" "d_bitmap_start_block d = d_bitmap_start_block d'"
    "d_user_start_block d = d_user_start_block d'" "d_user_blocks d = d_user_blocks d'"
    "d_bitmap_blocks d = d_bitmap_blocks d'" "d_total_blocks d = d_total_blocks d'"
    by (simp_all add: layout_def)
qed

lemma layout_updates [simp]:
  "layout (d\<lparr>d_free_blocks := a\<rparr>) = layout d" "layout (d\<lparr>d_used_blocks := a\<rparr>) = layout d"
  "layout (d\<lparr>d_next_extent_id := a\<rparr>) = layout d" "layout (d\<lparr>d_bitmap_checksum := c\<rparr>) = layout d"
  by (simp_all add: layout_def)

lemma desc_wf_updates [simp]:
  "desc_wf (d\<lparr>d_free_blocks := a\<rparr>) = desc_wf d" "desc_wf (d\<lparr>d_used_blocks := a\<rparr>) = desc_wf d"
  "desc_wf (d\<lparr>d_next_extent_id := a\<rparr>) = desc_wf d" "desc_wf (d\<lparr>d_bitmap_checksum := c\<rparr>) = desc_wf d"
  by (simp_all add: desc_wf_def)

lemma take_enc_layout: "layout d = layout d' \<Longrightarrow> take 56 (enc_desc d) = take 56 (enc_desc d')"
  using layout_fields [of d d'] by (simp add: enc_desc_def)

lemma take_drop_take: "off + n \<le> k \<Longrightarrow> take n (drop off bs) = take n (drop off (take k bs))"
  by (simp add: drop_take min_def)

lemma field_take:
  assumes "off + n \<le> 56" "take 56 bs = take 56 cs"
  shows "field bs off n = field cs off n"
  unfolding field_def take_drop_take [OF assms(1), of bs] take_drop_take [OF assms(1), of cs] assms(2) ..

lemma layout_dec_cong: "take 56 bs = take 56 cs \<Longrightarrow> layout (dec_desc bs) = layout (dec_desc cs)"
  by (simp add: layout_def dec_desc_def) (auto intro: field_take)

lemma layout_prefix_mix:
  assumes B: "length B = 112" and C: "length C = 112" and lay: "layout (dec_desc B) = layout (dec_desc C)"
  shows "layout (dec_desc (take m B @ drop m C)) = layout (dec_desc C)"
proof (rule layout_dec_cong)
  have eq: "take 56 B = take 56 C"
    using take_enc_layout [OF lay] by (simp add: enc_dec_desc B C)
  show "take 56 (take m B @ drop m C) = take 56 C"
  proof (cases "56 \<le> m")
    case True
    with eq show ?thesis by (simp add: min_def B)
  next
    case False
    then have "take m B = take m (take 56 B)" by (simp add: min_def)
    also have "\<dots> = take m C" using False by (simp add: eq min_def)
    finally show ?thesis by simp
  qed
qed

section \<open>The layout of a storage file\<close>

text \<open>\<open>block_bytes\<close>, \<open>bitmap_at\<close> and \<open>bitmap_len\<close>: the block size, the byte offset of the bitmap and
  its length in bytes, as natural numbers.\<close>

definition block_bytes :: "kes_storage_descriptor \<Rightarrow> nat" where
  "block_bytes d = unat (d_block_size d)"

definition bitmap_at :: "kes_storage_descriptor \<Rightarrow> nat" where
  "bitmap_at d = unat (d_bitmap_start_block d) * block_bytes d"

definition bitmap_len :: "kes_storage_descriptor \<Rightarrow> nat" where
  "bitmap_len d = (unat (d_user_blocks d) + 7) div 8"

definition layout_ok :: "kes_storage_descriptor \<Rightarrow> bool" where
  "layout_ok d \<longleftrightarrow> d_magic d = KES_MAGIC_NUMBER \<and> d_version_major d = KES_VERSION_MAJOR \<and>
     112 \<le> block_bytes d \<and> d_user_start_block d = 1 \<and> 0 < unat (d_user_blocks d) \<and>
     unat (d_bitmap_start_block d) = 1 + unat (d_user_blocks d) \<and>
     unat (d_total_blocks d) = unat (d_bitmap_start_block d) + unat (d_bitmap_blocks d) \<and>
     bitmap_len d \<le> unat (d_bitmap_blocks d) * block_bytes d \<and>
     unat (d_total_blocks d) * block_bytes d < 2 ^ 63"

lemma layout_ok_cong: "layout d = layout d' \<Longrightarrow> layout_ok d = layout_ok d'"
  using layout_fields [of d d'] by (simp add: layout_ok_def block_bytes_def bitmap_len_def)

lemma bitmap_at_cong: "layout d = layout d' \<Longrightarrow> bitmap_at d = bitmap_at d'"
  using layout_fields [of d d'] by (simp add: bitmap_at_def block_bytes_def)

lemma layout_ok_bounds:
  assumes "layout_ok d"
  shows "bitmap_at d < 2 ^ 63" "112 \<le> bitmap_at d" "0 < bitmap_len d"
    "unat (d_user_blocks d) < 2 ^ 63" "(1 + unat (d_user_blocks d)) * block_bytes d \<le> bitmap_at d"
proof -
  have bb: "112 \<le> block_bytes d" and u: "0 < unat (d_user_blocks d)"
    and bs: "unat (d_bitmap_start_block d) = 1 + unat (d_user_blocks d)"
    and t: "unat (d_total_blocks d) = unat (d_bitmap_start_block d) + unat (d_bitmap_blocks d)"
    and lim: "unat (d_total_blocks d) * block_bytes d < 2 ^ 63"
    using assms unfolding layout_ok_def by blast+
  have "unat (d_bitmap_start_block d) * block_bytes d \<le> unat (d_total_blocks d) * block_bytes d"
    using t by (intro mult_le_mono1) simp
  then show at: "bitmap_at d < 2 ^ 63" unfolding bitmap_at_def using lim by linarith
  show "112 \<le> bitmap_at d" using bb bs by (simp add: bitmap_at_def trans_le_add1)
  show "0 < bitmap_len d" using u by (simp add: bitmap_len_def)
  have "unat (d_bitmap_start_block d) * 1 \<le> bitmap_at d"
    unfolding bitmap_at_def using bb by (intro mult_le_mono2) simp
  then show "unat (d_user_blocks d) < 2 ^ 63" using at bs by simp
  show "(1 + unat (d_user_blocks d)) * block_bytes d \<le> bitmap_at d" using bs by (simp add: bitmap_at_def)
qed

lemma bitmap_offset_eq:
  assumes "layout_ok d"
  shows "bitmap_offset d = int (bitmap_at d)"
proof -
  have lim: "unat (d_bitmap_start_block d) * unat (d_block_size d) < 2 ^ 63"
    using layout_ok_bounds(1) [OF assms] by (simp add: bitmap_at_def block_bytes_def)
  have "unat (d_bitmap_start_block d * ucast (d_block_size d)) =
      unat (d_bitmap_start_block d) * unat (d_block_size d)"
    by (subst unat_mult_no_overflow) (use lim in simp_all)
  then show ?thesis
    unfolding bitmap_offset_def bitmap_at_def block_bytes_def using lim by (subst sint_small) simp_all
qed

section \<open>What a file stores\<close>

definition disk_desc :: "ofile \<Rightarrow> kes_storage_descriptor" where
  "disk_desc f = dec_desc (fread f 0 112)"

definition disk_bits :: "kes_storage_descriptor \<Rightarrow> ofile \<Rightarrow> u8 list" where
  "disk_bits L f = fread f (bitmap_at L) (bitmap_len L)"

definition disk_used :: "kes_storage_descriptor \<Rightarrow> ofile \<Rightarrow> nat set" where
  "disk_used L f = mbits (disk_bits L f)"

text \<open>\<open>disk_static L f\<close>: the file has the layout of \<open>L\<close>, a complete bitmap, and no bit set beyond
  the user blocks. This survives every I/O fault. \<open>disk_coherent\<close>: the counters and the checksum of
  the descriptor agree with the bitmap.\<close>

definition disk_static :: "kes_storage_descriptor \<Rightarrow> ofile \<Rightarrow> bool" where
  "disk_static L f \<longleftrightarrow> length (fread f 0 112) = 112 \<and> layout (disk_desc f) = layout L \<and>
     length (disk_bits L f) = bitmap_len L \<and> disk_used L f \<subseteq> {..<unat (d_user_blocks L)}"

definition disk_coherent :: "(u32 \<Rightarrow> u8 list \<Rightarrow> u32) \<Rightarrow> kes_storage_descriptor \<Rightarrow> ofile \<Rightarrow> bool" where
  "disk_coherent crc L f \<longleftrightarrow> disk_static L f \<and>
     unat (d_used_blocks (disk_desc f)) = card (disk_used L f) \<and>
     unat (d_free_blocks (disk_desc f)) + card (disk_used L f) = unat (d_user_blocks L) \<and>
     d_bitmap_checksum (disk_desc f) = crc 0 (disk_bits L f)"

lemma finite_disk_used [simp]: "finite (disk_used L f)"
  by (simp add: disk_used_def)

text \<open>Writing a prefix of new contents over old contents of the same length.\<close>

lemma fwrite_prefix_holds:
  assumes "f_holds f off old" "length new = length old" "k \<le> length old"
  shows "f_holds (fwrite f off (take k new)) off (take k new @ drop k old)"
proof (cases "k = 0")
  case True
  then show ?thesis using assms by (simp add: fwrite_def)
next
  case False
  have "f_holds f off (take k old @ drop k old)" using assms(1) by simp
  then have "f_holds f (off + k) (drop k old)"
    using assms(3) unfolding f_holds_append by (simp add: min_absorb2)
  then have "f_holds (fwrite f off (take k new)) (off + k) (drop k old)"
    using assms by (intro disk.wr_disjoint) auto
  moreover have "take k new \<noteq> []" using False assms by auto
  then have "f_holds (fwrite f off (take k new)) off (take k new)" by (rule disk.wr_same)
  ultimately show ?thesis using assms by (simp add: f_holds_append)
qed

lemma f_holds_dirty [simp]: "f_holds (f\<lparr>f_dirty := x\<rparr>) off bs = f_holds f off bs"
  by (simp add: f_holds_def)

lemma fread_dirty [simp]: "fread (f\<lparr>f_dirty := x\<rparr>) off n = fread f off n"
  by (simp add: fread_def)

lemma disk_dirty [simp]:
  "disk_desc (f\<lparr>f_dirty := x\<rparr>) = disk_desc f" "disk_bits L (f\<lparr>f_dirty := x\<rparr>) = disk_bits L f"
  "disk_used L (f\<lparr>f_dirty := x\<rparr>) = disk_used L f" "disk_static L (f\<lparr>f_dirty := x\<rparr>) = disk_static L f"
  "disk_coherent crc L (f\<lparr>f_dirty := x\<rparr>) = disk_coherent crc L f"
  by (simp_all add: disk_desc_def disk_bits_def disk_used_def disk_static_def disk_coherent_def)

section \<open>Loading and saving the descriptor\<close>

text \<open>\<open>handle_ok L s\<close>: the handle was opened on a file of layout \<open>L\<close>.\<close>

definition handle_ok :: "kes_storage_descriptor \<Rightarrow> kes_storage \<Rightarrow> bool" where
  "handle_ok L s \<longleftrightarrow> desc_wf (sto_desc s) \<and> layout (sto_desc s) = layout L \<and>
     (\<exists>b. sto_bitmap s = Some b \<and> bm_mem b \<and> bm_total_bits b = d_user_blocks L)"

lemma load_desc_spec:
  assumes on: "fd_on os (sto_fd s) x f" and rd: "of_rd x" and st: "disk_static L f" and L: "layout_ok L"
    and wf: "desc_wf (sto_desc s)" and lay: "layout (sto_desc s) = layout L"
  obtains r d os' where "load_storage_descriptor s os = (r, s\<lparr>sto_desc := d\<rparr>, os')"
    "os_same os os'" "desc_wf d" "layout d = layout L" "r = KES_SUCCESS \<or> r = KES_ERROR_IO"
    "r = KES_SUCCESS \<longrightarrow> d = disk_desc f" "quiet os \<longrightarrow> r = KES_SUCCESS"
proof -
  obtain p os1 where sk: "c_lseek os (sto_fd s) 0 = (p, os1)" by fastforce
  from c_lseek_spec [OF sk on] have
    1: "os_same os os1" "p = 0 \<Longrightarrow> os_pos os1 (nat (sto_fd s)) = 0" "quiet os \<Longrightarrow> p = 0" by auto
  show thesis
  proof (cases "p = 0")
    case False
    then have "load_storage_descriptor s os = (KES_ERROR_IO, s\<lparr>sto_desc := sto_desc s\<rparr>, os1)"
      using sk by (simp add: load_storage_descriptor_def)
    then show thesis by (rule that) (use 1 False wf lay in auto)
  next
    case True
    obtain n bs os2 where rd2: "c_read os1 (sto_fd s) 112 = (n, bs, os2)" using prod_cases3 by blast
    have on1: "fd_on os1 (sto_fd s) x f" using on fd_on_same [OF 1(1)] by simp
    from c_read_spec [OF rd2 on1 rd] 1(2) [OF True] obtain m where
      2: "os_same os1 os2" "m \<le> 112" "bs = fread f 0 m" "n = 112 \<Longrightarrow> bs = fread f 0 112"
        "quiet os1 \<Longrightarrow> bs = fread f 0 112 \<and> n = int (length bs)"
      by auto
    have same: "os_same os os2" using 1(1) 2(1) by (rule os_same_trans)
    define B where "B = fread f 0 112"
    have B: "length B = 112" "layout (dec_desc B) = layout L"
      using st by (simp_all add: disk_static_def disk_desc_def B_def)
    have bs: "bs = take m B" using 2(2,3) by (simp add: B_def fread_take)
    have enc: "length (enc_desc (sto_desc s)) = 112" using wf by (rule length_enc_desc)
    define d where "d = dec_desc (overlay bs (enc_desc (sto_desc s)))"
    have mix: "overlay bs (enc_desc (sto_desc s)) = take m B @ drop m (enc_desc (sto_desc s))"
      using 2(2) B(1) by (simp add: overlay_def bs min_absorb2)
    have d: "desc_wf d" "layout d = layout L"
      unfolding d_def mix using desc_wf_dec layout_prefix_mix [OF B(1) enc, of m] B enc 2(2) lay
      by (simp_all add: dec_enc_desc [OF wf])
    have ok: "d_magic d = KES_MAGIC_NUMBER" "d_version_major d = KES_VERSION_MAJOR"
      using layout_fields [OF d(2)] L by (simp_all add: layout_ok_def)
    have run: "load_storage_descriptor s os =
        (if n = 112 then KES_SUCCESS else KES_ERROR_IO, s\<lparr>sto_desc := d\<rparr>, os2)"
      using sk rd2 True ok by (simp add: load_storage_descriptor_def d_def [symmetric] Let_def)
    have "d = disk_desc f" if "n = 112"
      using 2(4) that B(1) enc by (simp add: d_def disk_desc_def B_def overlay_full)
    moreover have "quiet os \<longrightarrow> n = 112"
      using 2(5) 1(1) B(1) by (auto simp: os_same_def B_def)
    ultimately show thesis by (intro that [OF run same d]) auto
  qed
qed

lemma save_desc_spec:
  assumes on: "fd_on os (sto_fd s) x f" and wf: "desc_wf (sto_desc s)"
  obtains r k f' os' where "save_storage_descriptor s os = (r, os')"
    "k \<le> 112" "f' = (fwrite f 0 (take k (enc_desc (sto_desc s))))\<lparr>f_dirty := f_dirty f'\<rparr>"
    "os_files os' = (os_files os)(of_path x \<mapsto> f')" "os_fds os' = os_fds os" "quiet os \<longrightarrow> quiet os'"
    "r = KES_SUCCESS \<longrightarrow> k = 112" "r = KES_SUCCESS \<or> r = KES_ERROR_IO"
    "quiet os \<and> of_wr x \<longrightarrow> r = KES_SUCCESS"
proof -
  have enc: "length (enc_desc (sto_desc s)) = 112" using wf by (rule length_enc_desc)
  have onf: "os_files os (of_path x) = Some f" using on by (simp add: fd_on_def)
  obtain p os1 where sk: "c_lseek os (sto_fd s) 0 = (p, os1)" by fastforce
  from c_lseek_spec [OF sk on] have
    1: "os_same os os1" "p = 0 \<Longrightarrow> os_pos os1 (nat (sto_fd s)) = 0" "quiet os \<Longrightarrow> p = 0" by auto
  show thesis
  proof (cases "p = 0")
    case False
    then have "save_storage_descriptor s os = (KES_ERROR_IO, os1)"
      using sk by (simp add: save_storage_descriptor_def)
    then show thesis
      using that [of KES_ERROR_IO os1 0 f] 1 False onf by (auto simp: os_same_def fwrite_def fun_upd_idem)
  next
    case True
    obtain n os2 where wr: "c_write os1 (sto_fd s) (enc_desc (sto_desc s)) = (n, os2)" by fastforce
    have on1: "fd_on os1 (sto_fd s) x f" using on fd_on_same [OF 1(1)] by simp
    obtain k f' where w: "k \<le> length (enc_desc (sto_desc s))" "os_files os2 = (os_files os1)(of_path x \<mapsto> f')"
      "f' = (fwrite f (os_pos os1 (nat (sto_fd s))) (take k (enc_desc (sto_desc s))))\<lparr>f_dirty := f_dirty f'\<rparr>"
      "os_fds os2 = os_fds os1" "quiet os1 \<longrightarrow> quiet os2"
      "n = int (length (enc_desc (sto_desc s))) \<longrightarrow> k = length (enc_desc (sto_desc s))"
      "quiet os1 \<and> of_wr x \<longrightarrow> n = int (length (enc_desc (sto_desc s)))" "\<not> of_wr x \<longrightarrow> k = 0"
      by (rule c_write_spec [OF wr on1])
    have run: "save_storage_descriptor s os = (if n = 112 then KES_SUCCESS else KES_ERROR_IO, os2)"
      using sk wr True by (simp add: save_storage_descriptor_def)
    have pos: "os_pos os1 (nat (sto_fd s)) = 0" using 1(2) True by simp
    have f': "f' = (fwrite f 0 (take k (enc_desc (sto_desc s))))\<lparr>f_dirty := f_dirty f'\<rparr>"
      using w(3) unfolding pos .
    show thesis
      by (rule that [OF run _ f']) (use w(1,2,4-7) 1 enc in \<open>auto simp: os_same_def\<close>)
  qed
qed

section \<open>Reload and persist\<close>

lemma disk_static_holds:
  assumes "disk_static L f" "layout_ok L"
  shows "f_holds f 0 (fread f 0 112)" "f_holds f (bitmap_at L) (disk_bits L f)"
proof -
  show "f_holds f 0 (fread f 0 112)"
    by (rule disk.rd_full) (use assms(1) in \<open>simp_all add: disk_static_def\<close>)
  show "f_holds f (bitmap_at L) (disk_bits L f)"
    unfolding disk_bits_def
    by (rule disk.rd_full)
       (use assms layout_ok_bounds(3) [OF assms(2)] in \<open>simp_all add: disk_static_def disk_bits_def\<close>)
qed

lemma loaded_bits:
  assumes "disk_static L f" "layout_ok L" "f_holds f (bitmap_at L) (bm_data b)" "bm_mem b"
    "bm_total_bits b = d_user_blocks L"
  shows "bm_data b = disk_bits L f" "mbits (bm_data b) \<subseteq> {..<unat (d_user_blocks L)}"
proof -
  have "length (bm_data b) = length (disk_bits L f)"
    using assms by (simp add: bm_mem_def disk_static_def bitmap_len_def)
  then show "bm_data b = disk_bits L f"
    using assms disk_static_holds(2) disk.holds_unique by blast
  then show "mbits (bm_data b) \<subseteq> {..<unat (d_user_blocks L)}"
    using assms(1) by (simp add: disk_static_def disk_used_def)
qed

lemma reload_spec:
  assumes on: "fd_on os (sto_fd s) x f" and rd: "of_rd x" and st: "disk_static L f" and L: "layout_ok L"
    and h: "handle_ok L s"
  obtains r d b os' where "reload s os = Some (r, s\<lparr>sto_desc := d, sto_bitmap := Some b\<rparr>, os')"
    "os_same os os'" "desc_wf d" "layout d = layout L" "bm_mem b" "bm_total_bits b = d_user_blocks L"
    "r = KES_SUCCESS \<or> r = KES_ERROR_IO"
    "r = KES_SUCCESS \<longrightarrow> d = disk_desc f \<and> bm_ok b \<and> bm_data b = disk_bits L f"
    "quiet os \<longrightarrow> r = KES_SUCCESS"
proof -
  obtain b0 where b0: "sto_bitmap s = Some b0" "bm_mem b0" "bm_total_bits b0 = d_user_blocks L"
    using h by (auto simp: handle_ok_def)
  have wf: "desc_wf (sto_desc s)" "layout (sto_desc s) = layout L" using h by (auto simp: handle_ok_def)
  obtain r1 d os1 where 1: "load_storage_descriptor s os = (r1, s\<lparr>sto_desc := d\<rparr>, os1)"
    "os_same os os1" "desc_wf d" "layout d = layout L" "r1 = KES_SUCCESS \<or> r1 = KES_ERROR_IO"
    "r1 = KES_SUCCESS \<longrightarrow> d = disk_desc f" "quiet os \<longrightarrow> r1 = KES_SUCCESS"
    by (rule load_desc_spec [OF on rd st L wf])
  show thesis
  proof (cases "r1 = KES_SUCCESS")
    case False
    then have "reload s os = Some (r1, s\<lparr>sto_desc := d, sto_bitmap := Some b0\<rparr>, os1)"
      using 1(1) b0(1) by (cases s) (simp add: reload_def)
    then show thesis by (rule that) (use 1 b0 False in auto)
  next
    case True
    have off: "bitmap_offset d = int (bitmap_at L)"
      using bitmap_offset_eq [of d] layout_ok_cong [OF 1(4)] bitmap_at_cong [OF 1(4)] L by simp
    have len: "unat (bm_total_bytes b0) = bitmap_len L"
      using b0 by (simp add: bm_mem_def bitmap_len_def)
    have on1: "fd_on os1 (sto_fd s) x f" using on fd_on_same [OF 1(2)] by simp
    obtain r b os2 where 2: "kes_bitmap_load (Some b0) os1 (sto_fd s) (int (bitmap_at L)) = Some (r, Some b, os2)"
      "os_same os1 os2" "bm_mem b" "bm_shape b = bm_shape b0"
      "r = KES_SUCCESS \<Longrightarrow> f_holds f (nat (int (bitmap_at L))) (bm_data b) \<and>
         (mbits (bm_data b) \<subseteq> {..<unat (bm_total_bits b0)} \<longrightarrow> bm_ok b)"
      "r = KES_SUCCESS \<or> r = KES_ERROR_IO"
      "\<And>bs. quiet os1 \<Longrightarrow> f_holds f (nat (int (bitmap_at L))) bs \<Longrightarrow>
         length bs = unat (bm_total_bytes b0) \<Longrightarrow> r = KES_SUCCESS \<and> bm_data b = bs"
      by (rule kes_bitmap_load_spec [OF b0(2) on1 rd, of "int (bitmap_at L)"])
         (use layout_ok_bounds(3) [OF L] len in simp_all)
    have run: "reload s os = Some (r, s\<lparr>sto_desc := d, sto_bitmap := Some b\<rparr>, os2)"
      using 1(1) True b0(1) 2(1) off by (simp add: reload_def)
    have bits: "length (disk_bits L f) = bitmap_len L" "disk_used L f \<subseteq> {..<unat (d_user_blocks L)}"
      using st by (simp_all add: disk_static_def)
    note hb = disk_static_holds(2) [OF st L]
    have tb: "bm_total_bits b = d_user_blocks L" "bm_total_bytes b = bm_total_bytes b0"
      using 2(4) b0(3) by (simp_all add: bm_shape_def)
    have good: "r = KES_SUCCESS \<longrightarrow> d = disk_desc f \<and> bm_ok b \<and> bm_data b = disk_bits L f"
    proof
      assume r: "r = KES_SUCCESS"
      have "bm_data b = disk_bits L f"
        using loaded_bits(1) [OF st L _ 2(3) tb(1)] 2(5) [OF r] by simp
      then show "d = disk_desc f \<and> bm_ok b \<and> bm_data b = disk_bits L f"
        using 2(5) [OF r] bits(2) b0(3) 1(6) True by (simp add: disk_used_def)
    qed
    have q: "quiet os \<longrightarrow> r = KES_SUCCESS"
      using 2(7) [OF _ _, of "disk_bits L f"] hb bits(1) len 1(2) by (auto simp: os_same_def)
    show thesis
      by (rule that [OF run os_same_trans [OF 1(2) 2(2)] 1(3,4) 2(3) tb(1) 2(6) good q])
  qed
qed

text \<open>\<open>torn k new old\<close>: what is stored after a write of \<open>new\<close> over \<open>old\<close> stopped after \<open>k\<close> bytes.\<close>

definition torn :: "nat \<Rightarrow> u8 list \<Rightarrow> u8 list \<Rightarrow> u8 list" where
  "torn k new old = take k new @ drop k old"

lemma length_torn [simp]: "length new = length old \<Longrightarrow> length (torn k new old) = length old"
  by (simp add: torn_def min_def)

lemma torn_full [simp]: "length new = length old \<Longrightarrow> length old \<le> k \<Longrightarrow> torn k new old = new"
  by (simp add: torn_def)

lemma mbit_torn:
  assumes "length new = length old"
  shows "mbit (torn k new old) i = (if i div 8 < k then mbit new i else mbit old i)"
proof (cases "k \<le> length old")
  case True
  then show ?thesis using assms by (auto simp: mbit_def torn_def nth_append min_def)
next
  case False
  then show ?thesis using assms by (auto simp: mbit_def)
qed

lemma mbits_torn:
  assumes "length new = length old"
  shows "mbits (torn k new old) \<subseteq> mbits new \<union> mbits old" "mbits new \<inter> mbits old \<subseteq> mbits (torn k new old)"
  using mbit_torn [OF assms] by (auto simp: mbits_def split: if_splits)

text \<open>\<open>user_area_kept L f f'\<close>: whatever the old file stores between the descriptor and the bitmap, the
  new one stores too.\<close>

definition user_area_kept :: "kes_storage_descriptor \<Rightarrow> ofile \<Rightarrow> ofile \<Rightarrow> bool" where
  "user_area_kept L f f' \<longleftrightarrow> (\<forall>off bs. 112 \<le> off \<longrightarrow> off + length bs \<le> bitmap_at L \<longrightarrow>
     f_holds f off bs \<longrightarrow> f_holds f' off bs)"

lemma user_area_kept_refl [simp]: "user_area_kept L f f"
  by (simp add: user_area_kept_def)

lemma user_area_kept_trans: "user_area_kept L f g \<Longrightarrow> user_area_kept L g h \<Longrightarrow> user_area_kept L f h"
  by (simp add: user_area_kept_def)

lemma user_area_kept_dirty [simp]: "user_area_kept L f (g\<lparr>f_dirty := x\<rparr>) = user_area_kept L f g"
  by (simp add: user_area_kept_def)

lemma write_bits_static:
  assumes st: "disk_static L f" and L: "layout_ok L" and len: "length new = bitmap_len L"
    and bd: "mbits new \<subseteq> {..<unat (d_user_blocks L)}" and k: "k \<le> bitmap_len L"
  defines "f' \<equiv> fwrite f (bitmap_at L) (take k new)"
  shows "disk_static L f'" "disk_desc f' = disk_desc f" "disk_bits L f' = torn k new (disk_bits L f)"
    "user_area_kept L f f'"
proof -
  have bl: "length (disk_bits L f) = bitmap_len L" using st by (simp add: disk_static_def)
  have dl: "length (fread f 0 112) = 112" using st by (simp add: disk_static_def)
  have "f_holds f' 0 (fread f 0 112)"
    unfolding f'_def using disk_static_holds(1) [OF st L] dl layout_ok_bounds(2) [OF L]
    by (intro disk.wr_disjoint) auto
  from f_holds_fread [OF this] have d: "fread f' 0 112 = fread f 0 112" by (simp add: dl)
  then show desc: "disk_desc f' = disk_desc f" by (simp add: disk_desc_def)
  have "f_holds f' (bitmap_at L) (torn k new (disk_bits L f))"
    unfolding f'_def torn_def using disk_static_holds(2) [OF st L]
    by (rule fwrite_prefix_holds) (simp_all add: len bl k)
  from f_holds_fread [OF this] show bits: "disk_bits L f' = torn k new (disk_bits L f)"
    by (simp add: len bl disk_bits_def [symmetric])
  show "disk_static L f'"
    using st mbits_torn(1) [of new "disk_bits L f" k] bd d bl len
    unfolding disk_static_def disk_used_def bits desc by auto
  show "user_area_kept L f f'"
    unfolding user_area_kept_def f'_def by (auto intro: disk.wr_disjoint)
qed

lemma write_desc_static:
  assumes st: "disk_static L f" and L: "layout_ok L" and wf: "desc_wf d" and lay: "layout d = layout L"
    and k: "k \<le> 112"
  defines "f' \<equiv> fwrite f 0 (take k (enc_desc d))"
  shows "disk_static L f'" "disk_bits L f' = disk_bits L f" "k = 112 \<longrightarrow> disk_desc f' = d"
    "user_area_kept L f f'"
proof -
  have enc: "length (enc_desc d) = 112" using wf by (rule length_enc_desc)
  have bl: "length (disk_bits L f) = bitmap_len L" using st by (simp add: disk_static_def)
  have dl: "length (fread f 0 112) = 112" using st by (simp add: disk_static_def)
  have "f_holds f' (bitmap_at L) (disk_bits L f)"
    unfolding f'_def using disk_static_holds(2) [OF st L] enc layout_ok_bounds(2) [OF L]
    by (intro disk.wr_disjoint) auto
  from f_holds_fread [OF this] show bits: "disk_bits L f' = disk_bits L f"
    by (simp add: bl disk_bits_def [symmetric])
  have "f_holds f' 0 (torn k (enc_desc d) (fread f 0 112))"
    unfolding f'_def torn_def using disk_static_holds(1) [OF st L]
    by (rule fwrite_prefix_holds) (simp_all add: enc dl k)
  from f_holds_fread [OF this] have d: "fread f' 0 112 = torn k (enc_desc d) (fread f 0 112)"
    by (simp add: enc dl)
  then show "k = 112 \<longrightarrow> disk_desc f' = d" by (simp add: disk_desc_def enc dl dec_enc_desc wf)
  have old: "layout (dec_desc (fread f 0 112)) = layout L" using st by (simp add: disk_static_def disk_desc_def)
  have "layout (dec_desc (torn k (enc_desc d) (fread f 0 112))) = layout L"
    unfolding torn_def
    by (subst layout_prefix_mix) (simp_all add: enc dl lay dec_enc_desc [OF wf] old)
  then show "disk_static L f'"
    using st d by (simp add: disk_static_def disk_used_def bits disk_desc_def enc dl)
  show "user_area_kept L f f'"
    unfolding user_area_kept_def f'_def using enc k by (auto intro: disk.wr_disjoint)
qed

lemma refresh_checksum_eq:
  assumes "sto_bitmap s = Some b" "bm_mem b"
  shows "refresh_checksum crc s =
    Some (KES_SUCCESS, s\<lparr>sto_desc := (sto_desc s)\<lparr>d_bitmap_checksum := crc 0 (bm_data b)\<rparr>\<rparr>)"
  using assms by (simp add: refresh_checksum_def kes_bitmap_checksum_def bm_mem_def)

text \<open>What a persist leaves behind: a file with the same layout whose bitmap is the new one up to some
  byte and the old one from there on, with the user area untouched; and on success the whole of
  both, flushed.\<close>

definition persisted ::
    "(u32 \<Rightarrow> u8 list \<Rightarrow> u32) \<Rightarrow> kes_storage_descriptor \<Rightarrow> kes_storage_descriptor \<Rightarrow> u8 list \<Rightarrow> int \<Rightarrow>
     ofile \<Rightarrow> ofile \<Rightarrow> bool" where
  "persisted crc L d new r f f' \<longleftrightarrow> disk_static L f' \<and> user_area_kept L f f' \<and>
     (\<exists>k. disk_bits L f' = torn k new (disk_bits L f)) \<and>
     (r = KES_SUCCESS \<or> r = KES_ERROR_IO) \<and>
     (r = KES_SUCCESS \<longrightarrow> disk_bits L f' = new \<and>
        disk_desc f' = d\<lparr>d_bitmap_checksum := crc 0 new\<rparr> \<and> \<not> f_dirty f')"

text \<open>The second half of a persist: the descriptor and the flush.\<close>

lemma save_and_flush:
  assumes on: "fd_on os (sto_fd s) x f" and st: "disk_static L f" and L: "layout_ok L"
    and wf: "desc_wf (sto_desc s)" and lay: "layout (sto_desc s) = layout L"
  obtains r f' os' where
    "(let (result, os2) = save_storage_descriptor s os in
      if result \<noteq> KES_SUCCESS then Some (result, s, os2)
      else let (rc, os3) = c_fsync os2 (sto_fd s) in
        Some (if rc \<noteq> 0 then KES_ERROR_IO else KES_SUCCESS, s, os3)) = Some (r, s, os')"
    "os_files os' = (os_files os)(of_path x \<mapsto> f')" "os_fds os' = os_fds os" "quiet os \<longrightarrow> quiet os'"
    "disk_static L f'" "user_area_kept L f f'" "disk_bits L f' = disk_bits L f"
    "r = KES_SUCCESS \<or> r = KES_ERROR_IO" "r = KES_SUCCESS \<longrightarrow> disk_desc f' = sto_desc s \<and> \<not> f_dirty f'"
    "quiet os \<and> of_wr x \<longrightarrow> r = KES_SUCCESS"
proof -
  obtain r2 k2 f2 os2 where 2: "save_storage_descriptor s os = (r2, os2)"
    "k2 \<le> 112" "f2 = (fwrite f 0 (take k2 (enc_desc (sto_desc s))))\<lparr>f_dirty := f_dirty f2\<rparr>"
    "os_files os2 = (os_files os)(of_path x \<mapsto> f2)" "os_fds os2 = os_fds os" "quiet os \<longrightarrow> quiet os2"
    "r2 = KES_SUCCESS \<longrightarrow> k2 = 112" "r2 = KES_SUCCESS \<or> r2 = KES_ERROR_IO"
    "quiet os \<and> of_wr x \<longrightarrow> r2 = KES_SUCCESS"
    by (rule save_desc_spec [OF on wf])
  note w2 = write_desc_static [OF st L wf lay 2(2)]
  have f2: "disk_static L f2" "user_area_kept L f f2" "disk_bits L f2 = disk_bits L f"
    "k2 = 112 \<longrightarrow> disk_desc f2 = sto_desc s"
    using w2 by (subst 2(3), simp)+
  show thesis
  proof (cases "r2 = KES_SUCCESS")
    case False
    then have r2: "r2 = KES_ERROR_IO" using 2(8) by simp
    show thesis
      by (rule that [of r2 os2 f2]) (use 2(1,4-6,9) r2 f2(1-3) in simp_all)
  next
    case True
    obtain rc os3 where fs: "c_fsync os2 (sto_fd s) = (rc, os3)" by fastforce
    have on2: "fd_on os2 (sto_fd s) x f2"
      using on 2(4,5) by (simp add: fd_on_def fd_get_same [of os2 os])
    obtain f3 where 3: "f3 = f2\<lparr>f_dirty := f_dirty f3\<rparr>" "os_files os3 = (os_files os2)(of_path x \<mapsto> f3)"
      "os_fds os3 = os_fds os2" "quiet os2 \<longrightarrow> quiet os3" "rc = 0 \<longrightarrow> \<not> f_dirty f3" "quiet os2 \<longrightarrow> rc = 0"
      by (rule c_fsync_spec [OF fs on2])
    have f3: "disk_static L f3" "user_area_kept L f f3" "disk_bits L f3 = disk_bits L f"
      "disk_desc f3 = sto_desc s"
      using f2 2(7) True by (subst 3(1), simp)+
    show thesis
      by (rule that [of "if rc \<noteq> 0 then KES_ERROR_IO else KES_SUCCESS" os3 f3])
         (use 2(1,4-6) True fs f3 3(2-6) in simp_all)
  qed
qed

lemma persist_spec:
  assumes on: "fd_on os (sto_fd s) x f" and st: "disk_static L f" and L: "layout_ok L"
    and wf: "desc_wf (sto_desc s)" and lay: "layout (sto_desc s) = layout L"
    and b: "sto_bitmap s = Some b" "bm_mem b" "bm_total_bits b = d_user_blocks L"
      "mbits (bm_data b) \<subseteq> {..<unat (d_user_blocks L)}"
  obtains r d' f' os' where "persist crc s os = Some (r, s\<lparr>sto_desc := d'\<rparr>, os')"
    "desc_wf d'" "layout d' = layout L"
    "os_files os' = (os_files os)(of_path x \<mapsto> f')" "os_fds os' = os_fds os" "quiet os \<longrightarrow> quiet os'"
    "persisted crc L (sto_desc s) (bm_data b) r f f'" "quiet os \<and> of_wr x \<longrightarrow> r = KES_SUCCESS"
    "r = KES_SUCCESS \<longrightarrow> d' = disk_desc f'"
proof -
  have off: "bitmap_offset (sto_desc s) = int (bitmap_at L)"
    using bitmap_offset_eq [of "sto_desc s"] layout_ok_cong [OF lay] bitmap_at_cong [OF lay] L by simp
  have len: "length (bm_data b) = bitmap_len L" using b(2,3) by (simp add: bm_mem_def bitmap_len_def)
  have bl: "length (disk_bits L f) = bitmap_len L" using st by (simp add: disk_static_def)
  obtain r1 k1 f1 os1 where 1: "kes_bitmap_save (Some b) os (sto_fd s) (int (bitmap_at L)) = Some (r1, os1)"
    "k1 \<le> length (bm_data b)"
    "f1 = (fwrite f (nat (int (bitmap_at L))) (take k1 (bm_data b)))\<lparr>f_dirty := f_dirty f1\<rparr>"
    "os_files os1 = (os_files os)(of_path x \<mapsto> f1)" "os_fds os1 = os_fds os" "quiet os \<longrightarrow> quiet os1"
    "r1 = KES_SUCCESS \<longrightarrow> k1 = length (bm_data b)" "r1 = KES_SUCCESS \<or> r1 = KES_ERROR_IO"
    "quiet os \<and> of_wr x \<longrightarrow> r1 = KES_SUCCESS"
    by (rule kes_bitmap_save_spec [OF b(2) on, of "int (bitmap_at L)"]) simp_all
  note w1 = write_bits_static [OF st L len b(4) 1(2) [unfolded len]]
  have f1: "disk_static L f1" "user_area_kept L f f1" "disk_bits L f1 = torn k1 (bm_data b) (disk_bits L f)"
    by (subst 1(3), simp add: w1)+
  show thesis
  proof (cases "r1 = KES_SUCCESS")
    case False
    then have r1: "r1 = KES_ERROR_IO" using 1(8) by simp
    have p: "persist crc s os = Some (r1, s\<lparr>sto_desc := sto_desc s\<rparr>, os1)"
      using r1 1(1) b(1) off by (simp add: persist_def)
    have "persisted crc L (sto_desc s) (bm_data b) r1 f f1"
      unfolding persisted_def using f1 r1 by auto
    then show thesis by (intro that [OF p wf lay 1(4-6)]) (use 1(9) r1 in simp_all)
  next
    case True
    let ?d = "(sto_desc s)\<lparr>d_bitmap_checksum := crc 0 (bm_data b)\<rparr>"
    let ?s1 = "s\<lparr>sto_desc := ?d\<rparr>"
    have full: "disk_bits L f1 = bm_data b" using f1(3) 1(7) True len bl by simp
    have on1: "fd_on os1 (sto_fd ?s1) x f1"
      using on 1(4,5) by (simp add: fd_on_def fd_get_same [of os1 os])
    have wf1: "desc_wf (sto_desc ?s1)" "layout (sto_desc ?s1) = layout L" using wf lay by simp_all
    obtain r f' os' where 2:
      "(let (result, os2) = save_storage_descriptor ?s1 os1 in
        if result \<noteq> KES_SUCCESS then Some (result, ?s1, os2)
        else let (rc, os3) = c_fsync os2 (sto_fd ?s1) in
          Some (if rc \<noteq> 0 then KES_ERROR_IO else KES_SUCCESS, ?s1, os3)) = Some (r, ?s1, os')"
      "os_files os' = (os_files os1)(of_path x \<mapsto> f')" "os_fds os' = os_fds os1" "quiet os1 \<longrightarrow> quiet os'"
      "disk_static L f'" "user_area_kept L f1 f'" "disk_bits L f' = disk_bits L f1"
      "r = KES_SUCCESS \<or> r = KES_ERROR_IO" "r = KES_SUCCESS \<longrightarrow> disk_desc f' = sto_desc ?s1 \<and> \<not> f_dirty f'"
      "quiet os1 \<and> of_wr x \<longrightarrow> r = KES_SUCCESS"
      by (rule save_and_flush [OF on1 f1(1) L wf1])
    have p: "persist crc s os = Some (r, ?s1, os')"
      unfolding persist_def using True 1(1) b(1) off refresh_checksum_eq [of s b crc, OF b(1,2)] 2(1)
      by simp
    have "\<exists>k. bm_data b = torn k (bm_data b) (disk_bits L f)"
      using len bl by (intro exI [of _ "bitmap_len L"]) simp
    then have "persisted crc L (sto_desc s) (bm_data b) r f f'"
      unfolding persisted_def using 2(5-9) full user_area_kept_trans [OF f1(2) 2(6)] by simp
    then show thesis
      by (intro that [OF p, of f']) (use wf1 1(4-6) 2(2-4,9,10) in simp_all)
  qed
qed

end
