(* ===== verification/Kes_Extent.thy ===== *)
theory Kes_Extent
  imports Kes_Disk
begin

text \<open>
  Allocating and freeing extents (\<open>kes_extent_allocate\<close>, \<open>kes_extent_free\<close>) against the set of
  used blocks that the file stores: what each call returns, what it leaves on disk when every I/O
  call works and when any of them fails or is cut short, and that both locks are released on
  every path.
\<close>

section \<open>The locked section\<close>

text \<open>\<open>session os s x f L\<close>: the handle \<open>s\<close> is open for reading and writing as \<open>x\<close> on a file with
  contents \<open>f\<close> and layout \<open>L\<close>, and nobody holds a lock.\<close>

definition session :: "os \<Rightarrow> kes_storage \<Rightarrow> ofd \<Rightarrow> ofile \<Rightarrow> kes_storage_descriptor \<Rightarrow> bool" where
  "session os s x f L \<longleftrightarrow> fd_on os (sto_fd s) x f \<and> of_rd x \<and> of_wr x \<and> disk_static L f \<and>
     layout_ok L \<and> handle_ok L s \<and> \<not> sto_lock s \<and> \<not> sto_readonly s \<and> unlocked os"

lemma unlock_all_spec:
  assumes on: "fd_on os (sto_fd s) x f" and un: "unlocked os" and lk: "sto_lock s"
    and fds: "os_fds os3 = (os_fds os)[nat (sto_fd s) := Some (x\<lparr>of_lock := LOCK_EX\<rparr>)]"
    and f3: "os_files os3 (of_path x) = Some f3"
  obtains os4 where "unlock_all s os3 = Some (s\<lparr>sto_lock := False\<rparr>, os4)"
    "os_files os4 = os_files os3" "os_fds os4 = os_fds os" "quiet os3 \<longrightarrow> quiet os4"
proof -
  have x: "os_fds os ! nat (sto_fd s) = Some x" "nat (sto_fd s) < length (os_fds os)" "0 \<le> sto_fd s"
    using on by (auto simp: fd_on_def fd_get_def split: if_splits)
  have on3: "fd_on os3 (sto_fd s) (x\<lparr>of_lock := LOCK_EX\<rparr>) f3"
    using x f3 by (simp add: fd_on_def fd_get_def fds)
  obtain os4 where 4: "c_flock os3 (sto_fd s) LOCK_UN = Some (0, os4)" "os_files os4 = os_files os3"
    "os_fds os4 = (os_fds os3)[nat (sto_fd s) := Some (x\<lparr>of_lock := LOCK_EX\<rparr>\<lparr>of_lock := LOCK_UN\<rparr>)]"
    "quiet os3 \<longrightarrow> quiet os4"
    by (rule c_flock_unlock [OF on3])
  have "x\<lparr>of_lock := LOCK_UN\<rparr> = x" using fd_on_unlocked [OF on un] by simp
  then have "os_fds os4 = os_fds os" using 4(3) x(1) by (simp add: fds list_update_same_conv x(2))
  moreover have "unlock_all s os3 = Some (s\<lparr>sto_lock := False\<rparr>, os4)"
    using 4(1) lk by (simp add: unlock_all_def pthread_mutex_unlock_def)
  ultimately show thesis using that 4(2,4) by blast
qed

text \<open>Entering: the mutex is taken, then the file lock; the lock call may fail.\<close>

lemma enter_cases:
  assumes "session os s x f L"
  obtains (fail) os' where "c_flock os (sto_fd s) LOCK_EX = Some (- 1, os')" "os_same os os'" "\<not> quiet os"
    | (lock) os1 where "c_flock os (sto_fd s) LOCK_EX = Some (0, os1)" "os_files os1 = os_files os"
      "os_fds os1 = (os_fds os)[nat (sto_fd s) := Some (x\<lparr>of_lock := LOCK_EX\<rparr>)]" "quiet os \<longrightarrow> quiet os1"
      "fd_on os1 (sto_fd s) (x\<lparr>of_lock := LOCK_EX\<rparr>) f"
  using assms c_flock_lock [of os "sto_fd s" x f LOCK_EX] unfolding session_def
  by (metis flock_mode.distinct(3))

text \<open>The reload inside the locked section.\<close>

lemma reload_locked:
  assumes ses: "session os s x f L" and on1: "fd_on os1 (sto_fd s) (x\<lparr>of_lock := LOCK_EX\<rparr>) f"
  obtains r d b os2 where
    "reload (s\<lparr>sto_lock := True\<rparr>) os1 = Some (r, s\<lparr>sto_lock := True, sto_desc := d, sto_bitmap := Some b\<rparr>, os2)"
    "os_same os1 os2" "desc_wf d" "layout d = layout L" "bm_mem b" "bm_total_bits b = d_user_blocks L"
    "r = KES_SUCCESS \<or> r = KES_ERROR_IO"
    "r = KES_SUCCESS \<longrightarrow> d = disk_desc f \<and> bm_ok b \<and> bm_data b = disk_bits L f \<and> bm_used b = disk_used L f"
    "quiet os1 \<longrightarrow> r = KES_SUCCESS"
proof -
  have h: "handle_ok L (s\<lparr>sto_lock := True\<rparr>)" using ses by (simp add: session_def handle_ok_def)
  obtain r d b os2 where *:
    "reload (s\<lparr>sto_lock := True\<rparr>) os1 = Some (r, s\<lparr>sto_lock := True, sto_desc := d, sto_bitmap := Some b\<rparr>, os2)"
    "os_same os1 os2" "desc_wf d" "layout d = layout L" "bm_mem b" "bm_total_bits b = d_user_blocks L"
    "r = KES_SUCCESS \<or> r = KES_ERROR_IO"
    "r = KES_SUCCESS \<longrightarrow> d = disk_desc f \<and> bm_ok b \<and> bm_data b = disk_bits L f"
    "quiet os1 \<longrightarrow> r = KES_SUCCESS"
    by (rule reload_spec [of os1 "s\<lparr>sto_lock := True\<rparr>" "x\<lparr>of_lock := LOCK_EX\<rparr>" f L])
       (use ses on1 h in \<open>simp_all add: session_def\<close>)
  have "bm_used b = disk_used L f" if "r = KES_SUCCESS"
    using *(8) that bm_used_eq_mbits [of b] by (simp add: disk_used_def)
  with * that show thesis by blast
qed

section \<open>The counters\<close>

lemma disk_used_bounded:
  assumes "disk_static L f"
  shows "disk_used L f \<subseteq> {..<unat (d_user_blocks L)}" "card (disk_used L f) \<le> unat (d_user_blocks L)"
  using assms card_mono [of "{..<unat (d_user_blocks L)}" "disk_used L f"]
  by (auto simp: disk_static_def)

text \<open>\<open>counters U T d\<close>: the counters of the descriptor agree with the set \<open>U\<close> of used blocks out of
  \<open>T\<close>.\<close>

definition counters :: "nat set \<Rightarrow> nat \<Rightarrow> kes_storage_descriptor \<Rightarrow> bool" where
  "counters U T d \<longleftrightarrow> unat (d_used_blocks d) = card U \<and> unat (d_free_blocks d) + card U = T"

lemma disk_coherent_counters:
  "disk_coherent crc L f \<longleftrightarrow> disk_static L f \<and> counters (disk_used L f) (unat (d_user_blocks L)) (disk_desc f) \<and>
     d_bitmap_checksum (disk_desc f) = crc 0 (disk_bits L f)"
  by (auto simp: disk_coherent_def counters_def)

lemma counters_alloc:
  assumes c: "counters U T d" and U: "finite U" "blocks s n \<inter> U = {}" "U \<union> blocks s n \<subseteq> {..<T}"
    and T: "T < 2 ^ 63"
  shows "counters (U \<union> blocks s n) T
    (d\<lparr>d_used_blocks := d_used_blocks d + ucast n, d_free_blocks := d_free_blocks d - ucast n\<rparr>)"
proof -
  have card: "card (U \<union> blocks s n) = card U + unat n"
    using U(1,2) by (subst card_Un_disjoint) auto
  moreover have le: "card (U \<union> blocks s n) \<le> T" using card_mono [OF _ U(3)] by simp
  moreover have "unat (d_used_blocks d + ucast n) = card U + unat n"
    using c card le T by (subst unat_add_no_overflow) (simp_all add: counters_def)
  moreover have "unat (d_free_blocks d - ucast n) = unat (d_free_blocks d) - unat n"
    using c card le by (subst unat_diff_le) (simp_all add: counters_def word_le_nat_alt)
  ultimately show ?thesis using c by (simp add: counters_def)
qed

lemma counters_free:
  assumes c: "counters U T d" and U: "finite U" "blocks s n \<subseteq> U" and T: "T < 2 ^ 63"
  shows "counters (U - blocks s n) T
    (d\<lparr>d_used_blocks := d_used_blocks d - ucast n, d_free_blocks := d_free_blocks d + ucast n\<rparr>)"
proof -
  have card: "card (U - blocks s n) = card U - unat n" "unat n \<le> card U"
    using U card_Diff_subset [of "blocks s n" U] card_mono [OF U] by auto
  moreover have "unat (d_used_blocks d - ucast n) = card U - unat n"
    using c card by (subst unat_diff_le) (simp_all add: counters_def word_le_nat_alt)
  moreover have "unat (d_free_blocks d + ucast n) = unat (d_free_blocks d) + unat n"
    using c card T by (subst unat_add_no_overflow) (simp_all add: counters_def)
  ultimately show ?thesis using c by (simp add: counters_def)
qed

section \<open>Leaving the locked section\<close>

text \<open>\<open>os_after os os' x f'\<close>: the contents of the file of \<open>x\<close> became \<open>f'\<close>; descriptors and locks are as
  before.\<close>

definition os_after :: "os \<Rightarrow> os \<Rightarrow> ofd \<Rightarrow> ofile \<Rightarrow> bool" where
  "os_after os os' x f' \<longleftrightarrow> os_files os' = (os_files os)(of_path x \<mapsto> f') \<and> os_fds os' = os_fds os \<and>
     (quiet os \<longrightarrow> quiet os')"

lemma session_after:
  assumes "session os s x f L" "os_after os os' x f'" "disk_static L f'"
    and "handle_ok L s'" "sto_fd s' = sto_fd s" "\<not> sto_lock s'" "sto_readonly s' = sto_readonly s"
  shows "session os' s' x f' L"
  using assms
  by (auto simp: session_def os_after_def fd_on_def fd_get_same [of os' os] unlocked_def)

lemma os_after_same: "session os s x f L \<Longrightarrow> os_same os os' \<Longrightarrow> os_after os os' x f"
  by (auto simp: session_def os_after_def os_same_def fd_on_def fun_upd_idem)

text \<open>An operation that only reloaded: nothing changes on disk.\<close>

lemma leave_unchanged:
  assumes ses: "session os s x f L" and lk: "os_files os1 = os_files os"
      "os_fds os1 = (os_fds os)[nat (sto_fd s) := Some (x\<lparr>of_lock := LOCK_EX\<rparr>)]" "quiet os \<longrightarrow> quiet os1"
    and same: "os_same os1 os2" and s2: "sto_fd s2 = sto_fd s" "sto_lock s2"
  obtains os4 where "unlock_all s2 os2 = Some (s2\<lparr>sto_lock := False\<rparr>, os4)" "os_after os os4 x f"
proof -
  have on: "fd_on os (sto_fd s2) x f" "unlocked os" using ses s2 by (simp_all add: session_def)
  obtain os4 where 4: "unlock_all s2 os2 = Some (s2\<lparr>sto_lock := False\<rparr>, os4)"
    "os_files os4 = os_files os2" "os_fds os4 = os_fds os" "quiet os2 \<longrightarrow> quiet os4"
    by (rule unlock_all_spec [OF on s2(2), of os2 f]) (use on lk same s2 in \<open>auto simp: os_same_def fd_on_def\<close>)
  then show thesis
    using that on(1) lk same by (auto simp: os_after_def os_same_def fd_on_def fun_upd_idem)
qed

text \<open>An operation that persists its changed bitmap and descriptor.\<close>

lemma leave_persisted:
  assumes ses: "session os s x f L" and lk: "os_files os1 = os_files os"
      "os_fds os1 = (os_fds os)[nat (sto_fd s) := Some (x\<lparr>of_lock := LOCK_EX\<rparr>)]" "quiet os \<longrightarrow> quiet os1"
    and same: "os_same os1 os2" and s2: "sto_fd s2 = sto_fd s" "sto_lock s2"
    and wf: "desc_wf (sto_desc s2)" "layout (sto_desc s2) = layout L"
    and b: "sto_bitmap s2 = Some b" "bm_ok b" "bm_total_bits b = d_user_blocks L"
  obtains r d' f' os3 os4 where "persist crc s2 os2 = Some (r, s2\<lparr>sto_desc := d'\<rparr>, os3)"
    "unlock_all (s2\<lparr>sto_desc := d'\<rparr>) os3 = Some (s2\<lparr>sto_desc := d', sto_lock := False\<rparr>, os4)"
    "desc_wf d'" "layout d' = layout L" "os_after os os4 x f'"
    "persisted crc L (sto_desc s2) (bm_data b) r f f'" "quiet os \<longrightarrow> r = KES_SUCCESS" "r = KES_SUCCESS \<longrightarrow> d' = disk_desc f'"
proof -
  have S: "fd_on os (sto_fd s2) x f" "unlocked os" "of_wr x" "disk_static L f" "layout_ok L"
    using ses s2 by (simp_all add: session_def)
  have fd: "os_fds os ! nat (sto_fd s) = Some x" "nat (sto_fd s) < length (os_fds os)" "0 \<le> sto_fd s"
    using S(1) s2 by (auto simp: fd_on_def fd_get_def split: if_splits)
  have on2: "fd_on os2 (sto_fd s2) (x\<lparr>of_lock := LOCK_EX\<rparr>) f"
    using S(1) lk same fd s2 by (simp add: fd_on_def fd_get_def os_same_def)
  have bits: "mbits (bm_data b) \<subseteq> {..<unat (d_user_blocks L)}" using b(2,3) by (simp add: bm_ok_def)
  obtain r d' f' os3 where 3: "persist crc s2 os2 = Some (r, s2\<lparr>sto_desc := d'\<rparr>, os3)"
    "desc_wf d'" "layout d' = layout L"
    "os_files os3 = (os_files os2)(of_path (x\<lparr>of_lock := LOCK_EX\<rparr>) \<mapsto> f')" "os_fds os3 = os_fds os2"
    "quiet os2 \<longrightarrow> quiet os3" "persisted crc L (sto_desc s2) (bm_data b) r f f'"
    "quiet os2 \<and> of_wr (x\<lparr>of_lock := LOCK_EX\<rparr>) \<longrightarrow> r = KES_SUCCESS" "r = KES_SUCCESS \<longrightarrow> d' = disk_desc f'"
    by (rule persist_spec [OF on2 S(4,5) wf b(1) bm_ok_mem [OF b(2)] b(3) bits])
  have on': "fd_on os (sto_fd (s2\<lparr>sto_desc := d'\<rparr>)) x f" using S(1) by simp
  obtain os4 where 4: "unlock_all (s2\<lparr>sto_desc := d'\<rparr>) os3 = Some (s2\<lparr>sto_desc := d'\<rparr>\<lparr>sto_lock := False\<rparr>, os4)"
    "os_files os4 = os_files os3" "os_fds os4 = os_fds os" "quiet os3 \<longrightarrow> quiet os4"
    by (rule unlock_all_spec [OF on' S(2), of os3 f'])
       (use 3(4,5) lk same s2 in \<open>simp_all add: os_same_def\<close>)
  have "os_after os os4 x f'"
    using 3(4-6) 4(2-4) lk same by (auto simp: os_after_def os_same_def)
  with 3 4(1) S(3) lk(3) same show thesis by (intro that [of r d' os3 os4 f']) (auto simp: os_same_def)
qed

text \<open>The three ways into the locked section: no lock, a reload that failed, or the state on disk in the handle.
  In the last two the section can be left without a change on disk.\<close>

lemma enter_reload:
  assumes ses: "session os s x f L"
  obtains (fail) os' where "c_flock os (sto_fd s) LOCK_EX = Some (- 1, os')" "session os' (s\<lparr>sto_lock := False\<rparr>) x f L"
      "os_after os os' x f" "\<not> quiet os"
    | (stale) os1 s2 os2 os' where "c_flock os (sto_fd s) LOCK_EX = Some (0, os1)"
      "reload (s\<lparr>sto_lock := True\<rparr>) os1 = Some (KES_ERROR_IO, s2, os2)"
      "unlock_all s2 os2 = Some (s2\<lparr>sto_lock := False\<rparr>, os')" "session os' (s2\<lparr>sto_lock := False\<rparr>) x f L"
      "os_after os os' x f" "sto_fd s2 = sto_fd s" "\<not> quiet os"
    | (fresh) os1 b s2 os2 os' where "c_flock os (sto_fd s) LOCK_EX = Some (0, os1)"
      "reload (s\<lparr>sto_lock := True\<rparr>) os1 = Some (KES_SUCCESS, s2, os2)"
      "s2 = s\<lparr>sto_lock := True, sto_desc := disk_desc f, sto_bitmap := Some b\<rparr>"
      "bm_ok b" "bm_total_bits b = d_user_blocks L" "bm_data b = disk_bits L f" "bm_used b = disk_used L f"
      "unlock_all s2 os2 = Some (s2\<lparr>sto_lock := False\<rparr>, os')" "session os' (s2\<lparr>sto_lock := False\<rparr>) x f L" "os_after os os' x f"
      "os_files os2 = os_files os" "os_fds os2 = (os_fds os)[nat (sto_fd s) := Some (x\<lparr>of_lock := LOCK_EX\<rparr>)]"
      "quiet os \<longrightarrow> quiet os2" "desc_wf (disk_desc f)" "layout (disk_desc f) = layout L"
proof -
  have S: "\<not> sto_lock s" "\<not> sto_readonly s" "handle_ok L s" "disk_static L f"
    using ses by (auto simp: session_def)
  from ses show thesis
  proof (cases rule: enter_cases [case_names fail lock])
    case (fail os')
    have "session os' (s\<lparr>sto_lock := False\<rparr>) x f L"
      by (rule session_after [OF ses os_after_same [OF ses fail(2)]]) (use S in \<open>simp_all add: handle_ok_def\<close>)
    then show thesis by (rule that(1) [OF fail(1) _ os_after_same [OF ses fail(2)] fail(3)])
  next
    case (lock os1)
    obtain r d b os2 where rl:
      "reload (s\<lparr>sto_lock := True\<rparr>) os1 = Some (r, s\<lparr>sto_lock := True, sto_desc := d, sto_bitmap := Some b\<rparr>, os2)"
      "os_same os1 os2" "desc_wf d" "layout d = layout L" "bm_mem b" "bm_total_bits b = d_user_blocks L"
      "r = KES_SUCCESS \<or> r = KES_ERROR_IO"
      "r = KES_SUCCESS \<longrightarrow> d = disk_desc f \<and> bm_ok b \<and> bm_data b = disk_bits L f \<and> bm_used b = disk_used L f"
      "quiet os1 \<longrightarrow> r = KES_SUCCESS"
      by (rule reload_locked [OF ses lock(5)])
    let ?s2 = "s\<lparr>sto_lock := True, sto_desc := d, sto_bitmap := Some b\<rparr>"
    obtain os4 where un: "unlock_all ?s2 os2 = Some (?s2\<lparr>sto_lock := False\<rparr>, os4)" "os_after os os4 x f"
      by (rule leave_unchanged [OF ses lock(2-4) rl(2), of ?s2]) simp_all
    have ses4: "session os4 (?s2\<lparr>sto_lock := False\<rparr>) x f L"
      by (rule session_after [OF ses un(2)]) (use S rl in \<open>simp_all add: handle_ok_def\<close>)
    from rl(7) show thesis
    proof
      assume "r = KES_ERROR_IO"
      then show thesis
        by (intro that(2) [OF lock(1) _ un(1) ses4 un(2)]) (use rl(1,9) lock(4) in auto)
    next
      assume r: "r = KES_SUCCESS"
      show thesis
        by (rule that(3) [OF lock(1) rl(1) [unfolded r] _ _ rl(6) _ _ un(1) ses4 un(2)])
           (use r rl(2-4,8) lock(2-4) in \<open>auto simp: os_same_def\<close>)
    qed
  qed
qed

section \<open>Allocation\<close>

lemma first_fit_cases:
  assumes ok: "bm_ok b" and b: "sto_bitmap s = Some b" and n: "rq_block_count rq \<noteq> 0"
  obtains (hit) st b2 where "allocate_extent_first_fit s rq e = Some (KES_SUCCESS, s\<lparr>sto_bitmap := Some b2\<rparr>,
        e\<lparr>x_start_block := st, x_block_count := rq_block_count rq, x_flags := rq_flags rq, x_extent_id := 0\<rparr>)"
      "bm_ok b2" "unat (bm_total_bits b2) = unat (bm_total_bits b)"
      "picks (bm_used b) (unat (bm_total_bits b)) (unat (rq_block_count rq)) (unat (rq_hint_block rq)) (unat st)"
      "bm_used b2 = bm_used b \<union> blocks st (rq_block_count rq)"
    | (miss) "allocate_extent_first_fit s rq e = Some (KES_ERROR_NOSPACE, s, e)"
      "\<forall>j. \<not> fits (bm_used b) (unat (bm_total_bits b)) (unat (rq_block_count rq)) j"
proof (cases rule: bm.find_then_mark [OF ok n, of "rq_hint_block rq", case_names hit miss])
  case hit
  then show thesis using that(1) b by (simp add: allocate_extent_first_fit_def)
next
  case miss
  then show thesis using that(2) b by (cases s) (simp add: allocate_extent_first_fit_def)
qed

text \<open>The blocks of an extent.\<close>

definition ext_blocks :: "kes_extent_descriptor \<Rightarrow> nat set" where
  "ext_blocks e = blocks (x_start_block e) (x_block_count e)"

text \<open>What an allocation with result \<open>r\<close> and extent \<open>e'\<close> leaves of a file \<open>f\<close>.\<close>

definition alloc_post ::
    "(u32 \<Rightarrow> u8 list \<Rightarrow> u32) \<Rightarrow> kes_storage_descriptor \<Rightarrow> kes_extent_request \<Rightarrow> int \<Rightarrow>
     kes_extent_descriptor \<Rightarrow> ofile \<Rightarrow> ofile \<Rightarrow> bool" where
  "alloc_post crc L rq r e' f f' \<longleftrightarrow>
     (let U = disk_used L f; T = unat (d_user_blocks L); n = rq_block_count rq; d = disk_desc f in
     disk_static L f' \<and> user_area_kept L f f' \<and>
     (r = KES_SUCCESS \<or> r = KES_ERROR_IO \<or> r = KES_ERROR_NOSPACE) \<and>
     (f' = f \<or> U \<subseteq> disk_used L f' \<and> disk_used L f' \<subseteq> U \<union> ext_blocks e' \<and> ext_blocks e' \<inter> U = {}) \<and>
     (r = KES_SUCCESS \<longrightarrow> picks U T (unat n) (unat (rq_hint_block rq)) (unat (x_start_block e')) \<and>
        e' = \<lparr>x_start_block = x_start_block e', x_block_count = n, x_flags = rq_flags rq,
              x_extent_id = d_next_extent_id d + 1\<rparr> \<and>
        disk_used L f' = U \<union> ext_blocks e' \<and> \<not> f_dirty f' \<and>
        disk_desc f' = d\<lparr>d_used_blocks := d_used_blocks d + ucast n,
          d_free_blocks := d_free_blocks d - ucast n, d_next_extent_id := d_next_extent_id d + 1,
          d_bitmap_checksum := crc 0 (disk_bits L f')\<rparr>) \<and>
     (r = KES_ERROR_NOSPACE \<longrightarrow> f' = f \<and> (\<forall>j. \<not> fits U T (unat n) j)))"

lemma alloc_post_used:
  assumes "alloc_post crc L rq r e' f f'"
  shows "disk_used L f \<subseteq> disk_used L f'" "disk_used L f' \<subseteq> disk_used L f \<union> ext_blocks e'"
proof -
  have "f' = f \<or> disk_used L f \<subseteq> disk_used L f' \<and> disk_used L f' \<subseteq> disk_used L f \<union> ext_blocks e'"
    using assms unfolding alloc_post_def Let_def by (elim conjE) (erule disj_forward, assumption, elim conjE, rule conjI)
  then show "disk_used L f \<subseteq> disk_used L f'" "disk_used L f' \<subseteq> disk_used L f \<union> ext_blocks e'" by auto
qed

lemma alloc_post_success:
  assumes "alloc_post crc L rq KES_SUCCESS e' f f'"
  shows "picks (disk_used L f) (unat (d_user_blocks L)) (unat (rq_block_count rq)) (unat (rq_hint_block rq))
      (unat (x_start_block e'))"
    "x_block_count e' = rq_block_count rq" "x_flags e' = rq_flags rq"
    "x_extent_id e' = d_next_extent_id (disk_desc f) + 1"
    "disk_used L f' = disk_used L f \<union> ext_blocks e'" "ext_blocks e' \<inter> disk_used L f = {}"
    "disk_desc f' = (disk_desc f)\<lparr>d_used_blocks := d_used_blocks (disk_desc f) + ucast (rq_block_count rq),
       d_free_blocks := d_free_blocks (disk_desc f) - ucast (rq_block_count rq),
       d_next_extent_id := d_next_extent_id (disk_desc f) + 1, d_bitmap_checksum := crc 0 (disk_bits L f')\<rparr>"
    "\<not> f_dirty f'"
proof -
  have A: "picks (disk_used L f) (unat (d_user_blocks L)) (unat (rq_block_count rq)) (unat (rq_hint_block rq))
      (unat (x_start_block e'))"
    "e' = \<lparr>x_start_block = x_start_block e', x_block_count = rq_block_count rq, x_flags = rq_flags rq,
        x_extent_id = d_next_extent_id (disk_desc f) + 1\<rparr>"
    "disk_used L f' = disk_used L f \<union> ext_blocks e'" "\<not> f_dirty f'"
    "disk_desc f' = (disk_desc f)\<lparr>d_used_blocks := d_used_blocks (disk_desc f) + ucast (rq_block_count rq),
       d_free_blocks := d_free_blocks (disk_desc f) - ucast (rq_block_count rq),
       d_next_extent_id := d_next_extent_id (disk_desc f) + 1, d_bitmap_checksum := crc 0 (disk_bits L f')\<rparr>"
    using assms unfolding alloc_post_def Let_def by argo+
  show "picks (disk_used L f) (unat (d_user_blocks L)) (unat (rq_block_count rq)) (unat (rq_hint_block rq))
      (unat (x_start_block e'))"
    "disk_used L f' = disk_used L f \<union> ext_blocks e'" "\<not> f_dirty f'"
    "disk_desc f' = (disk_desc f)\<lparr>d_used_blocks := d_used_blocks (disk_desc f) + ucast (rq_block_count rq),
       d_free_blocks := d_free_blocks (disk_desc f) - ucast (rq_block_count rq),
       d_next_extent_id := d_next_extent_id (disk_desc f) + 1, d_bitmap_checksum := crc 0 (disk_bits L f')\<rparr>"
    by (rule A)+
  show c: "x_block_count e' = rq_block_count rq" "x_flags e' = rq_flags rq"
    "x_extent_id e' = d_next_extent_id (disk_desc f) + 1" by (subst A(2), simp)+
  show "ext_blocks e' \<inter> disk_used L f = {}" using picks_fits [OF A(1)] c(1) by (simp add: ext_blocks_def)
qed

lemma persisted_used:
  assumes "persisted crc L d (bm_data b) r f f'" "disk_static L f" "bm_ok b" "bm_total_bits b = d_user_blocks L"
  shows "disk_used L f' \<subseteq> disk_used L f \<union> bm_used b" "disk_used L f \<inter> bm_used b \<subseteq> disk_used L f'"
    "r = KES_SUCCESS \<longrightarrow> disk_used L f' = bm_used b"
proof -
  have len: "length (bm_data b) = length (disk_bits L f)"
    using assms(2-4) by (simp add: bm_ok_def bm_mem_def disk_static_def bitmap_len_def)
  obtain k where k: "disk_bits L f' = torn k (bm_data b) (disk_bits L f)"
    using assms(1) by (auto simp: persisted_def)
  show "disk_used L f' \<subseteq> disk_used L f \<union> bm_used b" "disk_used L f \<inter> bm_used b \<subseteq> disk_used L f'"
    using mbits_torn [OF len, of k] unfolding disk_used_def k bm_used_eq_mbits [OF assms(3)] by blast+
  show "r = KES_SUCCESS \<longrightarrow> disk_used L f' = bm_used b"
    using assms(1) bm_used_eq_mbits [OF assms(3)] by (simp add: persisted_def disk_used_def)
qed

lemma alloc_post_unchanged:
  assumes "disk_static L f" "r = KES_ERROR_IO \<or> (r = KES_ERROR_NOSPACE \<and>
      (\<forall>j. \<not> fits (disk_used L f) (unat (d_user_blocks L)) (unat (rq_block_count rq)) j))"
  shows "alloc_post crc L rq r e f f"
  using assms(2) by (elim disjE) (simp_all add: alloc_post_def assms(1))

lemma alloc_post_persisted:
  fixes st :: u64 and L :: kes_storage_descriptor and f :: ofile and rq :: kes_extent_request
  defines "U \<equiv> disk_used L f" and "n \<equiv> rq_block_count rq" and "d \<equiv> disk_desc f"
  assumes st: "disk_static L f" and ok: "bm_ok b" and tb: "bm_total_bits b = d_user_blocks L"
    and pk: "picks U (unat (d_user_blocks L)) (unat n) (unat (rq_hint_block rq)) (unat st)"
    and used: "bm_used b = U \<union> blocks st n"
    and p: "persisted crc L (d\<lparr>d_used_blocks := d_used_blocks d + ucast n,
       d_free_blocks := d_free_blocks d - ucast n, d_next_extent_id := d_next_extent_id d + 1\<rparr>)
       (bm_data b) r f f'"
  shows "alloc_post crc L rq r \<lparr>x_start_block = st, x_block_count = n, x_flags = rq_flags rq,
     x_extent_id = d_next_extent_id d + 1\<rparr> f f'"
proof -
  note pu = persisted_used [OF p st ok tb]
  have "U \<subseteq> disk_used L f'" using pu(2) used by (auto simp: U_def)
  moreover have "disk_used L f' \<subseteq> U \<union> blocks st n" using pu(1) used by (auto simp: U_def)
  moreover have "blocks st n \<inter> U = {}" using picks_fits [OF pk] by simp
  ultimately show ?thesis
    using p pk pu(3) used unfolding alloc_post_def persisted_def Let_def ext_blocks_def
    by (simp add: U_def n_def d_def) auto
qed

lemma allocate_hit:
  assumes run: "\<not> sto_lock s" "\<not> sto_readonly s" "rq_block_count rq \<noteq> 0"
      "c_flock os (sto_fd s) LOCK_EX = Some (0, os1)" "reload (s\<lparr>sto_lock := True\<rparr>) os1 = Some (KES_SUCCESS, s2, os2)"
      "allocate_extent_first_fit s2 rq e = Some (KES_SUCCESS, s3, e1)" "note_allocation s3 rq e1 = (s4, e2)"
      "persist crc s4 os2 = Some (r, s5, os3)" "unlock_all s5 os3 = Some (s6, os4)"
  shows "kes_extent_allocate crc (Some s) (Some rq) (Some e) os = Some (r, Some s6, Some e2, os4)"
  using run by (simp add: kes_extent_allocate_def pthread_mutex_lock_def)

text \<open>A successful allocation keeps the file coherent.\<close>

lemma alloc_coherent:
  assumes c: "disk_coherent crc L f" and p: "alloc_post crc L rq KES_SUCCESS e f f'" and st: "disk_static L f'" and L: "layout_ok L"
  shows "disk_coherent crc L f'"
proof -
  note P = alloc_post_success [OF p]
  have "counters (disk_used L f') (unat (d_user_blocks L)) ((disk_desc f)
      \<lparr>d_used_blocks := d_used_blocks (disk_desc f) + ucast (rq_block_count rq),
       d_free_blocks := d_free_blocks (disk_desc f) - ucast (rq_block_count rq)\<rparr>)"
    unfolding P(5) ext_blocks_def P(2)
    by (rule counters_alloc [OF _ _ _ _ layout_ok_bounds(4) [OF L]])
       (use c P(2,5,6) disk_used_bounded(1) [OF st] in \<open>simp_all add: disk_coherent_counters ext_blocks_def\<close>)
  then show ?thesis using st unfolding disk_coherent_counters P(7) by (simp add: counters_def)
qed

text \<open>From a found run to the end of the locked section.\<close>

lemma allocate_found:
  assumes ses: "session os s x f L" and n: "rq_block_count rq \<noteq> 0"
    and lk: "c_flock os (sto_fd s) LOCK_EX = Some (0, os1)" "reload (s\<lparr>sto_lock := True\<rparr>) os1 = Some (KES_SUCCESS, s2, os2)"
    and s2: "s2 = s\<lparr>sto_lock := True, sto_desc := disk_desc f, sto_bitmap := Some b\<rparr>"
    and os2: "os_files os2 = os_files os" "os_fds os2 = (os_fds os)[nat (sto_fd s) := Some (x\<lparr>of_lock := LOCK_EX\<rparr>)]"
      "quiet os \<longrightarrow> quiet os2" and d: "desc_wf (disk_desc f)" "layout (disk_desc f) = layout L"
    and hit: "allocate_extent_first_fit s2 rq e = Some (KES_SUCCESS, s2\<lparr>sto_bitmap := Some b2\<rparr>,
        e\<lparr>x_start_block := st, x_block_count := rq_block_count rq, x_flags := rq_flags rq, x_extent_id := 0\<rparr>)"
    and b2: "bm_ok b2" "bm_total_bits b2 = d_user_blocks L"
      "picks (disk_used L f) (unat (d_user_blocks L)) (unat (rq_block_count rq)) (unat (rq_hint_block rq)) (unat st)"
      "bm_used b2 = disk_used L f \<union> blocks st (rq_block_count rq)"
  obtains r s' e' f' os' where
    "kes_extent_allocate crc (Some s) (Some rq) (Some e) os = Some (r, Some s', Some e', os')"
    "session os' s' x f' L" "os_after os os' x f'" "alloc_post crc L rq r e' f f'" "quiet os \<longrightarrow> r = KES_SUCCESS"
    "sto_fd s' = sto_fd s" "r = KES_SUCCESS \<longrightarrow> sto_desc s' = disk_desc f'"
    "sto_stats s' = (sto_stats s)\<lparr>st_allocated_extents := st_allocated_extents (sto_stats s) + 1\<rparr>"
proof -
  have S: "\<not> sto_lock s" "\<not> sto_readonly s" "disk_static L f" using ses by (auto simp: session_def)
  obtain s3 e3 where nt: "note_allocation (s2\<lparr>sto_bitmap := Some b2\<rparr>) rq (e\<lparr>x_start_block := st,
      x_block_count := rq_block_count rq, x_flags := rq_flags rq, x_extent_id := 0\<rparr>) = (s3, e3)" by fastforce
  then have s3: "sto_fd s3 = sto_fd s" "sto_lock s3" "sto_bitmap s3 = Some b2" "sto_readonly s3 = sto_readonly s"
    "sto_desc s3 = (disk_desc f)\<lparr>d_used_blocks := d_used_blocks (disk_desc f) + ucast (rq_block_count rq),
       d_free_blocks := d_free_blocks (disk_desc f) - ucast (rq_block_count rq),
       d_next_extent_id := d_next_extent_id (disk_desc f) + 1\<rparr>"
    "sto_stats s3 = (sto_stats s)\<lparr>st_allocated_extents := st_allocated_extents (sto_stats s) + 1\<rparr>"
    "e3 = \<lparr>x_start_block = st, x_block_count = rq_block_count rq, x_flags = rq_flags rq,
       x_extent_id = d_next_extent_id (disk_desc f) + 1\<rparr>"
    by (cases e, auto simp: note_allocation_def Let_def s2)+
  obtain r d' f' os3 os5 where p: "persist crc s3 os2 = Some (r, s3\<lparr>sto_desc := d'\<rparr>, os3)"
    "unlock_all (s3\<lparr>sto_desc := d'\<rparr>) os3 = Some (s3\<lparr>sto_desc := d', sto_lock := False\<rparr>, os5)"
    "desc_wf d'" "layout d' = layout L" "os_after os os5 x f'"
    "persisted crc L (sto_desc s3) (bm_data b2) r f f'" "quiet os \<longrightarrow> r = KES_SUCCESS" "r = KES_SUCCESS \<longrightarrow> d' = disk_desc f'"
    by (rule leave_persisted [OF ses os2 os_same_refl s3(1,2) _ _ s3(3) b2(1,2)]) (use d s3(5) in simp_all)
  note run = allocate_hit [OF S(1,2) n lk hit nt p(1,2)]
  have ses5: "session os5 (s3\<lparr>sto_desc := d', sto_lock := False\<rparr>) x f' L"
    by (rule session_after [OF ses p(5)])
       (use S p(3,4,6) b2(1,2) s3 in \<open>simp_all add: handle_ok_def persisted_def bm_ok_def\<close>)
  have post: "alloc_post crc L rq r e3 f f'"
    unfolding s3(7) by (rule alloc_post_persisted [OF S(3) b2]) (use p(6) s3(5) in simp)
  show thesis by (rule that [OF run ses5 p(5) post]) (use p(7,8) s3 in simp_all)
qed

lemma kes_extent_allocate_spec:
  assumes ses: "session os s x f L" and n: "rq_block_count rq \<noteq> 0"
  obtains r s' e' f' os' where
    "kes_extent_allocate crc (Some s) (Some rq) (Some e) os = Some (r, Some s', Some e', os')"
    "session os' s' x f' L" "os_after os os' x f'" "alloc_post crc L rq r e' f f'"
    "quiet os \<longrightarrow> r \<noteq> KES_ERROR_IO" "sto_fd s' = sto_fd s" "r = KES_SUCCESS \<longrightarrow> sto_desc s' = disk_desc f' \<and>
       sto_stats s' = (sto_stats s)\<lparr>st_allocated_extents := st_allocated_extents (sto_stats s) + 1\<rparr>"
proof -
  have S: "\<not> sto_lock s" "\<not> sto_readonly s" "disk_static L f" using ses by (auto simp: session_def)
  note defs = kes_extent_allocate_def pthread_mutex_lock_def pthread_mutex_unlock_def
  note same = alloc_post_unchanged [OF S(3)]
  from ses show thesis
  proof (cases rule: enter_reload)
    case (fail os')
    have "kes_extent_allocate crc (Some s) (Some rq) (Some e) os = Some (KES_ERROR_IO, Some (s\<lparr>sto_lock := False\<rparr>), Some e, os')"
      using S n fail(1) by (simp add: defs)
    then show thesis by (rule that [OF _ fail(2,3)]) (use same fail(4) in auto)
  next
    case (stale os1 s2 os2 os')
    have "kes_extent_allocate crc (Some s) (Some rq) (Some e) os = Some (KES_ERROR_IO, Some (s2\<lparr>sto_lock := False\<rparr>), Some e, os')"
      using S n stale(1-3) by (simp add: defs)
    then show thesis by (rule that [OF _ stale(4,5)]) (use same stale(6,7) in auto)
  next
    case (fresh os1 b s2 os2 os')
    have b: "sto_bitmap s2 = Some b" "sto_fd s2 = sto_fd s" by (simp_all add: fresh(3))
    from fresh(4) b(1) n show thesis
    proof (cases rule: first_fit_cases [of b s2 rq e, case_names hit miss])
      case miss
      have "kes_extent_allocate crc (Some s) (Some rq) (Some e) os = Some (KES_ERROR_NOSPACE, Some (s2\<lparr>sto_lock := False\<rparr>), Some e, os')"
        using S n fresh(1,2,8) miss(1) by (simp add: defs)
      then show thesis by (rule that [OF _ fresh(9,10)]) (use same miss(2) fresh(5,7) b(2) in auto)
    next
      case (hit st b2)
      have tb: "bm_total_bits b2 = d_user_blocks L" using hit(3) unfolding fresh(5) by (rule unsigned_word_eqI)
      show thesis
        by (rule allocate_found [OF ses n fresh(1-3,11-15) hit(1,2) tb hit(4,5) [unfolded fresh(5,7)]])
           (rule that, assumption+, simp_all)
    qed
  qed
qed

section \<open>Freeing\<close>

lemma all_allocated_loop_run:
  assumes "bm_mem b" "unat s + unat i + k < 2 ^ 64" "unat i + k < 2 ^ 32"
  shows "all_allocated_loop (Some b) s i k =
    Some ({unat s + unat i..<unat s + unat i + k} \<subseteq> bm_used b)"
  using assms(2,3)
proof (induction k arbitrary: i)
  case 0
  then show ?case by simp
next
  case (Suc k)
  have idx: "unat (s + ucast i) = unat s + unat i" using Suc.prems(1) by (intro unat_index) simp
  have i1: "unat (i + 1) = Suc (unat i)" using Suc.prems(2) by (rule unat_u32_Suc)
  have IH: "all_allocated_loop (Some b) s (i + 1) k =
      Some ({Suc (unat s + unat i)..<Suc (unat s + unat i) + k} \<subseteq> bm_used b)"
    using Suc.IH [of "i + 1"] Suc.prems unfolding i1 by simp
  have "{unat s + unat i..<unat s + unat i + Suc k} =
      insert (unat s + unat i) {Suc (unat s + unat i)..<Suc (unat s + unat i) + k}" by auto
  then show ?case
    using IH by (simp add: kes_bitmap_test_spec [OF assms(1)] idx)
qed

text \<open>The check is exact for every start block and count: an extent that starts beyond the bitmap
  fails at its first block, so \<open>start_block + i\<close> never wraps.\<close>

lemma all_allocated_loop_spec:
  assumes mem: "bm_mem b"
  shows "all_allocated_loop (Some b) s 0 (unat (n :: u32)) = Some (blocks s n \<subseteq> bm_used b)"
proof (cases "unat s < unat (bm_total_bits b)")
  case True
  then have "unat s + unat n < 2 ^ 64" using mem unat_u32_bound [of n] by (simp add: bm_mem_def)
  then show ?thesis using all_allocated_loop_run [OF mem, of s 0 "unat n"] unat_u32_bound [of n] by simp
next
  case False
  show ?thesis
  proof (cases "unat n")
    case (Suc k)
    have "unat s \<notin> bm_used b" using False by (simp add: bm_used_def)
    moreover from this have "\<not> blocks s n \<subseteq> bm_used b" using Suc by (auto simp: subset_iff)
    ultimately show ?thesis using Suc by (simp add: kes_bitmap_test_spec [OF mem])
  qed simp
qed

lemma blocks_inside:
  assumes "blocks s n \<subseteq> {..<T}"
  shows "n = 0 \<or> unat s + unat n \<le> T"
proof (cases "unat n")
  case 0
  then show ?thesis by (simp add: unat_eq_0)
next
  case (Suc k)
  then have "unat s + k \<in> {..<T}" using assms by (simp add: subset_iff)
  then show ?thesis using Suc by simp
qed

definition free_post ::
    "(u32 \<Rightarrow> u8 list \<Rightarrow> u32) \<Rightarrow> kes_storage_descriptor \<Rightarrow> kes_extent_descriptor \<Rightarrow> int \<Rightarrow>
     ofile \<Rightarrow> ofile \<Rightarrow> bool" where
  "free_post crc L e r f f' \<longleftrightarrow>
     (let U = disk_used L f; n = x_block_count e; d = disk_desc f in
     disk_static L f' \<and> user_area_kept L f f' \<and>
     (r = KES_SUCCESS \<or> r = KES_ERROR_IO \<or> r = KES_ERROR_NOTFOUND \<or> r = KES_ERROR_INVALID) \<and>
     (f' = f \<or> U - ext_blocks e \<subseteq> disk_used L f' \<and> disk_used L f' \<subseteq> U \<and> ext_blocks e \<subseteq> U) \<and>
     (r = KES_SUCCESS \<longrightarrow> ext_blocks e \<subseteq> U \<and> disk_used L f' = U - ext_blocks e \<and> \<not> f_dirty f' \<and>
        disk_desc f' = d\<lparr>d_used_blocks := d_used_blocks d - ucast n,
          d_free_blocks := d_free_blocks d + ucast n,
          d_bitmap_checksum := crc 0 (disk_bits L f')\<rparr>) \<and>
     (r = KES_ERROR_NOTFOUND \<longrightarrow> f' = f \<and> \<not> ext_blocks e \<subseteq> U) \<and>
     (r = KES_ERROR_INVALID \<longrightarrow> f' = f \<and> n = 0))"

lemma free_post_used:
  assumes "free_post crc L e r f f'"
  shows "disk_used L f - ext_blocks e \<subseteq> disk_used L f'" "disk_used L f' \<subseteq> disk_used L f"
proof -
  have "f' = f \<or> disk_used L f - ext_blocks e \<subseteq> disk_used L f' \<and> disk_used L f' \<subseteq> disk_used L f"
    using assms unfolding free_post_def Let_def by (elim conjE) (erule disj_forward, assumption, elim conjE, rule conjI)
  then show "disk_used L f - ext_blocks e \<subseteq> disk_used L f'" "disk_used L f' \<subseteq> disk_used L f" by auto
qed

lemma free_post_success:
  assumes "free_post crc L e KES_SUCCESS f f'"
  shows "ext_blocks e \<subseteq> disk_used L f" "disk_used L f' = disk_used L f - ext_blocks e" "\<not> f_dirty f'"
    "disk_desc f' = (disk_desc f)\<lparr>d_used_blocks := d_used_blocks (disk_desc f) - ucast (x_block_count e),
       d_free_blocks := d_free_blocks (disk_desc f) + ucast (x_block_count e), d_bitmap_checksum := crc 0 (disk_bits L f')\<rparr>"
  using assms unfolding free_post_def Let_def by argo+

lemma free_coherent:
  assumes c: "disk_coherent crc L f" and p: "free_post crc L e KES_SUCCESS f f'" and st: "disk_static L f'" and L: "layout_ok L"
  shows "disk_coherent crc L f'"
proof -
  note Q = free_post_success [OF p]
  have "counters (disk_used L f') (unat (d_user_blocks L)) ((disk_desc f)
      \<lparr>d_used_blocks := d_used_blocks (disk_desc f) - ucast (x_block_count e),
       d_free_blocks := d_free_blocks (disk_desc f) + ucast (x_block_count e)\<rparr>)"
    unfolding Q(2) ext_blocks_def
    by (rule counters_free [OF _ _ _ layout_ok_bounds(4) [OF L]]) (use c Q(1) in \<open>simp_all add: disk_coherent_counters ext_blocks_def\<close>)
  then show ?thesis using st unfolding disk_coherent_counters Q(4) by (simp add: counters_def)
qed

lemma free_post_unchanged:
  assumes "disk_static L f" "r = KES_ERROR_IO \<or> (r = KES_ERROR_NOTFOUND \<and> \<not> ext_blocks e \<subseteq> disk_used L f) \<or>
      (r = KES_ERROR_INVALID \<and> x_block_count e = 0)"
  shows "free_post crc L e r f f"
  using assms(2) by (elim disjE) (simp_all add: free_post_def assms(1))

lemma free_post_persisted:
  fixes L :: kes_storage_descriptor and f :: ofile and e :: kes_extent_descriptor
  defines "U \<equiv> disk_used L f" and "n \<equiv> x_block_count e" and "d \<equiv> disk_desc f"
  assumes st: "disk_static L f" and ok: "bm_ok b" and tb: "bm_total_bits b = d_user_blocks L"
    and sub: "ext_blocks e \<subseteq> U" and used: "bm_used b = U - ext_blocks e"
    and p: "persisted crc L (d\<lparr>d_used_blocks := d_used_blocks d - ucast n,
       d_free_blocks := d_free_blocks d + ucast n\<rparr>) (bm_data b) r f f'"
  shows "free_post crc L e r f f'"
proof -
  note pu = persisted_used [OF p st ok tb]
  have "U - ext_blocks e \<subseteq> disk_used L f'" using pu(2) used by (auto simp: U_def)
  moreover have "disk_used L f' \<subseteq> U" using pu(1) used by (auto simp: U_def)
  ultimately show ?thesis
    using p sub pu(3) used unfolding free_post_def persisted_def Let_def
    by (simp add: U_def n_def d_def) auto
qed

lemma free_hit:
  assumes run: "\<not> sto_lock s" "\<not> sto_readonly s"
      "c_flock os (sto_fd s) LOCK_EX = Some (0, os1)" "reload (s\<lparr>sto_lock := True\<rparr>) os1 = Some (KES_SUCCESS, s2, os2)"
      "all_allocated_loop (sto_bitmap s2) (x_start_block e) 0 (unat (x_block_count e)) = Some True"
      "kes_bitmap_clear_range (sto_bitmap s2) (x_start_block e) (x_block_count e) = Some (KES_SUCCESS, bm)"
      "persist crc (note_free (s2\<lparr>sto_bitmap := bm\<rparr>) e) os2 = Some (r, s5, os3)"
      "unlock_all s5 os3 = Some (s6, os4)"
  shows "kes_extent_free crc (Some s) (Some e) os = Some (r, Some s6, os4)"
  using run by (simp add: kes_extent_free_def pthread_mutex_lock_def)

lemma free_found:
  assumes ses: "session os s x f L"
    and lk: "c_flock os (sto_fd s) LOCK_EX = Some (0, os1)" "reload (s\<lparr>sto_lock := True\<rparr>) os1 = Some (KES_SUCCESS, s2, os2)"
    and s2: "s2 = s\<lparr>sto_lock := True, sto_desc := disk_desc f, sto_bitmap := Some b\<rparr>"
    and os2: "os_files os2 = os_files os" "os_fds os2 = (os_fds os)[nat (sto_fd s) := Some (x\<lparr>of_lock := LOCK_EX\<rparr>)]"
      "quiet os \<longrightarrow> quiet os2" and d: "desc_wf (disk_desc f)" "layout (disk_desc f) = layout L"
    and b: "bm_ok b" "bm_total_bits b = d_user_blocks L" "bm_used b = disk_used L f"
    and e: "ext_blocks e \<subseteq> disk_used L f" "unat (x_start_block e) < unat (d_user_blocks L)"
  obtains r s' f' os' where
    "kes_extent_free crc (Some s) (Some e) os = Some (r, Some s', os')"
    "session os' s' x f' L" "os_after os os' x f'" "free_post crc L e r f f'" "quiet os \<longrightarrow> r = KES_SUCCESS"
    "sto_fd s' = sto_fd s" "r = KES_SUCCESS \<longrightarrow> sto_desc s' = disk_desc f'"
    "sto_stats s' = (sto_stats s)\<lparr>st_allocated_extents := st_allocated_extents (sto_stats s) - 1\<rparr>"
proof -
  have S: "\<not> sto_lock s" "\<not> sto_readonly s" "disk_static L f" using ses by (auto simp: session_def)
  have fit: "unat (x_start_block e) + unat (x_block_count e) \<le> unat (bm_total_bits b)"
    using e(2) blocks_inside [OF order_trans [OF e(1) [folded b(3), unfolded ext_blocks_def] bm_used_subset]] b(2) by auto
  obtain b2 where cl: "kes_bitmap_clear_range (Some b) (x_start_block e) (x_block_count e) =
      Some (KES_SUCCESS, Some b2)" "bm_ok b2" "bm_shape b2 = bm_shape b" "bm_used b2 = disk_used L f - ext_blocks e"
    using kes_bitmap_clear_range_spec [OF b(1) _ fit] e(2) b(2,3) by (auto simp: ext_blocks_def)
  have tb: "bm_total_bits b2 = d_user_blocks L" using bm_total_bits_shape [OF cl(3)] b(2) by simp
  define s3 where "s3 = note_free (s2\<lparr>sto_bitmap := Some b2\<rparr>) e"
  have s3: "sto_fd s3 = sto_fd s" "sto_lock s3" "sto_bitmap s3 = Some b2" "sto_readonly s3 = sto_readonly s"
    "sto_desc s3 = (disk_desc f)\<lparr>d_used_blocks := d_used_blocks (disk_desc f) - ucast (x_block_count e),
       d_free_blocks := d_free_blocks (disk_desc f) + ucast (x_block_count e)\<rparr>"
    "sto_stats s3 = (sto_stats s)\<lparr>st_allocated_extents := st_allocated_extents (sto_stats s) - 1\<rparr>"
    by (simp_all add: s3_def s2 note_free_def Let_def)
  obtain r d' f' os3 os5 where p: "persist crc s3 os2 = Some (r, s3\<lparr>sto_desc := d'\<rparr>, os3)"
    "unlock_all (s3\<lparr>sto_desc := d'\<rparr>) os3 = Some (s3\<lparr>sto_desc := d', sto_lock := False\<rparr>, os5)"
    "desc_wf d'" "layout d' = layout L" "os_after os os5 x f'"
    "persisted crc L (sto_desc s3) (bm_data b2) r f f'" "quiet os \<longrightarrow> r = KES_SUCCESS" "r = KES_SUCCESS \<longrightarrow> d' = disk_desc f'"
    by (rule leave_persisted [OF ses os2 os_same_refl s3(1,2) _ _ s3(3) cl(2) tb]) (use d s3(5) in simp_all)
  have all: "all_allocated_loop (Some b) (x_start_block e) 0 (unat (x_block_count e)) = Some True"
    using all_allocated_loop_spec [OF bm_ok_mem [OF b(1)]] e(1) b(3) by (simp add: ext_blocks_def)
  have run: "kes_extent_free crc (Some s) (Some e) os = Some (r, Some (s3\<lparr>sto_desc := d', sto_lock := False\<rparr>), os5)"
    by (rule free_hit [OF S(1,2) lk _ _ _ p(2), of e "Some b2"]) (use all cl(1) p(1) in \<open>simp_all add: s2 s3_def\<close>)
  have ses5: "session os5 (s3\<lparr>sto_desc := d', sto_lock := False\<rparr>) x f' L"
    by (rule session_after [OF ses p(5)])
       (use S p(3,4,6) cl(2) tb s3 in \<open>simp_all add: handle_ok_def persisted_def bm_ok_def\<close>)
  have post: "free_post crc L e r f f'"
    by (rule free_post_persisted [OF S(3) cl(2) tb e(1) cl(4)]) (use p(6) s3(5) in simp)
  show thesis by (rule that [OF run ses5 p(5) post]) (use p(7,8) s3 in simp_all)
qed

lemma kes_extent_free_spec:
  assumes ses: "session os s x f L"
  obtains r s' f' os' where
    "kes_extent_free crc (Some s) (Some e) os = Some (r, Some s', os')"
    "session os' s' x f' L" "os_after os os' x f'" "free_post crc L e r f f'"
    "quiet os \<longrightarrow> r \<noteq> KES_ERROR_IO" "sto_fd s' = sto_fd s" "r = KES_SUCCESS \<longrightarrow> sto_desc s' = disk_desc f' \<and>
       sto_stats s' = (sto_stats s)\<lparr>st_allocated_extents := st_allocated_extents (sto_stats s) - 1\<rparr>"
proof -
  have S: "\<not> sto_lock s" "\<not> sto_readonly s" "disk_static L f" using ses by (auto simp: session_def)
  note defs = kes_extent_free_def pthread_mutex_lock_def pthread_mutex_unlock_def
  note same = free_post_unchanged [OF S(3)]
  from ses show thesis
  proof (cases rule: enter_reload)
    case (fail os')
    have "kes_extent_free crc (Some s) (Some e) os = Some (KES_ERROR_IO, Some (s\<lparr>sto_lock := False\<rparr>), os')"
      using S fail(1) by (simp add: defs)
    then show thesis by (rule that [OF _ fail(2,3)]) (use same fail(4) in auto)
  next
    case (stale os1 s2 os2 os')
    have "kes_extent_free crc (Some s) (Some e) os = Some (KES_ERROR_IO, Some (s2\<lparr>sto_lock := False\<rparr>), os')"
      using S stale(1-3) by (simp add: defs)
    then show thesis by (rule that [OF _ stale(4,5)]) (use same stale(6,7) in auto)
  next
    case (fresh os1 b s2 os2 os')
    have b: "sto_bitmap s2 = Some b" "sto_fd s2 = sto_fd s" by (simp_all add: fresh(3))
    have all: "all_allocated_loop (Some b) (x_start_block e) 0 (unat (x_block_count e)) = Some (ext_blocks e \<subseteq> disk_used L f)"
      using all_allocated_loop_spec [OF bm_ok_mem [OF fresh(4)]] fresh(7) by (simp add: ext_blocks_def)
    consider (missing) "\<not> ext_blocks e \<subseteq> disk_used L f"
      | (outside) "ext_blocks e \<subseteq> disk_used L f" "\<not> unat (x_start_block e) < unat (d_user_blocks L)"
      | (found) "ext_blocks e \<subseteq> disk_used L f" "unat (x_start_block e) < unat (d_user_blocks L)" by blast
    then show thesis
    proof cases
      case missing
      have "kes_extent_free crc (Some s) (Some e) os = Some (KES_ERROR_NOTFOUND, Some (s2\<lparr>sto_lock := False\<rparr>), os')"
        using S fresh(1,2,8) missing all b(1) by (simp add: defs)
      then show thesis by (rule that [OF _ fresh(9,10)]) (use same missing b(2) in auto)
    next
      case outside
      have n0: "x_block_count e = 0"
        using outside blocks_inside [OF order_trans [OF outside(1) [folded fresh(7), unfolded ext_blocks_def] bm_used_subset]]
          unat_gt_0 [of "x_block_count e"] fresh(5) by fastforce
      have "kes_bitmap_clear_range (Some b) (x_start_block e) (x_block_count e) = Some (KES_ERROR_INVALID, Some b)"
        using kes_bitmap_range_invalid(2) [OF bm_ok_mem [OF fresh(4)]] outside(2) fresh(5) by auto
      then have "kes_extent_free crc (Some s) (Some e) os = Some (KES_ERROR_INVALID, Some (s2\<lparr>sto_lock := False\<rparr>), os')"
        using S fresh(1,2,8) outside all b(1) by (simp add: defs fresh(3))
      then show thesis by (rule that [OF _ fresh(9,10)]) (use same n0 b(2) in auto)
    next
      case found
      show thesis
        by (rule free_found [OF ses fresh(1-3,11-15) fresh(4,5,7) found]) (rule that, assumption+, simp_all)
    qed
  qed
qed

end
