(* ===== verification/Kes_Lifecycle.thy ===== *)
theory Kes_Lifecycle
  imports Kes_Extent
begin

text \<open>
  Creating, opening, synchronising and closing a storage: the layout chosen for an accepted
  configuration, what \<open>kes_storage_create\<close> writes, when \<open>kes_storage_open\<close> accepts a file, and what
  \<open>kes_storage_sync\<close> and \<open>kes_storage_close\<close> leave on disk.
\<close>

section \<open>The layout of a new storage\<close>

lemma validate_config_ok:
  assumes "validate_config (Some c) = KES_SUCCESS"
  shows "cfg_device_path c \<noteq> None" "40960 \<le> unat (cfg_device_size c)" "cfg_strategy c = KES_ALLOC_FIRST_FIT"
proof -
  have c: "cfg_device_path c \<noteq> None" "KES_MIN_BLOCK_SIZE \<le> cfg_block_size c" "cfg_block_size c \<le> KES_MAX_BLOCK_SIZE"
    "ucast (cfg_block_size c * 10) \<le> cfg_device_size c" "cfg_strategy c = KES_ALLOC_FIRST_FIT"
    using assms by (auto simp: validate_config_def not_less split: if_splits)
  have bs: "4096 \<le> unat (cfg_block_size c)" "unat (cfg_block_size c) \<le> 65536"
    using c(2,3) by (simp_all add: word_le_nat_alt)
  then have "unat (cfg_block_size c * 10) = unat (cfg_block_size c) * 10"
    by (subst unat_mult_no_overflow) simp_all
  moreover have "unat (cfg_block_size c * 10) \<le> unat (cfg_device_size c)"
    using c(4) by (simp add: word_le_nat_alt)
  ultimately show "40960 \<le> unat (cfg_device_size c)" using bs(1) by linarith
  show "cfg_device_path c \<noteq> None" "cfg_strategy c = KES_ALLOC_FIRST_FIT" by fact+
qed

lemma unat_calculate_bitmap_blocks:
  assumes "unat t < 2 ^ 63"
  shows "unat (calculate_bitmap_blocks t 8192) = ((unat t + 7) div 8 + 8191) div 8192"
proof -
  have 1: "unat (t + 7) = unat t + 7" by (subst unat_add_no_overflow) (use assms in simp_all)
  then have 2: "unat ((t + 7) div 8) = (unat t + 7) div 8" by (simp add: unat_div)
  have "unat (8191 + (t + 7) div 8) = 8191 + (unat t + 7) div 8"
    by (subst unat_add_no_overflow) (use assms 2 in simp_all)
  then have "unat ((8191 + (t + 7) div 8) div 8192) = (8191 + (unat t + 7) div 8) div 8192" by (simp add: unat_div)
  moreover have "calculate_bitmap_blocks t 8192 = (8191 + (t + 7) div 8) div 8192"
    by (simp add: calculate_bitmap_blocks_def)
  ultimately show ?thesis by (simp only: add.commute)
qed

lemma init_layout:
  assumes lo: "40960 \<le> unat sz" and hi: "unat sz < 2 ^ 63"
    and run: "init_storage_descriptor s sz = (r, s')" and wf: "desc_wf (sto_desc s)"
  defines "d \<equiv> sto_desc s'"
  shows "r = KES_SUCCESS" "layout_ok d" "desc_wf d" "unat (d_total_blocks d) * block_bytes d \<le> unat sz"
    "block_bytes d = 8192" "d_free_blocks d = d_user_blocks d" "d_used_blocks d = 0" "d_next_extent_id d = 1"
    "s' = s\<lparr>sto_desc := d\<rparr>" "3 \<le> unat (d_user_blocks d)"
proof -
  define t where "t = sz div 8192"
  have t: "unat t = unat sz div 8192" by (simp add: t_def unat_div)
  have tb: "5 \<le> unat t" "unat t < 2 ^ 51" using lo hi by (simp_all add: t)
  define k where "k = calculate_bitmap_blocks t 8192"
  have k: "unat k = ((unat t + 7) div 8 + 8191) div 8192"
    unfolding k_def by (rule unat_calculate_bitmap_blocks) (use tb in simp)
  then have k2: "unat k + 4 \<le> unat t" "(unat t + 7) div 8 \<le> unat k * 8192" using tb(1) by linarith+
  have st: "unat (t - k) = unat t - unat k" using k2 by (subst unat_diff_le) (simp_all add: word_le_nat_alt)
  have us: "unat (t - k - 1) = unat t - unat k - 1" using k2 st by (subst unat_diff_le) (simp_all add: word_le_nat_alt)
  have d: "d = (sto_desc s)\<lparr>
          d_magic := KES_MAGIC_NUMBER, d_version_major := KES_VERSION_MAJOR,
          d_version_minor := KES_VERSION_MINOR, d_block_size := KES_DEFAULT_BLOCK_SIZE,
          d_total_blocks := t, d_bitmap_start_block := t - k,
          d_bitmap_blocks := k, d_user_start_block := 1,
          d_user_blocks := t - k - 1, d_free_blocks := t - k - 1, d_used_blocks := 0,
          d_next_extent_id := 1\<rparr>" "r = KES_SUCCESS" "s' = s\<lparr>sto_desc := d\<rparr>"
    using run by (auto simp: init_storage_descriptor_def d_def t_def k_def Let_def)
  show "r = KES_SUCCESS" "s' = s\<lparr>sto_desc := d\<rparr>" by fact+
  show "block_bytes d = 8192" "d_free_blocks d = d_user_blocks d" "d_used_blocks d = 0" "d_next_extent_id d = 1"
    "desc_wf d"
    using wf by (simp_all add: d(1) block_bytes_def desc_wf_def)
  have "bitmap_len d \<le> (unat t + 7) div 8"
    unfolding bitmap_len_def d(1) by (simp add: us div_le_mono)
  then show "layout_ok d"
    using k2 st us t hi by (simp add: layout_ok_def d(1) block_bytes_def) linarith
  show "3 \<le> unat (d_user_blocks d)" using k2(1) us by (simp add: d(1))
  show "unat (d_total_blocks d) * block_bytes d \<le> unat sz" by (simp add: d(1) block_bytes_def t)
qed

section \<open>Creating\<close>

lemma c_open_cases:
  assumes "c_open os path wr creat trunc sync = (fd, os')"
  obtains (fail) "fd = - 1" "os_same os os'" "\<not> (quiet os \<and> (creat \<or> os_files os path \<noteq> None))"
    | (opened) f where "fd = int (length (os_fds os))" "os_files os' = (os_files os)(path \<mapsto> f)"
      "os_fds os' = os_fds os @ [Some \<lparr>of_path = path, of_rd = True, of_wr = wr, of_sync = sync, of_lock = LOCK_UN\<rparr>]"
      "quiet os \<longrightarrow> quiet os'" "os_files os path = Some f \<or> trunc \<or> os_files os path = None"
proof -
  obtain sr os1 where sn: "sys_next os = (sr, os1)" by fastforce
  from sys_next_same [OF this] have 1: "os_same os os1" "quiet os \<longrightarrow> sr = SysOk" by simp_all
  show thesis
  proof (cases "sr = SysFail \<or> (os_files os path = None \<and> \<not> creat)")
    case True
    then have "fd = - 1" "os' = os1"
      using assms 1 by (auto simp: c_open_def sn os_same_def split: option.splits if_splits)
    then show thesis using fail 1 True by auto
  next
    case False
    define f where "f = (case os_files os path of None \<Rightarrow> empty_file | Some f \<Rightarrow> if trunc then empty_file else f)"
    have "c_open os path wr creat trunc sync = new_fd os1 path f wr sync"
      using False 1 by (auto simp: c_open_def sn os_same_def f_def split: option.splits)
    then show thesis
      using opened [of f] assms 1 by (auto simp: new_fd_def os_same_def quiet_def f_def split: option.splits)
  qed
qed

lemma fd_on_new: "os_fds os = xs @ [Some x] \<Longrightarrow> os_files os (of_path x) = Some f \<Longrightarrow> fd_on os (int (length xs)) x f"
  by (simp add: fd_on_def fd_get_def)

lemma c_close_new: "os_fds os = xs @ [Some x] \<Longrightarrow> os_fds (c_close os (int (length xs))) = xs @ [None]"
  by (simp add: c_close_def fd_put_def)

lemma fwrite_dirty: "fwrite (f\<lparr>f_dirty := v\<rparr>) off bs = (fwrite f off bs)\<lparr>f_dirty := v\<rparr>"
  by (cases f) (simp add: fwrite_def cong: if_cong)

text \<open>A file after the writes of \<open>kes_storage_create\<close>, whatever it held before.\<close>

lemma fresh_disk:
  fixes f :: ofile
  assumes L: "layout_ok d" "desc_wf d" and len: "length bits = bitmap_len d"
    and bd: "mbits bits \<subseteq> {..<unat (d_user_blocks d)}"
  defines "f' \<equiv> fwrite (fwrite f (bitmap_at d) bits) 0 (enc_desc d)"
  shows "disk_desc f' = d" "disk_bits d f' = bits" "disk_static d f'"
proof -
  have enc: "length (enc_desc d) = 112" by (rule length_enc_desc [OF L(2)])
  have "f_holds f' (bitmap_at d) bits \<and> f_holds f' 0 (enc_desc d)"
    unfolding f'_def
    by (rule disk.two_writes) (use enc len layout_ok_bounds(2,3) [OF L(1)] in auto)
  then have "fread f' 0 112 = enc_desc d" "fread f' (bitmap_at d) (bitmap_len d) = bits"
    using f_holds_fread [of f' 0 "enc_desc d"] f_holds_fread [of f' "bitmap_at d" bits] enc len by auto
  then show "disk_desc f' = d" "disk_bits d f' = bits" "disk_static d f'"
    using enc len bd L(2) by (simp_all add: disk_desc_def disk_bits_def disk_static_def disk_used_def dec_enc_desc)
qed

text \<open>Writing the initial bitmap and descriptor through a new descriptor.\<close>

lemma initial_writes:
  assumes on: "fd_on os fd x f" and L: "layout_ok d" "desc_wf d" and b: "bm_ok b" "bm_total_bits b = d_user_blocks d"
    and s: "sto_fd s = fd" "sto_desc s = d" and wr: "of_wr x"
  obtains r1 os1 r2 os2 f' where "kes_bitmap_save (Some b) os fd (bitmap_offset d) = Some (r1, os1)"
    "save_storage_descriptor s os1 = (r2, os2)" "os_fds os1 = os_fds os" "os_fds os2 = os_fds os"
    "os_files os2 (of_path x) = Some f'"
    "\<forall>p. p \<noteq> of_path x \<longrightarrow> os_files os1 p = os_files os p \<and> os_files os2 p = os_files os p"
    "r1 = KES_SUCCESS \<and> r2 = KES_SUCCESS \<longrightarrow>
       disk_desc f' = d \<and> disk_bits d f' = bm_data b \<and> disk_static d f'"
    "quiet os \<longrightarrow> r1 = KES_SUCCESS \<and> r2 = KES_SUCCESS \<and> quiet os2"
proof -
  have len: "length (bm_data b) = bitmap_len d" using b by (simp add: bm_ok_def bm_mem_def bitmap_len_def)
  have bd: "mbits (bm_data b) \<subseteq> {..<unat (d_user_blocks d)}" using b by (simp add: bm_ok_def)
  obtain r1 k1 f1 os1 where 1: "kes_bitmap_save (Some b) os fd (int (bitmap_at d)) = Some (r1, os1)"
    "f1 = (fwrite f (nat (int (bitmap_at d))) (take k1 (bm_data b)))\<lparr>f_dirty := f_dirty f1\<rparr>"
    "os_files os1 = (os_files os)(of_path x \<mapsto> f1)" "os_fds os1 = os_fds os" "quiet os \<longrightarrow> quiet os1"
    "r1 = KES_SUCCESS \<longrightarrow> k1 = length (bm_data b)" "quiet os \<and> of_wr x \<longrightarrow> r1 = KES_SUCCESS"
    by (rule kes_bitmap_save_spec [OF bm_ok_mem [OF b(1)] on, of "int (bitmap_at d)"]) simp_all
  have on1: "fd_on os1 (sto_fd s) x f1" using on 1(3,4) s by (simp add: fd_on_def fd_get_same [of os1 os])
  have wf: "desc_wf (sto_desc s)" using L s by simp
  obtain r2 k2 f2 os2 where 2: "save_storage_descriptor s os1 = (r2, os2)"
    "f2 = (fwrite f1 0 (take k2 (enc_desc (sto_desc s))))\<lparr>f_dirty := f_dirty f2\<rparr>"
    "os_files os2 = (os_files os1)(of_path x \<mapsto> f2)" "os_fds os2 = os_fds os1" "quiet os1 \<longrightarrow> quiet os2"
    "r2 = KES_SUCCESS \<longrightarrow> k2 = 112" "quiet os1 \<and> of_wr x \<longrightarrow> r2 = KES_SUCCESS"
    by (rule save_desc_spec [OF on1 wf])
  have "disk_desc f2 = d \<and> disk_bits d f2 = bm_data b \<and> disk_static d f2" if r: "r1 = KES_SUCCESS \<and> r2 = KES_SUCCESS"
  proof -
    have "f1 = (fwrite f (bitmap_at d) (bm_data b))\<lparr>f_dirty := f_dirty f1\<rparr>" using 1(2,6) r by simp
    then obtain v where f1: "f1 = (fwrite f (bitmap_at d) (bm_data b))\<lparr>f_dirty := v\<rparr>" by blast
    have e: "take 112 (enc_desc d) = enc_desc d" using length_enc_desc [OF L(2)] by simp
    have "f2 = (fwrite f1 0 (enc_desc d))\<lparr>f_dirty := f_dirty f2\<rparr>" using 2(2,6) r s e by simp
    moreover have "fwrite f1 0 (enc_desc d) = (fwrite (fwrite f (bitmap_at d) (bm_data b)) 0 (enc_desc d))\<lparr>f_dirty := v\<rparr>"
      unfolding f1 by (rule fwrite_dirty)
    ultimately obtain w where
      f2: "f2 = (fwrite (fwrite f (bitmap_at d) (bm_data b)) 0 (enc_desc d))\<lparr>f_dirty := w\<rparr>"
      by (metis ofile.update_convs(3) ofile.cases)
    show ?thesis using fresh_disk [OF L len bd, of f] by (simp add: f2)
  qed
  then show thesis
    using that 1 2 wr bitmap_offset_eq [OF L(1)] by (auto simp: fun_upd_def)
qed

lemma kes_bitmap_create_cases:
  assumes t: "unat t \<le> 2 ^ 63" "t \<noteq> 0"
  obtains (fail) r os' where "kes_bitmap_create os t True = (r, None, os')" "r \<noteq> KES_SUCCESS" "os_same os os'" "\<not> quiet os"
    | (made) b os' where "kes_bitmap_create os t True = (KES_SUCCESS, Some b, os')" "os_same os os'"
      "bm_ok b" "bm_used b = {}" "bm_total_bits b = t"
proof -
  obtain ok1 os1 where 1: "c_alloc os = (ok1, os1)" by fastforce
  obtain ok2 os2 where 2: "c_alloc os1 = (ok2, os2)" by fastforce
  note q = c_alloc_same [OF 1] c_alloc_same [OF 2]
  obtain r bm os' where run: "kes_bitmap_create os t True = (r, bm, os')" using prod_cases3 by blast
  note ok = kes_bitmap_create_ok [OF run t(1)]
  have same: "os_same os os'" "r = KES_SUCCESS \<or> \<not> quiet os"
    using run q t(2) os_same_trans [of os os1 os2]
    by (auto simp: kes_bitmap_create_def 1 2 Let_def os_same_def split: if_splits)
  show thesis
  proof (cases "r = KES_SUCCESS")
    case True
    with ok obtain b where "bm = Some b" "bm_ok b" "bm_used b = {}" "bm_total_bits b = t" by auto
    with made run same True show thesis by blast
  next
    case False
    with fail run same ok show thesis by blast
  qed
qed

text \<open>The state of a handle right after a successful create: the file is coherent and empty.\<close>

definition created ::
    "(u32 \<Rightarrow> u8 list \<Rightarrow> u32) \<Rightarrow> os \<Rightarrow> kes_storage_config \<Rightarrow> kes_storage \<Rightarrow> ofd \<Rightarrow> ofile \<Rightarrow> os \<Rightarrow> bool" where
  "created crc os c s x f os' \<longleftrightarrow> os_fds os' = os_fds os @ [Some x] \<and> cfg_device_path c = Some (of_path x) \<and>
     of_rd x \<and> of_wr x \<and> of_lock x = LOCK_UN \<and> sto_fd s = int (length (os_fds os)) \<and>
     os_files os' (of_path x) = Some f \<and> layout_ok (sto_desc s) \<and> handle_ok (sto_desc s) s \<and> \<not> sto_lock s \<and>
     sto_readonly s = (cfg_flags c AND KES_STORAGE_READONLY \<noteq> 0) \<and>
     disk_coherent crc (sto_desc s) f \<and> disk_used (sto_desc s) f = {} \<and> disk_desc f = sto_desc s \<and>
     unat (d_total_blocks (sto_desc s)) * block_bytes (sto_desc s) \<le> unat (cfg_device_size c) \<and>
     d_block_size (sto_desc s) = KES_DEFAULT_BLOCK_SIZE \<and> d_next_extent_id (sto_desc s) = 1 \<and>
     3 \<le> unat (d_user_blocks (sto_desc s))"

lemma created_session:
  assumes "created crc os c s x f os'" "unlocked os" "cfg_flags c AND KES_STORAGE_READONLY = 0"
  shows "session os' s x f (sto_desc s)"
  using assms fd_on_new [of os' "os_fds os" x f]
  by (auto simp: created_def session_def disk_coherent_def unlocked_def)

lemma create_after_open:
  assumes sz: "40960 \<le> unat (cfg_device_size c)" "unat (cfg_device_size c) < 2 ^ 63"
    and path: "cfg_device_path c = Some (of_path x)" and x: "of_rd x" "of_wr x" "of_lock x = LOCK_UN"
    and fds: "os_fds os3 = os_fds os @ [Some x]" "os_files os3 (of_path x) = Some f0"
    and fd: "fd = int (length (os_fds os))"
    and s0: "sto_fd s0 = fd" "\<not> sto_lock s0" "desc_wf (sto_desc s0)"
      "sto_readonly s0 = (cfg_flags c AND KES_STORAGE_READONLY \<noteq> 0)"
  obtains r st os' where "create_layout crc s0 (cfg_device_size c) os3 = Some (r, st, os')"
    "r \<noteq> KES_SUCCESS \<longrightarrow> st = None \<and> os_fds os' = os_fds os @ [None]"
    "r = KES_SUCCESS \<longrightarrow> (\<exists>s f. st = Some s \<and> created crc os c s x f os')" "quiet os3 \<longrightarrow> r = KES_SUCCESS \<and> quiet os'"
proof -
  obtain r1 s1 where i: "init_storage_descriptor s0 (cfg_device_size c) = (r1, s1)" by fastforce
  define d where "d = sto_desc s1"
  note I = init_layout [OF sz i s0(3), folded d_def]
  have u: "unat (d_user_blocks d) \<le> 2 ^ 63" "d_user_blocks d \<noteq> 0"
    using layout_ok_bounds(4) [OF I(2)] I(2) by (auto simp: layout_ok_def unat_gt_0)
  from u show thesis
  proof (cases rule: kes_bitmap_create_cases [of "d_user_blocks d" os3, case_names fail made])
    case (fail r os4)
    then show thesis
      using that [of r None "c_close os4 fd"] i I(1) c_close_new [of os4 "os_fds os" x] fds fd
      by (simp add: create_layout_def s0(1) d_def os_same_def)
  next
    case (made b os4)
    let ?d = "d\<lparr>d_bitmap_checksum := crc 0 (bm_data b)\<rparr>"
    let ?s2 = "s0\<lparr>sto_bitmap := Some b, sto_desc := ?d\<rparr>"
    have ck: "refresh_checksum crc (s1\<lparr>sto_bitmap := Some b\<rparr>) = Some (KES_SUCCESS, ?s2)"
      using refresh_checksum_eq [of "s1\<lparr>sto_bitmap := Some b\<rparr>" b crc] bm_ok_mem [OF made(3)] I(9)
      by (cases s0) simp
    have lay: "layout ?d = layout d" by simp
    have L: "layout_ok ?d" "desc_wf ?d" using I(2,3) layout_ok_cong [OF lay] by simp_all
    have on4: "fd_on os4 fd x f0" unfolding fd by (rule fd_on_new) (use fds made(2) in \<open>simp_all add: os_same_def\<close>)
    obtain r5 os5 r6 os6 f where w: "kes_bitmap_save (Some b) os4 fd (bitmap_offset ?d) = Some (r5, os5)"
      "save_storage_descriptor ?s2 os5 = (r6, os6)" "os_fds os5 = os_fds os4" "os_fds os6 = os_fds os4"
      "os_files os6 (of_path x) = Some f"
      "r5 = KES_SUCCESS \<and> r6 = KES_SUCCESS \<longrightarrow> disk_desc f = ?d \<and> disk_bits ?d f = bm_data b \<and> disk_static ?d f"
      "quiet os4 \<longrightarrow> r5 = KES_SUCCESS \<and> r6 = KES_SUCCESS \<and> quiet os6"
      by (rule initial_writes [OF on4 L made(3), of ?s2]) (use made(5) s0(1) x(2) in simp_all)
    have fds4: "os_fds os4 = os_fds os @ [Some x]" using fds made(2) by (simp add: os_same_def)
    have run: "create_layout crc s0 (cfg_device_size c) os3 =
       (if r5 \<noteq> KES_SUCCESS then Some (r5, None, c_close os5 fd)
        else if r6 \<noteq> KES_SUCCESS then Some (r6, None, c_close os6 fd) else Some (KES_SUCCESS, Some ?s2, os6))"
      using i I(1) made(1) ck w(1,2) s0(1) by (simp add: create_layout_def d_def)
    have "created crc os c ?s2 x f os6" if "r5 = KES_SUCCESS" "r6 = KES_SUCCESS"
    proof -
      have f: "disk_desc f = ?d" "disk_bits ?d f = bm_data b" "disk_static ?d f" using w(6) that by blast+
      have "disk_used ?d f = {}" using f(2) made(4) bm_used_eq_mbits [OF made(3)] by (simp add: disk_used_def)
      moreover have bs: "d_block_size d = 8192"
        using I(5) by (intro unsigned_word_eqI) (simp add: block_bytes_def)
      ultimately show ?thesis
        using f L I(4-8,10) bs fds4 w(4,5) path x s0 made(3,5) fd bm_ok_mem [OF made(3)]
        by (simp add: created_def disk_coherent_def handle_ok_def block_bytes_def)
    qed
    then show thesis
      using that [of r5 None "c_close os5 fd"] that [of r6 None "c_close os6 fd"] that [of KES_SUCCESS "Some ?s2" os6]
        run w(3,4,7) fds4 c_close_new [of os5 "os_fds os" x] c_close_new [of os6 "os_fds os" x] made(2) fd
      by (auto simp: os_same_def split: if_splits)
  qed
qed

lemma kes_storage_create_spec:
  assumes v: "validate_config (Some c) = KES_SUCCESS" and hi: "unat (cfg_device_size c) < 2 ^ 63"
  obtains r st os' where "kes_storage_create crc os (Some c) True = Some (r, st, os')"
    "r \<noteq> KES_SUCCESS \<longrightarrow> st = None \<and> (os_fds os' = os_fds os \<or> os_fds os' = os_fds os @ [None])"
    "r = KES_SUCCESS \<longrightarrow> (\<exists>s x f. st = Some s \<and> created crc os c s x f os')"
    "quiet os \<and> (cfg_flags c AND KES_STORAGE_CREATE \<noteq> 0 \<or> os_files os (the (cfg_device_path c)) \<noteq> None) \<longrightarrow>
       r = KES_SUCCESS \<and> quiet os'"
proof -
  obtain path where path: "cfg_device_path c = Some path" and sz: "40960 \<le> unat (cfg_device_size c)"
    using validate_config_ok [OF v] by blast
  obtain ok1 os1 where 1: "c_alloc os = (ok1, os1)" by fastforce
  obtain ok2 os2 where 2: "c_alloc os1 = (ok2, os2)" by fastforce
  note q = c_alloc_same [OF 1] c_alloc_same [OF 2]
  have same: "os_same os os2" "os_same os os1" using q os_same_trans by blast+
  have quiet2: "quiet os \<longrightarrow> ok1 \<and> ok2 \<and> quiet os2" using q by (auto simp: os_same_def)
  show thesis
  proof (cases "ok1 \<and> ok2")
    case False
    define os' where "os' = (if ok1 then os2 else os1)"
    have "kes_storage_create crc os (Some c) True = Some (KES_ERROR_NOMEM, None, os')"
      using False v by (auto simp: kes_storage_create_def 1 2 os'_def)
    then show thesis using that [of KES_ERROR_NOMEM None os'] same False quiet2 by (auto simp: os'_def os_same_def)
  next
    case ok: True
    obtain fd os3 where op: "c_open os2 path True (cfg_flags c AND KES_STORAGE_CREATE \<noteq> 0)
        (cfg_flags c AND KES_STORAGE_TRUNCATE \<noteq> 0) (cfg_flags c AND KES_STORAGE_SYNC \<noteq> 0) = (fd, os3)"
      by fastforce
    let ?s0 = "zero_storage\<lparr>sto_fd := fd, sto_strategy := cfg_strategy c,
        sto_readonly := (cfg_flags c AND KES_STORAGE_READONLY \<noteq> 0),
        sto_sync_writes := (cfg_flags c AND KES_STORAGE_SYNC \<noteq> 0)\<rparr>"
    have run: "kes_storage_create crc os (Some c) True =
        (if fd < 0 then Some (KES_ERROR_IO, None, os3) else create_layout crc ?s0 (cfg_device_size c) os3)"
      using ok v by (simp add: kes_storage_create_def 1 2 path op)
    from op show thesis
    proof (cases rule: c_open_cases [case_names fail opened])
      case fail
      then show thesis
        using that [of KES_ERROR_IO None os3] run same quiet2 path by (auto simp: os_same_def)
    next
      case (opened f)
      let ?x = "\<lparr>of_path = path, of_rd = True, of_wr = True, of_sync = (cfg_flags c AND KES_STORAGE_SYNC \<noteq> 0),
          of_lock = LOCK_UN\<rparr>"
      obtain r st os' where cl: "create_layout crc ?s0 (cfg_device_size c) os3 = Some (r, st, os')"
        "r \<noteq> KES_SUCCESS \<longrightarrow> st = None \<and> os_fds os' = os_fds os @ [None]"
        "r = KES_SUCCESS \<longrightarrow> (\<exists>s f. st = Some s \<and> created crc os c s ?x f os')"
        "quiet os3 \<longrightarrow> r = KES_SUCCESS \<and> quiet os'"
        by (rule create_after_open [OF sz hi, of ?x os3 os f fd ?s0 crc])
           (use path opened same in \<open>simp_all add: os_same_def zero_storage_def zero_desc_def desc_wf_def\<close>)
      have "kes_storage_create crc os (Some c) True = Some (r, st, os')" using run cl(1) opened(1) by simp
      then show thesis using that [of r st os'] cl opened(4) quiet2 by blast
    qed
  qed
qed

text \<open>The numbers in a fresh handle.\<close>

lemma create_handle:
  assumes "kes_storage_create crc os (Some c) True = Some (KES_SUCCESS, Some s, os')"
  defines "t \<equiv> cfg_device_size c div 8192"
  shows "sto_stats s = zero_stats" "d_total_blocks (sto_desc s) = t"
    "d_user_blocks (sto_desc s) = t - calculate_bitmap_blocks t KES_DEFAULT_BLOCK_SIZE - 1"
proof -
  have fresh: "sto_stats s2 = sto_stats s1 \<and> d_total_blocks (sto_desc s2) = d_total_blocks (sto_desc s1) \<and>
      d_user_blocks (sto_desc s2) = d_user_blocks (sto_desc s1)" if "refresh_checksum crc s1 = Some (r, s2)" for s1 r s2
    using that by (auto simp: refresh_checksum_def bind_eq_Some_conv split: option.splits)
  have "sto_stats s = zero_stats \<and> d_total_blocks (sto_desc s) = t \<and>
      d_user_blocks (sto_desc s) = t - calculate_bitmap_blocks t KES_DEFAULT_BLOCK_SIZE - 1"
    using assms(1) unfolding kes_storage_create_def create_layout_def init_storage_descriptor_def Let_def t_def
    by (auto split: if_splits prod.splits option.splits simp: bind_eq_Some_conv zero_storage_def dest!: fresh)
  then show "sto_stats s = zero_stats" "d_total_blocks (sto_desc s) = t"
    "d_user_blocks (sto_desc s) = t - calculate_bitmap_blocks t KES_DEFAULT_BLOCK_SIZE - 1" by blast+
qed

text \<open>Whatever happens, the result is one of the library's codes.\<close>

lemma create_code:
  assumes "kes_storage_create crc os c p = Some (r, st, os')"
  shows "r \<in> {- 8..0}"
proof -
  have 1: "fst (kes_bitmap_create os1 n q) \<in> {- 8..0}" for os1 n q
    by (auto simp: kes_bitmap_create_def Let_def split: if_splits prod.splits)
  have 2: "refresh_checksum crc s = Some (r1, s1) \<Longrightarrow> r1 \<in> {- 8..0}" for s r1 s1
    by (auto simp: refresh_checksum_def kes_bitmap_checksum_def bind_eq_Some_conv split: if_splits option.splits)
  have 3: "kes_bitmap_save b os1 fd off = Some (r1, os2) \<Longrightarrow> r1 \<in> {- 8..0}" for b os1 fd off r1 os2
    by (auto simp: kes_bitmap_save_def Let_def split: if_splits prod.splits option.splits)
  have 4: "fst (save_storage_descriptor s os1) \<in> {- 8..0}" for s os1
    by (auto simp: save_storage_descriptor_def Let_def split: if_splits prod.splits)
  have 5: "validate_config c \<in> {- 8..0}" by (auto simp: validate_config_def Let_def split: option.splits)
  have cl: "r1 \<in> {- 8..0}" if "create_layout crc s n os1 = Some (r1, st1, os2)" for s n os1 r1 st1 os2
    using that 1 4 unfolding create_layout_def init_storage_descriptor_def Let_def case_prod_beta
    by (auto split: if_splits simp: bind_eq_Some_conv dest!: 2 3)
  show ?thesis using assms 5 unfolding kes_storage_create_def Let_def case_prod_beta
    by (auto split: if_splits option.splits dest: cl)
qed

section \<open>Opening\<close>

lemma flock_new_fd:
  assumes fds: "os_fds os = xs @ [Some x]" and f: "os_files os (of_path x) = Some f"
    and un: "\<forall>y. Some y \<in> set xs \<longrightarrow> of_lock y = LOCK_UN" and lk: "of_lock x = LOCK_UN"
  obtains (fail) os' where "c_flock os (int (length xs)) LOCK_SH = Some (- 1, os')" "os_same os os'" "\<not> quiet os"
    | (lock) os' where "c_flock os (int (length xs)) LOCK_SH = Some (0, os')" "os_files os' = os_files os"
      "os_fds os' = xs @ [Some (x\<lparr>of_lock := LOCK_SH\<rparr>)]" "quiet os \<longrightarrow> quiet os'"
proof -
  have on: "fd_on os (int (length xs)) x f" by (rule fd_on_new [OF fds f])
  have ul: "unlocked os" using un lk by (auto simp: unlocked_def fds)
  have m: "LOCK_SH \<noteq> LOCK_UN" by simp
  from on ul m show thesis
    by (cases rule: c_flock_lock) (use that in \<open>auto simp: fds\<close>)
qed

lemma open_fail_spec:
  assumes fds: "os_fds os = xs @ [Some x]" and f: "os_files os (of_path x) = Some f"
  obtains os' where "open_fail r (int (length xs)) os = Some (r, None, os')" "os_files os' = os_files os"
    "os_fds os' = xs @ [None]"
proof -
  have on: "fd_on os (int (length xs)) x f" by (rule fd_on_new [OF fds f])
  obtain os1 where 1: "c_flock os (int (length xs)) LOCK_UN = Some (0, os1)" "os_files os1 = os_files os"
    "os_fds os1 = (os_fds os)[nat (int (length xs)) := Some (x\<lparr>of_lock := LOCK_UN\<rparr>)]"
    by (rule c_flock_unlock [OF on])
  then have "os_fds os1 = xs @ [Some (x\<lparr>of_lock := LOCK_UN\<rparr>)]" by (simp add: fds)
  then show thesis
    using that [of "c_close os1 (int (length xs))"] 1(1,2) c_close_new
    by (simp add: open_fail_def) (simp add: c_close_def fd_put_def)
qed

text \<open>Loading the descriptor into a handle that holds anything.\<close>

lemma load_desc_fresh:
  assumes on: "fd_on os (sto_fd s) x f" and rd: "of_rd x" and st: "disk_static L f" and L: "layout_ok L"
    and wf: "desc_wf (sto_desc s)"
  obtains r s' os' where "load_storage_descriptor s os = (r, s', os')" "os_same os os'"
    "r = KES_SUCCESS \<or> r = KES_ERROR_IO" "r = KES_SUCCESS \<longrightarrow> s' = s\<lparr>sto_desc := disk_desc f\<rparr>"
    "quiet os \<longrightarrow> r = KES_SUCCESS"
proof -
  obtain p os1 where sk: "c_lseek os (sto_fd s) 0 = (p, os1)" by fastforce
  from c_lseek_spec [OF sk on] have
    1: "os_same os os1" "p = 0 \<Longrightarrow> os_pos os1 (nat (sto_fd s)) = 0" "quiet os \<Longrightarrow> p = 0" by auto
  obtain n bs os2 where rd2: "c_read os1 (sto_fd s) 112 = (n, bs, os2)" using prod_cases3 by blast
  have on1: "fd_on os1 (sto_fd s) x f" using on fd_on_same [OF 1(1)] by simp
  have D: "length (fread f 0 112) = 112" "layout (disk_desc f) = layout L" using st by (simp_all add: disk_static_def)
  have enc: "length (enc_desc (sto_desc s)) = 112" using wf by (rule length_enc_desc)
  have ok: "d_magic (disk_desc f) = KES_MAGIC_NUMBER" "d_version_major (disk_desc f) = KES_VERSION_MAJOR"
    using layout_fields [OF D(2)] L by (simp_all add: layout_ok_def)
  show thesis
  proof (cases "p = 0 \<and> n = 112")
    case True
    have 2: "os_same os1 os2" "bs = fread f 0 112" using c_read_spec [OF rd2 on1 rd] 1(2) True by auto
    then have "dec_desc (overlay bs (enc_desc (sto_desc s))) = disk_desc f"
      using D(1) enc by (simp add: overlay_full disk_desc_def)
    then have "load_storage_descriptor s os = (KES_SUCCESS, s\<lparr>sto_desc := disk_desc f\<rparr>, os2)"
      using sk rd2 True ok by (simp add: load_storage_descriptor_def)
    then show thesis using that os_same_trans [OF 1(1) 2(1)] by blast
  next
    case False
    then obtain s' where "load_storage_descriptor s os = (KES_ERROR_IO, s', if p = 0 then os2 else os1)"
      using sk rd2 by (cases "p = 0") (auto simp: load_storage_descriptor_def Let_def)
    moreover have "os_same os (if p = 0 then os2 else os1)"
      using c_read_spec [OF rd2 on1 rd] 1(1) os_same_trans by auto
    moreover have "\<not> quiet os"
      using False c_read_spec [OF rd2 on1 rd] 1 D(1) by (auto simp: os_same_def)
    ultimately show thesis using that [of KES_ERROR_IO s' "if p = 0 then os2 else os1"] by simp
  qed
qed

text \<open>The handle of a successful open: its view is what the file stores, and the checksum matched.\<close>

definition opened ::
    "(u32 \<Rightarrow> u8 list \<Rightarrow> u32) \<Rightarrow> kes_storage_descriptor \<Rightarrow> ofile \<Rightarrow> u32 \<Rightarrow> os \<Rightarrow> kes_storage \<Rightarrow> ofd \<Rightarrow> os \<Rightarrow> bool" where
  "opened crc L f flags os s x os' \<longleftrightarrow> os_fds os' = os_fds os @ [Some x] \<and> of_rd x \<and>
     of_wr x = (flags AND KES_STORAGE_READONLY = 0) \<and> of_lock x = LOCK_UN \<and>
     sto_fd s = int (length (os_fds os)) \<and> sto_desc s = disk_desc f \<and> sto_stats s = zero_stats \<and>
     (\<exists>b. sto_bitmap s = Some b \<and> bm_ok b \<and> bm_data b = disk_bits L f \<and> bm_total_bits b = d_user_blocks L) \<and>
     \<not> sto_lock s \<and> sto_readonly s = (flags AND KES_STORAGE_READONLY \<noteq> 0) \<and>
     d_bitmap_checksum (disk_desc f) = crc 0 (disk_bits L f)"

lemma opened_session:
  assumes "opened crc L f flags os s x os'" "os_files os' (of_path x) = Some f" "unlocked os"
    "flags AND KES_STORAGE_READONLY = 0" "disk_static L f" "layout_ok L"
  shows "session os' s x f L"
proof -
  have d: "desc_wf (sto_desc s)" "layout (sto_desc s) = layout L"
    using assms(1,5) desc_wf_dec [of "fread f 0 112"] by (auto simp: opened_def disk_static_def disk_desc_def)
  then show ?thesis
    using assms fd_on_new [of os' "os_fds os" x f]
    by (auto simp: opened_def session_def handle_ok_def unlocked_def bm_ok_def)
qed

text \<open>The part of \<open>kes_storage_open\<close> after the shared lock is taken on the new descriptor \<open>x\<close>.\<close>

definition open_post ::
    "(u32 \<Rightarrow> u8 list \<Rightarrow> u32) \<Rightarrow> kes_storage_descriptor \<Rightarrow> ofile \<Rightarrow> ofd \<Rightarrow> ofd option list \<Rightarrow> kes_storage \<Rightarrow> os \<Rightarrow>
     int \<Rightarrow> kes_storage option \<Rightarrow> os \<Rightarrow> bool" where
  "open_post crc L f x xs s0 os r st os' \<longleftrightarrow> os_files os' = os_files os \<and>
     (r \<noteq> KES_SUCCESS \<longrightarrow> st = None \<and> os_fds os' = xs @ [None]) \<and>
     (r = KES_SUCCESS \<longrightarrow> d_bitmap_checksum (disk_desc f) = crc 0 (disk_bits L f) \<and>
       os_fds os' = xs @ [Some (x\<lparr>of_lock := LOCK_UN\<rparr>)] \<and>
       (\<exists>b. st = Some (s0\<lparr>sto_desc := disk_desc f, sto_bitmap := Some b\<rparr>) \<and> bm_ok b \<and>
          bm_data b = disk_bits L f \<and> bm_total_bits b = d_user_blocks L)) \<and>
     (r = KES_ERROR_CORRUPT \<longrightarrow> d_bitmap_checksum (disk_desc f) \<noteq> crc 0 (disk_bits L f)) \<and>
     (quiet os \<longrightarrow> r = KES_SUCCESS \<or> r = KES_ERROR_CORRUPT)"

lemma open_fail_post:
  assumes fds: "os_fds os = xs @ [Some (x\<lparr>of_lock := LOCK_SH\<rparr>)]" "os_files os (of_path x) = Some f"
    and same: "os_same os os1" and r: "r \<noteq> KES_SUCCESS" "quiet os \<longrightarrow> r = KES_ERROR_CORRUPT"
      "r = KES_ERROR_CORRUPT \<longrightarrow> d_bitmap_checksum (disk_desc f) \<noteq> crc 0 (disk_bits L f)"
  shows "\<exists>os'. open_fail r (int (length xs)) os1 = Some (r, None, os') \<and> open_post crc L f x xs s0 os r None os'"
proof -
  have "os_fds os1 = xs @ [Some (x\<lparr>of_lock := LOCK_SH\<rparr>)]" "os_files os1 (of_path (x\<lparr>of_lock := LOCK_SH\<rparr>)) = Some f"
    using same fds by (simp_all add: os_same_def)
  then obtain os' where "open_fail r (int (length xs)) os1 = Some (r, None, os')" "os_files os' = os_files os1"
    "os_fds os' = xs @ [None]" by (rule open_fail_spec)
  then show ?thesis using r same by (auto simp: open_post_def os_same_def)
qed

text \<open>The three stages of \<open>open_load\<close>: the descriptor, the bitmap, its checksum.\<close>

definition open_verify ::
    "(u32 \<Rightarrow> u8 list \<Rightarrow> u32) \<Rightarrow> kes_storage \<Rightarrow> kes_bitmap option \<Rightarrow> os \<Rightarrow> (int \<times> kes_storage option \<times> os) option" where
  "open_verify crc s bm os = do {
     (result, ck) \<leftarrow> kes_bitmap_checksum crc bm True;
     let result = (if result = KES_SUCCESS \<and> ck \<noteq> Some (d_bitmap_checksum (sto_desc s)) then KES_ERROR_CORRUPT else result);
     if result \<noteq> KES_SUCCESS then open_fail result (sto_fd s) os
     else do {
       (rc, os1) \<leftarrow> c_flock os (sto_fd s) LOCK_UN;
       Some (KES_SUCCESS, Some (s\<lparr>sto_bitmap := bm\<rparr>), os1) } }"

definition open_bitmap ::
    "(u32 \<Rightarrow> u8 list \<Rightarrow> u32) \<Rightarrow> kes_storage \<Rightarrow> os \<Rightarrow> (int \<times> kes_storage option \<times> os) option" where
  "open_bitmap crc s os = (let (result, bm, os1) = kes_bitmap_create os (d_user_blocks (sto_desc s)) True in
     if result \<noteq> KES_SUCCESS then open_fail result (sto_fd s) os1
     else do {
       (result, bm1, os2) \<leftarrow> kes_bitmap_load bm os1 (sto_fd s) (bitmap_offset (sto_desc s));
       if result \<noteq> KES_SUCCESS then open_fail result (sto_fd s) os2 else open_verify crc s bm1 os2 })"

lemma open_verify_spec:
  assumes fds: "os_fds os = xs @ [Some (x\<lparr>of_lock := LOCK_SH\<rparr>)]" "os_files os (of_path x) = Some f" and same: "os_same os os1"
    and s0: "sto_fd s0 = int (length xs)"
    and b: "bm_ok b" "bm_data b = disk_bits L f" "bm_total_bits b = d_user_blocks L"
  shows "\<exists>r st os'. open_verify crc (s0\<lparr>sto_desc := disk_desc f\<rparr>) (Some b) os1 = Some (r, st, os') \<and> open_post crc L f x xs s0 os r st os'"
proof -
  let ?x = "x\<lparr>of_lock := LOCK_SH\<rparr>" and ?d = "disk_desc f"
  have on: "fd_on os1 (int (length xs)) ?x f" using fd_on_new [of os1 xs ?x f] fds same by (simp add: os_same_def)
  obtain os2 where un: "c_flock os1 (int (length xs)) LOCK_UN = Some (0, os2)" "os_files os2 = os_files os1"
    "os_fds os2 = (os_fds os1)[nat (int (length xs)) := Some (?x\<lparr>of_lock := LOCK_UN\<rparr>)]"
    by (rule c_flock_unlock [OF on])
  have run: "open_verify crc (s0\<lparr>sto_desc := ?d\<rparr>) (Some b) os1 =
      (if crc 0 (disk_bits L f) \<noteq> d_bitmap_checksum ?d then open_fail KES_ERROR_CORRUPT (int (length xs)) os1
       else Some (KES_SUCCESS, Some (s0\<lparr>sto_desc := ?d, sto_bitmap := Some b\<rparr>), os2))"
    using b bm_ok_mem [OF b(1)] s0 un(1) by (simp add: open_verify_def kes_bitmap_checksum_def bm_mem_def)
  show ?thesis
  proof (cases "crc 0 (disk_bits L f) = d_bitmap_checksum ?d")
    case False
    then show ?thesis using open_fail_post [OF fds same, where r = KES_ERROR_CORRUPT and L = L and crc = crc and ?s0.0 = s0] run by auto
  next
    case True
    have "os_fds os2 = xs @ [Some (x\<lparr>of_lock := LOCK_UN\<rparr>)]" using un(3) same fds(1) by (simp add: os_same_def)
    then have "open_post crc L f x xs s0 os KES_SUCCESS (Some (s0\<lparr>sto_desc := ?d, sto_bitmap := Some b\<rparr>)) os2"
      using True un(2) same b by (auto simp: open_post_def os_same_def)
    then show ?thesis using run True by auto
  qed
qed

lemma open_bitmap_spec:
  assumes st: "disk_static L f" and L: "layout_ok L" and x: "of_rd x"
    and fds: "os_fds os = xs @ [Some (x\<lparr>of_lock := LOCK_SH\<rparr>)]" "os_files os (of_path x) = Some f" and same: "os_same os os1"
    and s0: "sto_fd s0 = int (length xs)"
  shows "\<exists>r st os'. open_bitmap crc (s0\<lparr>sto_desc := disk_desc f\<rparr>) os1 = Some (r, st, os') \<and> open_post crc L f x xs s0 os r st os'"
proof -
  let ?x = "x\<lparr>of_lock := LOCK_SH\<rparr>" and ?d = "disk_desc f"
  have lay: "layout ?d = layout L" using st by (simp add: disk_static_def)
  have Ld: "d_user_blocks ?d = d_user_blocks L" "bitmap_offset ?d = int (bitmap_at L)"
    using L layout_ok_cong [OF lay] layout_fields(8) [OF lay] bitmap_offset_eq [of ?d] bitmap_at_cong [OF lay] by simp_all
  have u: "unat (d_user_blocks L) \<le> 2 ^ 63" "d_user_blocks L \<noteq> 0"
    using layout_ok_bounds(4) [OF L] L by (auto simp: layout_ok_def unat_gt_0)
  note failed = open_fail_post [OF fds, where L = L and crc = crc and ?s0.0 = s0]
  from u show ?thesis
  proof (cases rule: kes_bitmap_create_cases [of "d_user_blocks L" os1, case_names fail made])
    case (fail r os2)
    have "open_bitmap crc (s0\<lparr>sto_desc := ?d\<rparr>) os1 = open_fail r (int (length xs)) os2"
      using fail(1,2) Ld(1) s0 by (simp add: open_bitmap_def)
    moreover have "r = KES_ERROR_NOMEM"
      using fail(1,2) u(2) by (auto simp: kes_bitmap_create_def Let_def split: prod.splits if_splits)
    ultimately show ?thesis
      using failed [OF os_same_trans [OF same fail(3)], of r] fail(4) same by (auto simp: os_same_def)
  next
    case (made b os2)
    have same2: "os_same os os2" using same made(2) os_same_trans by blast
    have on: "fd_on os2 (sto_fd s0) ?x f" using fd_on_new [of os2 xs ?x f] fds same2 s0 by (simp add: os_same_def)
    have len: "unat (bm_total_bytes b) = bitmap_len L" using made(3,5) by (simp add: bm_ok_def bm_mem_def bitmap_len_def)
    obtain r b' os3 where ld: "kes_bitmap_load (Some b) os2 (sto_fd s0) (int (bitmap_at L)) = Some (r, Some b', os3)"
      "os_same os2 os3" "bm_mem b'" "bm_shape b' = bm_shape b"
      "r = KES_SUCCESS \<longrightarrow> f_holds f (bitmap_at L) (bm_data b') \<and>
         (mbits (bm_data b') \<subseteq> {..<unat (bm_total_bits b)} \<longrightarrow> bm_ok b')"
      "r = KES_SUCCESS \<or> r = KES_ERROR_IO" "quiet os2 \<longrightarrow> r = KES_SUCCESS"
      by (rule kes_bitmap_load_spec [OF bm_ok_mem [OF made(3)] on, of "int (bitmap_at L)"])
         (use x len layout_ok_bounds(3) [OF L] disk_static_holds(2) [OF st L] st in \<open>auto simp: disk_static_def\<close>)
    have same3: "os_same os os3" using same2 ld(2) os_same_trans by blast
    have tb: "bm_total_bits b' = d_user_blocks L" using ld(4) made(5) by (simp add: bm_shape_def)
    have run: "open_bitmap crc (s0\<lparr>sto_desc := ?d\<rparr>) os1 = (if r \<noteq> KES_SUCCESS then open_fail r (int (length xs)) os3
        else open_verify crc (s0\<lparr>sto_desc := ?d\<rparr>) (Some b') os3)"
      using ld(1) made(1) Ld s0 by (simp add: open_bitmap_def)
    show ?thesis
    proof (cases "r = KES_SUCCESS")
      case False
      then show ?thesis using run failed [OF same3, of r] ld(6,7) same2 by (auto simp: os_same_def)
    next
      case True
      have "f_holds f (bitmap_at L) (bm_data b')" using ld(5) True by blast
      note bits = loaded_bits [OF st L this ld(3) tb]
      have "bm_ok b'" using ld(5) True bits(2) made(5) by simp
      from open_verify_spec [OF fds same3 s0 this bits(1) tb] show ?thesis using run True by simp
    qed
  qed
qed

lemma open_load_spec:
  assumes st: "disk_static L f" and L: "layout_ok L" and x: "of_rd x"
    and fds: "os_fds os4 = xs @ [Some (x\<lparr>of_lock := LOCK_SH\<rparr>)]" "os_files os4 (of_path x) = Some f"
    and s0: "sto_fd s0 = int (length xs)" "desc_wf (sto_desc s0)"
  shows "\<exists>r st os'. open_load crc s0 os4 = Some (r, st, os') \<and> open_post crc L f x xs s0 os4 r st os'"
proof -
  let ?x = "x\<lparr>of_lock := LOCK_SH\<rparr>"
  have on4: "fd_on os4 (sto_fd s0) ?x f" unfolding s0(1) by (rule fd_on_new) (use fds in simp_all)
  have rd: "of_rd ?x" using x by simp
  obtain r1 s1 os5 where 1: "load_storage_descriptor s0 os4 = (r1, s1, os5)" "os_same os4 os5"
    "r1 = KES_SUCCESS \<or> r1 = KES_ERROR_IO" "r1 = KES_SUCCESS \<longrightarrow> s1 = s0\<lparr>sto_desc := disk_desc f\<rparr>"
    "quiet os4 \<longrightarrow> r1 = KES_SUCCESS"
    by (rule load_desc_fresh [OF on4 rd st L s0(2)])
  show ?thesis
  proof (cases "r1 = KES_SUCCESS")
    case False
    then show ?thesis
      using open_fail_post [OF fds 1(2), where r = r1 and L = L and crc = crc and ?s0.0 = s0] 1 s0(1) by (auto simp: open_load_def)
  next
    case True
    then have "open_load crc s0 os4 = open_bitmap crc (s0\<lparr>sto_desc := disk_desc f\<rparr>) os5"
      using 1(1,4) by (simp add: open_load_def open_bitmap_def open_verify_def Let_def cong: if_cong prod.case_cong)
    then show ?thesis using open_bitmap_spec [OF st L x fds 1(2) s0(1)] by simp
  qed
qed

lemma open_locks:
  assumes st: "disk_static L f" and L: "layout_ok L" and x: "of_rd x" "of_lock x = LOCK_UN"
    and fds: "os_fds os = xs @ [Some x]" "os_files os (of_path x) = Some f" and un: "\<forall>y. Some y \<in> set xs \<longrightarrow> of_lock y = LOCK_UN"
    and s0: "sto_fd s0 = int (length xs)" "desc_wf (sto_desc s0)"
  obtains r h os' where "(do { (rc, os1) \<leftarrow> c_flock os (int (length xs)) LOCK_SH;
      if rc \<noteq> 0 then Some (KES_ERROR_IO, None, c_close os1 (int (length xs))) else open_load crc s0 os1 }) = Some (r, h, os')"
    "open_post crc L f x xs s0 os r h os'"
proof -
  from fds un x(2) show thesis
  proof (cases rule: flock_new_fd [case_names fail lock])
    case (fail os1)
    have "os_fds (c_close os1 (int (length xs))) = xs @ [None]" "os_files (c_close os1 (int (length xs))) = os_files os"
      using fail(2) fds c_close_new [of os1 xs x] by (simp_all add: os_same_def c_close_def fd_put_def)
    then show thesis
      using that [of KES_ERROR_IO None "c_close os1 (int (length xs))"] fail(1,3) by (auto simp: open_post_def)
  next
    case (lock os1)
    obtain r h os' where "open_load crc s0 os1 = Some (r, h, os')" "open_post crc L f x xs s0 os1 r h os'"
      using open_load_spec [OF st L x(1), of os1 xs s0 crc] lock(2,3) fds(2) s0 by auto
    then show thesis using that [of r h os'] lock by (auto simp: open_post_def)
  qed
qed

lemma kes_storage_open_spec:
  assumes f: "os_files os path = Some f" and st: "disk_static L f" and L: "layout_ok L" and un: "unlocked os"
  obtains r h os' where "kes_storage_open crc os (Some path) flags True = Some (r, h, os')"
    "os_files os' = os_files os"
    "r \<noteq> KES_SUCCESS \<longrightarrow> h = None \<and> (os_fds os' = os_fds os \<or> os_fds os' = os_fds os @ [None])"
    "r = KES_SUCCESS \<longrightarrow> (\<exists>s x. h = Some s \<and> of_path x = path \<and> opened crc L f flags os s x os')"
    "r = KES_ERROR_CORRUPT \<longrightarrow> d_bitmap_checksum (disk_desc f) \<noteq> crc 0 (disk_bits L f)"
    "quiet os \<longrightarrow> r = KES_SUCCESS \<or> r = KES_ERROR_CORRUPT"
proof -
  obtain ok1 os1 where 1: "c_alloc os = (ok1, os1)" by fastforce
  obtain ok2 os2 where 2: "c_alloc os1 = (ok2, os2)" by fastforce
  note q = c_alloc_same [OF 1] c_alloc_same [OF 2]
  have same: "os_same os os2" "os_same os os1" using q os_same_trans by blast+
  have quiet2: "quiet os \<longrightarrow> ok1 \<and> ok2 \<and> quiet os2" using q by (auto simp: os_same_def)
  show thesis
  proof (cases "ok1 \<and> ok2")
    case False
    define os' where "os' = (if ok1 then os2 else os1)"
    have "kes_storage_open crc os (Some path) flags True = Some (KES_ERROR_NOMEM, None, os')"
      using False by (auto simp: kes_storage_open_def 1 2 os'_def)
    then show thesis
      using that [of KES_ERROR_NOMEM None os'] same False quiet2 by (auto simp: os'_def os_same_def)
  next
    case ok: True
    obtain fd os3 where op: "c_open os2 path (\<not> (flags AND KES_STORAGE_READONLY \<noteq> 0)) False False
        (flags AND KES_STORAGE_SYNC \<noteq> 0) = (fd, os3)" by fastforce
    let ?s0 = "zero_storage\<lparr>sto_fd := fd, sto_readonly := (flags AND KES_STORAGE_READONLY \<noteq> 0),
        sto_sync_writes := (flags AND KES_STORAGE_SYNC \<noteq> 0), sto_strategy := KES_ALLOC_FIRST_FIT\<rparr>"
    let ?x = "\<lparr>of_path = path, of_rd = True, of_wr = (flags AND KES_STORAGE_READONLY = 0),
        of_sync = (flags AND KES_STORAGE_SYNC \<noteq> 0), of_lock = LOCK_UN\<rparr>"
    from op show thesis
    proof (cases rule: c_open_cases [case_names fail opened])
      case fail
      then have "kes_storage_open crc os (Some path) flags True = Some (KES_ERROR_IO, None, os3)"
        using ok op by (simp add: kes_storage_open_def 1 2)
      then show thesis
        using that [of KES_ERROR_IO None os3] fail same f quiet2 by (auto simp: os_same_def)
    next
      case (opened f')
      have f': "f' = f" "os_files os3 = os_files os"
        using opened(2,5) f same(1) by (auto simp: os_same_def fun_upd_idem)
      have fds: "os_fds os3 = os_fds os @ [Some ?x]" "fd = int (length (os_fds os))"
        using opened(1,3) same(1) by (simp_all add: os_same_def)
      have ul: "\<forall>y. Some y \<in> set (os_fds os) \<longrightarrow> of_lock y = LOCK_UN" using un by (simp add: unlocked_def)
      have s0: "sto_fd ?s0 = int (length (os_fds os))" "desc_wf (sto_desc ?s0)" "os_files os3 (of_path ?x) = Some f" "of_rd ?x" "of_lock ?x = LOCK_UN"
        using f f' fds(2) by (simp_all add: zero_storage_def zero_desc_def desc_wf_def)
      obtain r h os' where ol: "(do { (rc, os4) \<leftarrow> c_flock os3 (int (length (os_fds os))) LOCK_SH;
           if rc \<noteq> 0 then Some (KES_ERROR_IO, None, c_close os4 (int (length (os_fds os)))) else open_load crc ?s0 os4 }) = Some (r, h, os')"
        "open_post crc L f ?x (os_fds os) ?s0 os3 r h os'"
        by (rule open_locks [OF st L s0(4,5) fds(1) s0(3) ul s0(1,2)])
      have "kes_storage_open crc os (Some path) flags True = Some (r, h, os')"
        using ok op ol(1) [unfolded fds(2)] fds(2) by (simp add: kes_storage_open_def 1 2)
      moreover have "\<exists>s. h = Some s \<and> opened crc L f flags os s ?x os'" if "r = KES_SUCCESS"
        using ol(2) that fds(2) by (auto simp: open_post_def opened_def zero_storage_def)
      ultimately show thesis
        by (intro that [of r h os']) (use ol(2) f'(2) opened(4) quiet2 in \<open>auto simp: open_post_def\<close>)
    qed
  qed
qed

section \<open>Synchronising\<close>

lemma torn_same [simp]: "torn k bs bs = bs"
  by (simp add: torn_def)

lemma kes_storage_sync_spec:
  assumes ses: "session os s x f L"
  obtains r s' f' os' where "kes_storage_sync crc (Some s) os = Some (r, Some s', os')"
    "session os' s' x f' L" "os_after os os' x f'" "user_area_kept L f f'" "disk_bits L f' = disk_bits L f"
    "r = KES_SUCCESS \<or> r = KES_ERROR_IO" "quiet os \<longrightarrow> r = KES_SUCCESS"
    "r = KES_SUCCESS \<longrightarrow> \<not> f_dirty f' \<and>
       disk_desc f' = (disk_desc f)\<lparr>d_bitmap_checksum := crc 0 (disk_bits L f)\<rparr>" "sto_fd s' = sto_fd s"
    "r = KES_SUCCESS \<longrightarrow> sto_desc s' = disk_desc f' \<and> sto_stats s' = sto_stats s"
proof -
  have S: "\<not> sto_lock s" "\<not> sto_readonly s" using ses by (auto simp: session_def)
  note defs = kes_storage_sync_def pthread_mutex_lock_def pthread_mutex_unlock_def
  from ses show thesis
  proof (cases rule: enter_reload)
    case (fail os')
    have "kes_storage_sync crc (Some s) os = Some (KES_ERROR_IO, Some (s\<lparr>sto_lock := False\<rparr>), os')"
      using S fail(1) by (simp add: defs)
    then show thesis by (rule that [OF _ fail(2,3)]) (use fail(4) in simp_all)
  next
    case (stale os1 s2 os2 os')
    have "kes_storage_sync crc (Some s) os = Some (KES_ERROR_IO, Some (s2\<lparr>sto_lock := False\<rparr>), os')"
      using S stale(1-3) by (simp add: defs)
    then show thesis by (rule that [OF _ stale(4,5)]) (use stale(6,7) in simp_all)
  next
    case (fresh os1 b s2 os2 os')
    have s2: "sto_fd s2 = sto_fd s" "sto_lock s2" "sto_desc s2 = disk_desc f" "sto_bitmap s2 = Some b"
      "sto_stats s2 = sto_stats s" "sto_readonly s2 = sto_readonly s" by (simp_all add: fresh(3))
    obtain r d' f' os3 os4 where p: "persist crc s2 os2 = Some (r, s2\<lparr>sto_desc := d'\<rparr>, os3)"
      "unlock_all (s2\<lparr>sto_desc := d'\<rparr>) os3 = Some (s2\<lparr>sto_desc := d', sto_lock := False\<rparr>, os4)"
      "desc_wf d'" "layout d' = layout L" "os_after os os4 x f'"
      "persisted crc L (sto_desc s2) (bm_data b) r f f'" "quiet os \<longrightarrow> r = KES_SUCCESS" "r = KES_SUCCESS \<longrightarrow> d' = disk_desc f'"
      by (rule leave_persisted [OF ses fresh(11-13) os_same_refl s2(1,2) _ _ s2(4) fresh(4,5)]) (use fresh(14,15) s2(3) in simp_all)
    have run: "kes_storage_sync crc (Some s) os = Some (r, Some (s2\<lparr>sto_desc := d', sto_lock := False\<rparr>), os4)"
      using S fresh(1,2) p(1,2) by (simp add: defs)
    have ses4: "session os4 (s2\<lparr>sto_desc := d', sto_lock := False\<rparr>) x f' L"
      by (rule session_after [OF ses p(5)])
         (use S p(3,4,6) fresh(4,5) s2 in \<open>simp_all add: handle_ok_def persisted_def bm_ok_def\<close>)
    have bits: "disk_bits L f' = disk_bits L f" "user_area_kept L f f'" "r = KES_SUCCESS \<or> r = KES_ERROR_IO"
      using p(6) unfolding persisted_def fresh(6) by auto
    show thesis
      by (rule that [OF run ses4 p(5)]) (use bits p(6-8) s2 fresh(6) in \<open>simp_all add: persisted_def\<close>)
  qed
qed

section \<open>Closing\<close>

lemma close_fds:
  assumes "fd_on os fd x f"
  shows "fd_get (c_close os fd) fd = None"
  using assms by (auto simp: fd_on_def c_close_def fd_put_def fd_get_def split: if_splits)

lemma persist_success:
  assumes "persist crc s os = Some (KES_SUCCESS, s', os')"
  obtains os1 os2 where "kes_bitmap_save (sto_bitmap s) os (sto_fd s) (bitmap_offset (sto_desc s)) = Some (KES_SUCCESS, os1)"
    "refresh_checksum crc s = Some (KES_SUCCESS, s')" "save_storage_descriptor s' os1 = (KES_SUCCESS, os2)"
    "c_fsync os2 (sto_fd s') = (0, os')"
proof -
  obtain r1 os1 where 1: "kes_bitmap_save (sto_bitmap s) os (sto_fd s) (bitmap_offset (sto_desc s)) = Some (r1, os1)"
    using assms by (auto simp: persist_def bind_eq_Some_conv)
  then have r1: "r1 = KES_SUCCESS" using assms by (auto simp: persist_def split: if_splits)
  obtain r2 s2 where 2: "refresh_checksum crc s = Some (r2, s2)"
    using assms 1 r1 by (auto simp: persist_def bind_eq_Some_conv)
  then have r2: "r2 = KES_SUCCESS" using assms 1 r1 by (auto simp: persist_def split: if_splits)
  obtain r3 os2 where 3: "save_storage_descriptor s2 os1 = (r3, os2)" by fastforce
  obtain rc os3 where 4: "c_fsync os2 (sto_fd s2) = (rc, os3)" by fastforce
  show thesis
    using that 1 2 3 4 r1 r2 assms by (auto simp: persist_def split: if_splits)
qed

text \<open>The write-back of a close, from the reloaded handle on, when no call fails.\<close>

lemma writeback_quiet:
  assumes ses: "session os s x f L" and q: "quiet os2"
    and on: "fd_on os2 (sto_fd s2) (x\<lparr>of_lock := LOCK_EX\<rparr>) f"
    and wf: "desc_wf (sto_desc s2)" "layout (sto_desc s2) = layout L"
    and b: "sto_bitmap s2 = Some b" "bm_ok b" "bm_total_bits b = d_user_blocks L"
    and rl: "reload s1 os1 = Some (r, s2, os2)"
  obtains os' f' where "close_writeback crc s1 os1 = Some os'"
    "os_files os' = (os_files os2)(of_path x \<mapsto> f')" "disk_static L f'" "user_area_kept L f f'"
    "disk_bits L f' = bm_data b" "disk_desc f' = (sto_desc s2)\<lparr>d_bitmap_checksum := crc 0 (bm_data b)\<rparr>"
    "\<not> f_dirty f'" "os_fds os' = (os_fds os2)[nat (sto_fd s2) := Some (x\<lparr>of_lock := LOCK_UN\<rparr>)]" "quiet os'"
proof -
  have S: "disk_static L f" "layout_ok L" "of_wr (x\<lparr>of_lock := LOCK_EX\<rparr>)" using ses by (simp_all add: session_def)
  have bits: "mbits (bm_data b) \<subseteq> {..<unat (d_user_blocks L)}" using b(2,3) by (simp add: bm_ok_def)
  obtain r3 d' f' os3 where p: "persist crc s2 os2 = Some (r3, s2\<lparr>sto_desc := d'\<rparr>, os3)"
    "os_files os3 = (os_files os2)(of_path (x\<lparr>of_lock := LOCK_EX\<rparr>) \<mapsto> f')" "os_fds os3 = os_fds os2" "quiet os2 \<longrightarrow> quiet os3"
    "persisted crc L (sto_desc s2) (bm_data b) r3 f f'"
    "quiet os2 \<and> of_wr (x\<lparr>of_lock := LOCK_EX\<rparr>) \<longrightarrow> r3 = KES_SUCCESS"
    by (rule persist_spec [OF on S(1,2) wf b(1) bm_ok_mem [OF b(2)] b(3) bits])
  have r3: "r3 = KES_SUCCESS" using p(6) q S(3) by simp
  have on3: "fd_on os3 (sto_fd s2) (x\<lparr>of_lock := LOCK_EX\<rparr>) f'"
    using on p(2,3) by (simp add: fd_on_def fd_get_same [of os3 os2])
  obtain os4 where un: "c_flock os3 (sto_fd s2) LOCK_UN = Some (0, os4)" "os_files os4 = os_files os3"
    "os_fds os4 = (os_fds os3)[nat (sto_fd s2) := Some (x\<lparr>of_lock := LOCK_EX\<rparr>\<lparr>of_lock := LOCK_UN\<rparr>)]" "quiet os3 \<longrightarrow> quiet os4"
    by (rule c_flock_unlock [OF on3])
  have "close_writeback crc s1 os1 = Some os4"
    by (rule persist_success [OF p(1) [unfolded r3]]) (use rl un(1) in \<open>simp add: close_writeback_def\<close>)
  then show thesis
    by (rule that [of os4 f']) (use p un r3 q in \<open>simp_all add: persisted_def\<close>)
qed

lemma kes_storage_close_quiet:
  assumes ses: "session os s x f L" and q: "quiet os"
  obtains os' f' where "kes_storage_close crc (Some s) os = Some (KES_SUCCESS, os')"
    "os_files os' = (os_files os)(of_path x \<mapsto> f')" "os_fds os' = (os_fds os)[nat (sto_fd s) := None]"
    "disk_static L f'" "user_area_kept L f f'" "disk_bits L f' = disk_bits L f"
    "disk_desc f' = (disk_desc f)\<lparr>d_bitmap_checksum := crc 0 (disk_bits L f)\<rparr>" "\<not> f_dirty f'" "quiet os'"
proof -
  have S: "\<not> sto_lock s" "\<not> sto_readonly s" "handle_ok L s" "disk_static L f"
    using ses by (auto simp: session_def)
  let ?s1 = "s\<lparr>sto_lock := True\<rparr>"
  from ses show thesis
  proof (cases rule: enter_cases [case_names fail lock])
    case (fail os')
    then show thesis using q by blast
  next
    case (lock os1)
    have h: "handle_ok L ?s1" using S(3) by (simp add: handle_ok_def)
    obtain r d b os2 where rl: "reload ?s1 os1 = Some (r, ?s1\<lparr>sto_desc := d, sto_bitmap := Some b\<rparr>, os2)"
      "os_same os1 os2" "desc_wf d" "layout d = layout L" "bm_mem b" "bm_total_bits b = d_user_blocks L"
      "r = KES_SUCCESS \<longrightarrow> d = disk_desc f \<and> bm_ok b \<and> bm_data b = disk_bits L f" "quiet os1 \<longrightarrow> r = KES_SUCCESS"
      by (rule reload_spec [of os1 ?s1 "x\<lparr>of_lock := LOCK_EX\<rparr>" f L]) (use ses lock h in \<open>simp_all add: session_def\<close>)
    let ?s2 = "?s1\<lparr>sto_desc := d, sto_bitmap := Some b\<rparr>"
    have q2: "quiet os2" "d = disk_desc f" "bm_ok b" "bm_data b = disk_bits L f"
      using rl q lock(4) by (auto simp: os_same_def)
    have on2: "fd_on os2 (sto_fd ?s2) (x\<lparr>of_lock := LOCK_EX\<rparr>) f" using lock(5) fd_on_same [OF rl(2)] by simp
    obtain os' f' where w: "close_writeback crc ?s1 os1 = Some os'"
      "os_files os' = (os_files os2)(of_path x \<mapsto> f')" "disk_static L f'" "user_area_kept L f f'"
      "disk_bits L f' = bm_data b" "disk_desc f' = (sto_desc ?s2)\<lparr>d_bitmap_checksum := crc 0 (bm_data b)\<rparr>"
      "\<not> f_dirty f'" "os_fds os' = (os_fds os2)[nat (sto_fd ?s2) := Some (x\<lparr>of_lock := LOCK_UN\<rparr>)]" "quiet os'"
      by (rule writeback_quiet [OF ses q2(1) on2 _ _ _ q2(3) rl(6) rl(1)]) (use rl(3,4) in simp_all)
    have run: "kes_storage_close crc (Some s) os = Some (KES_SUCCESS, c_close os' (sto_fd s))"
      using S lock(1) w(1) by (simp add: kes_storage_close_def pthread_mutex_lock_def)
    show thesis
      by (rule that [OF run, of f'])
         (use w(2-9) rl(2) lock(2,3) q2 in \<open>simp_all add: c_close_def fd_put_def os_same_def quiet_def\<close>)
  qed
qed

text \<open>Whatever fails, a close returns and reports success.\<close>

lemma kes_storage_close_returns:
  assumes ses: "session os s x f L"
  obtains os' where "kes_storage_close crc (Some s) os = Some (KES_SUCCESS, os')" "os_fds os' = (os_fds os)[nat (sto_fd s) := None]"
proof -
  have S: "\<not> sto_lock s" "\<not> sto_readonly s" "handle_ok L s" using ses by (auto simp: session_def)
  let ?s1 = "s\<lparr>sto_lock := True\<rparr>"
  note defs = kes_storage_close_def pthread_mutex_lock_def
  from ses show thesis
  proof (cases rule: enter_cases [case_names fail lock])
    case (fail os1)
    then show thesis using S by (intro that [of "c_close os1 (sto_fd s)"]) (simp_all add: defs c_close_def fd_put_def os_same_def)
  next
    case (lock os1)
    have h: "handle_ok L ?s1" using S(3) by (simp add: handle_ok_def)
    obtain r d b os2 where rl: "reload ?s1 os1 = Some (r, ?s1\<lparr>sto_desc := d, sto_bitmap := Some b\<rparr>, os2)"
      "os_same os1 os2" "desc_wf d" "layout d = layout L" "bm_mem b"
      by (rule reload_spec [of os1 ?s1 "x\<lparr>of_lock := LOCK_EX\<rparr>" f L]) (use ses lock h in \<open>simp_all add: session_def\<close>)
    let ?s2 = "?s1\<lparr>sto_desc := d, sto_bitmap := Some b\<rparr>" and ?x = "x\<lparr>of_lock := LOCK_EX\<rparr>"
    let ?s3 = "?s2\<lparr>sto_desc := d\<lparr>d_bitmap_checksum := crc 0 (bm_data b)\<rparr>\<rparr>"
    have on2: "fd_on os2 (sto_fd s) ?x f" using lock(5) fd_on_same [OF rl(2)] by simp
    have off: "0 \<le> bitmap_offset d" using ses bitmap_offset_eq [of d] layout_ok_cong [OF rl(4)] by (simp add: session_def)
    obtain r1 f1 os3 where sv: "kes_bitmap_save (Some b) os2 (sto_fd s) (bitmap_offset d) = Some (r1, os3)"
      "os_files os3 = (os_files os2)(of_path ?x \<mapsto> f1)" "os_fds os3 = os_fds os2"
      by (rule kes_bitmap_save_spec [OF rl(5) on2 off])
    have on3: "fd_on os3 (sto_fd ?s3) ?x f1" using on2 sv(2,3) by (simp add: fd_on_def fd_get_same [of os3 os2])
    obtain r2 f2 os4 where sd: "save_storage_descriptor ?s3 os3 = (r2, os4)"
      "os_files os4 = (os_files os3)(of_path ?x \<mapsto> f2)" "os_fds os4 = os_fds os3"
      by (rule save_desc_spec [OF on3]) (use rl(3) in simp)
    have on4: "fd_on os4 (sto_fd s) ?x f2" using on3 sd(2,3) by (simp add: fd_on_def fd_get_same [of os4 os3])
    obtain rc os5 where fs: "c_fsync os4 (sto_fd s) = (rc, os5)" by fastforce
    obtain f3 where fs2: "os_files os5 = (os_files os4)(of_path ?x \<mapsto> f3)" "os_fds os5 = os_fds os4"
      by (rule c_fsync_spec [OF fs on4])
    have on5: "fd_on os5 (sto_fd s) ?x f3" using on4 fs2 by (simp add: fd_on_def fd_get_same [of os5 os4])
    obtain os6 where un: "c_flock os5 (sto_fd s) LOCK_UN = Some (0, os6)"
      "os_fds os6 = (os_fds os5)[nat (sto_fd s) := Some (?x\<lparr>of_lock := LOCK_UN\<rparr>)]"
      by (rule c_flock_unlock [OF on5])
    have "close_writeback crc ?s1 os1 = Some os6"
      using rl(1) sv(1) refresh_checksum_eq [of ?s2 b crc] rl(5) sd(1) fs un(1) by (simp add: close_writeback_def)
    then show thesis
      using S lock(1,3) rl(2) sv(3) sd(3) fs2(2) un(2)
      by (intro that [of "c_close os6 (sto_fd s)"]) (simp_all add: defs c_close_def fd_put_def os_same_def)
  qed
qed

text \<open>A reload whose \<open>k\<close>-th system call fails: the seek or the read of the descriptor, which stays as it was, or those
  of the bitmap, when the descriptor is fresh already.\<close>

lemma reload_failing:
  assumes on: "fd_on os (sto_fd s) y f" "of_rd y" and st: "disk_static L f" and L: "layout_ok L" and wf: "desc_wf (sto_desc s)"
    and b: "sto_bitmap s = Some b" "bm_mem b" and k: "k < 4" "os_sched os = replicate k SysOk @ [SysFail]"
  obtains os' where "reload s os = Some (KES_ERROR_IO, s\<lparr>sto_desc := if k < 2 then sto_desc s else disk_desc f\<rparr>, os')"
    "os_same os os'" "quiet os'"
proof -
  have fd: "fd_get os (sto_fd s) = Some y" "os_files os (of_path y) = Some f" "0 \<le> sto_fd s" "nat (sto_fd s) < length (os_fds os)"
    using on(1) by (auto simp: fd_on_def fd_get_def split: if_splits)
  have fdx: "fd_get os1 (sto_fd s) = Some y" if "os_fds os1 = os_fds os" for os1 using fd(1) that by (simp add: fd_get_def split: if_splits)
  have len: "length (fread f 0 112) = 112" "layout (disk_desc f) = layout L" using st by (simp_all add: disk_static_def)
  have ok: "d_magic (disk_desc f) = KES_MAGIC_NUMBER" "d_version_major (disk_desc f) = KES_VERSION_MAJOR"
    using layout_fields [OF len(2)] L by (simp_all add: layout_ok_def)
  have full: "dec_desc (overlay (fread f 0 112) (enc_desc (sto_desc s))) = disk_desc f"
    using len(1) length_enc_desc [OF wf] by (simp add: disk_desc_def overlay_def)
  have off: "0 \<le> bitmap_offset (disk_desc f)"
    using bitmap_offset_eq [of "disk_desc f"] layout_ok_cong [OF len(2)] L by simp
  have neg: "\<not> sto_fd s < 0" "\<not> bitmap_offset (disk_desc f) < 0" "- 1 \<noteq> bitmap_offset (disk_desc f)" "- 1 \<noteq> sint (bm_total_bytes b)"
    using fd(3) off bm_mem_bytes_small [OF b(2)] by (linarith, linarith, linarith, linarith)
  have none: "overlay [] (zs :: u8 list) = zs" for zs by (simp add: overlay_def)
  have id: "s\<lparr>sto_desc := sto_desc s\<rparr> = s" "b\<lparr>bm_data := bm_data b\<rparr> = b" by simp_all
  have bm: "s\<lparr>sto_desc := disk_desc f, sto_bitmap := Some b\<rparr> = s\<lparr>sto_desc := disk_desc f\<rparr>" using b(1) by (cases s) simp
  note defs = reload_def load_storage_descriptor_def kes_bitmap_load_def c_lseek_def c_read_def sys_next_def
  consider "k = 0" | "k = 1" | "k = 2" | "k = 3" using k(1) by linarith
  then show thesis
  proof cases
    case 1
    then show thesis by (intro that [of "os\<lparr>os_sched := []\<rparr>"]) (simp_all add: defs k(2) os_same_def quiet_def)
  next
    case 2
    then show thesis
      by (intro that [of "os\<lparr>os_sched := [], os_pos := (os_pos os)(nat (sto_fd s) := 0)\<rparr>"])
         (simp_all add: defs k(2) os_same_def quiet_def fd fdx none dec_enc_desc [OF wf])
  next
    case 3
    then show thesis
      by (intro that [of "os\<lparr>os_sched := [], os_pos := (os_pos os)(nat (sto_fd s) := 112)\<rparr>"])
         (simp_all add: defs k(2) os_same_def quiet_def fd fdx on(2) numeral_2_eq_2 len full ok b(1) bm off neg Let_def)
  next
    case 4
    then show thesis
      by (intro that [of "os\<lparr>os_sched := [], os_pos := (os_pos os)(nat (sto_fd s) := nat (bitmap_offset (disk_desc f)))\<rparr>"])
         (simp_all add: defs k(2) os_same_def quiet_def fd fdx on(2) numeral_3_eq_3 len full ok b(1) bm off neg none Let_def)
  qed
qed

lemma close_after_failed_reload:
  assumes ses: "session os s x f L" and b: "sto_bitmap s = Some b" "bm_ok b"
    and k: "k < 4" and sched: "os_sched os = SysOk # replicate k SysOk @ [SysFail]"
  obtains os' f' where "kes_storage_close crc (Some s) os = Some (KES_SUCCESS, os')"
    "os_files os' = (os_files os)(of_path x \<mapsto> f')" "disk_bits L f' = bm_data b" "user_area_kept L f f'" "disk_static L f'"
    "disk_desc f' = (if k < 2 then sto_desc s else disk_desc f)\<lparr>d_bitmap_checksum := crc 0 (bm_data b)\<rparr>"
proof -
  have S: "\<not> sto_lock s" "\<not> sto_readonly s" "fd_on os (sto_fd s) x f" "unlocked os" "of_rd x" "disk_static L f" "layout_ok L"
    "desc_wf (sto_desc s)" "layout (sto_desc s) = layout L" "bm_total_bits b = d_user_blocks L"
    using ses b by (auto simp: session_def handle_ok_def)
  let ?s1 = "s\<lparr>sto_lock := True\<rparr>" and ?x = "x\<lparr>of_lock := LOCK_EX\<rparr>" and ?os0 = "os\<lparr>os_sched := replicate k SysOk @ [SysFail]\<rparr>"
  let ?os1 = "fd_put ?os0 (sto_fd s) (Some ?x)"
  have x: "fd_get os (sto_fd s) = Some x" "os_files os (of_path x) = Some f" using S(3) by (simp_all add: fd_on_def)
  have "\<not> would_block ?os0 (sto_fd s) x LOCK_EX"
    by (rule unlocked_no_block) (use S(4) in \<open>simp add: unlocked_def\<close>)
  then have lk: "c_flock os (sto_fd s) LOCK_EX = Some (0, ?os1)"
    using x(1) by (simp add: c_flock_def sys_next_def sched fd_get_same [of ?os0 os])
  have on1: "fd_on ?os1 (sto_fd ?s1) ?x f" using x by (auto simp: fd_on_def fd_get_def fd_put_def split: if_splits)
  let ?d = "if k < 2 then sto_desc s else disk_desc f"
  obtain os2 where rl: "reload ?s1 ?os1 = Some (KES_ERROR_IO, ?s1\<lparr>sto_desc := ?d\<rparr>, os2)" "os_same ?os1 os2" "quiet os2"
    by (rule reload_failing [OF on1 _ S(6,7), of b k]) (use S b k bm_ok_mem [OF b(2)] in \<open>simp_all add: fd_put_def\<close>)
  have on2: "fd_on os2 (sto_fd (?s1\<lparr>sto_desc := ?d\<rparr>)) ?x f" using on1 fd_on_same [OF rl(2)] by simp
  have d: "desc_wf ?d" "layout ?d = layout L"
    using S(6,8,9) desc_wf_dec [of "fread f 0 112"] by (simp_all add: disk_static_def disk_desc_def)
  obtain os' f' where w: "close_writeback crc ?s1 ?os1 = Some os'"
    "os_files os' = (os_files os2)(of_path x \<mapsto> f')" "disk_static L f'" "user_area_kept L f f'" "disk_bits L f' = bm_data b"
    "disk_desc f' = (sto_desc (?s1\<lparr>sto_desc := ?d\<rparr>))\<lparr>d_bitmap_checksum := crc 0 (bm_data b)\<rparr>"
    by (rule writeback_quiet [OF ses rl(3) on2 _ _ _ b(2) S(10) rl(1)]) (use d b(1) in simp_all)
  have run: "kes_storage_close crc (Some s) os = Some (KES_SUCCESS, c_close os' (sto_fd s))"
    using S lk w(1) by (simp add: kes_storage_close_def pthread_mutex_lock_def)
  show thesis by (rule that [OF run, of f']) (use w(2-6) rl(2) in \<open>simp_all add: c_close_def fd_put_def os_same_def\<close>)
qed

end
