(* ===== verification/Kes_Io.thy ===== *)
theory Kes_Io
  imports Kes_Disk
begin

text \<open>
  Reading and writing extents (\<open>kes_extent_read\<close>, \<open>kes_extent_write\<close>): where an extent lies in the
  file, that a write reaches exactly the bytes it names and leaves descriptor, bitmap and the other
  extents alone, that a read returns what was written, and where the bounds check wraps.
\<close>

section \<open>Where an extent lies\<close>

definition ext_at :: "kes_storage_descriptor \<Rightarrow> kes_extent_descriptor \<Rightarrow> nat" where
  "ext_at L e = (1 + unat (x_start_block e)) * block_bytes L"

definition ext_bytes :: "kes_storage_descriptor \<Rightarrow> kes_extent_descriptor \<Rightarrow> nat" where
  "ext_bytes L e = unat (x_block_count e) * block_bytes L"

definition ext_inside :: "kes_storage_descriptor \<Rightarrow> kes_extent_descriptor \<Rightarrow> bool" where
  "ext_inside L e \<longleftrightarrow> unat (x_start_block e) + unat (x_block_count e) \<le> unat (d_user_blocks L)"

lemma ext_range:
  assumes "layout_ok L" "ext_inside L e"
  shows "112 \<le> ext_at L e" "ext_at L e + ext_bytes L e \<le> bitmap_at L" "ext_at L e + ext_bytes L e < 2 ^ 63"
proof -
  have bb: "112 \<le> block_bytes L" using assms(1) by (simp add: layout_ok_def)
  then show "112 \<le> ext_at L e" by (simp add: ext_at_def trans_le_add1)
  have "ext_at L e + ext_bytes L e = (1 + (unat (x_start_block e) + unat (x_block_count e))) * block_bytes L"
    by (simp add: ext_at_def ext_bytes_def algebra_simps)
  also have "\<dots> \<le> (1 + unat (d_user_blocks L)) * block_bytes L"
    using assms(2) by (intro mult_le_mono1) (simp add: ext_inside_def)
  finally show "ext_at L e + ext_bytes L e \<le> bitmap_at L" using layout_ok_bounds(5) [OF assms(1)] by linarith
  then show "ext_at L e + ext_bytes L e < 2 ^ 63" using layout_ok_bounds(1) [OF assms(1)] by linarith
qed

text \<open>Extents with disjoint blocks occupy disjoint byte ranges.\<close>

lemma ext_disjoint:
  assumes "blocks (x_start_block e) (x_block_count e) \<inter> blocks (x_start_block g) (x_block_count g) = {}"
    "0 < unat (x_block_count e)" "0 < unat (x_block_count g)"
  shows "ext_at L e + ext_bytes L e \<le> ext_at L g \<or> ext_at L g + ext_bytes L g \<le> ext_at L e"
proof -
  have "unat (x_start_block e) + unat (x_block_count e) \<le> unat (x_start_block g) \<or>
      unat (x_start_block g) + unat (x_block_count g) \<le> unat (x_start_block e)"
  proof (rule ccontr)
    assume "\<not> ?thesis"
    then have "max (unat (x_start_block e)) (unat (x_start_block g)) \<in>
        blocks (x_start_block e) (x_block_count e) \<inter> blocks (x_start_block g) (x_block_count g)"
      using assms(2,3) by auto
    with assms(1) show False by blast
  qed
  then show ?thesis
  proof
    assume "unat (x_start_block e) + unat (x_block_count e) \<le> unat (x_start_block g)"
    then have "(1 + (unat (x_start_block e) + unat (x_block_count e))) * block_bytes L \<le> ext_at L g"
      unfolding ext_at_def by (intro mult_le_mono1) simp
    then show ?thesis by (simp add: ext_at_def ext_bytes_def algebra_simps)
  next
    assume "unat (x_start_block g) + unat (x_block_count g) \<le> unat (x_start_block e)"
    then have "(1 + (unat (x_start_block g) + unat (x_block_count g))) * block_bytes L \<le> ext_at L e"
      unfolding ext_at_def by (intro mult_le_mono1) simp
    then show ?thesis by (simp add: ext_at_def ext_bytes_def algebra_simps)
  qed
qed

lemma unat_ext_base:
  assumes "layout_ok L" "ext_inside L e"
  shows "unat ((d_user_start_block L + x_start_block e) * ucast (d_block_size L)) = ext_at L e"
proof -
  have us: "d_user_start_block L = 1" using assms(1) by (simp add: layout_ok_def)
  have lt: "unat (d_user_blocks L) < 2 ^ 63" by (rule layout_ok_bounds(4) [OF assms(1)])
  have 1: "unat (1 + x_start_block e) = 1 + unat (x_start_block e)"
    by (subst unat_add_no_overflow) (use assms(2) lt in \<open>simp_all add: ext_inside_def\<close>)
  have "(1 + unat (x_start_block e)) * unat (d_block_size L) < 2 ^ 64"
    using ext_range(3) [OF assms] by (simp add: ext_at_def block_bytes_def)
  then show ?thesis
    unfolding us by (subst unat_mult_no_overflow) (simp_all add: 1 ext_at_def block_bytes_def)
qed

lemma extent_file_offset_eq:
  assumes lay: "layout d = layout L" and L: "layout_ok L" "ext_inside L e" and off: "unat off \<le> ext_bytes L e"
  shows "extent_file_offset d e off = int (ext_at L e + unat off)"
proof -
  have d: "d_user_start_block d = d_user_start_block L" "d_block_size d = d_block_size L"
    using layout_fields [OF lay] by simp_all
  have "unat ((d_user_start_block L + x_start_block e) * ucast (d_block_size L) + off) = ext_at L e + unat off"
    by (subst unat_add_no_overflow) (use ext_range(3) [OF L] off in \<open>simp_all add: unat_ext_base [OF L]\<close>)
  then show ?thesis
    unfolding extent_file_offset_def d using ext_range(3) [OF L] off by (subst sint_small) simp_all
qed

lemma unat_extent_size:
  assumes lay: "layout d = layout L" and L: "layout_ok L" "ext_inside L e"
  shows "unat (extent_size d e) = ext_bytes L e"
proof -
  have d: "d_block_size d = d_block_size L" using layout_fields [OF lay] by simp
  have "unat (x_block_count e) * unat (d_block_size L) < 2 ^ 64"
    using ext_range(3) [OF L] by (simp add: ext_bytes_def block_bytes_def)
  then show ?thesis
    unfolding extent_size_def d by (subst unat_mult_no_overflow) (simp_all add: ext_bytes_def block_bytes_def)
qed

text \<open>The bounds check is exact as long as \<open>offset + size\<close> does not wrap.\<close>

lemma bounds_check:
  assumes "layout d = layout L" "layout_ok L" "ext_inside L e" "unat off + unat sz < 2 ^ 64"
  shows "off + sz > extent_size d e \<longleftrightarrow> ext_bytes L e < unat off + unat sz"
proof -
  have "unat (off + sz) = unat off + unat sz" by (rule unat_add_no_overflow) (use assms(4) in simp)
  then show ?thesis by (simp add: word_less_nat_alt unat_extent_size [OF assms(1-3)])
qed

section \<open>Writing\<close>

text \<open>\<open>io_handle os s x f L\<close>: the handle is open as \<open>x\<close> on a file with contents \<open>f\<close>, has the layout \<open>L\<close>,
  and its mutex is free.\<close>

definition io_handle :: "os \<Rightarrow> kes_storage \<Rightarrow> ofd \<Rightarrow> ofile \<Rightarrow> kes_storage_descriptor \<Rightarrow> bool" where
  "io_handle os s x f L \<longleftrightarrow> fd_on os (sto_fd s) x f \<and> layout (sto_desc s) = layout L \<and> layout_ok L \<and> \<not> sto_lock s"

text \<open>A write inside the user area leaves descriptor and bitmap alone.\<close>

lemma user_write_keeps_meta:
  assumes st: "disk_static L f" and L: "layout_ok L" and rng: "112 \<le> off" "off + length bs \<le> bitmap_at L"
  shows "disk_desc (fwrite f off bs) = disk_desc f" "disk_bits L (fwrite f off bs) = disk_bits L f"
    "disk_static L (fwrite f off bs)" "disk_coherent crc L (fwrite f off bs) = disk_coherent crc L f"
proof -
  let ?f = "fwrite f off bs"
  have len: "length (fread f 0 112) = 112" "length (disk_bits L f) = bitmap_len L"
    using st by (simp_all add: disk_static_def)
  have "f_holds ?f 0 (fread f 0 112)" "f_holds ?f (bitmap_at L) (disk_bits L f)"
    using disk_static_holds [OF st L] rng len by (auto intro: disk.wr_disjoint)
  then have *: "fread ?f 0 112 = fread f 0 112" "fread ?f (bitmap_at L) (bitmap_len L) = disk_bits L f"
    using f_holds_fread [of ?f 0 "fread f 0 112"] f_holds_fread [of ?f "bitmap_at L" "disk_bits L f"] len by simp_all
  then show d: "disk_desc ?f = disk_desc f" "disk_bits L ?f = disk_bits L f"
    by (simp_all add: disk_desc_def disk_bits_def)
  show "disk_static L ?f" "disk_coherent crc L ?f = disk_coherent crc L f"
    using st d * by (simp_all add: disk_static_def disk_coherent_def disk_used_def)
qed

lemma kes_extent_write_spec:
  assumes h: "io_handle os s x f L" and ro: "\<not> sto_readonly s" and e: "ext_inside L e"
    and fit: "unat off + unat sz \<le> ext_bytes L e" and buf: "unat sz \<le> length buf"
  obtains r s' k f' os' where "kes_extent_write (Some s) (Some e) (Some buf) sz off os = Some (r, Some s', os')"
    "k \<le> unat sz" "f' = (fwrite f (ext_at L e + unat off) (take k buf))\<lparr>f_dirty := f_dirty f'\<rparr>"
    "os_files os' = (os_files os)(of_path x \<mapsto> f')" "os_fds os' = os_fds os" "quiet os \<longrightarrow> quiet os'"
    "r = KES_SUCCESS \<or> r = KES_ERROR_IO" "r = KES_SUCCESS \<longrightarrow> k = unat sz"
    "quiet os \<and> of_wr x \<longrightarrow> r = KES_SUCCESS"
    "sto_desc s' = sto_desc s" "sto_fd s' = sto_fd s" "\<not> sto_lock s'" "sto_bitmap s' = sto_bitmap s"
    "sto_readonly s' = sto_readonly s" "st_allocated_extents (sto_stats s') = st_allocated_extents (sto_stats s)"
proof -
  have H: "fd_on os (sto_fd s) x f" "layout (sto_desc s) = layout L" "layout_ok L" "\<not> sto_lock s"
    using h by (simp_all add: io_handle_def)
  have small: "unat off + unat sz < 2 ^ 63" using fit ext_range(3) [OF H(3) e] by linarith
  have pass: "\<not> off + sz > extent_size (sto_desc s) e"
    using bounds_check [OF H(2,3) e, of off sz] fit small by simp
  define pos where "pos = ext_at L e + unat off"
  have fo: "extent_file_offset (sto_desc s) e off = int pos"
    unfolding pos_def by (rule extent_file_offset_eq [OF H(2,3) e]) (use fit in simp)
  have sz: "sint sz = int (unat sz)" by (rule sint_small) (use small in simp)
  obtain p os1 where sk: "c_lseek os (sto_fd s) (int pos) = (p, os1)" by fastforce
  from c_lseek_spec [OF sk H(1)] have
    1: "os_same os os1" "p = int pos \<Longrightarrow> os_pos os1 (nat (sto_fd s)) = pos" "quiet os \<Longrightarrow> p = int pos"
    by simp_all
  note defs = kes_extent_write_def pthread_mutex_lock_def pthread_mutex_unlock_def
  have onf: "os_files os (of_path x) = Some f" using H(1) by (simp add: fd_on_def)
  show thesis
  proof (cases "p = int pos")
    case False
    then have "kes_extent_write (Some s) (Some e) (Some buf) sz off os = Some (KES_ERROR_IO, Some (s\<lparr>sto_lock := False\<rparr>), os1)"
      using ro pass fo sk H(4) by (simp add: defs)
    then show thesis
      by (rule that [of _ _ _ 0 f]) (use 1 False onf in \<open>auto simp: os_same_def fwrite_def fun_upd_idem\<close>)
  next
    case True
    let ?bs = "take (unat sz) buf"
    obtain n os2 where wr: "c_write os1 (sto_fd s) ?bs = (n, os2)" by fastforce
    have on1: "fd_on os1 (sto_fd s) x f" using H(1) fd_on_same [OF 1(1)] by simp
    have len: "length ?bs = unat sz" using buf by simp
    obtain k f' where w: "k \<le> length ?bs" "os_files os2 = (os_files os1)(of_path x \<mapsto> f')"
      "f' = (fwrite f (os_pos os1 (nat (sto_fd s))) (take k ?bs))\<lparr>f_dirty := f_dirty f'\<rparr>"
      "os_fds os2 = os_fds os1" "quiet os1 \<longrightarrow> quiet os2"
      "n = int (length ?bs) \<longrightarrow> k = length ?bs" "quiet os1 \<and> of_wr x \<longrightarrow> n = int (length ?bs)"
      by (rule c_write_spec [OF wr on1])
    define s' where "s' = (if n = int (unat sz) then s\<lparr>sto_lock := False, sto_stats := (sto_stats s)
        \<lparr>st_writes_completed := st_writes_completed (sto_stats s) + 1,
         st_bytes_written := st_bytes_written (sto_stats s) + sz\<rparr>\<rparr> else s\<lparr>sto_lock := False\<rparr>)"
    have run: "kes_extent_write (Some s) (Some e) (Some buf) sz off os =
        Some (if n = int (unat sz) then KES_SUCCESS else KES_ERROR_IO, Some s', os2)"
      using ro pass fo sk H(4) True wr buf sz by (cases s) (simp add: defs s'_def)
    have tk: "take k ?bs = take k buf" using w(1) len by (simp add: min_absorb1)
    have f': "f' = (fwrite f (ext_at L e + unat off) (take k buf))\<lparr>f_dirty := f_dirty f'\<rparr>"
      using w(3) unfolding 1(2) [OF True] tk pos_def .
    have s': "sto_desc s' = sto_desc s" "sto_fd s' = sto_fd s" "\<not> sto_lock s'" "sto_bitmap s' = sto_bitmap s"
      "sto_readonly s' = sto_readonly s" "st_allocated_extents (sto_stats s') = st_allocated_extents (sto_stats s)"
      by (simp_all add: s'_def)
    show thesis
      by (rule that [OF run _ f' _ _ _ _ _ _ s']) (use w 1(1) len in \<open>auto simp: os_same_def\<close>)
  qed
qed

section \<open>Reading\<close>

lemma kes_extent_read_spec:
  assumes h: "io_handle os s x f L" and rd: "of_rd x" and e: "ext_inside L e"
    and fit: "unat off + unat sz \<le> ext_bytes L e" and buf: "unat sz \<le> length buf"
  obtains r s' bs os' where
    "kes_extent_read (Some s) (Some e) (Some buf) sz off os = Some (r, Some s', Some (overlay bs buf), os')"
    "os_same os os'" "length bs \<le> unat sz" "r = KES_SUCCESS \<or> r = KES_ERROR_IO"
    "r = KES_SUCCESS \<longrightarrow> length bs = unat sz \<and> bs = fread f (ext_at L e + unat off) (unat sz)"
    "quiet os \<longrightarrow> bs = fread f (ext_at L e + unat off) (unat sz) \<and> (r = KES_SUCCESS \<longleftrightarrow> length bs = unat sz)"
    "sto_desc s' = sto_desc s" "sto_fd s' = sto_fd s" "\<not> sto_lock s'" "sto_bitmap s' = sto_bitmap s"
    "sto_readonly s' = sto_readonly s" "st_allocated_extents (sto_stats s') = st_allocated_extents (sto_stats s)"
proof -
  have H: "fd_on os (sto_fd s) x f" "layout (sto_desc s) = layout L" "layout_ok L" "\<not> sto_lock s"
    using h by (simp_all add: io_handle_def)
  have small: "unat off + unat sz < 2 ^ 63" using fit ext_range(3) [OF H(3) e] by linarith
  have pass: "\<not> off + sz > extent_size (sto_desc s) e"
    using bounds_check [OF H(2,3) e, of off sz] fit small by simp
  define pos where "pos = ext_at L e + unat off"
  have fo: "extent_file_offset (sto_desc s) e off = int pos"
    unfolding pos_def by (rule extent_file_offset_eq [OF H(2,3) e]) (use fit in simp)
  have sz: "sint sz = int (unat sz)" by (rule sint_small) (use small in simp)
  obtain p os1 where sk: "c_lseek os (sto_fd s) (int pos) = (p, os1)" by fastforce
  from c_lseek_spec [OF sk H(1)] have
    1: "os_same os os1" "p = int pos \<Longrightarrow> os_pos os1 (nat (sto_fd s)) = pos" "quiet os \<Longrightarrow> p = int pos"
    by simp_all
  note defs = kes_extent_read_def pthread_mutex_lock_def pthread_mutex_unlock_def
  show thesis
  proof (cases "p = int pos")
    case False
    then have "kes_extent_read (Some s) (Some e) (Some buf) sz off os =
        Some (KES_ERROR_IO, Some (s\<lparr>sto_lock := False\<rparr>), Some (overlay [] buf), os1)"
      using pass fo sk H(4) by (simp add: defs overlay_def)
    then show thesis by (rule that) (use 1 False in auto)
  next
    case True
    obtain n bs os2 where rd2: "c_read os1 (sto_fd s) (unat sz) = (n, bs, os2)" using prod_cases3 by blast
    have on1: "fd_on os1 (sto_fd s) x f" using H(1) fd_on_same [OF 1(1)] by simp
    note R = c_read_spec [OF rd2 on1 rd, unfolded 1(2) [OF True] pos_def]
    define s' where "s' = (if n = int (unat sz) then s\<lparr>sto_lock := False, sto_stats := (sto_stats s)
        \<lparr>st_reads_completed := st_reads_completed (sto_stats s) + 1,
         st_bytes_read := st_bytes_read (sto_stats s) + sz\<rparr>\<rparr> else s\<lparr>sto_lock := False\<rparr>)"
    have "\<not> length bs > length buf" using R buf by linarith
    then have run: "kes_extent_read (Some s) (Some e) (Some buf) sz off os =
        Some (if n = int (unat sz) then KES_SUCCESS else KES_ERROR_IO, Some s', Some (overlay bs buf), os2)"
      using pass fo sk H(4) True rd2 sz by (cases s) (simp add: defs s'_def)
    have s': "sto_desc s' = sto_desc s" "sto_fd s' = sto_fd s" "\<not> sto_lock s'" "sto_bitmap s' = sto_bitmap s"
      "sto_readonly s' = sto_readonly s" "st_allocated_extents (sto_stats s') = st_allocated_extents (sto_stats s)"
      by (simp_all add: s'_def)
    have same: "os_same os os2" using R 1(1) os_same_trans by blast
    have q: "quiet os \<longrightarrow> quiet os1" using 1(1) by (simp add: os_same_def)
    show thesis by (rule that [OF run same _ _ _ _ s']) (use R q in auto)
  qed
qed

end
