(* ===== verification/Kes_World.thy ===== *)
theory Kes_World
  imports Kes_Lifecycle Kes_Io
begin

text \<open>
  Many handles on one storage file: a step relation whose steps are the public operations, run
  through any handle in any order, with I/O faults scheduled at will. The file locks make the
  operations atomic with respect to one another, so that an interleaving is a sequence of
  operations. A client keeps the extents it was given until it hands them to \<open>kes_extent_free\<close>.
\<close>

section \<open>States and steps\<close>

record world =
  w_os :: os
  w_handles :: "kes_storage list"
  w_live :: "kes_extent_descriptor list"

inductive w_step :: "(u32 \<Rightarrow> u8 list \<Rightarrow> u32) \<Rightarrow> string \<Rightarrow> world \<Rightarrow> world \<Rightarrow> bool" for crc path where
  faults: "w_step crc path w (w\<lparr>w_os := (w_os w)\<lparr>os_sched := sched\<rparr>\<rparr>)"
| opens: "kes_storage_open crc (w_os w) (Some path) flags True = Some (KES_SUCCESS, Some s, os') \<Longrightarrow>
    flags AND KES_STORAGE_READONLY = 0 \<Longrightarrow>
    w_step crc path w (w\<lparr>w_os := os', w_handles := s # w_handles w\<rparr>)"
| open_fails: "kes_storage_open crc (w_os w) (Some path) flags True = Some (r, None, os') \<Longrightarrow>
    w_step crc path w (w\<lparr>w_os := os'\<rparr>)"
| allocates: "i < length (w_handles w) \<Longrightarrow>
    kes_extent_allocate crc (Some (w_handles w ! i)) (Some rq) (Some e) (w_os w) = Some (r, Some s, Some e', os') \<Longrightarrow>
    w_step crc path w (w\<lparr>w_os := os', w_handles := (w_handles w)[i := s],
      w_live := (if r = KES_SUCCESS then e' # w_live w else w_live w)\<rparr>)"
| frees: "i < length (w_handles w) \<Longrightarrow> e \<in> set (w_live w) \<Longrightarrow>
    kes_extent_free crc (Some (w_handles w ! i)) (Some e) (w_os w) = Some (r, Some s, os') \<Longrightarrow>
    w_step crc path w (w\<lparr>w_os := os', w_handles := (w_handles w)[i := s], w_live := remove1 e (w_live w)\<rparr>)"
| syncs: "i < length (w_handles w) \<Longrightarrow>
    kes_storage_sync crc (Some (w_handles w ! i)) (w_os w) = Some (r, Some s, os') \<Longrightarrow>
    w_step crc path w (w\<lparr>w_os := os', w_handles := (w_handles w)[i := s]\<rparr>)"
| writes: "i < length (w_handles w) \<Longrightarrow> e \<in> set (w_live w) \<Longrightarrow>
    unat off + unat sz < 2 ^ 64 \<Longrightarrow> unat sz \<le> length buf \<Longrightarrow>
    kes_extent_write (Some (w_handles w ! i)) (Some e) (Some buf) sz off (w_os w) = Some (r, Some s, os') \<Longrightarrow>
    w_step crc path w (w\<lparr>w_os := os', w_handles := (w_handles w)[i := s]\<rparr>)"
| closes: "i < length (w_handles w) \<Longrightarrow> quiet (w_os w) \<Longrightarrow>
    kes_storage_close crc (Some (w_handles w ! i)) (w_os w) = Some (r, os') \<Longrightarrow>
    w_step crc path w (w\<lparr>w_os := os', w_handles := take i (w_handles w) @ drop (Suc i) (w_handles w)\<rparr>)"

inductive w_reach :: "(u32 \<Rightarrow> u8 list \<Rightarrow> u32) \<Rightarrow> string \<Rightarrow> world \<Rightarrow> world \<Rightarrow> bool" for crc path w0 where
  start: "w_reach crc path w0 w0"
| more: "w_reach crc path w0 w \<Longrightarrow> w_step crc path w w' \<Longrightarrow> w_reach crc path w0 w'"

section \<open>The invariant\<close>

text \<open>Every handle is usable on the one file, and the live extents are disjoint, inside the user area
  and marked as used on disk.\<close>

definition live_ok :: "kes_storage_descriptor \<Rightarrow> nat set \<Rightarrow> kes_extent_descriptor list \<Rightarrow> bool" where
  "live_ok L U es \<longleftrightarrow> (\<forall>e \<in> set es. ext_blocks e \<subseteq> U \<and> x_block_count e \<noteq> 0) \<and>
     sorted_wrt (\<lambda>e g. ext_blocks e \<inter> ext_blocks g = {}) es"

definition world_ok :: "kes_storage_descriptor \<Rightarrow> string \<Rightarrow> world \<Rightarrow> bool" where
  "world_ok L path w \<longleftrightarrow> (\<exists>f. os_files (w_os w) path = Some f \<and> disk_static L f \<and> layout_ok L \<and> unlocked (w_os w) \<and>
     (\<forall>s \<in> set (w_handles w). \<exists>x. of_path x = path \<and> session (w_os w) s x f L) \<and>
     distinct (map sto_fd (w_handles w)) \<and> live_ok L (disk_used L f) (w_live w))"

lemma live_ok_mono: "live_ok L U es \<Longrightarrow> U \<subseteq> V \<Longrightarrow> live_ok L V es"
  by (auto simp: live_ok_def)

lemma live_ok_alloc:
  assumes "live_ok L U es" "ext_blocks e \<inter> U = {}" "x_block_count e \<noteq> 0"
  shows "live_ok L (U \<union> ext_blocks e) (e # es)"
  using assms unfolding live_ok_def by (auto 0 3)

lemma sorted_wrt_remove1: "sorted_wrt P xs \<Longrightarrow> sorted_wrt P (remove1 x xs)"
  by (induction xs) (auto dest: notin_set_remove1 set_remove1_subset [THEN subsetD])

text \<open>Removing one extent: the others do not use its blocks.\<close>

lemma live_ok_free:
  assumes l: "live_ok L U es" and e: "e \<in> set es" and V: "U - ext_blocks e \<subseteq> V"
  shows "live_ok L V (remove1 e es)"
proof -
  obtain as bs where es: "es = as @ e # bs" "e \<notin> set as" using split_list_first [OF e] by blast
  have "ext_blocks g \<inter> ext_blocks e = {}" if "g \<in> set (as @ bs)" for g
    using l that unfolding es live_ok_def by (auto simp: sorted_wrt_append)
  then show ?thesis
    using l V sorted_wrt_remove1 [of _ es e] unfolding live_ok_def es
    by (fastforce simp: remove1_append es(2))
qed

section \<open>Every step keeps the invariant\<close>

lemma session_other:
  assumes "session os t y f L" "os_after os os' x f'" "disk_static L f'" "of_path y = of_path x"
  shows "session os' t y f' L"
  using assms by (auto simp: session_def os_after_def fd_on_def fd_get_same [of os' os] unlocked_def)

text \<open>An operation through handle \<open>i\<close> that ends in a session again.\<close>

lemma world_ok_update:
  assumes ok: "world_ok L path w" and i: "i < length (w_handles w)" and f: "os_files (w_os w) path = Some f"
    and x: "of_path x = path" "session (w_os w) (w_handles w ! i) x f L"
    and ses: "session os' s x f' L" and aft: "os_after (w_os w) os' x f'" and fd: "sto_fd s = sto_fd (w_handles w ! i)"
    and live: "live_ok L (disk_used L f') es"
  shows "world_ok L path \<lparr>w_os = os', w_handles = (w_handles w)[i := s], w_live = es\<rparr>"
proof -
  have st: "disk_static L f'" "unlocked os'" "layout_ok L" using ses by (simp_all add: session_def)
  have f': "os_files os' path = Some f'" using aft x(1) by (auto simp: os_after_def)
  have "\<exists>y. of_path y = path \<and> session os' t y f' L" if "t \<in> set ((w_handles w)[i := s])" for t
  proof -
    from that i consider "t = s" | "t \<in> set (w_handles w)"
      using set_update_subset_insert by fastforce
    then show ?thesis
    proof cases
      case 1
      then show ?thesis using x(1) ses by blast
    next
      case 2
      then obtain y where "of_path y = path" "session (w_os w) t y f L"
        using ok f by (auto simp: world_ok_def)
      then show ?thesis using session_other [OF _ aft st(1), of t y f] x(1) by auto
    qed
  qed
  moreover have "map sto_fd ((w_handles w)[i := s]) = map sto_fd (w_handles w)"
    using fd i by (simp add: map_update list_update_same_conv)
  moreover have "distinct (map sto_fd (w_handles w))" using ok by (auto simp: world_ok_def)
  ultimately show ?thesis using st f' live by (auto simp: world_ok_def)
qed

lemma world_okE:
  assumes "world_ok L path w" "i < length (w_handles w)"
  obtains f x where "os_files (w_os w) path = Some f" "of_path x = path" "session (w_os w) (w_handles w ! i) x f L"
    "live_ok L (disk_used L f) (w_live w)" "disk_static L f" "layout_ok L"
  using assms by (fastforce simp: world_ok_def)

lemma allocates_ok:
  assumes ok: "world_ok L path w" and i: "i < length (w_handles w)"
    and run: "kes_extent_allocate crc (Some (w_handles w ! i)) (Some rq) (Some e) (w_os w) = Some (r, Some s, Some e', os')"
  shows "world_ok L path (w\<lparr>w_os := os', w_handles := (w_handles w)[i := s],
      w_live := (if r = KES_SUCCESS then e' # w_live w else w_live w)\<rparr>)"
proof -
  obtain f x where W: "os_files (w_os w) path = Some f" "of_path x = path" "session (w_os w) (w_handles w ! i) x f L"
    "live_ok L (disk_used L f) (w_live w)" by (rule world_okE [OF ok i])
  show ?thesis
  proof (cases "rq_block_count rq = 0")
    case True
    then have "r = KES_ERROR_INVALID" "s = w_handles w ! i" "os' = w_os w"
      using run W(3) by (auto simp: kes_extent_allocate_def session_def)
    then show ?thesis using ok by (simp add: list_update_id)
  next
    case False
    obtain r2 s2 e2 f' os2 where A:
      "kes_extent_allocate crc (Some (w_handles w ! i)) (Some rq) (Some e) (w_os w) = Some (r2, Some s2, Some e2, os2)"
      "session os2 s2 x f' L" "os_after (w_os w) os2 x f'" "alloc_post crc L rq r2 e2 f f'"
      "sto_fd s2 = sto_fd (w_handles w ! i)"
      by (rule kes_extent_allocate_spec [OF W(3) False])
    have eq: "r2 = r" "s2 = s" "e2 = e'" "os2 = os'" using A(1) run by simp_all
    have sub: "disk_used L f \<subseteq> disk_used L f'" by (rule alloc_post_used [OF A(4)])
    have "live_ok L (disk_used L f') (if r = KES_SUCCESS then e' # w_live w else w_live w)"
    proof (cases "r = KES_SUCCESS")
      case True
      note P = alloc_post_success [OF A(4) [unfolded eq True]]
      show ?thesis using live_ok_alloc [OF W(4) P(6)] P(2,5) False True by simp
    next
      case False
      then show ?thesis using live_ok_mono [OF W(4) sub] by simp
    qed
    then show ?thesis
      using world_ok_update [OF ok i W(1-3) A(2,3,5)] eq by (cases w) auto
  qed
qed

lemma frees_ok:
  assumes ok: "world_ok L path w" and i: "i < length (w_handles w)" and e: "e \<in> set (w_live w)"
    and run: "kes_extent_free crc (Some (w_handles w ! i)) (Some e) (w_os w) = Some (r, Some s, os')"
  shows "world_ok L path (w\<lparr>w_os := os', w_handles := (w_handles w)[i := s], w_live := remove1 e (w_live w)\<rparr>)"
proof -
  obtain f x where W: "os_files (w_os w) path = Some f" "of_path x = path" "session (w_os w) (w_handles w ! i) x f L"
    "live_ok L (disk_used L f) (w_live w)" by (rule world_okE [OF ok i])
  obtain r2 s2 f' os2 where A:
    "kes_extent_free crc (Some (w_handles w ! i)) (Some e) (w_os w) = Some (r2, Some s2, os2)"
    "session os2 s2 x f' L" "os_after (w_os w) os2 x f'" "free_post crc L e r2 f f'"
    "sto_fd s2 = sto_fd (w_handles w ! i)"
    by (rule kes_extent_free_spec [OF W(3)])
  have eq: "s2 = s" "os2 = os'" using A(1) run by simp_all
  from world_ok_update [OF ok i W(1-3) A(2,3,5) live_ok_free [OF W(4) e free_post_used(1) [OF A(4)]]]
  show ?thesis by (cases w) (simp add: eq)
qed

lemma syncs_ok:
  assumes ok: "world_ok L path w" and i: "i < length (w_handles w)"
    and run: "kes_storage_sync crc (Some (w_handles w ! i)) (w_os w) = Some (r, Some s, os')"
  shows "world_ok L path (w\<lparr>w_os := os', w_handles := (w_handles w)[i := s]\<rparr>)"
proof -
  obtain f x where W: "os_files (w_os w) path = Some f" "of_path x = path" "session (w_os w) (w_handles w ! i) x f L"
    "live_ok L (disk_used L f) (w_live w)" by (rule world_okE [OF ok i])
  obtain r2 s2 f' os2 where A: "kes_storage_sync crc (Some (w_handles w ! i)) (w_os w) = Some (r2, Some s2, os2)"
    "session os2 s2 x f' L" "os_after (w_os w) os2 x f'" "disk_bits L f' = disk_bits L f"
    "sto_fd s2 = sto_fd (w_handles w ! i)"
    by (rule kes_storage_sync_spec [OF W(3)])
  have eq: "s2 = s" "os2 = os'" using A(1) run by simp_all
  have "live_ok L (disk_used L f') (w_live w)" using W(4) A(4) by (simp add: disk_used_def)
  from world_ok_update [OF ok i W(1-3) A(2,3,5) this] show ?thesis by (cases w) (simp add: eq)
qed

lemma live_inside:
  assumes "live_ok L (disk_used L f) es" "e \<in> set es" "disk_static L f"
  shows "ext_inside L e" "0 < unat (x_block_count e)"
proof -
  have e: "ext_blocks e \<subseteq> {..<unat (d_user_blocks L)}" "x_block_count e \<noteq> 0"
    using assms disk_used_bounded(1) [OF assms(3)] by (auto simp: live_ok_def)
  then show "ext_inside L e" "0 < unat (x_block_count e)"
    using blocks_inside [of "x_start_block e" "x_block_count e"] unat_gt_0 [of "x_block_count e"]
    by (auto simp: ext_blocks_def ext_inside_def)
qed

lemma session_io: "session os s x f L \<Longrightarrow> io_handle os s x f L"
  by (auto simp: session_def io_handle_def handle_ok_def)

lemma writes_ok:
  assumes ok: "world_ok L path w" and i: "i < length (w_handles w)" and e: "e \<in> set (w_live w)"
    and wrap: "unat off + unat sz < 2 ^ 64" and buf: "unat sz \<le> length buf"
    and run: "kes_extent_write (Some (w_handles w ! i)) (Some e) (Some buf) sz off (w_os w) = Some (r, Some s, os')"
  shows "world_ok L path (w\<lparr>w_os := os', w_handles := (w_handles w)[i := s]\<rparr>)"
proof -
  obtain f x where W: "os_files (w_os w) path = Some f" "of_path x = path" "session (w_os w) (w_handles w ! i) x f L"
    "live_ok L (disk_used L f) (w_live w)" "disk_static L f" "layout_ok L" by (rule world_okE [OF ok i])
  note h = session_io [OF W(3)]
  have S: "\<not> sto_readonly (w_handles w ! i)" "layout (sto_desc (w_handles w ! i)) = layout L"
    "handle_ok L (w_handles w ! i)" using W(3) by (auto simp: session_def handle_ok_def)
  note inside = live_inside [OF W(4) e W(5)]
  show ?thesis
  proof (cases "unat off + unat sz \<le> ext_bytes L e")
    case False
    then have "off + sz > extent_size (sto_desc (w_handles w ! i)) e"
      using bounds_check [OF S(2) W(6) inside(1) wrap] by simp
    then have "s = w_handles w ! i" "os' = w_os w" using run S(1) by (auto simp: kes_extent_write_def)
    then show ?thesis using ok by (simp add: list_update_id)
  next
    case True
    obtain r2 s2 k f' os2 where A:
      "kes_extent_write (Some (w_handles w ! i)) (Some e) (Some buf) sz off (w_os w) = Some (r2, Some s2, os2)"
      "k \<le> unat sz" "f' = (fwrite f (ext_at L e + unat off) (take k buf))\<lparr>f_dirty := f_dirty f'\<rparr>"
      "os_files os2 = (os_files (w_os w))(of_path x \<mapsto> f')" "os_fds os2 = os_fds (w_os w)"
      "quiet (w_os w) \<longrightarrow> quiet os2"
      "sto_desc s2 = sto_desc (w_handles w ! i)" "sto_fd s2 = sto_fd (w_handles w ! i)" "\<not> sto_lock s2"
      "sto_bitmap s2 = sto_bitmap (w_handles w ! i)" "sto_readonly s2 = sto_readonly (w_handles w ! i)"
      by (rule kes_extent_write_spec [OF h S(1) inside(1) True buf])
    have eq: "s2 = s" "os2 = os'" using A(1) run by simp_all
    have rng: "112 \<le> ext_at L e + unat off" "ext_at L e + unat off + length (take k buf) \<le> bitmap_at L"
      using ext_range(1,2) [OF W(6) inside(1)] True A(2) buf by auto
    note M = user_write_keeps_meta [OF W(5,6) rng]
    have f': "disk_static L f'" "disk_bits L f' = disk_bits L f" by (subst A(3), simp add: M)+
    have aft: "os_after (w_os w) os2 x f'" using A(4-6) by (simp add: os_after_def)
    have ses: "session os2 s2 x f' L"
      by (rule session_after [OF W(3) aft f'(1)]) (use A(7-11) S(3) in \<open>simp_all add: handle_ok_def\<close>)
    have "live_ok L (disk_used L f') (w_live w)" using W(4) f'(2) by (simp add: disk_used_def)
    from world_ok_update [OF ok i W(1-3) ses aft A(8) this] show ?thesis by (cases w) (simp add: eq)
  qed
qed

text \<open>A new descriptor does not disturb the open ones.\<close>

lemma session_more_fds:
  assumes "session os t y f L" "os_files os' = os_files os" "os_fds os' = os_fds os @ zs" "unlocked os'"
  shows "session os' t y f L"
  using assms by (auto simp: session_def fd_on_def fd_get_def nth_append split: if_splits)

lemma unlocked_append:
  "os_fds os' = os_fds os @ zs \<Longrightarrow> unlocked os \<Longrightarrow> (\<And>y. Some y \<in> set zs \<Longrightarrow> of_lock y = LOCK_UN) \<Longrightarrow> unlocked os'"
  by (auto simp: unlocked_def)

lemma world_ok_more_fds:
  assumes ok: "world_ok L path w" and files: "os_files os' = os_files (w_os w)"
    and fds: "os_fds os' = os_fds (w_os w) @ zs" and un: "unlocked os'"
  shows "world_ok L path (w\<lparr>w_os := os'\<rparr>)"
proof -
  have "\<exists>y. of_path y = path \<and> session os' t y f L"
    if "\<exists>y. of_path y = path \<and> session (w_os w) t y f L" for t f
    using that session_more_fds [OF _ files fds un] by blast
  then show ?thesis using ok files un unfolding world_ok_def by (auto 0 3)
qed

lemma faults_ok: "world_ok L path w \<Longrightarrow> world_ok L path (w\<lparr>w_os := (w_os w)\<lparr>os_sched := sched\<rparr>\<rparr>)"
  by (rule world_ok_more_fds [where zs = "[]"]) (auto simp: world_ok_def unlocked_def)

lemma session_fd_bound: "session os s x f L \<Longrightarrow> sto_fd s < int (length (os_fds os))"
  by (auto simp: session_def fd_on_def fd_get_def split: if_splits)

lemma open_any_ok:
  assumes ok: "world_ok L path w"
    and run: "kes_storage_open crc (w_os w) (Some path) flags True = Some (r, h, os')"
  shows "h = None \<Longrightarrow> world_ok L path (w\<lparr>w_os := os'\<rparr>)"
    and "h = Some s \<Longrightarrow> r = KES_SUCCESS \<Longrightarrow> flags AND KES_STORAGE_READONLY = 0 \<Longrightarrow>
      world_ok L path (w\<lparr>w_os := os', w_handles := s # w_handles w\<rparr>)"
proof -
  obtain f where W: "os_files (w_os w) path = Some f" "disk_static L f" "layout_ok L" "unlocked (w_os w)"
    "\<forall>t \<in> set (w_handles w). \<exists>x. of_path x = path \<and> session (w_os w) t x f L"
    using ok by (auto simp: world_ok_def)
  obtain r2 h2 os2 where O: "kes_storage_open crc (w_os w) (Some path) flags True = Some (r2, h2, os2)"
    "os_files os2 = os_files (w_os w)"
    "r2 \<noteq> KES_SUCCESS \<longrightarrow> h2 = None \<and> (os_fds os2 = os_fds (w_os w) \<or> os_fds os2 = os_fds (w_os w) @ [None])"
    "r2 = KES_SUCCESS \<longrightarrow> (\<exists>s x. h2 = Some s \<and> of_path x = path \<and> opened crc L f flags (w_os w) s x os2)"
    by (rule kes_storage_open_spec [OF W(1-4)])
  have eq: "r2 = r" "h2 = h" "os2 = os'" using O(1) run by simp_all
  show "world_ok L path (w\<lparr>w_os := os'\<rparr>)" if h: "h = None"
  proof -
    have "os_fds os' = os_fds (w_os w) @ [] \<or> os_fds os' = os_fds (w_os w) @ [None]"
      using O(3,4) h unfolding eq by (cases "r = KES_SUCCESS") auto
    then obtain zs where zs: "os_fds os' = os_fds (w_os w) @ zs" "zs = [] \<or> zs = [None]" by blast
    have "unlocked os'" by (rule unlocked_append [OF zs(1) W(4)]) (use zs(2) in auto)
    from world_ok_more_fds [OF ok _ zs(1) this] O(2) show ?thesis by (simp add: eq)
  qed
  show "world_ok L path (w\<lparr>w_os := os', w_handles := s # w_handles w\<rparr>)"
    if h: "h = Some s" and r: "r = KES_SUCCESS" and ro: "flags AND KES_STORAGE_READONLY = 0"
  proof -
    obtain x where x: "of_path x = path" "opened crc L f flags (w_os w) s x os'"
      using O(4) h r unfolding eq by auto
    have fds: "os_fds os' = os_fds (w_os w) @ [Some x]" "of_lock x = LOCK_UN" "sto_fd s = int (length (os_fds (w_os w)))"
      using x(2) by (simp_all add: opened_def)
    have "unlocked os'" by (rule unlocked_append [OF fds(1) W(4)]) (use fds(2) in auto)
    note base = world_ok_more_fds [OF ok O(2) [unfolded eq] fds(1) this]
    have "session os' s x f L"
      by (rule opened_session [OF x(2) _ W(4) ro W(2,3)]) (use O(2) W(1) x(1) in \<open>simp add: eq\<close>)
    moreover have "sto_fd s \<notin> set (map sto_fd (w_handles w))"
      using W(5) session_fd_bound fds(3) by fastforce
    moreover have "os_files os' path = Some f" using O(2) W(1) by (simp add: eq)
    ultimately show ?thesis using base x(1) by (auto simp: world_ok_def)
  qed
qed

lemma distinct_map_remove:
  "distinct (map g (as @ a # bs)) \<Longrightarrow> distinct (map g (as @ bs)) \<and> (\<forall>t \<in> set (as @ bs). g t \<noteq> g a)"
  by (induction as) (auto simp: image_iff)

lemma closes_ok:
  assumes ok: "world_ok L path w" and i: "i < length (w_handles w)" and q: "quiet (w_os w)"
    and run: "kes_storage_close crc (Some (w_handles w ! i)) (w_os w) = Some (r, os')"
  shows "world_ok L path (w\<lparr>w_os := os', w_handles := take i (w_handles w) @ drop (Suc i) (w_handles w)\<rparr>)"
proof -
  obtain f x where W: "os_files (w_os w) path = Some f" "of_path x = path" "session (w_os w) (w_handles w ! i) x f L"
    "live_ok L (disk_used L f) (w_live w)" "disk_static L f" "layout_ok L" by (rule world_okE [OF ok i])
  let ?s = "w_handles w ! i" and ?hs = "take i (w_handles w) @ drop (Suc i) (w_handles w)"
  obtain os2 f' where C: "kes_storage_close crc (Some ?s) (w_os w) = Some (KES_SUCCESS, os2)"
    "os_files os2 = (os_files (w_os w))(of_path x \<mapsto> f')" "os_fds os2 = (os_fds (w_os w))[nat (sto_fd ?s) := None]"
    "disk_static L f'" "disk_bits L f' = disk_bits L f"
    by (rule kes_storage_close_quiet [OF W(3) q])
  have eq: "os2 = os'" using C(1) run by simp
  have split: "w_handles w = take i (w_handles w) @ ?s # drop (Suc i) (w_handles w)" by (rule id_take_nth_drop [OF i])
  have dist: "distinct (map sto_fd (w_handles w))" using ok by (auto simp: world_ok_def)
  have "distinct (map sto_fd (take i (w_handles w) @ ?s # drop (Suc i) (w_handles w)))"
    using dist split by simp
  from distinct_map_remove [OF this]
  have d2: "distinct (map sto_fd ?hs)" "\<forall>t \<in> set ?hs. sto_fd t \<noteq> sto_fd ?s" by blast+
  have sub: "set ?hs \<subseteq> set (w_handles w)" using set_take_subset set_drop_subset by fastforce
  have un: "unlocked os'" using W(3) C(3) eq set_update_subset_insert [of "os_fds (w_os w)" "nat (sto_fd ?s)" None]
    by (auto simp: session_def unlocked_def)
  have nn: "0 \<le> sto_fd ?s" using W(3) fd_on_nonneg by (auto simp: session_def)
  have "\<exists>y. of_path y = path \<and> session os' t y f' L" if t: "t \<in> set ?hs" for t
  proof -
    have "t \<in> set (w_handles w)" using t sub by blast
    then obtain y where y: "of_path y = path" "session (w_os w) t y f L" using ok W(1) by (auto simp: world_ok_def)
    have "0 \<le> sto_fd t" using y(2) fd_on_nonneg by (auto simp: session_def)
    then have "nat (sto_fd t) \<noteq> nat (sto_fd ?s)" using d2(2) t nn by fastforce
    then have "fd_get os' (sto_fd t) = fd_get (w_os w) (sto_fd t)" using C(3) eq by (simp add: fd_get_def)
    then have "session os' t y f' L"
      using y W(2) C(2,4) eq un by (simp add: session_def fd_on_def)
    then show ?thesis using y(1) by blast
  qed
  moreover have "live_ok L (disk_used L f') (w_live w)" using W(4) C(5) by (simp add: disk_used_def)
  ultimately show ?thesis
    using C(2,4) W(2,6) d2(1) un eq by (auto simp: world_ok_def)
qed

lemma w_step_ok:
  assumes "w_step crc path w w'" "world_ok L path w"
  shows "world_ok L path w'"
  using assms
proof (induction rule: w_step.induct)
  case allocates
  then show ?case by (rule allocates_ok [rotated 1])
qed (blast intro: faults_ok open_any_ok frees_ok syncs_ok writes_ok closes_ok)+

lemma w_reach_ok: "w_reach crc path w0 w \<Longrightarrow> world_ok L path w0 \<Longrightarrow> world_ok L path w"
  by (induction rule: w_reach.induct) (auto dest: w_step_ok)

text \<open>No operation gets stuck: through every handle, allocation, freeing and synchronising return.\<close>

lemma world_progress:
  assumes ok: "world_ok L path w" and i: "i < length (w_handles w)"
  shows "\<exists>r s e' os. kes_extent_allocate crc (Some (w_handles w ! i)) (Some rq) (Some e) (w_os w) = Some (r, Some s, Some e', os)"
    "\<exists>r s os. kes_extent_free crc (Some (w_handles w ! i)) (Some e) (w_os w) = Some (r, Some s, os)"
    "\<exists>r s os. kes_storage_sync crc (Some (w_handles w ! i)) (w_os w) = Some (r, Some s, os)"
proof -
  obtain f x where W: "session (w_os w) (w_handles w ! i) x f L" by (rule world_okE [OF ok i])
  show "\<exists>r s e' os. kes_extent_allocate crc (Some (w_handles w ! i)) (Some rq) (Some e) (w_os w) = Some (r, Some s, Some e', os)"
  proof (cases "rq_block_count rq = 0")
    case True
    then show ?thesis using W by (auto simp: kes_extent_allocate_def session_def)
  next
    case False
    show ?thesis by (rule kes_extent_allocate_spec [OF W False, where crc = crc and e = e]) blast
  qed
  show "\<exists>r s os. kes_extent_free crc (Some (w_handles w ! i)) (Some e) (w_os w) = Some (r, Some s, os)"
    by (rule kes_extent_free_spec [OF W, where crc = crc and e = e]) blast
  show "\<exists>r s os. kes_storage_sync crc (Some (w_handles w ! i)) (w_os w) = Some (r, Some s, os)"
    by (rule kes_storage_sync_spec [OF W, where crc = crc]) blast
qed

end
