(* ===== verification/Kes_Contract.thy ===== *)
theory Kes_Contract
  imports Kes_World
begin

text \<open>
  The contract of the storage layer as theorems over its functions: creating and opening, allocating
  and freeing, reading and writing, synchronising and closing; with every I/O call working (\<open>quiet\<close>)
  and with any of them failing. A sample storage, created by \<open>kes_storage_create\<close> itself, is the
  concrete instance at which each theorem is applied.
\<close>

section \<open>A sample storage\<close>

definition sample_config :: kes_storage_config where
  "sample_config = \<lparr>cfg_device_path = Some ''dev'', cfg_device_size = 81920, cfg_block_size = 8192,
     cfg_flags = KES_STORAGE_CREATE, cfg_strategy = KES_ALLOC_FIRST_FIT\<rparr>"

definition sum_crc :: "u32 \<Rightarrow> u8 list \<Rightarrow> u32" where
  "sum_crc c bs = fold (\<lambda>b a. a + ucast b) bs c"

lemma sample_config_ok:
  "validate_config (Some sample_config) = KES_SUCCESS" "unat (cfg_device_size sample_config) < 2 ^ 63"
  by (simp_all add: sample_config_def validate_config_def KES_IS_POWER_OF_2_def)

lemma sample_os_unlocked: "unlocked sample_os"
  by (simp add: sample_os_def unlocked_def)

lemma sample_created:
  obtains s x f os' where "kes_storage_create sum_crc sample_os (Some sample_config) True = Some (KES_SUCCESS, Some s, os')"
    "created sum_crc sample_os sample_config s x f os'" "session os' s x f (sto_desc s)" "quiet os'" "of_path x = ''dev''"
    "unlocked os'"
proof -
  obtain r st os' where C: "kes_storage_create sum_crc sample_os (Some sample_config) True = Some (r, st, os')"
    "r = KES_SUCCESS \<longrightarrow> (\<exists>s x f. st = Some s \<and> created sum_crc sample_os sample_config s x f os')"
    "quiet sample_os \<and> (cfg_flags sample_config AND KES_STORAGE_CREATE \<noteq> 0 \<or>
       os_files sample_os (the (cfg_device_path sample_config)) \<noteq> None) \<longrightarrow> r = KES_SUCCESS \<and> quiet os'"
    by (rule kes_storage_create_spec [OF sample_config_ok])
  then have r: "r = KES_SUCCESS" "quiet os'" using sample_os_fd(2) by (simp_all add: sample_config_def)
  with C(2) obtain s x f where s: "st = Some s" "created sum_crc sample_os sample_config s x f os'" by blast
  have ses: "session os' s x f (sto_desc s)"
    by (rule created_session [OF s(2) sample_os_unlocked]) (simp add: sample_config_def)
  have "of_path x = ''dev''" using s(2) by (simp add: created_def sample_config_def)
  moreover have "unlocked os'" using ses by (simp add: session_def)
  ultimately show thesis using that C(1) r s ses by blast
qed

section \<open>Allocation\<close>

lemma allocate_correct_raw:
  assumes "session os s x f L" "disk_coherent crc L f" "quiet os" "rq_block_count rq \<noteq> 0"
  shows "\<exists>r s' e' f' os'.
    kes_extent_allocate crc (Some s) (Some rq) (Some e) os = Some (r, Some s', Some e', os') \<and>
    session os' s' x f' L \<and> disk_coherent crc L f' \<and> quiet os' \<and> os_fds os' = os_fds os \<and>
    os_files os' = (os_files os)(of_path x \<mapsto> f') \<and>
    (r = KES_SUCCESS \<and>
       picks (disk_used L f) (unat (d_user_blocks L)) (unat (rq_block_count rq)) (unat (rq_hint_block rq))
         (unat (x_start_block e')) \<and>
       x_block_count e' = rq_block_count rq \<and> x_extent_id e' = d_next_extent_id (disk_desc f) + 1 \<and>
       disk_used L f' = disk_used L f \<union> ext_blocks e' \<and>
       d_next_extent_id (disk_desc f') = d_next_extent_id (disk_desc f) + 1 \<and> \<not> f_dirty f'
     \<or> r = KES_ERROR_NOSPACE \<and> f' = f \<and>
       (\<forall>j. \<not> fits (disk_used L f) (unat (d_user_blocks L)) (unat (rq_block_count rq)) j))"
proof -
  obtain r s' e' f' os' where A:
    "kes_extent_allocate crc (Some s) (Some rq) (Some e) os = Some (r, Some s', Some e', os')"
    "session os' s' x f' L" "os_after os os' x f'" "alloc_post crc L rq r e' f f'"
    "quiet os \<longrightarrow> r \<noteq> KES_ERROR_IO"
    by (rule kes_extent_allocate_spec [OF assms(1,4)])
  have base: "quiet os'" "os_fds os' = os_fds os" "os_files os' = (os_files os)(of_path x \<mapsto> f')"
    using A(3) assms(3) by (simp_all add: os_after_def)
  have "r = KES_SUCCESS \<or> r = KES_ERROR_NOSPACE"
    using A(4,5) assms(3) unfolding alloc_post_def Let_def by argo
  then show ?thesis
  proof
    assume r: "r = KES_SUCCESS"
    note P = alloc_post_success [OF A(4) [unfolded r]]
    have st: "disk_static L f'" "layout_ok L" using assms(1) A(2) by (simp_all add: session_def)
    have "disk_coherent crc L f'" by (rule alloc_coherent [OF assms(2) A(4) [unfolded r] st])
    then show ?thesis using A(1,2) base r P by auto
  next
    assume r: "r = KES_ERROR_NOSPACE"
    then have "f' = f \<and> (\<forall>j. \<not> fits (disk_used L f) (unat (d_user_blocks L)) (unat (rq_block_count rq)) j)"
      using A(4) by (simp add: alloc_post_def Let_def)
    then show ?thesis using A(1,2) base r assms(2) by blast
  qed
qed

text \<open>
  C1. When no I/O call fails, an allocation of \<open>n > 0\<close> blocks through any handle on a coherent
  storage returns. Either it succeeds: the extent is the first free run of \<open>n\<close> blocks from the hint on
  (wrapping around) of the bitmap \<^emph>\<open>on disk\<close>, exactly these blocks become used on disk, the block
  counters, the next extent id and the checksum of the descriptor are updated to match, the change
  is flushed; or it reports \<open>KES_ERROR_NOSPACE\<close>, the file is unchanged and no run of \<open>n\<close> free blocks
  exists. The handle and both locks end as they were.
\<close>

theorem allocate_correct:
  assumes "session os s x f L" "disk_coherent crc L f" "quiet os" "rq_block_count rq \<noteq> 0"
  shows "\<exists>r s' e' f' os'.
    kes_extent_allocate crc (Some s) (Some rq) (Some e) os = Some (r, Some s', Some e', os') \<and>
    session os' s' x f' L \<and> disk_coherent crc L f' \<and> quiet os' \<and> os_fds os' = os_fds os \<and>
    os_files os' = (os_files os)(of_path x \<mapsto> f') \<and>
    (r = KES_SUCCESS \<and>
       picks (disk_used L f) (unat (d_user_blocks L)) (unat (rq_block_count rq)) (unat (rq_hint_block rq))
         (unat (x_start_block e')) \<and>
       x_block_count e' = rq_block_count rq \<and> x_extent_id e' = d_next_extent_id (disk_desc f) + 1 \<and>
       disk_used L f' = disk_used L f \<union> ext_blocks e' \<and>
       d_next_extent_id (disk_desc f') = d_next_extent_id (disk_desc f) + 1 \<and> \<not> f_dirty f'
     \<or> r = KES_ERROR_NOSPACE \<and> f' = f \<and>
       (\<forall>j. \<not> fits (disk_used L f) (unat (d_user_blocks L)) (unat (rq_block_count rq)) j))"
  using allocate_correct_raw [OF assms] .

definition sample_request :: kes_extent_request where
  "sample_request = \<lparr>rq_block_count = 3, rq_alignment = 0, rq_hint_block = 0, rq_flags = 0\<rparr>"

definition sample_extent :: kes_extent_descriptor where
  "sample_extent = \<lparr>x_start_block = 0, x_block_count = 0, x_flags = 0, x_extent_id = 0\<rparr>"

lemma sample_allocated:
  assumes S: "created sum_crc sample_os sample_config s x f os1" "session os1 s x f (sto_desc s)" "quiet os1"
  shows "\<exists>s' e' os2. kes_extent_allocate sum_crc (Some s) (Some sample_request) (Some sample_extent) os1 =
     Some (KES_SUCCESS, Some s', Some e', os2)"
proof -
  have c: "disk_coherent sum_crc (sto_desc s) f" "disk_used (sto_desc s) f = {}" "3 \<le> unat (d_user_blocks (sto_desc s))"
    using S(1) by (simp_all add: created_def)
  have n: "rq_block_count sample_request \<noteq> 0" by (simp add: sample_request_def)
  have "fits (disk_used (sto_desc s) f) (unat (d_user_blocks (sto_desc s))) (unat (rq_block_count sample_request)) 0"
    using c by (simp add: fits_def sample_request_def)
  then show ?thesis using allocate_correct_raw [OF S(2) c(1) S(3) n, of sample_extent] by auto
qed

theorem allocate_correct_witness:
  "\<exists>s os1 s' e' os2.
     kes_storage_create sum_crc sample_os (Some sample_config) True = Some (KES_SUCCESS, Some s, os1) \<and>
     kes_extent_allocate sum_crc (Some s) (Some sample_request) (Some sample_extent) os1 =
       Some (KES_SUCCESS, Some s', Some e', os2) \<and> x_block_count e' = 3 \<and> x_extent_id e' = 2"
proof -
  obtain s x f os1 where S: "kes_storage_create sum_crc sample_os (Some sample_config) True = Some (KES_SUCCESS, Some s, os1)"
    "created sum_crc sample_os sample_config s x f os1" "session os1 s x f (sto_desc s)" "quiet os1"
    by (rule sample_created)
  have c: "disk_coherent sum_crc (sto_desc s) f" "disk_used (sto_desc s) f = {}" "disk_desc f = sto_desc s"
    "d_next_extent_id (sto_desc s) = 1" "3 \<le> unat (d_user_blocks (sto_desc s))"
    using S(2) by (simp_all add: created_def)
  have n: "rq_block_count sample_request \<noteq> 0" "unat (rq_block_count sample_request) = 3"
    "rq_block_count sample_request = 3" by (simp_all add: sample_request_def)
  have "fits (disk_used (sto_desc s) f) (unat (d_user_blocks (sto_desc s))) (unat (rq_block_count sample_request)) 0"
    using c(2,5) by (simp add: fits_def n)
  then show ?thesis
    using allocate_correct [OF S(3) c(1) S(4) n(1), of sample_extent] S(1) c(3,4) n(3) by auto
qed

text \<open>
  C7. Whatever I/O calls fail or are cut short during an allocation, the call returns one of three
  codes, gives back both locks and a usable handle, and no block that was in use on disk is ever
  released: the used blocks afterwards contain the old ones and nothing beyond the old ones and the
  blocks of the extent it chose, which were free. The layout of the file and every byte of the
  user area survive. Success implies that the new bitmap and descriptor are on disk and flushed.
\<close>

theorem allocate_fault_safe:
  assumes "session os s x f L" "rq_block_count rq \<noteq> 0"
  shows "\<exists>r s' e' f' os'.
    kes_extent_allocate crc (Some s) (Some rq) (Some e) os = Some (r, Some s', Some e', os') \<and>
    session os' s' x f' L \<and> os_fds os' = os_fds os \<and> os_files os' = (os_files os)(of_path x \<mapsto> f') \<and>
    r \<in> {KES_SUCCESS, KES_ERROR_IO, KES_ERROR_NOSPACE} \<and> user_area_kept L f f' \<and>
    disk_used L f \<subseteq> disk_used L f' \<and> disk_used L f' \<subseteq> disk_used L f \<union> ext_blocks e' \<and>
    (f' \<noteq> f \<longrightarrow> ext_blocks e' \<inter> disk_used L f = {}) \<and>
    (r = KES_SUCCESS \<longrightarrow> disk_used L f' = disk_used L f \<union> ext_blocks e' \<and>
       d_bitmap_checksum (disk_desc f') = crc 0 (disk_bits L f') \<and> \<not> f_dirty f')"
proof -
  obtain r s' e' f' os' where A:
    "kes_extent_allocate crc (Some s) (Some rq) (Some e) os = Some (r, Some s', Some e', os')"
    "session os' s' x f' L" "os_after os os' x f'" "alloc_post crc L rq r e' f f'"
    by (rule kes_extent_allocate_spec [OF assms])
  have r: "r \<in> {KES_SUCCESS, KES_ERROR_IO, KES_ERROR_NOSPACE}" "user_area_kept L f f'"
    "f' \<noteq> f \<longrightarrow> ext_blocks e' \<inter> disk_used L f = {}"
    using A(4) unfolding alloc_post_def Let_def by auto
  have "disk_used L f' = disk_used L f \<union> ext_blocks e' \<and>
      d_bitmap_checksum (disk_desc f') = crc 0 (disk_bits L f') \<and> \<not> f_dirty f'" if "r = KES_SUCCESS"
    using alloc_post_success [OF A(4) [unfolded that]] by simp
  then show ?thesis
    using A(1-3) r alloc_post_used [OF A(4)] unfolding os_after_def by blast
qed

text \<open>A schedule that lets the second write of the operation transfer only 50 bytes.\<close>

theorem allocate_fault_safe_witness:
  "\<exists>s x f L os r s' e' f' os'.
     session os s x f L \<and> os_sched os = [SysOk, SysOk, SysOk, SysOk, SysOk, SysOk, SysOk, SysOk, SysShort 50] \<and>
     kes_extent_allocate sum_crc (Some s) (Some sample_request) (Some sample_extent) os = Some (r, Some s', Some e', os') \<and>
     session os' s' x f' L \<and> disk_used L f \<subseteq> disk_used L f' \<and> disk_used L f' \<subseteq> disk_used L f \<union> ext_blocks e'"
proof -
  obtain s x f os where S: "session os s x f (sto_desc s)" by (rule sample_created)
  let ?os = "os\<lparr>os_sched := [SysOk, SysOk, SysOk, SysOk, SysOk, SysOk, SysOk, SysOk, SysShort 50]\<rparr>"
  have S2: "session ?os s x f (sto_desc s)"
    using S by (auto simp: session_def fd_on_def fd_get_same [of ?os os] unlocked_def)
  have n: "rq_block_count sample_request \<noteq> 0" by (simp add: sample_request_def)
  from allocate_fault_safe [OF S2 n, of sum_crc sample_extent]
  obtain r s' e' f' os' where
    "kes_extent_allocate sum_crc (Some s) (Some sample_request) (Some sample_extent) ?os = Some (r, Some s', Some e', os')"
    "session os' s' x f' (sto_desc s)" "disk_used (sto_desc s) f \<subseteq> disk_used (sto_desc s) f'"
    "disk_used (sto_desc s) f' \<subseteq> disk_used (sto_desc s) f \<union> ext_blocks e'"
    by (elim exE conjE)
  moreover have "os_sched ?os = [SysOk, SysOk, SysOk, SysOk, SysOk, SysOk, SysOk, SysOk, SysShort 50]" by simp
  ultimately show ?thesis using S2 by blast
qed

section \<open>Freeing\<close>

lemma free_correct_raw:
  assumes "session os s x f L" "disk_coherent crc L f" "quiet os" "x_block_count e \<noteq> 0"
  shows "\<exists>r s' f' os'. kes_extent_free crc (Some s) (Some e) os = Some (r, Some s', os') \<and>
    session os' s' x f' L \<and> disk_coherent crc L f' \<and> quiet os' \<and> os_fds os' = os_fds os \<and>
    os_files os' = (os_files os)(of_path x \<mapsto> f') \<and>
    (if ext_blocks e \<subseteq> disk_used L f
     then r = KES_SUCCESS \<and> disk_used L f' = disk_used L f - ext_blocks e \<and> \<not> f_dirty f'
     else r = KES_ERROR_NOTFOUND \<and> f' = f)"
proof -
  obtain r s' f' os' where A: "kes_extent_free crc (Some s) (Some e) os = Some (r, Some s', os')"
    "session os' s' x f' L" "os_after os os' x f'" "free_post crc L e r f f'" "quiet os \<longrightarrow> r \<noteq> KES_ERROR_IO"
    by (rule kes_extent_free_spec [OF assms(1)])
  have base: "quiet os'" "os_fds os' = os_fds os" "os_files os' = (os_files os)(of_path x \<mapsto> f')"
    using A(3) assms(3) by (simp_all add: os_after_def)
  have P: "r = KES_SUCCESS \<or> r = KES_ERROR_NOTFOUND" "r = KES_ERROR_NOTFOUND \<longrightarrow> f' = f \<and> \<not> ext_blocks e \<subseteq> disk_used L f"
    using A(4,5) assms(3,4) unfolding free_post_def Let_def by argo+
  from P(1) show ?thesis
  proof
    assume r: "r = KES_SUCCESS"
    have st: "disk_static L f'" "layout_ok L" using assms(1) A(2) by (simp_all add: session_def)
    note Q = free_post_success [OF A(4) [unfolded r]]
    have "disk_coherent crc L f'" by (rule free_coherent [OF assms(2) A(4) [unfolded r] st])
    then show ?thesis using A(1,2) base r Q by auto
  next
    assume r: "r = KES_ERROR_NOTFOUND"
    then show ?thesis using A(1,2) base P(2) assms(2) by auto
  qed
qed

text \<open>
  C5. When no I/O call fails, freeing an extent through any handle on a coherent storage returns. If
  every block of the extent is in use on disk (and the extent is not empty), exactly these blocks
  become free, counters and checksum are updated to match and flushed. If any block is not in use
  (a double free, or a wrong descriptor, wherever it points) the answer is \<open>KES_ERROR_NOTFOUND\<close> and
  the file is unchanged.
\<close>

theorem free_correct:
  assumes "session os s x f L" "disk_coherent crc L f" "quiet os" "x_block_count e \<noteq> 0"
  shows "\<exists>r s' f' os'. kes_extent_free crc (Some s) (Some e) os = Some (r, Some s', os') \<and>
    session os' s' x f' L \<and> disk_coherent crc L f' \<and> quiet os' \<and> os_fds os' = os_fds os \<and>
    os_files os' = (os_files os)(of_path x \<mapsto> f') \<and>
    (if ext_blocks e \<subseteq> disk_used L f
     then r = KES_SUCCESS \<and> disk_used L f' = disk_used L f - ext_blocks e \<and> \<not> f_dirty f'
     else r = KES_ERROR_NOTFOUND \<and> f' = f)"
  using free_correct_raw [OF assms] .

theorem free_correct_witness:
  "\<exists>s x f os s' os'. session os s x f (sto_desc s) \<and> x_block_count (sample_extent\<lparr>x_block_count := 2\<rparr>) \<noteq> 0 \<and>
     kes_extent_free sum_crc (Some s) (Some (sample_extent\<lparr>x_block_count := 2\<rparr>)) os =
       Some (KES_ERROR_NOTFOUND, Some s', os')"
proof -
  obtain s x f os where S: "created sum_crc sample_os sample_config s x f os" "session os s x f (sto_desc s)" "quiet os"
    by (rule sample_created)
  have c: "disk_coherent sum_crc (sto_desc s) f" "disk_used (sto_desc s) f = {}"
    using S(1) by (simp_all add: created_def)
  have n: "x_block_count (sample_extent\<lparr>x_block_count := 2\<rparr>) \<noteq> 0" by simp
  have "\<not> ext_blocks (sample_extent\<lparr>x_block_count := 2\<rparr>) \<subseteq> disk_used (sto_desc s) f"
    by (simp add: c(2) ext_blocks_def sample_extent_def)
  then show ?thesis using free_correct [OF S(2) c(1) S(3) n] S(2) n by auto
qed

text \<open>
  C13. Whatever I/O calls fail during a free, the call returns with both locks released and a usable
  handle; no block becomes used, at most the blocks of the extent become free, and only if all of
  them were in use; layout and user area survive.
\<close>

theorem free_fault_safe:
  assumes "session os s x f L"
  shows "\<exists>r s' f' os'. kes_extent_free crc (Some s) (Some e) os = Some (r, Some s', os') \<and>
    session os' s' x f' L \<and> os_fds os' = os_fds os \<and> os_files os' = (os_files os)(of_path x \<mapsto> f') \<and>
    r \<in> {KES_SUCCESS, KES_ERROR_IO, KES_ERROR_NOTFOUND, KES_ERROR_INVALID} \<and> user_area_kept L f f' \<and>
    disk_used L f' \<subseteq> disk_used L f \<and> disk_used L f - ext_blocks e \<subseteq> disk_used L f' \<and>
    (f' \<noteq> f \<longrightarrow> ext_blocks e \<subseteq> disk_used L f)"
proof -
  obtain r s' f' os' where A: "kes_extent_free crc (Some s) (Some e) os = Some (r, Some s', os')"
    "session os' s' x f' L" "os_after os os' x f'" "free_post crc L e r f f'"
    by (rule kes_extent_free_spec [OF assms])
  have r: "r \<in> {KES_SUCCESS, KES_ERROR_IO, KES_ERROR_NOTFOUND, KES_ERROR_INVALID}" "user_area_kept L f f'"
    "f' \<noteq> f \<longrightarrow> ext_blocks e \<subseteq> disk_used L f"
    using A(4) unfolding free_post_def Let_def by auto
  then show ?thesis using A(1-3) free_post_used [OF A(4)] unfolding os_after_def by blast
qed

theorem free_fault_safe_witness:
  "\<exists>s x f L os r s' f' os'. session os s x f L \<and> os_sched os = [SysOk, SysOk, SysFail] \<and>
     kes_extent_free sum_crc (Some s) (Some sample_extent) os = Some (r, Some s', os') \<and>
     session os' s' x f' L \<and> disk_used L f' \<subseteq> disk_used L f"
proof -
  obtain s x f os where S: "session os s x f (sto_desc s)" by (rule sample_created)
  let ?os = "os\<lparr>os_sched := [SysOk, SysOk, SysFail]\<rparr>"
  have S2: "session ?os s x f (sto_desc s)"
    using S by (auto simp: session_def fd_on_def fd_get_same [of ?os os] unlocked_def)
  obtain r s' f' os' where
    "kes_extent_free sum_crc (Some s) (Some sample_extent) ?os = Some (r, Some s', os')"
    "session os' s' x f' (sto_desc s)" "disk_used (sto_desc s) f' \<subseteq> disk_used (sto_desc s) f"
    using free_fault_safe [OF S2, of sum_crc sample_extent] by (elim exE conjE)
  moreover have "os_sched ?os = [SysOk, SysOk, SysFail]" by simp
  ultimately show ?thesis using S2 by blast
qed

text \<open>
  C15. Freeing an extent that was just allocated through the same handle restores the set
  of used blocks exactly, when no I/O call fails; freeing it a second time is refused.
\<close>

theorem alloc_free_roundtrip:
  assumes "session os s x f L" "disk_coherent crc L f" "quiet os" "rq_block_count rq \<noteq> 0"
    and "kes_extent_allocate crc (Some s) (Some rq) (Some e0) os = Some (KES_SUCCESS, Some s1, Some e, os1)"
  shows "\<exists>s2 os2 f2 s3 os3. kes_extent_free crc (Some s1) (Some e) os1 = Some (KES_SUCCESS, Some s2, os2) \<and>
    os_files os2 (of_path x) = Some f2 \<and> disk_used L f2 = disk_used L f \<and> disk_coherent crc L f2 \<and>
    kes_extent_free crc (Some s2) (Some e) os2 = Some (KES_ERROR_NOTFOUND, Some s3, os3)"
proof -
  obtain f1 where A: "session os1 s1 x f1 L" "disk_coherent crc L f1" "quiet os1"
    "disk_used L f1 = disk_used L f \<union> ext_blocks e" "x_block_count e = rq_block_count rq"
    "picks (disk_used L f) (unat (d_user_blocks L)) (unat (rq_block_count rq)) (unat (rq_hint_block rq))
         (unat (x_start_block e))"
    using allocate_correct_raw [OF assms(1-4), of e0] assms(5) by auto
  have n: "x_block_count e \<noteq> 0" using A(5) assms(4) by simp
  have dj: "ext_blocks e \<inter> disk_used L f = {}" using picks_fits [OF A(6)] A(5) by (simp add: ext_blocks_def)
  obtain s2 f2 os2 where B: "kes_extent_free crc (Some s1) (Some e) os1 = Some (KES_SUCCESS, Some s2, os2)"
    "session os2 s2 x f2 L" "disk_coherent crc L f2" "quiet os2" "disk_used L f2 = disk_used L f1 - ext_blocks e"
    "os_files os2 = (os_files os1)(of_path x \<mapsto> f2)"
    using free_correct_raw [OF A(1-3) n] A(4) by auto
  have u: "disk_used L f2 = disk_used L f" using A(4) B(5) dj by blast
  have "unat (x_start_block e) \<in> ext_blocks e" using n unat_gt_0 [of "x_block_count e"] by (simp add: ext_blocks_def)
  then have "\<not> ext_blocks e \<subseteq> disk_used L f2" using u dj by blast
  then obtain s3 os3 where "kes_extent_free crc (Some s2) (Some e) os2 = Some (KES_ERROR_NOTFOUND, Some s3, os3)"
    using free_correct_raw [OF B(2-4) n] by auto
  then show ?thesis using B u by auto
qed

theorem alloc_free_roundtrip_witness:
  "\<exists>s os s1 e os1 s2 os2.
     kes_storage_create sum_crc sample_os (Some sample_config) True = Some (KES_SUCCESS, Some s, os) \<and>
     kes_extent_allocate sum_crc (Some s) (Some sample_request) (Some sample_extent) os =
       Some (KES_SUCCESS, Some s1, Some e, os1) \<and>
     kes_extent_free sum_crc (Some s1) (Some e) os1 = Some (KES_SUCCESS, Some s2, os2)"
proof -
  obtain s x f os where S: "kes_storage_create sum_crc sample_os (Some sample_config) True = Some (KES_SUCCESS, Some s, os)"
    "created sum_crc sample_os sample_config s x f os" "session os s x f (sto_desc s)" "quiet os"
    by (rule sample_created)
  have c: "disk_coherent sum_crc (sto_desc s) f" using S(2) by (simp add: created_def)
  have n: "rq_block_count sample_request \<noteq> 0" by (simp add: sample_request_def)
  obtain s1 e os1 where "kes_extent_allocate sum_crc (Some s) (Some sample_request) (Some sample_extent) os =
      Some (KES_SUCCESS, Some s1, Some e, os1)"
    using sample_allocated [OF S(2-4)] by blast
  with alloc_free_roundtrip [OF S(3) c S(4) n this] S(1) show ?thesis by blast
qed

section \<open>Creating and opening\<close>

text \<open>
  C18. The layout that \<open>kes_storage_create\<close> chooses for an accepted configuration (device below
  \<open>2\<^sup>6\<^sup>3\<close> bytes) is sound: descriptor block, user blocks and bitmap follow one another without
  overlap and fit into the device, the bitmap has a bit for every user block, there are at least
  three user blocks, and no field of the computation wraps.
\<close>

theorem init_layout_correct:
  assumes "validate_config (Some c) = KES_SUCCESS" "unat (cfg_device_size c) < 2 ^ 63"
    and "init_storage_descriptor zero_storage (cfg_device_size c) = (r, s)"
  shows "r = KES_SUCCESS \<and> layout_ok (sto_desc s) \<and>
    112 \<le> block_bytes (sto_desc s) \<and>
    (1 + unat (d_user_blocks (sto_desc s))) * block_bytes (sto_desc s) \<le> bitmap_at (sto_desc s) \<and>
    bitmap_at (sto_desc s) + bitmap_len (sto_desc s) \<le> unat (cfg_device_size c) \<and>
    unat (d_user_blocks (sto_desc s)) \<le> 8 * bitmap_len (sto_desc s) \<and> 3 \<le> unat (d_user_blocks (sto_desc s))"
proof -
  have wf: "desc_wf (sto_desc zero_storage)" by (simp add: zero_storage_def zero_desc_def desc_wf_def)
  note I = init_layout [OF validate_config_ok(2) [OF assms(1)] assms(2,3) wf]
  have "bitmap_at (sto_desc s) + bitmap_len (sto_desc s) \<le>
      unat (d_bitmap_start_block (sto_desc s)) * block_bytes (sto_desc s) +
      unat (d_bitmap_blocks (sto_desc s)) * block_bytes (sto_desc s)"
    using I(2) by (simp add: layout_ok_def bitmap_at_def)
  also have "\<dots> = unat (d_total_blocks (sto_desc s)) * block_bytes (sto_desc s)"
    using I(2) by (simp add: layout_ok_def algebra_simps)
  finally have "bitmap_at (sto_desc s) + bitmap_len (sto_desc s) \<le> unat (cfg_device_size c)" using I(4) by linarith
  moreover have "unat (d_user_blocks (sto_desc s)) \<le> 8 * bitmap_len (sto_desc s)"
    unfolding bitmap_len_def by linarith
  ultimately show ?thesis using I layout_ok_bounds(5) [OF I(2)] by simp
qed

theorem init_layout_correct_witness:
  "validate_config (Some sample_config) = KES_SUCCESS \<and>
   (\<exists>r s. init_storage_descriptor zero_storage (cfg_device_size sample_config) = (r, s) \<and>
      layout_ok (sto_desc s) \<and> bitmap_at (sto_desc s) + bitmap_len (sto_desc s) \<le> 81920)"
proof -
  obtain r s where "init_storage_descriptor zero_storage (cfg_device_size sample_config) = (r, s)" by fastforce
  with init_layout_correct [OF sample_config_ok this] sample_config_ok(1)
  show ?thesis by (auto simp: sample_config_def)
qed

text \<open>
  C16. Creating a storage, with any I/O faults: the call returns; either it succeeds with a handle on a
  coherent file in which no block is used and whose descriptor is the one in memory, unlocked and with a bitmap of that layout (\<open>handle_ok\<close>), or it fails,
  returns no handle and leaves no new open descriptor. Without faults it succeeds whenever the file
  exists or may be created.
\<close>

theorem create_correct:
  assumes "validate_config (Some c) = KES_SUCCESS" "unat (cfg_device_size c) < 2 ^ 63"
  shows "\<exists>r st os'. kes_storage_create crc os (Some c) True = Some (r, st, os') \<and>
    (if r = KES_SUCCESS
     then \<exists>s x f. st = Some s \<and> os_fds os' = os_fds os @ [Some x] \<and> sto_fd s = int (length (os_fds os)) \<and>
       os_files os' (of_path x) = Some f \<and> cfg_device_path c = Some (of_path x) \<and> disk_desc f = sto_desc s \<and>
       layout_ok (sto_desc s) \<and> disk_coherent crc (sto_desc s) f \<and> disk_used (sto_desc s) f = {} \<and> \<not> sto_lock s \<and> handle_ok (sto_desc s) s
     else st = None \<and> os_fds os' \<in> {os_fds os, os_fds os @ [None]}) \<and>
    (quiet os \<and> (cfg_flags c AND KES_STORAGE_CREATE \<noteq> 0 \<or> os_files os (the (cfg_device_path c)) \<noteq> None) \<longrightarrow>
       r = KES_SUCCESS)"
proof -
  obtain r st os' where C: "kes_storage_create crc os (Some c) True = Some (r, st, os')"
    "r \<noteq> KES_SUCCESS \<longrightarrow> st = None \<and> (os_fds os' = os_fds os \<or> os_fds os' = os_fds os @ [None])"
    "r = KES_SUCCESS \<longrightarrow> (\<exists>s x f. st = Some s \<and> created crc os c s x f os')"
    "quiet os \<and> (cfg_flags c AND KES_STORAGE_CREATE \<noteq> 0 \<or> os_files os (the (cfg_device_path c)) \<noteq> None) \<longrightarrow>
       r = KES_SUCCESS \<and> quiet os'"
    by (rule kes_storage_create_spec [OF assms])
  show ?thesis
  proof (cases "r = KES_SUCCESS")
    case True
    then obtain s x f where "st = Some s" "created crc os c s x f os'" using C(3) by blast
    then show ?thesis using C(1) True unfolding created_def by auto
  next
    case False
    then show ?thesis using C by auto
  qed
qed

theorem create_correct_witness:
  "\<exists>st os'. kes_storage_create sum_crc sample_os (Some sample_config) True = Some (KES_SUCCESS, Some st, os') \<and>
     length (os_fds os') = 2"
  using create_correct [OF sample_config_ok, of sum_crc sample_os] sample_os_fd(2)
  by (auto simp: sample_config_def sample_os_def split: if_splits)

text \<open>
  C17. Opening a file with a sound layout: without faults the call succeeds exactly when the checksum
  stored in the descriptor is the one of the stored bitmap, and then the handle's descriptor, bitmap
  bits and free-block count are those on disk; otherwise it answers \<open>KES_ERROR_CORRUPT\<close>. With or
  without faults, the files are untouched, no lock remains held, and an unsuccessful open leaves no
  open descriptor behind.
\<close>

theorem open_correct:
  assumes "os_files os path = Some f" "disk_static L f" "layout_ok L" "unlocked os"
  shows "\<exists>r h os'. kes_storage_open crc os (Some path) flags True = Some (r, h, os') \<and>
    os_files os' = os_files os \<and> unlocked os' \<and>
    (quiet os \<longrightarrow> r = (if d_bitmap_checksum (disk_desc f) = crc 0 (disk_bits L f)
                    then KES_SUCCESS else KES_ERROR_CORRUPT)) \<and>
    (if r = KES_SUCCESS
     then \<exists>s b. h = Some s \<and> sto_fd s = int (length (os_fds os)) \<and> sto_desc s = disk_desc f \<and>
       sto_bitmap s = Some b \<and> bm_ok b \<and> bm_used b = disk_used L f \<and>
       unat (bm_free_bits b) = unat (d_user_blocks L) - card (disk_used L f) \<and>
       sto_readonly s = (flags AND KES_STORAGE_READONLY \<noteq> 0) \<and> \<not> sto_lock s
     else h = None \<and> os_fds os' \<in> {os_fds os, os_fds os @ [None]})"
proof -
  obtain r h os' where O: "kes_storage_open crc os (Some path) flags True = Some (r, h, os')"
    "os_files os' = os_files os"
    "r \<noteq> KES_SUCCESS \<longrightarrow> h = None \<and> (os_fds os' = os_fds os \<or> os_fds os' = os_fds os @ [None])"
    "r = KES_SUCCESS \<longrightarrow> (\<exists>s x. h = Some s \<and> of_path x = path \<and> opened crc L f flags os s x os')"
    "r = KES_ERROR_CORRUPT \<longrightarrow> d_bitmap_checksum (disk_desc f) \<noteq> crc 0 (disk_bits L f)"
    "quiet os \<longrightarrow> r = KES_SUCCESS \<or> r = KES_ERROR_CORRUPT"
    by (rule kes_storage_open_spec [OF assms])
  show ?thesis
  proof (cases "r = KES_SUCCESS")
    case True
    then obtain s x where x: "h = Some s" "opened crc L f flags os s x os'" using O(4) by blast
    then obtain b where b: "sto_bitmap s = Some b" "bm_ok b" "bm_data b = disk_bits L f" "bm_total_bits b = d_user_blocks L"
      by (auto simp: opened_def)
    have u: "bm_used b = disk_used L f" using bm_used_eq_mbits [OF b(2)] b(3) by (simp add: disk_used_def)
    have fr: "unat (bm_free_bits b) = unat (d_user_blocks L) - card (disk_used L f)"
      using b(2,4) u by (auto simp: bm_ok_def)
    have "unlocked os'" using x(2) assms(4) by (auto simp: opened_def unlocked_def)
    then show ?thesis using O(1,2) True x b u fr by (simp add: opened_def)
  next
    case False
    then have "unlocked os'" using O(3) assms(4) by (auto simp: unlocked_def)
    then show ?thesis using O False by auto
  qed
qed

theorem open_correct_witness:
  "\<exists>s os h os'. kes_storage_create sum_crc sample_os (Some sample_config) True = Some (KES_SUCCESS, Some s, os) \<and>
     kes_storage_open sum_crc os (Some ''dev'') KES_STORAGE_READONLY True = Some (KES_SUCCESS, Some h, os') \<and>
     sto_desc h = sto_desc s \<and> sto_readonly h"
proof -
  obtain s x f os where S: "kes_storage_create sum_crc sample_os (Some sample_config) True = Some (KES_SUCCESS, Some s, os)"
    "created sum_crc sample_os sample_config s x f os" "session os s x f (sto_desc s)" "quiet os" "of_path x = ''dev''"
    "unlocked os"
    by (rule sample_created)
  have c: "os_files os ''dev'' = Some f" "disk_static (sto_desc s) f" "layout_ok (sto_desc s)" "disk_desc f = sto_desc s"
    "d_bitmap_checksum (disk_desc f) = sum_crc 0 (disk_bits (sto_desc s) f)"
    using S(2,5) by (auto simp: created_def disk_coherent_def)
  show ?thesis
    using open_correct [OF c(1-3) S(6), of sum_crc KES_STORAGE_READONLY] S(1,4) c(4,5) by auto
qed

section \<open>Synchronising and closing\<close>

text \<open>
  C21. \<open>kes_storage_sync\<close> never changes the set of used blocks or the user area, whatever fails. When it
  reports success everything is flushed and only the stored checksum may have changed; on a
  coherent storage the stored metadata is then exactly what it was. Without faults it succeeds.
\<close>

theorem sync_correct:
  assumes "session os s x f L"
  shows "\<exists>r s' f' os'. kes_storage_sync crc (Some s) os = Some (r, Some s', os') \<and> session os' s' x f' L \<and>
    os_files os' = (os_files os)(of_path x \<mapsto> f') \<and> disk_bits L f' = disk_bits L f \<and> user_area_kept L f f' \<and>
    (quiet os \<longrightarrow> r = KES_SUCCESS) \<and>
    (r = KES_SUCCESS \<longrightarrow> \<not> f_dirty f' \<and>
       (disk_coherent crc L f \<longrightarrow> disk_desc f' = disk_desc f \<and> disk_coherent crc L f'))"
proof -
  obtain r s' f' os' where Y: "kes_storage_sync crc (Some s) os = Some (r, Some s', os')"
    "session os' s' x f' L" "os_after os os' x f'" "user_area_kept L f f'" "disk_bits L f' = disk_bits L f"
    "quiet os \<longrightarrow> r = KES_SUCCESS"
    "r = KES_SUCCESS \<longrightarrow> \<not> f_dirty f' \<and>
       disk_desc f' = (disk_desc f)\<lparr>d_bitmap_checksum := crc 0 (disk_bits L f)\<rparr>"
    by (rule kes_storage_sync_spec [OF assms])
  have "disk_desc f' = disk_desc f \<and> disk_coherent crc L f'" if "r = KES_SUCCESS" "disk_coherent crc L f"
  proof -
    have "disk_desc f' = disk_desc f" using Y(7) that by (simp add: disk_coherent_def)
    moreover have "disk_static L f'" using Y(2) by (simp add: session_def)
    ultimately show ?thesis using that(2) Y(5) by (simp add: disk_coherent_def disk_used_def)
  qed
  then show ?thesis using Y unfolding os_after_def by blast
qed

theorem sync_correct_witness:
  "\<exists>s os s' os'. kes_storage_create sum_crc sample_os (Some sample_config) True = Some (KES_SUCCESS, Some s, os) \<and>
     kes_storage_sync sum_crc (Some s) os = Some (KES_SUCCESS, Some s', os')"
proof -
  obtain s x f os where S: "kes_storage_create sum_crc sample_os (Some sample_config) True = Some (KES_SUCCESS, Some s, os)"
    "session os s x f (sto_desc s)" "quiet os" by (rule sample_created)
  show ?thesis using sync_correct [OF S(2), of sum_crc] S(1,3) by blast
qed

text \<open>
  C22. Closing a handle without I/O faults: the bitmap on disk and the user area stay as they are, everything is flushed, and the
  handle's descriptor (with its lock) is gone; opening the file again through \<open>kes_storage_open\<close> succeeds, and the new handle has
  the storage descriptor that was on disk, with its checksum brought up to date, and exactly the bitmap that was on disk.
\<close>

theorem close_then_open:
  assumes "session os s x f L" "quiet os"
  shows "\<exists>os' f' h os2 b. kes_storage_close crc (Some s) os = Some (KES_SUCCESS, os') \<and>
    os_files os' = (os_files os)(of_path x \<mapsto> f') \<and> os_fds os' = (os_fds os)[nat (sto_fd s) := None] \<and>
    user_area_kept L f f' \<and> \<not> f_dirty f' \<and>
    kes_storage_open crc (os'\<lparr>os_sched := []\<rparr>) (Some (of_path x)) flags True = Some (KES_SUCCESS, Some h, os2) \<and>
    sto_desc h = (disk_desc f)\<lparr>d_bitmap_checksum := crc 0 (disk_bits L f)\<rparr> \<and>
    sto_bitmap h = Some b \<and> bm_data b = disk_bits L f \<and> bm_used b = disk_used L f \<and> bm_ok b"
proof -
  obtain os' f' where C: "kes_storage_close crc (Some s) os = Some (KES_SUCCESS, os')"
    "os_files os' = (os_files os)(of_path x \<mapsto> f')" "os_fds os' = (os_fds os)[nat (sto_fd s) := None]"
    "disk_static L f'" "user_area_kept L f f'" "disk_bits L f' = disk_bits L f"
    "disk_desc f' = (disk_desc f)\<lparr>d_bitmap_checksum := crc 0 (disk_bits L f)\<rparr>" "\<not> f_dirty f'"
    by (rule kes_storage_close_quiet [OF assms])
  let ?os = "os'\<lparr>os_sched := []\<rparr>"
  have un: "unlocked ?os"
    using assms(1) C(3) set_update_subset_insert [of "os_fds os" "nat (sto_fd s)" None]
    by (auto simp: session_def unlocked_def)
  have f': "os_files ?os (of_path x) = Some f'" using C(2) by simp
  have L: "layout_ok L" using assms(1) by (simp add: session_def)
  obtain r h os2 where O: "kes_storage_open crc ?os (Some (of_path x)) flags True = Some (r, h, os2)"
    "r = KES_SUCCESS \<longrightarrow> (\<exists>s y. h = Some s \<and> of_path y = of_path x \<and> opened crc L f' flags ?os s y os2)"
    "r = KES_ERROR_CORRUPT \<longrightarrow> d_bitmap_checksum (disk_desc f') \<noteq> crc 0 (disk_bits L f')"
    "quiet ?os \<longrightarrow> r = KES_SUCCESS \<or> r = KES_ERROR_CORRUPT"
    by (rule kes_storage_open_spec [OF f' C(4) L un])
  have r: "r = KES_SUCCESS" using O(3,4) C(6,7) by (auto simp: quiet_def)
  then obtain t y where t: "h = Some t" "opened crc L f' flags ?os t y os2" using O(2) by blast
  then obtain b where b: "sto_bitmap t = Some b" "bm_ok b" "bm_data b = disk_bits L f'" by (auto simp: opened_def)
  have "bm_used b = disk_used L f" using bm_used_eq_mbits [OF b(2)] b(3) C(6) by (simp add: disk_used_def)
  moreover have "sto_desc t = disk_desc f'" using t(2) by (simp add: opened_def)
  ultimately show ?thesis using C O(1) r t b by auto
qed

theorem close_then_open_witness:
  "\<exists>s os os' h os2 b. kes_storage_create sum_crc sample_os (Some sample_config) True = Some (KES_SUCCESS, Some s, os) \<and>
     kes_storage_close sum_crc (Some s) os = Some (KES_SUCCESS, os') \<and>
     kes_storage_open sum_crc (os'\<lparr>os_sched := []\<rparr>) (Some ''dev'') 0 True = Some (KES_SUCCESS, Some h, os2) \<and>
     sto_desc h = sto_desc s \<and> sto_bitmap h = Some b \<and> bm_used b = {}"
proof -
  obtain s x f os where S: "kes_storage_create sum_crc sample_os (Some sample_config) True = Some (KES_SUCCESS, Some s, os)"
    "created sum_crc sample_os sample_config s x f os" "session os s x f (sto_desc s)" "quiet os" "of_path x = ''dev''" by (rule sample_created)
  have "disk_desc f = sto_desc s" "disk_used (sto_desc s) f = {}" using S(2) by (simp_all add: created_def)
  moreover have "d_bitmap_checksum (disk_desc f) = sum_crc 0 (disk_bits (sto_desc s) f)"
    using S(2) unfolding created_def disk_coherent_def by blast
  moreover from calculation have "(disk_desc f)\<lparr>d_bitmap_checksum := sum_crc 0 (disk_bits (sto_desc s) f)\<rparr> = sto_desc s" by simp
  ultimately show ?thesis using close_then_open [OF S(3,4), of sum_crc 0] S(1,5) by auto
qed

text \<open>
  C25. \<open>kes_storage_close\<close> goes on when its reload from disk fails. Let one of the four system calls of the reload fail: the seek
  (\<open>k = 0\<close>) or the read (\<open>k = 1\<close>) of the descriptor, the seek (\<open>k = 2\<close>) or the read (\<open>k = 3\<close>) of the bitmap. The call still reports success,
  and the bitmap the handle holds in memory is written over the one on disk, with a matching checksum; with \<open>k < 2\<close> the descriptor in memory is written over
  the one on disk too, otherwise the fresh descriptor is written back beside the stale bitmap. Every allocation made through other handles since is lost.
\<close>

theorem close_overwrites_after_failed_reload:
  assumes "session os s x f L" "sto_bitmap s = Some b" "bm_ok b" "k < 4" "os_sched os = SysOk # replicate k SysOk @ [SysFail]"
  shows "\<exists>os' f'. kes_storage_close crc (Some s) os = Some (KES_SUCCESS, os') \<and>
    os_files os' (of_path x) = Some f' \<and> disk_bits L f' = bm_data b \<and> disk_used L f' = bm_used b \<and>
    disk_desc f' = (if k < 2 then sto_desc s else disk_desc f)\<lparr>d_bitmap_checksum := crc 0 (bm_data b)\<rparr>"
proof -
  obtain os' f' where "kes_storage_close crc (Some s) os = Some (KES_SUCCESS, os')"
    "os_files os' = (os_files os)(of_path x \<mapsto> f')" "disk_bits L f' = bm_data b"
    "disk_desc f' = (if k < 2 then sto_desc s else disk_desc f)\<lparr>d_bitmap_checksum := crc 0 (bm_data b)\<rparr>"
    by (rule close_after_failed_reload [OF assms])
  then show ?thesis using bm_used_eq_mbits [OF assms(3)] by (auto simp: disk_used_def)
qed

text \<open>Two handles: the second one opens the new storage before the first one allocates three blocks.\<close>

lemma sample_two_handles:
  obtains s x h y b s' e f3 os1 os2 os3 where
    "kes_storage_create sum_crc sample_os (Some sample_config) True = Some (KES_SUCCESS, Some s, os1)"
    "kes_storage_open sum_crc os1 (Some ''dev'') 0 True = Some (KES_SUCCESS, Some h, os2)"
    "kes_extent_allocate sum_crc (Some s) (Some sample_request) (Some sample_extent) (os2\<lparr>os_sched := []\<rparr>) =
       Some (KES_SUCCESS, Some s', Some e, os3)"
    "of_path x = ''dev''" "of_path y = ''dev''" "os_files os3 ''dev'' = Some f3" "unlocked os3" "quiet os3"
    "session os3 s' x f3 (sto_desc s)" "session os3 h y f3 (sto_desc s)" "disk_coherent sum_crc (sto_desc s) f3"
    "disk_used (sto_desc s) f3 = ext_blocks e" "x_start_block e = 0" "x_block_count e = 3"
    "sto_bitmap h = Some b" "bm_ok b" "bm_used b = {}" "d_next_extent_id (sto_desc h) = 1" "sto_stats h = zero_stats"
proof -
  obtain s x f os1 where S: "kes_storage_create sum_crc sample_os (Some sample_config) True = Some (KES_SUCCESS, Some s, os1)"
    "created sum_crc sample_os sample_config s x f os1" "session os1 s x f (sto_desc s)" "quiet os1" "of_path x = ''dev''"
    "unlocked os1"
    by (rule sample_created)
  let ?L = "sto_desc s"
  have c: "os_files os1 ''dev'' = Some f" "disk_static ?L f" "layout_ok ?L" "disk_coherent sum_crc ?L f"
    "disk_used ?L f = {}" "3 \<le> unat (d_user_blocks ?L)"
    using S(2,5) by (auto simp: created_def disk_coherent_def)
  obtain r hh os2 where O: "kes_storage_open sum_crc os1 (Some ''dev'') 0 True = Some (r, hh, os2)"
    "os_files os2 = os_files os1"
    "r = KES_SUCCESS \<longrightarrow> (\<exists>t y. hh = Some t \<and> of_path y = ''dev'' \<and> opened sum_crc ?L f 0 os1 t y os2)"
    "r = KES_ERROR_CORRUPT \<longrightarrow> d_bitmap_checksum (disk_desc f) \<noteq> sum_crc 0 (disk_bits ?L f)"
    "quiet os1 \<longrightarrow> r = KES_SUCCESS \<or> r = KES_ERROR_CORRUPT"
    by (rule kes_storage_open_spec [OF c(1-3) S(6)])
  have r: "r = KES_SUCCESS" using O(4,5) S(4) c(4) by (auto simp: disk_coherent_def)
  then obtain h y where h: "hh = Some h" "of_path y = ''dev''" "opened sum_crc ?L f 0 os1 h y os2" using O(3) by blast
  obtain b where b: "sto_bitmap h = Some b" "bm_ok b" "bm_data b = disk_bits ?L f" using h(3) by (auto simp: opened_def)
  have bu: "bm_used b = {}" using bm_used_eq_mbits [OF b(2)] b(3) c(5) by (simp add: disk_used_def)
  have fds: "os_fds os2 = os_fds os1 @ [Some y]" "of_lock y = LOCK_UN" using h(3) by (simp_all add: opened_def)
  have un2: "unlocked os2" by (rule unlocked_append [OF fds(1) S(6)]) (use fds(2) in auto)
  let ?os2 = "os2\<lparr>os_sched := []\<rparr>"
  have un2': "unlocked ?os2" using un2 by (simp add: unlocked_def)
  have hs: "session os2 h y f ?L" by (rule opened_session [OF h(3) _ S(6) _ c(2,3)]) (use O(2) c(1) h(2) in simp_all)
  have hs': "session ?os2 h y f ?L" by (rule session_more_fds [OF hs, of _ "[]"]) (use un2' in simp_all)
  have ss': "session ?os2 s x f ?L" by (rule session_more_fds [OF S(3), of _ "[Some y]"]) (use un2' O(2) fds in simp_all)
  have n: "rq_block_count sample_request \<noteq> 0" by (simp add: sample_request_def)
  have fit: "fits (disk_used ?L f) (unat (d_user_blocks ?L)) (unat (rq_block_count sample_request)) 0"
    using c(5,6) by (simp add: fits_def sample_request_def)
  have q: "quiet ?os2" by (simp add: quiet_def)
  obtain s' e f3 os3 where A: "kes_extent_allocate sum_crc (Some s) (Some sample_request) (Some sample_extent) ?os2 =
      Some (KES_SUCCESS, Some s', Some e, os3)" "session os3 s' x f3 ?L" "os_fds os3 = os_fds ?os2"
    "os_files os3 = (os_files ?os2)(of_path x \<mapsto> f3)" "disk_used ?L f3 = disk_used ?L f \<union> ext_blocks e"
    "x_block_count e = rq_block_count sample_request" "quiet os3" "disk_coherent sum_crc ?L f3"
    "picks (disk_used ?L f) (unat (d_user_blocks ?L)) (unat (rq_block_count sample_request)) (unat (rq_hint_block sample_request))
         (unat (x_start_block e))"
    using allocate_correct_raw [OF ss' c(4) q n, of sample_extent] fit by auto
  have st3: "disk_static ?L f3" "unlocked os3" using A(2) by (simp_all add: session_def)
  have "unat (x_start_block e) = 0" using A(9) fit by (auto simp: picks_def sample_request_def Let_def split: if_splits)
  then have z: "x_start_block e = 0" by (simp add: unat_eq_zero)
  have "os_after ?os2 os3 x f3" using A(3,4,7) by (simp add: os_after_def)
  from session_other [OF hs' this st3(1)] have "session os3 h y f3 ?L" using h(2) S(5) by simp
  moreover have "d_next_extent_id (sto_desc h) = 1" "sto_stats h = zero_stats" using h(3) S(2) by (simp_all add: opened_def created_def)
  moreover have "os_files os3 ''dev'' = Some f3" "disk_used ?L f3 = ext_blocks e" using A(4,5) S(5) c(5) by simp_all
  moreover have "kes_storage_open sum_crc os1 (Some ''dev'') 0 True = Some (KES_SUCCESS, Some h, os2)" using O(1) r h(1) by simp
  moreover have "x_block_count e = 3" using A(6) by (simp add: sample_request_def)
  ultimately show thesis using that S(1,5) A(1,2,7,8) h(2) st3(2) b(1,2) bu z by blast
qed

text \<open>The second handle is closed with a failing seek: the allocation is gone from disk.\<close>

theorem close_overwrites_after_failed_reload_witness:
  "\<exists>s os1 h os2 s' e os3 f3 os4 f4.
     kes_storage_create sum_crc sample_os (Some sample_config) True = Some (KES_SUCCESS, Some s, os1) \<and>
     kes_storage_open sum_crc os1 (Some ''dev'') 0 True = Some (KES_SUCCESS, Some h, os2) \<and>
     kes_extent_allocate sum_crc (Some s) (Some sample_request) (Some sample_extent) (os2\<lparr>os_sched := []\<rparr>) =
       Some (KES_SUCCESS, Some s', Some e, os3) \<and>
     os_files os3 ''dev'' = Some f3 \<and> disk_used (sto_desc s) f3 = ext_blocks e \<and> ext_blocks e \<noteq> {} \<and>
     kes_storage_close sum_crc (Some h) (os3\<lparr>os_sched := [SysOk, SysFail]\<rparr>) = Some (KES_SUCCESS, os4) \<and>
     os_files os4 ''dev'' = Some f4 \<and> disk_used (sto_desc s) f4 = {} \<and> d_next_extent_id (disk_desc f4) = 1"
proof -
  obtain s x h y b s' e f3 os1 os2 os3 where
    S: "kes_storage_create sum_crc sample_os (Some sample_config) True = Some (KES_SUCCESS, Some s, os1)"
      "kes_storage_open sum_crc os1 (Some ''dev'') 0 True = Some (KES_SUCCESS, Some h, os2)"
      "kes_extent_allocate sum_crc (Some s) (Some sample_request) (Some sample_extent) (os2\<lparr>os_sched := []\<rparr>) =
         Some (KES_SUCCESS, Some s', Some e, os3)"
    and p: "of_path y = ''dev''" "os_files os3 ''dev'' = Some f3" "unlocked os3"
    and h: "session os3 h y f3 (sto_desc s)" and u: "disk_used (sto_desc s) f3 = ext_blocks e" "x_block_count e = 3"
    and b: "sto_bitmap h = Some b" "bm_ok b" "bm_used b = {}" "d_next_extent_id (sto_desc h) = 1" by (rule sample_two_handles)
  have hs3: "session (os3\<lparr>os_sched := [SysOk, SysFail]\<rparr>) h y f3 (sto_desc s)"
    by (rule session_more_fds [OF h, of _ "[]"]) (use p(3) in \<open>simp_all add: unlocked_def\<close>)
  obtain os4 f4 where C: "kes_storage_close sum_crc (Some h) (os3\<lparr>os_sched := [SysOk, SysFail]\<rparr>) = Some (KES_SUCCESS, os4)"
    "os_files os4 (of_path y) = Some f4" "disk_used (sto_desc s) f4 = bm_used b"
    "disk_desc f4 = (sto_desc h)\<lparr>d_bitmap_checksum := sum_crc 0 (bm_data b)\<rparr>"
    using close_overwrites_after_failed_reload [OF hs3 b(1,2), of 0 sum_crc] by auto
  have "ext_blocks e \<noteq> {}" using u(2) by (simp add: ext_blocks_def)
  moreover have "os_files os4 ''dev'' = Some f4" "disk_used (sto_desc s) f4 = {}" "d_next_extent_id (disk_desc f4) = 1"
    using C(2-4) p(1) b(3,4) by simp_all
  ultimately show ?thesis using S p(2) u(1) C(1) by blast
qed

end
