(* ===== verification/Kes_Io_Contract.thy ===== *)
theory Kes_Io_Contract
  imports Kes_Contract
begin

text \<open>
  The contract of extent I/O, of the on-disk descriptor and of the small functions of the storage
  layer: round trips, isolation, refused arguments, and the places where fixed-width arithmetic
  gives up.
\<close>

section \<open>Reading and writing\<close>

lemma sample_inside:
  assumes "created crc os c s x f os'"
  shows "ext_inside (sto_desc s) (sample_extent\<lparr>x_block_count := 2\<rparr>)"
    "ext_bytes (sto_desc s) (sample_extent\<lparr>x_block_count := 2\<rparr>) = 16384"
  using assms by (simp_all add: created_def ext_inside_def ext_bytes_def sample_extent_def block_bytes_def)

text \<open>
  C19. What one handle writes into an extent, any handle on the file reads back: without I/O faults a
  write of \<open>sz\<close> bytes at an offset inside the extent succeeds, and reading the same range fills the
  reader's buffer with exactly these bytes.
\<close>

theorem write_read_roundtrip:
  assumes "session os s x f L" "quiet os" "ext_inside L e" "unat off + unat sz \<le> ext_bytes L e" "0 < unat sz"
    and "unat sz \<le> length buf" "unat sz \<le> length rbuf"
    and "io_handle os t y f L" "of_rd y" "of_path y = of_path x"
  shows "\<exists>s' os1 t' os2. kes_extent_write (Some s) (Some e) (Some buf) sz off os = Some (KES_SUCCESS, Some s', os1) \<and>
    kes_extent_read (Some t) (Some e) (Some rbuf) sz off os1 =
      Some (KES_SUCCESS, Some t', Some (take (unat sz) buf @ drop (unat sz) rbuf), os2)"
proof -
  have S: "\<not> sto_readonly s" "of_wr x" using assms(1) by (simp_all add: session_def)
  obtain r s' k f' os1 where W: "kes_extent_write (Some s) (Some e) (Some buf) sz off os = Some (r, Some s', os1)"
    "f' = (fwrite f (ext_at L e + unat off) (take k buf))\<lparr>f_dirty := f_dirty f'\<rparr>"
    "os_files os1 = (os_files os)(of_path x \<mapsto> f')" "os_fds os1 = os_fds os" "quiet os \<longrightarrow> quiet os1"
    "r = KES_SUCCESS \<longrightarrow> k = unat sz" "quiet os \<and> of_wr x \<longrightarrow> r = KES_SUCCESS"
    by (rule kes_extent_write_spec [OF session_io [OF assms(1)] S(1) assms(3,4,6)])
  have r: "r = KES_SUCCESS" "k = unat sz" "quiet os1" using W(5-7) assms(2) S(2) by auto
  have len: "length (take (unat sz) buf) = unat sz" using assms(6) by simp
  have "f_holds (fwrite f (ext_at L e + unat off) (take (unat sz) buf)) (ext_at L e + unat off) (take (unat sz) buf)"
    by (rule disk.wr_same) (use len assms(5) in auto)
  then have "f_holds f' (ext_at L e + unat off) (take (unat sz) buf)"
    by (subst W(2)) (simp add: r(2))
  from f_holds_fread [OF this] have rd: "fread f' (ext_at L e + unat off) (unat sz) = take (unat sz) buf"
    unfolding len .
  have t1: "io_handle os1 t y f' L"
    using assms(8,10) W(3,4) by (simp add: io_handle_def fd_on_def fd_get_same [of os1 os])
  obtain r2 t' bs os2 where R: "kes_extent_read (Some t) (Some e) (Some rbuf) sz off os1 =
      Some (r2, Some t', Some (overlay bs rbuf), os2)"
    "quiet os1 \<longrightarrow> bs = fread f' (ext_at L e + unat off) (unat sz) \<and> (r2 = KES_SUCCESS \<longleftrightarrow> length bs = unat sz)"
    by (rule kes_extent_read_spec [OF t1 assms(9,3,4,7)])
  have "bs = take (unat sz) buf" "r2 = KES_SUCCESS" using R(2) r(3) rd len by simp_all
  then show ?thesis using W(1) R(1) r(1) len by (simp add: overlay_def)
qed

theorem write_read_roundtrip_witness:
  "\<exists>s os s' os1 t' os2. kes_storage_create sum_crc sample_os (Some sample_config) True = Some (KES_SUCCESS, Some s, os) \<and>
     kes_extent_write (Some s) (Some (sample_extent\<lparr>x_block_count := 2\<rparr>)) (Some [1, 2, 3]) 3 8190 os =
       Some (KES_SUCCESS, Some s', os1) \<and>
     kes_extent_read (Some s) (Some (sample_extent\<lparr>x_block_count := 2\<rparr>)) (Some [9, 9, 9, 9]) 3 8190 os1 =
       Some (KES_SUCCESS, Some t', Some [1, 2, 3, 9], os2)"
proof -
  obtain s x f os where S: "kes_storage_create sum_crc sample_os (Some sample_config) True = Some (KES_SUCCESS, Some s, os)"
    "created sum_crc sample_os sample_config s x f os" "session os s x f (sto_desc s)" "quiet os"
    by (rule sample_created)
  note i = sample_inside [OF S(2)]
  have "of_rd x" using S(3) by (simp add: session_def)
  then show ?thesis
    using write_read_roundtrip [OF S(3,4) i(1), of 8190 3 "[1, 2, 3]" "[9, 9, 9, 9]" s x] i(2) session_io [OF S(3)] S(1)
    by simp
qed

text \<open>
  C20. A write stays inside its extent, whatever I/O calls fail: descriptor and bitmap on disk are
  untouched, and every byte of an extent with disjoint blocks keeps its value.
\<close>

theorem write_isolated:
  assumes "session os s x f L" "ext_inside L e" "unat off + unat sz \<le> ext_bytes L e" "unat sz \<le> length buf"
    and "ext_inside L g" "ext_blocks e \<inter> ext_blocks g = {}" "x_block_count e \<noteq> 0" "x_block_count g \<noteq> 0"
    and "f_holds f (ext_at L g + o1) bs" "o1 + length bs \<le> ext_bytes L g"
  shows "\<exists>r s' f' os'. kes_extent_write (Some s) (Some e) (Some buf) sz off os = Some (r, Some s', os') \<and>
    session os' s' x f' L \<and> os_files os' = (os_files os)(of_path x \<mapsto> f') \<and>
    disk_desc f' = disk_desc f \<and> disk_bits L f' = disk_bits L f \<and> f_holds f' (ext_at L g + o1) bs"
proof -
  have S: "\<not> sto_readonly s" "handle_ok L s" "disk_static L f" "layout_ok L" using assms(1) by (simp_all add: session_def)
  obtain r s' k f' os' where W: "kes_extent_write (Some s) (Some e) (Some buf) sz off os = Some (r, Some s', os')"
    "k \<le> unat sz" "f' = (fwrite f (ext_at L e + unat off) (take k buf))\<lparr>f_dirty := f_dirty f'\<rparr>"
    "os_files os' = (os_files os)(of_path x \<mapsto> f')" "os_fds os' = os_fds os" "quiet os \<longrightarrow> quiet os'"
    "sto_desc s' = sto_desc s" "sto_fd s' = sto_fd s" "\<not> sto_lock s'" "sto_bitmap s' = sto_bitmap s"
    "sto_readonly s' = sto_readonly s"
    by (rule kes_extent_write_spec [OF session_io [OF assms(1)] S(1) assms(2-4)])
  have len: "length (take k buf) \<le> unat sz" using W(2) by simp
  have rng: "112 \<le> ext_at L e + unat off" "ext_at L e + unat off + length (take k buf) \<le> bitmap_at L"
    using ext_range(1,2) [OF S(4) assms(2)] assms(3) len by linarith+
  note M = user_write_keeps_meta [OF S(3,4) rng]
  have f': "disk_static L f'" "disk_bits L f' = disk_bits L f" "disk_desc f' = disk_desc f" by (subst W(3), simp add: M)+
  have ses: "session os' s' x f' L"
    by (rule session_after [OF assms(1) _ f'(1)]) (use W S(2) in \<open>simp_all add: os_after_def handle_ok_def\<close>)
  have "ext_at L e + ext_bytes L e \<le> ext_at L g \<or> ext_at L g + ext_bytes L g \<le> ext_at L e"
    using ext_disjoint [of e g] assms(6-8) by (simp add: ext_blocks_def unat_gt_0)
  then have "f_holds (fwrite f (ext_at L e + unat off) (take k buf)) (ext_at L g + o1) bs"
    using assms(3,10) len by (intro disk.wr_disjoint [OF assms(9)]) linarith
  then have "f_holds f' (ext_at L g + o1) bs" by (subst W(3)) simp
  then show ?thesis using W(1,4) ses f' by blast
qed

theorem write_isolated_witness:
  "\<exists>s os x f s' os1 f1 r s2 f2 os2.
     kes_storage_create sum_crc sample_os (Some sample_config) True = Some (KES_SUCCESS, Some s, os) \<and>
     session os1 s' x f1 (sto_desc s) \<and>
     f_holds f1 (ext_at (sto_desc s) (sample_extent\<lparr>x_start_block := 2, x_block_count := 1\<rparr>) + 0) [7] \<and>
     kes_extent_write (Some s') (Some (sample_extent\<lparr>x_block_count := 2\<rparr>)) (Some [1, 2, 3]) 3 16381 os1 =
       Some (r, Some s2, os2) \<and>
     f_holds f2 (ext_at (sto_desc s) (sample_extent\<lparr>x_start_block := 2, x_block_count := 1\<rparr>) + 0) [7] \<and>
     disk_bits (sto_desc s) f2 = disk_bits (sto_desc s) f1"
proof -
  obtain s x f os where S: "kes_storage_create sum_crc sample_os (Some sample_config) True = Some (KES_SUCCESS, Some s, os)"
    "created sum_crc sample_os sample_config s x f os" "session os s x f (sto_desc s)" "quiet os"
    by (rule sample_created)
  let ?L = "sto_desc s" and ?e = "sample_extent\<lparr>x_block_count := 2\<rparr>"
    and ?g = "sample_extent\<lparr>x_start_block := 2, x_block_count := 1\<rparr>"
  note i = sample_inside [OF S(2)]
  have T: "3 \<le> unat (d_user_blocks ?L)" "\<not> sto_readonly s" "of_wr x" "handle_ok ?L s" "disk_static ?L f" "layout_ok ?L"
    using S(2,3) by (simp_all add: created_def session_def)
  have g: "ext_inside ?L ?g" "ext_bytes ?L ?g = 8192"
    using T(1) S(2) by (simp_all add: ext_inside_def ext_bytes_def created_def block_bytes_def)
  have fit: "unat (0 :: u64) + unat (1 :: u64) \<le> ext_bytes ?L ?g" "unat (1 :: u64) \<le> length [7 :: u8]" using g(2) by simp_all
  obtain r s' k f1 os1 where W: "kes_extent_write (Some s) (Some ?g) (Some [7]) 1 0 os = Some (r, Some s', os1)"
    "k \<le> unat (1 :: u64)" "f1 = (fwrite f (ext_at ?L ?g + unat (0 :: u64)) (take k [7]))\<lparr>f_dirty := f_dirty f1\<rparr>"
    "os_files os1 = (os_files os)(of_path x \<mapsto> f1)" "os_fds os1 = os_fds os" "quiet os \<longrightarrow> quiet os1"
    "r = KES_SUCCESS \<longrightarrow> k = unat (1 :: u64)" "quiet os \<and> of_wr x \<longrightarrow> r = KES_SUCCESS"
    "sto_desc s' = sto_desc s" "sto_fd s' = sto_fd s" "\<not> sto_lock s'" "sto_bitmap s' = sto_bitmap s"
    "sto_readonly s' = sto_readonly s"
    by (rule kes_extent_write_spec [OF session_io [OF S(3)] T(2) g(1) fit])
  have k: "k = 1" using W(7,8) S(4) T(3) by simp
  have "112 \<le> ext_at ?L ?g" "ext_at ?L ?g + length [7 :: u8] \<le> bitmap_at ?L" using ext_range [OF T(6) g(1)] g(2) by auto
  note M = user_write_keeps_meta [OF T(5,6) this]
  have f1: "disk_static ?L f1" "f_holds f1 (ext_at ?L ?g + 0) [7]"
    by (subst W(3), simp add: k M, subst W(3), use disk.wr_same [of "[7]" f "ext_at ?L ?g"] k in simp)
  have ses: "session os1 s' x f1 ?L"
    by (rule session_after [OF S(3) _ f1(1)]) (use W T(4) in \<open>simp_all add: os_after_def handle_ok_def\<close>)
  have "\<exists>r s2 f2 os2. kes_extent_write (Some s') (Some ?e) (Some [1, 2, 3]) 3 16381 os1 = Some (r, Some s2, os2) \<and>
      session os2 s2 x f2 ?L \<and> os_files os2 = (os_files os1)(of_path x \<mapsto> f2) \<and>
      disk_desc f2 = disk_desc f1 \<and> disk_bits ?L f2 = disk_bits ?L f1 \<and> f_holds f2 (ext_at ?L ?g + 0) [7]"
    by (rule write_isolated [OF ses i(1) _ _ g(1) _ _ _ f1(2)])
       (use i(2) g(2) in \<open>simp_all add: ext_blocks_def sample_extent_def\<close>)
  then show ?thesis using S(1) ses f1(2) by blast
qed

text \<open>
  Arguments that reach beyond the extent are refused: as long as \<open>offset + size\<close> does not wrap, a
  read or write with \<open>offset + size\<close> beyond the extent answers \<open>KES_ERROR_INVALID\<close> and changes
  nothing, neither the handle nor the buffer nor the file.
\<close>

theorem io_beyond_extent_refused:
  assumes "session os s x f L" "ext_inside L e" "unat off + unat sz < 2 ^ 64" "ext_bytes L e < unat off + unat sz"
  shows "kes_extent_write (Some s) (Some e) (Some buf) sz off os = Some (KES_ERROR_INVALID, Some s, os) \<and>
    kes_extent_read (Some s) (Some e) (Some buf) sz off os = Some (KES_ERROR_INVALID, Some s, Some buf, os)"
proof -
  have S: "layout (sto_desc s) = layout L" "layout_ok L" "\<not> sto_readonly s"
    using assms(1) by (auto simp: session_def handle_ok_def)
  have "off + sz > extent_size (sto_desc s) e" using bounds_check [OF S(1,2) assms(2,3)] assms(4) by simp
  then show ?thesis using S(3) by (simp add: kes_extent_write_def kes_extent_read_def)
qed

theorem io_beyond_extent_refused_witness:
  "\<exists>s os. kes_storage_create sum_crc sample_os (Some sample_config) True = Some (KES_SUCCESS, Some s, os) \<and>
     kes_extent_write (Some s) (Some (sample_extent\<lparr>x_block_count := 2\<rparr>)) (Some [1, 2]) 2 16383 os =
       Some (KES_ERROR_INVALID, Some s, os)"
proof -
  obtain s x f os where S: "kes_storage_create sum_crc sample_os (Some sample_config) True = Some (KES_SUCCESS, Some s, os)"
    "created sum_crc sample_os sample_config s x f os" "session os s x f (sto_desc s)"
    by (rule sample_created)
  note i = sample_inside [OF S(2)]
  show ?thesis using io_beyond_extent_refused [OF S(3) i(1), of 16383 2 "[1, 2]"] i(2) S(1) by auto
qed

text \<open>
  C24. The bounds check of \<open>kes_extent_write\<close> wraps: with \<open>offset = UINT64_MAX\<close> and \<open>size = 1\<close> the sum is 0,
  the check passes, and the call reports success after overwriting the byte in front of the extent
  (the last byte of another extent, or of the descriptor block).
\<close>

theorem write_bounds_wrap:
  assumes "session os s x f L" "quiet os" "ext_inside L e"
  shows "\<exists>s' os' f'. kes_extent_write (Some s) (Some e) (Some [b]) 1 (2 ^ 64 - 1) os = Some (KES_SUCCESS, Some s', os') \<and>
    os_files os' (of_path x) = Some f' \<and> f_holds f' (ext_at L e - 1) [b]"
proof -
  have S: "fd_on os (sto_fd s) x f" "layout (sto_desc s) = layout L" "layout_ok L" "\<not> sto_readonly s" "of_wr x" "\<not> sto_lock s"
    using assms(1) by (auto simp: session_def handle_ok_def)
  let ?off = "2 ^ 64 - 1 :: u64"
  have off: "?off = - 1" unfolding eq_neg_iff_add_eq_0 by simp
  define base where "base = (d_user_start_block L + x_start_block e) * ucast (d_block_size L)"
  have d: "d_user_start_block (sto_desc s) = d_user_start_block L" "d_block_size (sto_desc s) = d_block_size L"
    using layout_fields [OF S(2)] by simp_all
  have base: "unat base = ext_at L e" unfolding base_def by (rule unat_ext_base [OF S(3) assms(3)])
  note rng = ext_range [OF S(3) assms(3)]
  have "unat (base - 1) = ext_at L e - 1"
    by (subst unat_diff_le) (use rng base in \<open>simp_all add: word_le_nat_alt\<close>)
  then have "sint (base - 1) = int (ext_at L e - 1)" using rng(3) by (subst sint_small) simp_all
  moreover have "base + ?off = base - 1" using off by (simp only: add_uminus_conv_diff)
  ultimately have fo: "extent_file_offset (sto_desc s) e ?off = int (ext_at L e - 1)"
    unfolding extent_file_offset_def d base_def [symmetric] by metis
  have pass: "\<not> ?off + 1 > extent_size (sto_desc s) e" by (simp only: off add.left_inverse word_not_simps(1) not_False_eq_True)
  obtain p os1 where sk: "c_lseek os (sto_fd s) (int (ext_at L e - 1)) = (p, os1)" by fastforce
  from c_lseek_spec [OF sk S(1)] assms(2) have
    1: "os_same os os1" "p = int (ext_at L e - 1)" "os_pos os1 (nat (sto_fd s)) = ext_at L e - 1" "quiet os1"
    by (auto simp: os_same_def)
  obtain n os2 where wr: "c_write os1 (sto_fd s) [b] = (n, os2)" by fastforce
  have on1: "fd_on os1 (sto_fd s) x f" using S(1) fd_on_same [OF 1(1)] by simp
  obtain k f' where w: "os_files os2 = (os_files os1)(of_path x \<mapsto> f')"
    "f' = (fwrite f (os_pos os1 (nat (sto_fd s))) (take k [b]))\<lparr>f_dirty := f_dirty f'\<rparr>"
    "n = int (length [b]) \<longrightarrow> k = length [b]" "quiet os1 \<and> of_wr x \<longrightarrow> n = int (length [b])"
    by (rule c_write_spec [OF wr on1])
  have n: "n = 1" "k = 1" using w(3,4) 1(4) S(5) by auto
  have run: "\<exists>s'. kes_extent_write (Some s) (Some e) (Some [b]) 1 ?off os = Some (KES_SUCCESS, Some s', os2)"
    using S(4,6) pass fo sk 1(2) wr n
    by (simp add: kes_extent_write_def pthread_mutex_lock_def pthread_mutex_unlock_def)
  have "f_holds f' (ext_at L e - 1) [b]"
    by (subst w(2)) (use disk.wr_same [of "[b]" f "ext_at L e - 1"] 1(3) n in simp)
  then show ?thesis using run w(1) by auto
qed

theorem write_bounds_wrap_witness:
  "\<exists>s os s' os'. kes_storage_create sum_crc sample_os (Some sample_config) True = Some (KES_SUCCESS, Some s, os) \<and>
     kes_extent_write (Some s) (Some (sample_extent\<lparr>x_block_count := 2\<rparr>)) (Some [255]) 1 (2 ^ 64 - 1) os =
       Some (KES_SUCCESS, Some s', os')"
proof -
  obtain s x f os where S: "kes_storage_create sum_crc sample_os (Some sample_config) True = Some (KES_SUCCESS, Some s, os)"
    "created sum_crc sample_os sample_config s x f os" "session os s x f (sto_desc s)" "quiet os"
    by (rule sample_created)
  show ?thesis using write_bounds_wrap [OF S(3,4) sample_inside(1) [OF S(2)], of 255] S(1) by blast
qed

text \<open>
  C23. A handle opened read-only changes nothing: allocate, free, write and sync all answer
  \<open>KES_ERROR_INVALID\<close> and leave handle, output and operating system state as they were, and closing it
  does not touch any file.
\<close>

theorem readonly_refused:
  assumes "sto_readonly s" "\<not> sto_lock s"
  shows "kes_extent_allocate crc (Some s) (Some rq) (Some e) os = Some (KES_ERROR_INVALID, Some s, Some e, os) \<and>
    kes_extent_free crc (Some s) (Some e) os = Some (KES_ERROR_INVALID, Some s, os) \<and>
    kes_extent_write (Some s) (Some e) buf sz off os = Some (KES_ERROR_INVALID, Some s, os) \<and>
    kes_storage_sync crc (Some s) os = Some (KES_ERROR_INVALID, Some s, os) \<and>
    (\<exists>os'. kes_storage_close crc (Some s) os = Some (KES_SUCCESS, os') \<and> os_files os' = os_files os)"
  using assms
  by (cases buf) (simp_all add: kes_extent_allocate_def kes_extent_free_def kes_extent_write_def kes_storage_sync_def
      kes_storage_close_def pthread_mutex_lock_def c_close_def fd_put_def)

theorem readonly_refused_witness:
  "\<exists>s os h os'. kes_storage_create sum_crc sample_os (Some sample_config) True = Some (KES_SUCCESS, Some s, os) \<and>
     kes_storage_open sum_crc os (Some ''dev'') KES_STORAGE_READONLY True = Some (KES_SUCCESS, Some h, os') \<and>
     kes_extent_allocate sum_crc (Some h) (Some sample_request) (Some sample_extent) os' =
       Some (KES_ERROR_INVALID, Some h, Some sample_extent, os')"
proof -
  obtain s x f os where S: "kes_storage_create sum_crc sample_os (Some sample_config) True = Some (KES_SUCCESS, Some s, os)"
    "created sum_crc sample_os sample_config s x f os" "quiet os" "of_path x = ''dev''" "unlocked os"
    by (rule sample_created)
  have c: "os_files os ''dev'' = Some f" "disk_static (sto_desc s) f" "layout_ok (sto_desc s)"
    "d_bitmap_checksum (disk_desc f) = sum_crc 0 (disk_bits (sto_desc s) f)"
    using S(2,4) by (auto simp: created_def disk_coherent_def)
  obtain r hh os' where O: "kes_storage_open sum_crc os (Some ''dev'') KES_STORAGE_READONLY True = Some (r, hh, os')"
    "r = KES_SUCCESS \<longrightarrow> (\<exists>t y. hh = Some t \<and> of_path y = ''dev'' \<and>
       opened sum_crc (sto_desc s) f KES_STORAGE_READONLY os t y os')"
    "r = KES_ERROR_CORRUPT \<longrightarrow> d_bitmap_checksum (disk_desc f) \<noteq> sum_crc 0 (disk_bits (sto_desc s) f)"
    "quiet os \<longrightarrow> r = KES_SUCCESS \<or> r = KES_ERROR_CORRUPT"
    by (rule kes_storage_open_spec [OF c(1-3) S(5)])
  have r: "r = KES_SUCCESS" using O(3,4) S(3) c(4) by blast
  then obtain h y where h: "hh = Some h" "opened sum_crc (sto_desc s) f KES_STORAGE_READONLY os h y os'"
    using O(2) by blast
  have ro: "sto_readonly h" "\<not> sto_lock h" using h(2) by (simp_all add: opened_def)
  show ?thesis
    using readonly_refused [OF ro, of sum_crc sample_request sample_extent os'] S(1) O(1) r h(1) by auto
qed

section \<open>The descriptor image and the utilities\<close>

text \<open>
  C23. The 112-byte image of the descriptor and its decoding are inverse to each other: no field is
  lost, truncated or overlapped, and every image is the image of exactly one descriptor.
\<close>

theorem descriptor_roundtrip:
  "(\<forall>d. length (d_reserved d) = 28 \<longrightarrow> length (enc_desc d) = 112 \<and> dec_desc (enc_desc d) = d) \<and>
   (\<forall>bs. length bs = 112 \<longrightarrow> enc_desc (dec_desc bs) = bs)"
  using dec_enc_desc length_enc_desc enc_dec_desc by (auto simp: desc_wf_def)

theorem descriptor_roundtrip_witness:
  "dec_desc (enc_desc (zero_desc\<lparr>d_magic := KES_MAGIC_NUMBER, d_user_blocks := 8\<rparr>)) =
     zero_desc\<lparr>d_magic := KES_MAGIC_NUMBER, d_user_blocks := 8\<rparr> \<and>
   enc_desc (dec_desc (replicate 112 7)) = replicate 112 7"
  using descriptor_roundtrip by (simp add: zero_desc_def)

text \<open>
  \<open>kes_calculate_blocks_needed\<close> returns the smallest number of blocks that holds the given number
  of bytes, for every positive block size and every byte count for which neither the 64-bit sum nor
  the 32-bit result overflows.
\<close>

theorem blocks_needed_correct:
  assumes "0 < unat bs" "unat n + unat bs \<le> 2 ^ 64" "(unat n + unat bs - 1) div unat bs < 2 ^ 32"
  shows "\<exists>k. kes_calculate_blocks_needed n bs = Some k \<and> unat n \<le> unat k * unat bs \<and>
    (\<forall>j. unat n \<le> j * unat bs \<longrightarrow> unat k \<le> j)"
proof -
  let ?b = "ucast bs :: u64"
  have b0: "?b \<noteq> 0" using assms(1) by (simp add: unat_gt_0 [symmetric])
  have b1: "unat (?b - 1) = unat bs - 1" using assms(1) by (subst unat_diff_le) (simp_all add: word_le_nat_alt)
  have sum: "unat (n + (?b - 1)) = unat n + unat bs - 1"
    using assms(1,2) by (subst unat_add_no_overflow) (simp_all add: b1)
  have eq: "n + ?b - 1 = n + (?b - 1)" by (simp add: algebra_simps)
  define q where "q = (unat n + unat bs - 1) div unat bs"
  have q: "unat ((n + ?b - 1) div ?b) = q" unfolding eq unat_div sum by (simp add: q_def)
  have k: "unat (ucast ((n + ?b - 1) div ?b) :: u32) = q"
    using q assms(3) by (simp add: unsigned_ucast_eq take_bit_nat_eq_self q_def)
  have le: "unat n \<le> q * unat bs"
  proof -
    have "unat n + unat bs - 1 < (q + 1) * unat bs"
      unfolding q_def using assms(1) by (metis Suc_eq_plus1 dividend_less_div_times mult.commute mult_Suc_right)
    then show ?thesis by (simp add: algebra_simps)
  qed
  have least: "q \<le> j" if "unat n \<le> j * unat bs" for j
  proof -
    have "unat n + unat bs - 1 < (j + 1) * unat bs" using that assms(1) by (simp add: algebra_simps)
    then have "q < j + 1" unfolding q_def by (rule less_mult_imp_div_less)
    then show ?thesis by simp
  qed
  have "kes_calculate_blocks_needed n bs = Some (ucast ((n + ?b - 1) div ?b))"
    using b0 by (simp add: kes_calculate_blocks_needed_def KES_BYTES_TO_BLOCKS_def)
  then show ?thesis using k le least by auto
qed

theorem blocks_needed_correct_witness:
  "\<exists>k. kes_calculate_blocks_needed 8193 8192 = Some k \<and> unat (8193 :: u64) \<le> unat k * unat (8192 :: u32) \<and>
     (\<forall>j. unat (8193 :: u64) \<le> j * unat (8192 :: u32) \<longrightarrow> unat k \<le> j)"
  by (rule blocks_needed_correct) simp_all

end
