(* ===== verification/Kes_Stats.thy ===== *)
theory Kes_Stats
  imports Kes_Contract "HOL-Library.Log_Nat"
begin

text \<open>
  \<open>kes_storage_get_stats\<close> (\<open>src/kes_storage.c\<close>), the one function of the library that computes with
  floating-point numbers. Doubles are rationals rounded to 53 significant bits, to nearest and ties to
  even; the values that occur are zero or far inside the range of normal numbers, so that neither
  overflow to infinity nor subnormal numbers matter. The conversion of a double that does not fit
  into 64 bits is undefined in C and \<open>None\<close> here.
\<close>

section \<open>Doubles\<close>

text \<open>The binary exponent of a positive number.\<close>

definition binade :: "rat \<Rightarrow> int" where
  "binade x = (case quotient_of x of (p, q) \<Rightarrow>
     let e = int (floorlog 2 (nat p)) - int (floorlog 2 (nat q)) in if 2 powi e \<le> x then e else e - 1)"

definition round_half_even :: "rat \<Rightarrow> int" where
  "round_half_even y = (let f = \<lfloor>y\<rfloor>; d = y - of_int f in if d < 1 / 2 \<or> d = 1 / 2 \<and> even f then f else f + 1)"

definition to_double :: "rat \<Rightarrow> rat" where
  "to_double x = (if x \<le> 0 then 0 else let u = 2 powi (binade x - 52) in of_int (round_half_even (x / u)) * u)"

definition double_to_u64 :: "rat \<Rightarrow> u64 option" where
  "double_to_u64 x = (if \<lfloor>x\<rfloor> < 2 ^ 64 then Some (of_int \<lfloor>x\<rfloor>) else None)"

section \<open>\<open>kes_storage_get_stats\<close>\<close>

definition fragmentation :: "u64 \<Rightarrow> u64 \<Rightarrow> u64 option" where
  "fragmentation allocated_extents used_blocks =
    (if used_blocks > 0 \<and> allocated_extents > 0
     then double_to_u64 (to_double (to_double (100 * to_double (of_nat (unat (allocated_extents - 1)))) /
            to_double (of_nat (unat used_blocks))))
     else Some 0)"

definition kes_storage_get_stats ::
    "kes_storage option \<Rightarrow> bool \<Rightarrow> (int \<times> kes_storage option \<times> kes_storage_stats option) option" where
  "kes_storage_get_stats st outp = (case st of
     None \<Rightarrow> Some (KES_ERROR_INVALID, None, None)
   | Some s \<Rightarrow> if \<not> outp then Some (KES_ERROR_INVALID, st, None) else do {
       s1 \<leftarrow> pthread_mutex_lock s;
       let stats = (sto_stats s1)\<lparr>st_total_blocks := d_total_blocks (sto_desc s1), st_free_blocks := d_free_blocks (sto_desc s1),
             st_used_blocks := d_used_blocks (sto_desc s1)\<rparr>;
       frag \<leftarrow> fragmentation (st_allocated_extents (sto_stats s1)) (st_used_blocks stats);
       s2 \<leftarrow> pthread_mutex_unlock s1;
       Some (KES_SUCCESS, Some s2, Some (stats\<lparr>st_fragmentation := frag\<rparr>)) })"

section \<open>Rounding\<close>

lemma binade_bounds:
  assumes "x > 0"
  shows "2 powi binade x \<le> x" "x < 2 powi (binade x + 1)"
proof -
  obtain p q where pq: "quotient_of x = (p, q)" by fastforce
  have q: "q > 0" by (rule quotient_of_denom_pos [OF pq])
  have x: "x = of_int p / of_int q" by (rule quotient_of_div [OF pq])
  have p: "p > 0" using assms q by (simp add: x zero_less_divide_iff)
  define a b where "a = floorlog 2 (nat p)" and "b = floorlog 2 (nat q)"
  have P: "2 ^ (a - 1) \<le> nat p" "nat p < 2 ^ a" "2 ^ (b - 1) \<le> nat q" "nat q < 2 ^ b"
    using floorlog_bounds [of "nat p" 2] floorlog_bounds [of "nat q" 2] p q by (simp_all add: a_def b_def)
  have "(2 :: int) ^ (a - 1) \<le> p" "p < 2 ^ a" "(2 :: int) ^ (b - 1) \<le> q" "q < 2 ^ b"
    using P p q by (simp_all add: nat_le_iff nat_less_iff le_nat_iff)
  then have "(of_int (2 ^ (a - 1)) :: rat) \<le> of_int p" "(of_int p :: rat) < of_int (2 ^ a)"
    "(of_int (2 ^ (b - 1)) :: rat) \<le> of_int q" "(of_int q :: rat) < of_int (2 ^ b)" by (simp_all only: of_int_le_iff of_int_less_iff)
  then have R: "(2 :: rat) ^ (a - 1) \<le> of_int p" "(of_int p :: rat) < 2 ^ a" "(2 :: rat) ^ (b - 1) \<le> of_int q" "(of_int q :: rat) < 2 ^ b"
    by simp_all
  have pos: "a > 0" "b > 0" using P p q by (auto intro: Nat.gr0I)
  have up: "x < 2 powi (int a - int b + 1)"
  proof -
    have "x < 2 ^ a / 2 ^ (b - 1)" unfolding x by (rule frac_less) (use R p q in simp_all)
    also have "\<dots> = 2 powi (int a - int (b - 1))" by (simp add: power_int_diff)
    also have "int a - int (b - 1) = int a - int b + 1" using pos by simp
    finally show ?thesis .
  qed
  have low: "2 powi (int a - int b - 1) \<le> x"
  proof -
    have "(2 :: rat) powi (int (a - 1) - int b) = 2 ^ (a - 1) / 2 ^ b" by (subst power_int_diff) simp_all
    moreover have "int (a - 1) - int b = int a - int b - 1" using pos by simp
    ultimately have "2 powi (int a - int b - 1) = 2 ^ (a - 1) / (2 :: rat) ^ b" by metis
    also have "\<dots> \<le> x" unfolding x by (rule frac_le) (use R p q in simp_all)
    finally show ?thesis .
  qed
  have e: "binade x = (if 2 powi (int a - int b) \<le> x then int a - int b else int a - int b - 1)"
    by (simp add: binade_def pq a_def b_def Let_def)
  show "2 powi binade x \<le> x" "x < 2 powi (binade x + 1)" using up low by (auto simp: e)
qed

lemma round_half_even_error: "\<bar>of_int (round_half_even y) - y\<bar> \<le> 1 / 2"
proof -
  have "of_int \<lfloor>y\<rfloor> \<le> y" "y < of_int \<lfloor>y\<rfloor> + 1" by linarith+
  then show ?thesis by (auto simp: round_half_even_def Let_def)
qed

lemma round_half_even_int [simp]: "round_half_even (of_int k) = k"
  by (simp add: round_half_even_def)

text \<open>The relative error of rounding is at most \<open>2 ^ - 53\<close>.\<close>

lemma to_double_error:
  assumes "x > 0"
  shows "\<bar>to_double x - x\<bar> \<le> x / 2 ^ 53"
proof -
  define u where "u = (2 :: rat) powi (binade x - 52)"
  have u: "u > 0" by (simp add: u_def)
  have "\<bar>to_double x - x\<bar> = \<bar>(of_int (round_half_even (x / u)) - x / u) * u\<bar>"
    using assms u by (simp add: to_double_def u_def [symmetric] Let_def left_diff_distrib)
  also have "\<dots> = \<bar>of_int (round_half_even (x / u)) - x / u\<bar> * u" using u by (simp add: abs_mult)
  also have "\<dots> \<le> 1 / 2 * u" by (rule mult_right_mono [OF round_half_even_error]) (use u in simp)
  also have "1 / 2 * u = 2 powi binade x / 2 ^ 53" by (simp add: u_def power_int_diff)
  also have "\<dots> \<le> x / 2 ^ 53" by (rule divide_right_mono [OF binade_bounds(1) [OF assms]]) simp
  finally show ?thesis .
qed

text \<open>Numbers with at most 53 significant bits are doubles.\<close>

lemma to_double_dyadic:
  assumes "n < 2 ^ 53"
  shows "to_double (of_nat n / 2 ^ k) = of_nat n / 2 ^ k"
proof (cases "n = 0")
  case False
  define x where "x = (of_nat n / 2 ^ k :: rat)"
  define b where "b = binade x"
  have x: "x > 0" using False by (simp add: x_def)
  have "(2 :: rat) powi b \<le> x" unfolding b_def by (rule binade_bounds(1) [OF x])
  also have "(of_nat n :: rat) < of_nat (2 ^ 53)" using assms by (simp only: of_nat_less_iff)
  then have "x < 2 powi (53 - int k)" by (simp add: x_def power_int_diff divide_strict_right_mono)
  finally have b: "b < 53 - int k" using power_int_increasing [of "53 - int k" b "2 :: rat"] by (meson linorder_not_le one_le_numeral)
  define m where "m = nat (52 - int k - b)"
  have "b - 52 = - int (m + k)" using b by (simp add: m_def)
  then have u: "(2 :: rat) powi (b - 52) = 1 / (2 ^ m * 2 ^ k)" by (simp only: power_int_minus power_int_of_nat power_add) (simp add: divide_inverse)
  have "x / (1 / (2 ^ m * 2 ^ k)) = of_int (int n * 2 ^ m)" by (simp add: x_def)
  then have "to_double x = of_int (round_half_even (of_int (int n * 2 ^ m))) * (1 / (2 ^ m * 2 ^ k))"
    using x by (simp only: to_double_def b_def [symmetric] u Let_def) simp
  then show ?thesis unfolding x_def [symmetric] by (simp only: round_half_even_int) (simp add: x_def)
qed (simp add: to_double_def)

lemma to_double_nat: "n < 2 ^ 53 \<Longrightarrow> to_double (of_nat n) = of_nat n"
  using to_double_dyadic [of n 0] by simp

text \<open>Rounding the quotient of two numbers below \<open>2 ^ 53\<close> never reaches the next integer.\<close>

lemma floor_double_quotient:
  assumes p: "p < 2 ^ 53" and q: "0 < q"
  shows "\<lfloor>to_double (of_nat p / of_nat q)\<rfloor> = int (p div q)"
proof (cases "p mod q = 0")
  case True
  then have "p = q * (p div q)" by auto
  then have e: "(of_nat p / of_nat q :: rat) = of_nat (p div q)" using q by (metis of_nat_eq_0_iff of_nat_mult nonzero_mult_div_cancel_left not_gr_zero)
  have "p div q < 2 ^ 53" using p by (meson div_le_dividend le_less_trans)
  then show ?thesis using to_double_nat [of "p div q"] by (simp add: e)
next
  case False
  define m r where "m = p div q" and "r = p mod q"
  have mr: "p = m * q + r" "0 < r" "r < q" using False q by (simp_all add: m_def r_def)
  define x where "x = (of_nat p / of_nat q :: rat)"
  have "0 < p" using mr by simp
  then have x: "x > 0" using q by (simp add: x_def)
  have "of_nat p < (of_nat (2 ^ 53) :: rat)" using p by (simp only: of_nat_less_iff)
  then have s: "x / 2 ^ 53 < 1 / of_nat q" using q by (simp add: x_def field_simps)
  have P: "(of_nat p :: rat) = of_nat m * of_nat q + of_nat r" using mr(1) by (metis of_nat_add of_nat_mult)
  have "(1 :: rat) \<le> of_nat r" "(of_nat r :: rat) + 1 \<le> of_nat q" using mr(2,3) by (simp_all add: Suc_leI flip: of_nat_Suc)
  then have "of_nat m + 1 / of_nat q \<le> x" "x + 1 / of_nat q \<le> of_nat m + 1" using q P by (simp_all add: x_def field_simps)
  then have "of_nat m \<le> to_double x" "to_double x < of_nat m + 1" using to_double_error [OF x] s by linarith+
  then show ?thesis by (simp add: floor_eq_iff flip: x_def m_def)
qed

section \<open>The statistics\<close>

lemma fragmentation_eq:
  assumes "100 * (unat allocated - 1) < 2 ^ 53" "unat used < 2 ^ 53"
  shows "fragmentation allocated used =
    Some (if allocated = 0 \<or> used = 0 then 0 else of_nat (100 * (unat allocated - 1) div unat used))"
proof (cases "allocated = 0 \<or> used = 0")
  case False
  define n where "n = unat allocated - 1"
  have pos: "0 < allocated" "0 < used" "0 < unat used" using False by (simp_all add: word_neq_0_conv unat_gt_0)
  have n: "unat (allocated - 1) = n" using pos(1) by (simp add: n_def unat_minus_one)
  have d: "to_double (of_nat n) = of_nat n" "to_double (100 * of_nat n) = of_nat (100 * n)" "to_double (of_nat (unat used)) = of_nat (unat used)"
    using to_double_nat [of n] to_double_nat [of "100 * n"] to_double_nat [of "unat used"] assms by (simp_all add: n_def)
  have fl: "\<lfloor>to_double (of_nat (100 * n) / of_nat (unat used))\<rfloor> = int (100 * n div unat used)"
    by (rule floor_double_quotient) (use assms pos in \<open>simp_all add: n_def\<close>)
  have "100 * n div unat used < 2 ^ 53" unfolding n_def by (rule le_less_trans [OF div_le_dividend assms(1)])
  then have "int (100 * n div unat used) < 2 ^ 64" by simp
  then show ?thesis unfolding fragmentation_def n d double_to_u64_def fl using pos False by (simp add: n_def)
qed (auto simp: fragmentation_def)

lemma storage_stats_eq:
  assumes "\<not> sto_lock s" "100 * (unat (st_allocated_extents (sto_stats s)) - 1) < 2 ^ 53" "unat (d_used_blocks (sto_desc s)) < 2 ^ 53"
  shows "kes_storage_get_stats (Some s) True = Some (KES_SUCCESS, Some s, Some ((sto_stats s)
    \<lparr>st_total_blocks := d_total_blocks (sto_desc s), st_free_blocks := d_free_blocks (sto_desc s), st_used_blocks := d_used_blocks (sto_desc s),
     st_fragmentation := (if st_allocated_extents (sto_stats s) = 0 \<or> d_used_blocks (sto_desc s) = 0 then 0
       else of_nat (100 * (unat (st_allocated_extents (sto_stats s)) - 1) div unat (d_used_blocks (sto_desc s))))\<rparr>))"
proof -
  have "s\<lparr>sto_lock := False\<rparr> = s" using assms(1) by (cases s) simp
  then show ?thesis using assms fragmentation_eq [OF assms(2,3)]
    by (simp add: kes_storage_get_stats_def pthread_mutex_lock_def pthread_mutex_unlock_def)
qed

text \<open>
  C39. The statistics: the totals are those of the descriptor, the other counters those of the handle, and the fragmentation is
  the whole percentage \<open>100 (allocated_extents - 1) / used_blocks\<close> (zero without extents or used blocks). Rounding never
  shows, as long as the numbers stay below \<open>2 ^ 53\<close>. The handle is left as it was.
\<close>

theorem get_stats_correct:
  assumes "\<not> sto_lock s" "100 * (unat (st_allocated_extents (sto_stats s)) - 1) < 2 ^ 53" "unat (d_used_blocks (sto_desc s)) < 2 ^ 53"
  shows "kes_storage_get_stats (Some s) True = Some (KES_SUCCESS, Some s, Some ((sto_stats s)
    \<lparr>st_total_blocks := d_total_blocks (sto_desc s), st_free_blocks := d_free_blocks (sto_desc s), st_used_blocks := d_used_blocks (sto_desc s),
     st_fragmentation := (if st_allocated_extents (sto_stats s) = 0 \<or> d_used_blocks (sto_desc s) = 0 then 0
       else of_nat (100 * (unat (st_allocated_extents (sto_stats s)) - 1) div unat (d_used_blocks (sto_desc s))))\<rparr>))"
  using storage_stats_eq [OF assms] .

theorem get_stats_correct_witness:
  "let s = zero_storage\<lparr>sto_stats := zero_stats\<lparr>st_allocated_extents := 4\<rparr>, sto_desc := zero_desc\<lparr>d_used_blocks := 40\<rparr>\<rparr> in
    kes_storage_get_stats (Some s) True = Some (KES_SUCCESS, Some s, Some (zero_stats\<lparr>st_allocated_extents := 4,
      st_used_blocks := 40, st_fragmentation := 7\<rparr>))"
  using get_stats_correct [of "zero_storage\<lparr>sto_stats := zero_stats\<lparr>st_allocated_extents := 4\<rparr>, sto_desc := zero_desc\<lparr>d_used_blocks := 40\<rparr>\<rparr>"]
  by (simp add: Let_def zero_storage_def zero_stats_def zero_desc_def)

lemma to_double_ge:
  assumes "x > 0"
  shows "x * (1 - 1 / 2 ^ 53) \<le> to_double x"
proof -
  have "x * (1 - 1 / 2 ^ 53) = x - x / 2 ^ 53" unfolding right_diff_distrib by simp
  then show ?thesis using to_double_error [OF assms] by linarith
qed

text \<open>The fragmentation of a counter below zero.\<close>

lemma fragmentation_below_zero:
  assumes u: "0 < unat used" "unat used < 100"
  shows "fragmentation (- 1) used = None"
proof -
  define n where "n = unat used"
  have n: "0 < n" "n < 100" using u by (simp_all add: n_def)
  let ?e = "1 - 1 / 2 ^ 53 :: rat"
  define x where "x = (2 ^ 64 - 2 :: rat)"
  have x1: "x * ?e \<le> to_double x" by (rule to_double_ge) (simp add: x_def)
  have p1: "0 < x * ?e" by (simp add: x_def)
  define y where "y = to_double (100 * to_double x)"
  have "(100 * to_double x) * ?e \<le> y" unfolding y_def by (rule to_double_ge) (use x1 p1 in simp)
  moreover have "(100 * (x * ?e)) * ?e \<le> (100 * to_double x) * ?e" using x1 by simp
  ultimately have y: "100 * (x * ?e) * ?e \<le> y" by linarith
  have py: "0 < y" using y by (rule less_le_trans [rotated]) (simp add: x_def)
  have dn: "to_double (of_nat n) = of_nat n" by (rule to_double_nat) (use n in simp)
  have "y / of_nat n * ?e \<le> to_double (y / of_nat n)" by (rule to_double_ge) (use py n in simp)
  moreover have "y / 99 \<le> y / of_nat n" using py n by (intro divide_left_mono) auto
  then have "y / 99 * ?e \<le> y / of_nat n * ?e" by (rule mult_right_mono) simp
  moreover have "2 ^ 64 \<le> 100 * (x * ?e) * ?e / 99 * ?e" by (simp add: x_def)
  moreover have "100 * (x * ?e) * ?e / 99 * ?e \<le> y / 99 * ?e" using y by (intro mult_right_mono divide_right_mono) simp_all
  ultimately have "2 ^ 64 \<le> to_double (y / of_nat n)" by linarith
  then have big: "\<not> \<lfloor>to_double (y / of_nat n)\<rfloor> < 2 ^ 64" by (simp add: floor_less_iff)
  have X: "of_nat (unat (- 1 - 1 :: u64)) = x" by (simp add: x_def)
  have "(0 :: u64) < - 1" "0 < used" using u(1) by (simp_all add: word_gt_0 unat_gt_0)
  then show ?thesis
    unfolding fragmentation_def X n_def [symmetric] dn y_def [symmetric] using big by (simp add: double_to_u64_def)
qed

text \<open>
  C40. The counter of extents belongs to the handle. Freeing an extent with \<open>kes_extent_free\<close> through a handle whose counter is zero (it has not allocated
  any extent itself) succeeds and takes the counter below zero; if between one and 99 blocks are still in use then, the next
  \<open>kes_storage_get_stats\<close> converts a floating-point number that is too large to an integer, which is undefined.
\<close>

theorem get_stats_after_foreign_free:
  assumes s: "session os s x f L" "disk_coherent crc L f" "quiet os" "st_allocated_extents (sto_stats s) = 0"
    and e: "x_block_count e \<noteq> 0" "ext_blocks e \<subseteq> disk_used L f"
    and u: "0 < card (disk_used L f - ext_blocks e)" "card (disk_used L f - ext_blocks e) < 100"
  shows "\<exists>s' os'. kes_extent_free crc (Some s) (Some e) os = Some (KES_SUCCESS, Some s', os') \<and> kes_storage_get_stats (Some s') True = None"
proof -
  obtain r s' f' os' where F: "kes_extent_free crc (Some s) (Some e) os = Some (r, Some s', os')" "session os' s' x f' L"
    "os_after os os' x f'" "r = KES_SUCCESS \<longrightarrow> sto_desc s' = disk_desc f' \<and>
       sto_stats s' = (sto_stats s)\<lparr>st_allocated_extents := st_allocated_extents (sto_stats s) - 1\<rparr>"
    by (rule kes_extent_free_spec [OF s(1)])
  obtain g where g: "r = KES_SUCCESS" "disk_coherent crc L g" "disk_used L g = disk_used L f - ext_blocks e" "os_files os' = (os_files os)(of_path x \<mapsto> g)"
    using free_correct_raw [OF s(1-3) e(1)] e(2) F(1) by auto
  have "f' = g" using g(4) F(3) by (metis fun_upd_same option.inject os_after_def)
  then have r: "r = KES_SUCCESS" and c: "disk_coherent crc L f'" "disk_used L f' = disk_used L f - ext_blocks e" using g(1-3) by simp_all
  have "unat (d_used_blocks (sto_desc s')) = card (disk_used L f - ext_blocks e)"
    using F(4) r c by (simp add: disk_coherent_def)
  moreover have "st_allocated_extents (sto_stats s') = - 1" "\<not> sto_lock s'" using F(2,4) r s(4) by (simp_all add: session_def)
  ultimately have "kes_storage_get_stats (Some s') True = None"
    using fragmentation_below_zero [of "d_used_blocks (sto_desc s')"] u by (simp add: kes_storage_get_stats_def pthread_mutex_lock_def)
  then show ?thesis using F(1) r by blast
qed

text \<open>Two handles on a new storage: one allocates two extents of three blocks, the other one frees the first of them.\<close>

theorem get_stats_after_foreign_free_witness:
  "\<exists>s os1 h os2 s1 e1 os3 s2 e2 os4 h' os5.
     kes_storage_create sum_crc sample_os (Some sample_config) True = Some (KES_SUCCESS, Some s, os1) \<and>
     kes_storage_open sum_crc os1 (Some ''dev'') 0 True = Some (KES_SUCCESS, Some h, os2) \<and>
     kes_extent_allocate sum_crc (Some s) (Some sample_request) (Some sample_extent) (os2\<lparr>os_sched := []\<rparr>) =
       Some (KES_SUCCESS, Some s1, Some e1, os3) \<and>
     kes_extent_allocate sum_crc (Some s1) (Some sample_request) (Some sample_extent) os3 = Some (KES_SUCCESS, Some s2, Some e2, os4) \<and>
     kes_extent_free sum_crc (Some h) (Some e1) os4 = Some (KES_SUCCESS, Some h', os5) \<and>
     kes_storage_get_stats (Some h') True = None"
proof -
  obtain s x h y s1 e1 f3 os1 os2 os3 where
    S: "kes_storage_create sum_crc sample_os (Some sample_config) True = Some (KES_SUCCESS, Some s, os1)"
      "kes_storage_open sum_crc os1 (Some ''dev'') 0 True = Some (KES_SUCCESS, Some h, os2)"
      "kes_extent_allocate sum_crc (Some s) (Some sample_request) (Some sample_extent) (os2\<lparr>os_sched := []\<rparr>) =
         Some (KES_SUCCESS, Some s1, Some e1, os3)"
    and p: "of_path x = ''dev''" "of_path y = ''dev''" "quiet os3"
    and h: "session os3 s1 x f3 (sto_desc s)" "session os3 h y f3 (sto_desc s)" "disk_coherent sum_crc (sto_desc s) f3"
    and u: "disk_used (sto_desc s) f3 = ext_blocks e1" "x_start_block e1 = 0" "x_block_count e1 = 3" and z: "sto_stats h = zero_stats"
    by (rule sample_two_handles)
  let ?L = "sto_desc s"
  have "d_user_blocks ?L = 8" using create_handle(3) [OF S(1)] by (simp add: sample_config_def calculate_bitmap_blocks_def)
  then have fit: "fits (disk_used ?L f3) (unat (d_user_blocks ?L)) (unat (rq_block_count sample_request)) 3"
    using u by (simp add: fits_def sample_request_def ext_blocks_def)
  have n: "rq_block_count sample_request \<noteq> 0" by (simp add: sample_request_def)
  obtain s2 e2 f4 os4 where A: "kes_extent_allocate sum_crc (Some s1) (Some sample_request) (Some sample_extent) os3 =
      Some (KES_SUCCESS, Some s2, Some e2, os4)" "session os4 s2 x f4 ?L" "disk_coherent sum_crc ?L f4" "quiet os4" "os_fds os4 = os_fds os3"
    "os_files os4 = (os_files os3)(of_path x \<mapsto> f4)" "disk_used ?L f4 = disk_used ?L f3 \<union> ext_blocks e2"
    "x_block_count e2 = rq_block_count sample_request"
    "picks (disk_used ?L f3) (unat (d_user_blocks ?L)) (unat (rq_block_count sample_request)) (unat (rq_hint_block sample_request)) (unat (x_start_block e2))"
    using allocate_correct_raw [OF h(1,3) p(3) n, of sample_extent] fit by auto
  have st4: "disk_static ?L f4" using A(2) by (simp add: session_def)
  have "os_after os3 os4 x f4" using A(4-6) by (simp add: os_after_def)
  from session_other [OF h(2) this st4] have hs: "session os4 h y f4 ?L" using p by simp
  have b2: "ext_blocks e2 = {unat (x_start_block e2)..<unat (x_start_block e2) + 3}" using A(8) by (simp add: ext_blocks_def sample_request_def)
  have "ext_blocks e2 \<inter> ext_blocks e1 = {}" using picks_fits [OF A(9)] u(1) b2 by (simp add: sample_request_def)
  then have "disk_used ?L f4 - ext_blocks e1 = ext_blocks e2" using A(7) u(1) by blast
  then have k: "card (disk_used ?L f4 - ext_blocks e1) = 3" by (simp add: b2)
  have e: "x_block_count e1 \<noteq> 0" "ext_blocks e1 \<subseteq> disk_used ?L f4" "st_allocated_extents (sto_stats h) = 0"
    using u(1,3) A(7) z by (auto simp: zero_stats_def)
  show ?thesis using get_stats_after_foreign_free [OF hs A(3,4) e(3,1,2)] k S A(1) by auto
qed

end
