(* ===== verification/Kes_Example.thy ===== *)
theory Kes_Example
  imports Kes_Io_Contract Kes_Stats
begin

text \<open>
  The example program \<open>examples/example_kes_usage.c\<close>: a client that creates a storage of 50 MB, allocates
  extents, writes and reads them, frees some, allocates again, synchronises and closes, and prints what it does. The
  program is a list of phases in the order of \<open>main\<close>; a phase that meets an error prints it and ends the
  process. Each call of \<open>printf\<close> adds its text to the output; numbers are formatted as the C library does.
\<close>

section \<open>Formatting\<close>

abbreviation (input) nl :: string where "nl \<equiv> [CHR 0x0A]"

text \<open>\<open>%lu\<close>, \<open>%u\<close>, \<open>%zu\<close> and, for numbers that are not negative, \<open>%d\<close>; \<open>%.1f\<close> rounds the exact value of the double to the nearest tenth.\<close>

fun dec :: "nat \<Rightarrow> string" where
  "dec n = (if n < 10 then [''0123456789'' ! n] else dec (n div 10) @ [''0123456789'' ! (n mod 10)])"

declare dec.simps [simp del]

definition fixed1 :: "rat \<Rightarrow> string" where
  "fixed1 x = (let k = nat (round_half_even (10 * x)) in dec (k div 10) @ ''.'' @ dec (k mod 10))"

text \<open>Strings in buffers: \<open>snprintf\<close> cuts the text and terminates it, \<open>c_string\<close> reads up to the terminator.
  A buffer is represented by its initialised bytes.\<close>

definition c_snprintf :: "nat \<Rightarrow> string \<Rightarrow> u8 list" where
  "c_snprintf n text = map (\<lambda>c. of_nat (of_char c)) (take (n - 1) text) @ [0]"

definition c_strlen :: "u8 list \<Rightarrow> nat" where
  "c_strlen bs = length (takeWhile (\<lambda>b. b \<noteq> 0) bs)"

definition c_string :: "u8 list \<Rightarrow> string" where
  "c_string bs = map (\<lambda>b. char_of (unat b)) (takeWhile (\<lambda>b. b \<noteq> 0) bs)"

section \<open>The program\<close>

text \<open>The variables of \<open>main\<close>, the operating system and what has been printed.\<close>

record example =
  ex_os :: os
  ex_out :: "string list"
  ex_storage :: "kes_storage option"
  ex_extents :: "kes_extent_descriptor list"
  ex_large :: kes_extent_descriptor

datatype outcome = Exit int example | Go example

definition c_printf :: "string \<Rightarrow> example \<Rightarrow> example" where
  "c_printf text e = e\<lparr>ex_out := ex_out e @ [text]\<rparr>"

definition print_error_and_exit :: "string \<Rightarrow> int \<Rightarrow> example \<Rightarrow> outcome option" where
  "print_error_and_exit operation error_code e = do {
     msg \<leftarrow> kes_get_error_string error_code;
     Some (Exit 1 (c_printf (''Error in '' @ operation @ '': '' @ msg @ nl) e)) }"

definition checked :: "string \<Rightarrow> int \<Rightarrow> example \<Rightarrow> outcome option" where
  "checked operation result e = (if result \<noteq> KES_SUCCESS then print_error_and_exit operation result e else Some (Go e))"

text \<open>\<open>100.0 * n / total\<close> in doubles; for \<open>total = 0\<close> the quotient is not a number and has no value here.\<close>

definition percentage :: "u64 \<Rightarrow> u64 \<Rightarrow> rat option" where
  "percentage n blocks_total = (if blocks_total = 0 then None
     else Some (to_double (to_double (100 * to_double (of_nat (unat n))) / to_double (of_nat (unat blocks_total)))))"

definition info_lines :: "kes_storage_stats \<Rightarrow> string list option" where
  "info_lines stats = do {
     free_percent \<leftarrow> percentage (st_free_blocks stats) (st_total_blocks stats);
     used_percent \<leftarrow> percentage (st_used_blocks stats) (st_total_blocks stats);
     Some [nl @ ''Storage Information:'' @ nl,
       ''  Total blocks: '' @ dec (unat (st_total_blocks stats)) @ nl,
       ''  Free blocks:  '' @ dec (unat (st_free_blocks stats)) @ '' ('' @ fixed1 free_percent @ ''%)'' @ nl,
       ''  Used blocks:  '' @ dec (unat (st_used_blocks stats)) @ '' ('' @ fixed1 used_percent @ ''%)'' @ nl,
       ''  Allocated extents: '' @ dec (unat (st_allocated_extents stats)) @ nl,
       ''  Fragmentation: '' @ dec (unat (st_fragmentation stats)) @ ''%'' @ nl,
       nl] }"

text \<open>The result of \<open>kes_storage_get_stats\<close> is not looked at; without statistics the struct is not initialised.\<close>

definition print_storage_info :: "example \<Rightarrow> outcome option" where
  "print_storage_info e = do {
     (result, st, out) \<leftarrow> kes_storage_get_stats (ex_storage e) True;
     stats \<leftarrow> out;
     ls \<leftarrow> info_lines stats;
     Some (Go (e\<lparr>ex_storage := st, ex_out := ex_out e @ ls\<rparr>)) }"

definition example_path :: string where
  "example_path = ''/tmp/example_storage.kes''"

definition example_config :: kes_storage_config where
  "example_config = \<lparr>cfg_device_path = Some example_path, cfg_device_size = 50 * 1024 * 1024,
     cfg_block_size = KES_DEFAULT_BLOCK_SIZE, cfg_flags = KES_STORAGE_CREATE OR KES_STORAGE_TRUNCATE,
     cfg_strategy = KES_ALLOC_FIRST_FIT\<rparr>"

definition say :: "string \<Rightarrow> example \<Rightarrow> outcome option" where
  "say text e = Some (Go (c_printf text e))"

definition create_phase :: "(u32 \<Rightarrow> u8 list \<Rightarrow> u32) \<Rightarrow> example \<Rightarrow> outcome option" where
  "create_phase crc e = do {
     (result, st, os1) \<leftarrow> kes_storage_create crc (ex_os e) (Some example_config) True;
     checked ''kes_storage_create'' result (e\<lparr>ex_os := os1, ex_storage := st\<rparr>) }"

definition example_request :: "u32 \<Rightarrow> kes_extent_request" where
  "example_request n = \<lparr>rq_block_count = n, rq_alignment = 0, rq_hint_block = 0, rq_flags = 0\<rparr>"

definition allocate_one :: "(u32 \<Rightarrow> u8 list \<Rightarrow> u32) \<Rightarrow> nat \<Rightarrow> example \<Rightarrow> outcome option" where
  "allocate_one crc i e = do {
     (result, st, ext, os1) \<leftarrow> kes_extent_allocate crc (ex_storage e) (Some (example_request 8)) (Some (ex_extents e ! i)) (ex_os e);
     x \<leftarrow> ext;
     let e1 = e\<lparr>ex_os := os1, ex_storage := st, ex_extents := (ex_extents e)[i := x]\<rparr>;
     if result \<noteq> KES_SUCCESS then print_error_and_exit ''kes_extent_allocate'' result e1
     else say (''  Allocated extent '' @ dec (i + 1) @ '': start_block='' @ dec (unat (x_start_block x)) @
         '', count='' @ dec (unat (x_block_count x)) @ '', id='' @ dec (unat (x_extent_id x)) @ nl) e1 }"

definition test_data :: "nat \<Rightarrow> kes_extent_descriptor \<Rightarrow> string" where
  "test_data i x = ''This is test data for extent '' @ dec (i + 1) @ '' (ID: '' @ dec (unat (x_extent_id x)) @
     ''). The extent starts at block '' @ dec (unat (x_start_block x)) @ '' and contains '' @
     dec (unat (x_block_count x)) @ '' blocks. This demonstrates basic KES functionality!''"

definition write_one :: "nat \<Rightarrow> example \<Rightarrow> outcome option" where
  "write_one i e = (let x = ex_extents e ! i; data = c_snprintf 1024 (test_data i x) in do {
     (result, st, os1) \<leftarrow> kes_extent_write (ex_storage e) (Some x) (Some data) (of_nat (c_strlen data + 1)) 0 (ex_os e);
     checked ''kes_extent_write'' result (e\<lparr>ex_os := os1, ex_storage := st\<rparr>) })"

definition read_one :: "nat \<Rightarrow> example \<Rightarrow> outcome option" where
  "read_one i e = (let x = ex_extents e ! i; expected_data = c_snprintf 1024 (test_data i x);
       data_size = of_nat (c_strlen expected_data + 1) in do {
     (result, st, buf, os1) \<leftarrow> kes_extent_read (ex_storage e) (Some x) (Some (replicate 1024 0)) data_size 0 (ex_os e);
     read_buffer \<leftarrow> buf;
     let e1 = e\<lparr>ex_os := os1, ex_storage := st\<rparr>;
     if result \<noteq> KES_SUCCESS then do {
       msg \<leftarrow> kes_get_error_string result;
       print_error_and_exit ''kes_extent_read'' result
         (c_printf (''Failed to read extent '' @ dec (i + 1) @ '' (ID: '' @ dec (unat (x_extent_id x)) @ '', start_block: '' @
            dec (unat (x_start_block x)) @ ''): '' @ msg @ nl) e1) }
     else say (''  Extent '' @ dec (i + 1) @ '' data: '' @ take 100 (c_string read_buffer) @ ''...'' @ nl) e1 })"

definition free_one :: "(u32 \<Rightarrow> u8 list \<Rightarrow> u32) \<Rightarrow> nat \<Rightarrow> example \<Rightarrow> outcome option" where
  "free_one crc i e = do {
     (result, st, os1) \<leftarrow> kes_extent_free crc (ex_storage e) (Some (ex_extents e ! i)) (ex_os e);
     checked ''kes_extent_free'' result (e\<lparr>ex_os := os1, ex_storage := st\<rparr>) }"

definition allocate_large :: "(u32 \<Rightarrow> u8 list \<Rightarrow> u32) \<Rightarrow> example \<Rightarrow> outcome option" where
  "allocate_large crc e = do {
     (result, st, ext, os1) \<leftarrow> kes_extent_allocate crc (ex_storage e) (Some (example_request 20)) (Some (ex_large e)) (ex_os e);
     x \<leftarrow> ext;
     let e1 = e\<lparr>ex_os := os1, ex_storage := st, ex_large := x\<rparr>;
     if result \<noteq> KES_SUCCESS then print_error_and_exit ''large allocation'' result e1
     else say (''  Large extent: start_block='' @ dec (unat (x_start_block x)) @ '', count='' @ dec (unat (x_block_count x)) @
         '', id='' @ dec (unat (x_extent_id x)) @ nl) e1 }"

definition print_large_size :: "example \<Rightarrow> outcome option" where
  "print_large_size e = (let extent_bytes = kes_calculate_extent_size (Some (ex_large e)) in
     say (''Large extent size: '' @ dec (unat extent_bytes) @ '' bytes ('' @
       fixed1 (to_double (to_double (of_nat (unat extent_bytes)) / 1024)) @ '' KB)'' @ nl) e)"

definition sync_phase :: "(u32 \<Rightarrow> u8 list \<Rightarrow> u32) \<Rightarrow> example \<Rightarrow> outcome option" where
  "sync_phase crc e = do {
     (result, st, os1) \<leftarrow> kes_storage_sync crc (ex_storage e) (ex_os e);
     checked ''kes_storage_sync'' result (e\<lparr>ex_os := os1, ex_storage := st\<rparr>) }"

definition print_version :: "example \<Rightarrow> outcome option" where
  "print_version e = (case kes_get_version True True True of (major, minor, patch) \<Rightarrow> do {
     a \<leftarrow> major; b \<leftarrow> minor; c \<leftarrow> patch;
     say (''KES Library Version: '' @ dec (unat a) @ ''.'' @ dec (unat b) @ ''.'' @ dec (unat c) @ nl) e })"

definition close_phase :: "(u32 \<Rightarrow> u8 list \<Rightarrow> u32) \<Rightarrow> example \<Rightarrow> outcome option" where
  "close_phase crc e = do {
     (result, os1) \<leftarrow> kes_storage_close crc (ex_storage e) (ex_os e);
     checked ''kes_storage_close'' result (e\<lparr>ex_os := os1, ex_storage := None\<rparr>) }"

primrec run_phases :: "(example \<Rightarrow> outcome option) list \<Rightarrow> example \<Rightarrow> outcome option" where
  "run_phases [] e = Some (Go e)"
| "run_phases (c # cs) e = (case c e of None \<Rightarrow> None | Some (Exit k e') \<Rightarrow> Some (Exit k e') | Some (Go e') \<Rightarrow> run_phases cs e')"

text \<open>The loops of \<open>main\<close> run over the four extents; the last line but one starts with the three bytes of a check mark.\<close>

definition main_phases :: "(u32 \<Rightarrow> u8 list \<Rightarrow> u32) \<Rightarrow> (example \<Rightarrow> outcome option) list" where
  "main_phases crc =
     [say (''=== KES Storage Example ==='' @ nl), say (''Creating storage...'' @ nl), create_phase crc, print_storage_info,
      say (''Allocating extents...'' @ nl)] @ map (allocate_one crc) [0..<4] @
     [print_storage_info, say (''Writing data to extents...'' @ nl)] @ map write_one [0..<4] @
     [say (''Reading data back...'' @ nl)] @ map read_one [0..<4] @
     [say (nl @ ''Freeing extents 2 and 4...'' @ nl), free_one crc 1, free_one crc 3, print_storage_info,
      say (''Allocating a larger extent...'' @ nl), allocate_large crc, print_storage_info, print_large_size,
      say (nl @ ''Synchronizing storage...'' @ nl), sync_phase crc, print_storage_info, print_version,
      say (nl @ ''Closing storage...'' @ nl), close_phase crc,
      say ([CHR 0xE2, CHR 0x9C, CHR 0x85] @ '' Example completed successfully!'' @ nl),
      say (nl @ ''To clean up, remove: /tmp/example_storage.kes'' @ nl)]"

text \<open>\<open>main\<close> with its exit status, output and final file system; \<open>junk\<close> is what the variables hold before they are set.\<close>

definition main :: "(u32 \<Rightarrow> u8 list \<Rightarrow> u32) \<Rightarrow> (nat \<Rightarrow> kes_extent_descriptor) \<Rightarrow> os \<Rightarrow> (int \<times> string list \<times> os) option" where
  "main crc junk os = (case run_phases (main_phases crc)
       \<lparr>ex_os = os, ex_out = [], ex_storage = None, ex_extents = map junk [0..<4], ex_large = junk 4\<rparr> of
     None \<Rightarrow> None
   | Some (Exit k e) \<Rightarrow> Some (k, ex_out e, ex_os e)
   | Some (Go e) \<Rightarrow> Some (0, ex_out e, ex_os e))"

end
