(* ===== verification/Kes_Example_Contract.thy ===== *)
theory Kes_Example_Contract
  imports Kes_Example
begin

text \<open>
  What the example program does: its exact output and the file it leaves. The phases of the program are
  composed like the statements of a Hoare logic; a phase is specified by what it needs, what it prints and
  what it leaves, and by ending the process with status 1 only when an I/O call or an allocation failed.
\<close>

section \<open>Formatting\<close>

lemma dec_digit: "n < 10 \<Longrightarrow> dec n = [''0123456789'' ! n]"
  and dec_more: "10 \<le> n \<Longrightarrow> dec n = dec (n div 10) @ [''0123456789'' ! (n mod 10)]"
  by (simp_all add: dec.simps)

lemmas dec_eval = dec_digit dec_more

lemma round_half_even_div:
  assumes "0 < b"
  shows "round_half_even (of_nat a / of_nat b) =
    int (if 2 * (a mod b) < b \<or> 2 * (a mod b) = b \<and> even (a div b) then a div b else a div b + 1)"
proof -
  define x where "x = (of_nat a / of_nat b :: rat)"
  have f: "\<lfloor>x\<rfloor> = int (a div b)" by (simp add: x_def floor_divide_of_nat_eq)
  have "(of_nat a :: rat) = of_nat (a div b) * of_nat b + of_nat (a mod b)"
    by (metis div_mult_mod_eq of_nat_add of_nat_mult)
  then have d: "x - of_int \<lfloor>x\<rfloor> = (of_nat (a mod b) :: rat) / of_nat b" using assms by (simp add: f) (simp add: x_def field_simps)
  have "(of_nat (a mod b) :: rat) / of_nat b < 1 / 2 \<longleftrightarrow> (of_nat (2 * (a mod b)) :: rat) < of_nat b"
    "(of_nat (a mod b) :: rat) / of_nat b = 1 / 2 \<longleftrightarrow> (of_nat (2 * (a mod b)) :: rat) = of_nat b"
    using assms by (simp_all add: divide_less_eq divide_eq_eq mult.commute)
  then have c: "(x - of_int \<lfloor>x\<rfloor> < 1 / 2) = (2 * (a mod b) < b)" "(x - of_int \<lfloor>x\<rfloor> = 1 / 2) = (2 * (a mod b) = b)"
    unfolding d of_nat_less_iff of_nat_eq_iff by blast+
  show ?thesis unfolding x_def [symmetric] round_half_even_def Let_def c unfolding f by simp
qed

lemma fixed1_div:
  assumes "0 < b"
  shows "fixed1 (of_nat a / of_nat b) = (let q = 10 * a div b; r = 10 * a mod b;
     k = if 2 * r < b \<or> 2 * r = b \<and> even q then q else q + 1 in dec (k div 10) @ ''.'' @ dec (k mod 10))"
proof -
  have "10 * (of_nat a / of_nat b :: rat) = of_nat (10 * a) / of_nat b" by simp
  then show ?thesis unfolding fixed1_def Let_def by (simp only: round_half_even_div [OF assms] nat_int)
qed

text \<open>Percentages of 6400 blocks are sixty-fourths, which doubles represent exactly.\<close>

lemma percentage_6400:
  assumes "unat n < 2 ^ 40"
  shows "percentage n 6400 = Some (of_nat (unat n) / of_nat 64)"
proof -
  have "to_double (of_nat (100 * unat n)) = of_nat (100 * unat n)" "to_double (of_nat (unat n)) = of_nat (unat n)"
    "to_double (of_nat 6400) = of_nat 6400" by (rule to_double_nat; use assms in simp)+
  moreover have "(of_nat (100 * unat n) / of_nat 6400 :: rat) = of_nat (unat n) / 2 ^ 6" by simp
  moreover have "to_double (of_nat (unat n) / 2 ^ 6) = of_nat (unat n) / 2 ^ 6"
    by (rule to_double_dyadic) (use assms in simp)
  ultimately show ?thesis by (simp add: percentage_def)
qed

lemma terminated:
  fixes str :: string
  assumes "CHR 0x00 \<notin> set str" "length str < n"
  shows "c_snprintf n str = map (\<lambda>c. of_nat (of_char c)) str @ [0]" "c_strlen (c_snprintf n str) = length str"
    "c_string (c_snprintf n str @ rest) = str"
proof -
  have b: "unat (of_nat (of_char c) :: u8) = of_char c" for c
    by (simp add: unat_of_nat)
  have z: "(of_nat (of_char c) :: u8) = 0 \<longleftrightarrow> c = CHR 0x00" for c
    using b [of c] by (cases c) auto
  show e: "c_snprintf n str = map (\<lambda>c. of_nat (of_char c)) str @ [0]" using assms(2) by (simp add: c_snprintf_def)
  have t: "takeWhile (\<lambda>b. b \<noteq> 0) ((map (\<lambda>c. of_nat (of_char c)) str :: u8 list) @ 0 # cs) = map (\<lambda>c. of_nat (of_char c)) str" for cs
    using assms(1) by (subst takeWhile_append2) (auto simp: z)
  show "c_strlen (c_snprintf n str) = length str" using t [of "[]"] by (simp add: e c_strlen_def)
  show "c_string (c_snprintf n str @ rest) = str" using t [of rest] by (simp add: e c_string_def b comp_def)
qed

section \<open>Composing phases\<close>

text \<open>The steps of the program in order: the lines it prints and the calls of the library that may fail, of which the one that
  reads an extent has a message of its own.\<close>

datatype step = Line string | Call string | Read nat

definition texts :: "step list \<Rightarrow> string list" where
  "texts ts = concat (map (\<lambda>t. case t of Line l \<Rightarrow> [l] | _ \<Rightarrow> []) ts)"

text \<open>What is printed when a step fails with the message \<open>msg\<close>; printing a line does not fail.\<close>

fun report :: "step \<Rightarrow> string \<Rightarrow> string list option" where
  "report (Line l) msg = None"
| "report (Call oper) msg = Some [''Error in '' @ oper @ '': '' @ msg @ nl]"
| "report (Read i) msg = Some [''Failed to read extent '' @ dec (i + 1) @ '' (ID: '' @ dec (i + 2) @ '', start_block: '' @ dec (8 * i) @ ''): '' @ msg @ nl,
     ''Error in kes_extent_read: '' @ msg @ nl]"

text \<open>The output of a program with the steps \<open>ts\<close> that a failing step has ended: the lines before that step, and its report.\<close>

definition stopped :: "step list \<Rightarrow> string list \<Rightarrow> bool" where
  "stopped ts out \<longleftrightarrow> (\<exists>pre t post r msg errs. ts = pre @ t # post \<and> r \<noteq> KES_SUCCESS \<and> kes_get_error_string r = Some msg \<and>
     report t msg = Some errs \<and> out = texts pre @ errs)"

lemma texts_simps [simp]:
  "texts [] = []" "texts (Line l # ts) = l # texts ts" "texts (Call c # ts) = texts ts" "texts (Read i # ts) = texts ts"
  "texts (ts @ us) = texts ts @ texts us" "texts (map Line ls) = ls"
  by (simp_all add: texts_def comp_def)

lemma stopped_left: "stopped ts out \<Longrightarrow> stopped (ts @ us) out"
  unfolding stopped_def by (metis append.assoc append_Cons)

lemma stopped_right: "stopped us out \<Longrightarrow> stopped (ts @ us) (texts ts @ out)"
  unfolding stopped_def by (metis append.assoc texts_simps(5))

lemma stopped_here: "r \<noteq> KES_SUCCESS \<Longrightarrow> kes_get_error_string r = Some msg \<Longrightarrow> report t msg = Some errs \<Longrightarrow> stopped (t # ts) errs"
  unfolding stopped_def by (intro exI [of _ "[]"] exI [of _ t] exI [of _ ts] exI [of _ r] exI [of _ msg] exI [of _ errs]) simp

text \<open>\<open>runs q P c ts Q\<close>: from a state with \<open>P\<close> the phase \<open>c\<close> makes the steps \<open>ts\<close>, prints their lines and leaves \<open>Q\<close>; or it ends the process
  with status 1 at a step that fails. With \<open>q\<close> no fault is scheduled and the process goes on.\<close>

definition runs :: "bool \<Rightarrow> (example \<Rightarrow> bool) \<Rightarrow> (example \<Rightarrow> outcome option) \<Rightarrow> step list \<Rightarrow> (example \<Rightarrow> bool) \<Rightarrow> bool" where
  "runs q P c ts Q \<longleftrightarrow> (\<forall>e. P e \<and> (q \<longrightarrow> quiet (ex_os e)) \<longrightarrow>
     (\<exists>e'. c e = Some (Go e') \<and> Q e' \<and> ex_out e' = ex_out e @ texts ts \<and> (q \<longrightarrow> quiet (ex_os e'))) \<or>
     (\<exists>e' out. c e = Some (Exit 1 e') \<and> \<not> q \<and> stopped ts out \<and> ex_out e' = ex_out e @ out))"

lemma runs_go:
  assumes "\<And>e. P e \<Longrightarrow> q \<longrightarrow> quiet (ex_os e) \<Longrightarrow> \<exists>e'. c e = Some (Go e') \<and> Q e' \<and> ex_out e' = ex_out e @ texts ts \<and> (q \<longrightarrow> quiet (ex_os e'))"
  shows "runs q P c ts Q"
  using assms unfolding runs_def by blast

lemma runs_nil: "runs q P (run_phases []) [] P"
  by (rule runs_go) simp

lemma runs_cons:
  assumes c: "runs q P c ts Q" and cs: "runs q Q (run_phases cs) us R"
  shows "runs q P (run_phases (c # cs)) (ts @ us) R"
  unfolding runs_def
proof (intro allI impI)
  fix e
  assume e: "P e \<and> (q \<longrightarrow> quiet (ex_os e))"
  let ?go = "\<exists>e'. run_phases (c # cs) e = Some (Go e') \<and> R e' \<and> ex_out e' = ex_out e @ texts (ts @ us) \<and> (q \<longrightarrow> quiet (ex_os e'))"
  let ?ex = "\<exists>e' out. run_phases (c # cs) e = Some (Exit 1 e') \<and> \<not> q \<and> stopped (ts @ us) out \<and> ex_out e' = ex_out e @ out"
  consider (go) e' where "c e = Some (Go e')" "Q e'" "ex_out e' = ex_out e @ texts ts" "q \<longrightarrow> quiet (ex_os e')"
    | (exit) e' out where "c e = Some (Exit 1 e')" "\<not> q" "stopped ts out" "ex_out e' = ex_out e @ out"
    using c e unfolding runs_def by meson
  then show "?go \<or> ?ex"
  proof cases
    case exit
    then show ?thesis using stopped_left by (intro disjI2 exI [of _ e'] exI [of _ out]) simp
  next
    case (go e1)
    consider (go2) e2 where "run_phases cs e1 = Some (Go e2)" "R e2" "ex_out e2 = ex_out e1 @ texts us" "q \<longrightarrow> quiet (ex_os e2)"
      | (exit2) e2 out where "run_phases cs e1 = Some (Exit 1 e2)" "\<not> q" "stopped us out" "ex_out e2 = ex_out e1 @ out"
      using cs go(2,4) unfolding runs_def by meson
    then show ?thesis
    proof cases
      case go2
      then show ?thesis using go by (intro disjI1 exI [of _ e2]) simp
    next
      case exit2
      then show ?thesis using go stopped_right by (intro disjI2 exI [of _ e2] exI [of _ "texts ts @ out"]) simp
    qed
  qed
qed

text \<open>A \<open>for\<close> loop with the invariant \<open>P\<close>, and what follows it.\<close>

lemma runs_for:
  assumes body: "\<And>i. i < n \<Longrightarrow> runs q (P i) (body i) (ts i) (P (Suc i))" and rest: "runs q (P n) (run_phases rest) us R" and "k \<le> n"
  shows "runs q (P k) (run_phases (map body [k..<n] @ rest)) (concat (map ts [k..<n]) @ us) R"
  using assms(3)
proof (induction rule: inc_induct)
  case base
  then show ?case using rest by simp
next
  case (step k)
  then have "[k..<n] = k # [Suc k..<n]" by (simp add: upt_conv_Cons)
  then show ?case using runs_cons [OF body [OF step(2)] step(3)] by (simp del: run_phases.simps)
qed

section \<open>The stages of the program\<close>

definition nth_extent :: "nat \<Rightarrow> kes_extent_descriptor" where
  "nth_extent i = \<lparr>x_start_block = of_nat (8 * i), x_block_count = 8, x_flags = 0, x_extent_id = of_nat (i + 2)\<rparr>"

definition large_extent :: kes_extent_descriptor where
  "large_extent = \<lparr>x_start_block = 24, x_block_count = 20, x_flags = 0, x_extent_id = 6\<rparr>"

definition data_at :: "nat \<Rightarrow> u8 list" where
  "data_at i = c_snprintf 1024 (test_data i (nth_extent i))"

text \<open>The file: its dimensions, which blocks are in use, the next extent id, and the data of the first \<open>w\<close> extents.\<close>

definition example_disk ::
    "(u32 \<Rightarrow> u8 list \<Rightarrow> u32) \<Rightarrow> nat set \<Rightarrow> nat \<Rightarrow> nat \<Rightarrow> kes_storage_descriptor \<Rightarrow> ofile \<Rightarrow> bool" where
  "example_disk crc U nxt w L f \<longleftrightarrow> d_total_blocks L = 6400 \<and> d_user_blocks L = 6398 \<and> d_block_size L = 8192 \<and> layout_ok L \<and>
     disk_coherent crc L f \<and> disk_used L f = U \<and> d_next_extent_id (disk_desc f) = of_nat nxt \<and>
     (\<forall>i < w. f_holds f (ext_at L (nth_extent i)) (data_at i))"

text \<open>The state between two phases: an open handle on such a file, the number of extents it has allocated, and the first \<open>k\<close>
  extents of the program, of which the fifth is the large one.\<close>

definition stage ::
    "(u32 \<Rightarrow> u8 list \<Rightarrow> u32) \<Rightarrow> nat set \<Rightarrow> nat \<Rightarrow> nat \<Rightarrow> nat \<Rightarrow> nat \<Rightarrow> example \<Rightarrow> bool" where
  "stage crc U nxt a k w e \<longleftrightarrow> (\<exists>s x f L. ex_storage e = Some s \<and> session (ex_os e) s x f L \<and> of_path x = example_path \<and>
     example_disk crc U nxt w L f \<and> sto_desc s = disk_desc f \<and> st_allocated_extents (sto_stats s) = of_nat a) \<and>
     length (ex_extents e) = 4 \<and> (\<forall>i < min k 4. ex_extents e ! i = nth_extent i) \<and> (k = 5 \<longrightarrow> ex_large e = large_extent)"

lemma stage_out [simp]: "stage crc U nxt a k w (e\<lparr>ex_out := ls\<rparr>) = stage crc U nxt a k w e"
  by (simp add: stage_def)

lemma stage_update:
  assumes "stage crc U0 nxt0 a0 k w0 e" "session os s x f L" "of_path x = example_path" "example_disk crc U nxt w L f"
    "sto_desc s = disk_desc f" "st_allocated_extents (sto_stats s) = of_nat a"
  shows "stage crc U nxt a k w (e\<lparr>ex_os := os, ex_storage := Some s\<rparr>)"
  using assms unfolding stage_def by auto

lemma runs_say:
  assumes "\<And>e ls. P (e\<lparr>ex_out := ls\<rparr>) = P e"
  shows "runs q P (say t) [Line t] P"
  by (rule runs_go) (simp add: say_def c_printf_def assms)

lemma error_message: "r \<in> {- 8..0} \<Longrightarrow> \<exists>msg. kes_get_error_string r = Some msg"
  by (auto simp: kes_get_error_string_def error_strings_def)

text \<open>A phase that calls the library once: it goes on with success, printing a line or nothing, and exits otherwise.\<close>

lemma runs_checked_lines:
  assumes "\<And>e. P e \<Longrightarrow> q \<longrightarrow> quiet (ex_os e) \<Longrightarrow> \<exists>r e1. (if r \<noteq> KES_SUCCESS then c e = print_error_and_exit oper r e1
      else \<exists>e2. c e = Some (Go e2) \<and> Q e2 \<and> ex_out e2 = ex_out e @ ls \<and> (q \<longrightarrow> quiet (ex_os e2))) \<and>
      ex_out e1 = ex_out e \<and> r \<in> {- 8..0} \<and> (q \<longrightarrow> r = KES_SUCCESS)"
  shows "runs q P c (Call oper # map Line ls) Q"
  unfolding runs_def
proof (intro allI impI)
  fix e
  assume "P e \<and> (q \<longrightarrow> quiet (ex_os e))"
  then obtain r e1 where r: "if r \<noteq> KES_SUCCESS then c e = print_error_and_exit oper r e1
      else \<exists>e2. c e = Some (Go e2) \<and> Q e2 \<and> ex_out e2 = ex_out e @ ls \<and> (q \<longrightarrow> quiet (ex_os e2))"
    "ex_out e1 = ex_out e" "r \<in> {- 8..0}" "q \<longrightarrow> r = KES_SUCCESS" using assms by meson
  show "(\<exists>e'. c e = Some (Go e') \<and> Q e' \<and> ex_out e' = ex_out e @ texts (Call oper # map Line ls) \<and> (q \<longrightarrow> quiet (ex_os e'))) \<or>
    (\<exists>e' out. c e = Some (Exit 1 e') \<and> \<not> q \<and> stopped (Call oper # map Line ls) out \<and> ex_out e' = ex_out e @ out)"
  proof (cases "r = KES_SUCCESS")
    case True
    then show ?thesis using r(1) by simp
  next
    case False
    obtain msg where msg: "kes_get_error_string r = Some msg" using error_message [OF r(3)] by blast
    have "stopped (Call oper # map Line ls) [''Error in '' @ oper @ '': '' @ msg @ nl]" by (rule stopped_here [OF False msg]) simp
    moreover have "c e = Some (Exit 1 (c_printf (''Error in '' @ oper @ '': '' @ msg @ nl) e1))"
      using r(1) False msg by (simp add: print_error_and_exit_def)
    ultimately show ?thesis using r(2,4) False by (auto simp: c_printf_def)
  qed
qed

lemma runs_checked:
  assumes "\<And>e. P e \<Longrightarrow> q \<longrightarrow> quiet (ex_os e) \<Longrightarrow> \<exists>r e1. c e = checked oper r e1 \<and> ex_out e1 = ex_out e \<and> r \<in> {- 8..0} \<and>
      (q \<longrightarrow> r = KES_SUCCESS \<and> quiet (ex_os e1)) \<and> (r = KES_SUCCESS \<longrightarrow> Q e1)"
  shows "runs q P c [Call oper] Q"
proof -
  have "runs q P c (Call oper # map Line []) Q"
  proof (rule runs_checked_lines)
    fix e
    assume "P e" "q \<longrightarrow> quiet (ex_os e)"
    then obtain r e1 where "c e = checked oper r e1" "ex_out e1 = ex_out e" "r \<in> {- 8..0}"
      "q \<longrightarrow> r = KES_SUCCESS \<and> quiet (ex_os e1)" "r = KES_SUCCESS \<longrightarrow> Q e1" using assms by blast
    then show "\<exists>r e1. (if r \<noteq> KES_SUCCESS then c e = print_error_and_exit oper r e1
        else \<exists>e2. c e = Some (Go e2) \<and> Q e2 \<and> ex_out e2 = ex_out e @ [] \<and> (q \<longrightarrow> quiet (ex_os e2))) \<and>
        ex_out e1 = ex_out e \<and> r \<in> {- 8..0} \<and> (q \<longrightarrow> r = KES_SUCCESS)"
      by (intro exI [of _ r] exI [of _ e1]) (simp add: checked_def)
  qed
  then show ?thesis by simp
qed

lemma runs_checked_say:
  assumes "\<And>e. P e \<Longrightarrow> q \<longrightarrow> quiet (ex_os e) \<Longrightarrow> \<exists>r e1 t. c e = (if r \<noteq> KES_SUCCESS then print_error_and_exit oper r e1 else say t e1) \<and>
      ex_out e1 = ex_out e \<and> r \<in> {- 8..0} \<and> (q \<longrightarrow> r = KES_SUCCESS \<and> quiet (ex_os e1)) \<and> (r = KES_SUCCESS \<longrightarrow> Q e1 \<and> t = line)"
    and Q: "\<And>e ls. Q (e\<lparr>ex_out := ls\<rparr>) = Q e"
  shows "runs q P c [Call oper, Line line] Q"
proof -
  have "runs q P c (Call oper # map Line [line]) Q"
  proof (rule runs_checked_lines)
    fix e
    assume "P e" "q \<longrightarrow> quiet (ex_os e)"
    then obtain r e1 t where "c e = (if r \<noteq> KES_SUCCESS then print_error_and_exit oper r e1 else say t e1)" "ex_out e1 = ex_out e" "r \<in> {- 8..0}"
      "q \<longrightarrow> r = KES_SUCCESS \<and> quiet (ex_os e1)" "r = KES_SUCCESS \<longrightarrow> Q e1 \<and> t = line" using assms(1) by blast
    then show "\<exists>r e1. (if r \<noteq> KES_SUCCESS then c e = print_error_and_exit oper r e1
        else \<exists>e2. c e = Some (Go e2) \<and> Q e2 \<and> ex_out e2 = ex_out e @ [line] \<and> (q \<longrightarrow> quiet (ex_os e2))) \<and>
        ex_out e1 = ex_out e \<and> r \<in> {- 8..0} \<and> (q \<longrightarrow> r = KES_SUCCESS)"
      by (intro exI [of _ r] exI [of _ e1]) (simp add: say_def c_printf_def Q)
  qed
  then show ?thesis by simp
qed

text \<open>The user area survives everything but writes, and with it the data.\<close>

lemma start_nth: "i < 4 \<Longrightarrow> unat (x_start_block (nth_extent i)) = 8 * i"
  by (simp add: nth_extent_def unat_of_nat del: of_nat_mult)

lemma blocks_nth: "i < 4 \<Longrightarrow> ext_blocks (nth_extent i) = {8 * i..<8 * i + 8}"
  using start_nth [of i] by (simp add: ext_blocks_def) (simp add: nth_extent_def)

lemma ext_at_nth: "d_block_size L = 8192 \<Longrightarrow> i < 4 \<Longrightarrow> ext_at L (nth_extent i) = (1 + 8 * i) * 8192"
  by (simp add: ext_at_def start_nth block_bytes_def)

lemma inside_nth: "d_user_blocks L = 6398 \<Longrightarrow> i < 4 \<Longrightarrow> ext_inside L (nth_extent i)"
  using start_nth [of i] by (simp add: ext_inside_def) (simp add: nth_extent_def)

lemma test_data_ok:
  assumes "i < 4"
  shows "CHR 0x00 \<notin> set (test_data i (nth_extent i))" "length (test_data i (nth_extent i)) < 200" "100 < length (test_data i (nth_extent i))"
proof -
  have i: "i = 0 \<or> i = 1 \<or> i = 2 \<or> i = 3" using assms by auto
  then show "CHR 0x00 \<notin> set (test_data i (nth_extent i))" "length (test_data i (nth_extent i)) < 200" "100 < length (test_data i (nth_extent i))"
    by (elim disjE; simp add: test_data_def nth_extent_def dec_eval)+
qed

lemma data_len:
  assumes "i < 4"
  shows "data_at i \<noteq> []" "length (data_at i) \<le> 200" "c_strlen (data_at i) + 1 = length (data_at i)"
  using terminated [OF test_data_ok(1), of i 1024] test_data_ok(2) [OF assms] assms by (simp_all add: data_at_def)

lemma example_disk_kept:
  assumes d: "example_disk crc U nxt w L f" and k: "user_area_kept L f f'" and w: "w \<le> 4"
    and f': "disk_coherent crc L f'" "disk_used L f' = U'" "d_next_extent_id (disk_desc f') = of_nat nxt'"
  shows "example_disk crc U' nxt' w L f'"
proof -
  have D: "layout_ok L" "d_user_blocks L = 6398" "d_block_size L = 8192" using d by (simp_all add: example_disk_def)
  have "f_holds f' (ext_at L (nth_extent i)) (data_at i)" if i: "i < w" for i
  proof -
    have i4: "i < 4" using i w by simp
    note R = ext_range [OF D(1) inside_nth [OF D(2) i4]]
    have "ext_bytes L (nth_extent i) = 65536" by (simp add: ext_bytes_def nth_extent_def block_bytes_def D(3))
    then have "ext_at L (nth_extent i) + length (data_at i) \<le> bitmap_at L" using R(2) data_len(2) [OF i4] by linarith
    moreover have "f_holds f (ext_at L (nth_extent i)) (data_at i)" using d i by (simp add: example_disk_def)
    ultimately show ?thesis using k R(1) unfolding user_area_kept_def by blast
  qed
  then show ?thesis using d f' by (simp add: example_disk_def)
qed

section \<open>The phases\<close>

definition info_text :: "nat \<Rightarrow> nat \<Rightarrow> string list" where
  "info_text u a =
    [nl @ ''Storage Information:'' @ nl, ''  Total blocks: 6400'' @ nl,
     ''  Free blocks:  '' @ dec (6398 - u) @ '' ('' @ fixed1 (of_nat (6398 - u) / of_nat 64) @ ''%)'' @ nl,
     ''  Used blocks:  '' @ dec u @ '' ('' @ fixed1 (of_nat u / of_nat 64) @ ''%)'' @ nl,
     ''  Allocated extents: '' @ dec a @ nl,
     ''  Fragmentation: '' @ dec (if a = 0 \<or> u = 0 then 0 else 100 * (a - 1) div u) @ ''%'' @ nl, nl]"

lemma info_runs:
  assumes u: "card U = u" "u \<le> 6398" "a \<le> 4"
  shows "runs q (stage crc U nxt a k w) print_storage_info (map Line (info_text u a)) (stage crc U nxt a k w)"
proof (rule runs_go)
  fix e
  assume st: "stage crc U nxt a k w e" and q: "q \<longrightarrow> quiet (ex_os e)"
  then obtain s x f L where s: "ex_storage e = Some s" "session (ex_os e) s x f L" "example_disk crc U nxt w L f"
    "sto_desc s = disk_desc f" "st_allocated_extents (sto_stats s) = of_nat a" by (auto simp: stage_def)
  have D: "disk_coherent crc L f" "d_user_blocks L = 6398" "d_total_blocks L = 6400" "disk_used L f = U" "\<not> sto_lock s"
    "layout (sto_desc s) = layout L" using s(2,3) by (simp_all add: example_disk_def session_def handle_ok_def)
  have n: "unat (d_used_blocks (sto_desc s)) = u" "unat (d_free_blocks (sto_desc s)) = 6398 - u" "d_total_blocks (sto_desc s) = 6400"
    "unat (st_allocated_extents (sto_stats s)) = a"
    using D(1-4) u s(4,5) layout_fields(10) [OF D(6)] by (auto simp: disk_coherent_def unat_of_nat)
  have z: "st_allocated_extents (sto_stats s) = 0 \<longleftrightarrow> a = 0" "d_used_blocks (sto_desc s) = 0 \<longleftrightarrow> u = 0"
    using n(1,4) by (metis unat_eq_zero)+
  have "100 * (a - 1) div u < 2 ^ 64" by (rule le_less_trans [OF div_le_dividend]) (use u(3) in simp)
  then have fr: "unat (if a = 0 \<or> u = 0 then 0 else of_nat (100 * (a - 1) div u) :: u64) = (if a = 0 \<or> u = 0 then 0 else 100 * (a - 1) div u)"
    by (simp add: unat_of_nat)
  have "kes_storage_get_stats (ex_storage e) True = Some (KES_SUCCESS, Some s, Some ((sto_stats s)
    \<lparr>st_total_blocks := 6400, st_free_blocks := d_free_blocks (sto_desc s), st_used_blocks := d_used_blocks (sto_desc s),
     st_fragmentation := (if a = 0 \<or> u = 0 then 0 else of_nat (100 * (a - 1) div u))\<rparr>))"
    using storage_stats_eq [of s] D(5) u unfolding s(1) n z by simp
  moreover have "dec 6400 = ''6400''" by (simp add: dec_eval)
  moreover have "e\<lparr>ex_storage := Some s\<rparr> = e" using s(1) by (cases e) simp
  ultimately show "\<exists>e'. print_storage_info e = Some (Go e') \<and> stage crc U nxt a k w e' \<and> ex_out e' = ex_out e @ texts (map Line (info_text u a)) \<and> (q \<longrightarrow> quiet (ex_os e'))"
    using st q u n percentage_6400 [of "d_free_blocks (sto_desc s)"] percentage_6400 [of "d_used_blocks (sto_desc s)"] fr
    by (simp add: print_storage_info_def info_lines_def info_text_def)
qed

lemma picks_first:
  assumes "picks U T n 0 s" "fits U T n j" "\<forall>i < j. \<not> fits U T n i"
  shows "s = j"
proof -
  have "fits U T n s" "\<forall>i < s. \<not> fits U T n i" using assms(1) by (auto simp: picks_def split: if_splits)
  then show ?thesis using assms(2,3) by (meson linorder_neqE_nat)
qed

lemma fits_used: "j \<le> m \<Longrightarrow> m < j + n \<Longrightarrow> m \<in> U \<Longrightarrow> \<not> fits U T n j"
  by (auto simp: fits_def)

lemma allocate_stage:
  assumes st: "stage crc U nxt a k w e" and w: "w \<le> 4" and n: "n \<noteq> 0"
    and fit: "fits U 6398 (unat n) j" "\<forall>i < j. \<not> fits U 6398 (unat n) i"
  obtains r s' y' os1 where
    "kes_extent_allocate crc (ex_storage e) (Some (example_request n)) (Some y) (ex_os e) = Some (r, Some s', Some y', os1)"
    "r \<in> {- 8..0}" "quiet (ex_os e) \<longrightarrow> r = KES_SUCCESS \<and> quiet os1"
    "r = KES_SUCCESS \<longrightarrow> y' = \<lparr>x_start_block = of_nat j, x_block_count = n, x_flags = 0, x_extent_id = of_nat (nxt + 1)\<rparr> \<and>
       stage crc (U \<union> {j..<j + unat n}) (nxt + 1) (a + 1) k w (e\<lparr>ex_os := os1, ex_storage := Some s'\<rparr>)"
proof -
  obtain s x f L where s: "ex_storage e = Some s" "session (ex_os e) s x f L" "of_path x = example_path" "example_disk crc U nxt w L f"
    "sto_desc s = disk_desc f" "st_allocated_extents (sto_stats s) = of_nat a" using st by (auto simp: stage_def)
  have D: "disk_coherent crc L f" "d_user_blocks L = 6398" "disk_used L f = U" "layout_ok L" "d_next_extent_id (disk_desc f) = of_nat nxt"
    using s(4) by (simp_all add: example_disk_def)
  let ?rq = "example_request n"
  have rq: "rq_block_count ?rq \<noteq> 0" "rq_block_count ?rq = n" "rq_hint_block ?rq = 0" "rq_flags ?rq = 0"
    using n by (simp_all add: example_request_def)
  obtain r s' y' f' os1 where A:
    "kes_extent_allocate crc (Some s) (Some ?rq) (Some y) (ex_os e) = Some (r, Some s', Some y', os1)"
    "session os1 s' x f' L" "os_after (ex_os e) os1 x f'" "alloc_post crc L ?rq r y' f f'"
    "quiet (ex_os e) \<longrightarrow> r \<noteq> KES_ERROR_IO" "sto_fd s' = sto_fd s" "r = KES_SUCCESS \<longrightarrow> sto_desc s' = disk_desc f' \<and>
       sto_stats s' = (sto_stats s)\<lparr>st_allocated_extents := st_allocated_extents (sto_stats s) + 1\<rparr>"
    by (rule kes_extent_allocate_spec [OF s(2) rq(1)])
  have P: "r = KES_SUCCESS \<or> r = KES_ERROR_IO \<or> r = KES_ERROR_NOSPACE" "user_area_kept L f f'"
    "r = KES_ERROR_NOSPACE \<longrightarrow> (\<forall>j. \<not> fits U 6398 (unat n) j)"
    using A(4) D(2,3) rq(2) unfolding alloc_post_def Let_def by simp_all
  have ok: "y' = \<lparr>x_start_block = of_nat j, x_block_count = n, x_flags = 0, x_extent_id = of_nat (nxt + 1)\<rparr> \<and>
       stage crc (U \<union> {j..<j + unat n}) (nxt + 1) (a + 1) k w (e\<lparr>ex_os := os1, ex_storage := Some s'\<rparr>)" if r: "r = KES_SUCCESS"
  proof -
    note Q = alloc_post_success [OF A(4) [unfolded r], unfolded rq D]
    have j: "unat (x_start_block y') = j" using picks_first [OF _ fit] Q(1) by simp
    then have y: "y' = \<lparr>x_start_block = of_nat j, x_block_count = n, x_flags = 0, x_extent_id = of_nat (nxt + 1)\<rparr>"
      using Q(2-4) by (cases y') (auto simp: add.commute)
    have "ext_blocks y' = {j..<j + unat n}" using j Q(2) by (simp add: ext_blocks_def)
    then have "example_disk crc (U \<union> {j..<j + unat n}) (nxt + 1) w L f'"
      using alloc_coherent [OF D(1) A(4) [unfolded r] _ D(4)] A(2) Q(5,7) D(5)
      by (intro example_disk_kept [OF s(4) P(2) w]) (simp_all add: session_def add.commute)
    then show ?thesis using y st A(2,7) r s(3,6) by (auto simp: stage_def add.commute)
  qed
  show thesis
    by (rule that [OF A(1) [folded s(1)]]) (use P(1,3) A(3,5) fit(1) ok in \<open>auto simp: os_after_def\<close>)
qed

definition alloc_line :: "nat \<Rightarrow> string" where
  "alloc_line i = ''  Allocated extent '' @ dec (i + 1) @ '': start_block='' @ dec (8 * i) @ '', count=8, id='' @ dec (i + 2) @ nl"

lemma allocate_one_runs:
  assumes i: "i < 4"
  shows "runs q (stage crc {..<8 * i} (i + 1) i i 0) (allocate_one crc i)
    [Call ''kes_extent_allocate'', Line (alloc_line i)]
    (stage crc {..<8 * Suc i} (Suc i + 1) (Suc i) (Suc i) 0)"
proof (rule runs_checked_say)
  fix e
  assume e: "stage crc {..<8 * i} (i + 1) i i 0 e" "q \<longrightarrow> quiet (ex_os e)"
  have fit: "fits {..<8 * i} 6398 8 (8 * i)" "\<forall>j < 8 * i. \<not> fits {..<8 * i} 6398 8 j"
    using i by (auto simp: fits_def [of _ _ _ "8 * i"] fits_used [OF order_refl])
  obtain r s' y' os1 where A:
    "kes_extent_allocate crc (ex_storage e) (Some (example_request 8)) (Some (ex_extents e ! i)) (ex_os e) = Some (r, Some s', Some y', os1)"
    "r \<in> {- 8..0}" "quiet (ex_os e) \<longrightarrow> r = KES_SUCCESS \<and> quiet os1"
    "r = KES_SUCCESS \<longrightarrow> y' = \<lparr>x_start_block = of_nat (8 * i), x_block_count = 8, x_flags = 0, x_extent_id = of_nat (i + 1 + 1)\<rparr> \<and>
       stage crc ({..<8 * i} \<union> {8 * i..<8 * i + unat (8 :: u32)}) (i + 1 + 1) (i + 1) i 0 (e\<lparr>ex_os := os1, ex_storage := Some s'\<rparr>)"
    by (rule allocate_stage [of crc "{..<8 * i}" "i + 1" i i 0 e 8 "8 * i"]) (use e fit in simp_all)
  let ?e1 = "e\<lparr>ex_os := os1, ex_storage := Some s', ex_extents := (ex_extents e)[i := y']\<rparr>"
  let ?t = "''  Allocated extent '' @ dec (i + 1) @ '': start_block='' @ dec (unat (x_start_block y')) @
         '', count='' @ dec (unat (x_block_count y')) @ '', id='' @ dec (unat (x_extent_id y')) @ nl"
  have run: "allocate_one crc i e = (if r \<noteq> KES_SUCCESS then print_error_and_exit ''kes_extent_allocate'' r ?e1 else say ?t ?e1)"
    using A(1) by (simp add: allocate_one_def)
  have ok: "stage crc {..<8 * Suc i} (Suc i + 1) (Suc i) (Suc i) 0 ?e1 \<and>
      ?t = alloc_line i" if r: "r = KES_SUCCESS"
  proof -
    have y: "y' = nth_extent i" using A(4) r by (simp add: nth_extent_def add.commute)
    have id: "unat (x_extent_id (nth_extent i)) = i + 2" "x_block_count (nth_extent i) = 8" "dec 8 = ''8''"
      using i by (simp_all add: nth_extent_def unat_of_nat dec_eval del: of_nat_add of_nat_Suc)
    have un: "{..<8 * i} \<union> {8 * i..<8 * i + unat (8 :: u32)} = {..<8 * Suc i}" by auto
    have "stage crc {..<8 * Suc i} (Suc i + 1) (Suc i) (Suc i) 0 ?e1"
      using A(4) r e i unfolding un y stage_def by (auto simp: less_Suc_eq)
    then show ?thesis using start_nth [OF i] id y by (simp add: alloc_line_def)
  qed
  show "\<exists>r e1 t. allocate_one crc i e = (if r \<noteq> KES_SUCCESS then print_error_and_exit ''kes_extent_allocate'' r e1 else say t e1) \<and>
      ex_out e1 = ex_out e \<and> r \<in> {- 8..0} \<and> (q \<longrightarrow> r = KES_SUCCESS \<and> quiet (ex_os e1)) \<and>
      (r = KES_SUCCESS \<longrightarrow> stage crc {..<8 * Suc i} (Suc i + 1) (Suc i) (Suc i) 0 e1 \<and>
         t = alloc_line i)"
    by (intro exI conjI impI, rule run) (use A(2,3) e ok in auto)
qed simp

text \<open>A successful write adds its data and disturbs nothing else.\<close>

lemma write_disk:
  assumes d: "example_disk crc U nxt i L f" and i: "i < 4" and st: "disk_static L f"
    and f': "f' = (fwrite f (ext_at L (nth_extent i)) (data_at i))\<lparr>f_dirty := dirty\<rparr>"
  shows "example_disk crc U nxt (Suc i) L f'" "disk_static L f'" "disk_desc f' = disk_desc f"
proof -
  have D: "layout_ok L" "d_user_blocks L = 6398" "d_block_size L = 8192" using d by (simp_all add: example_disk_def)
  have eb: "ext_bytes L (nth_extent i) = 65536" by (simp add: ext_bytes_def nth_extent_def block_bytes_def D(3))
  have rng: "112 \<le> ext_at L (nth_extent i)" "ext_at L (nth_extent i) + length (data_at i) \<le> bitmap_at L"
    using ext_range(1,2) [OF D(1) inside_nth [OF D(2) i]] data_len(2) [OF i] eb by linarith+
  note M = user_write_keeps_meta [OF st D(1) rng]
  show "disk_static L f'" "disk_desc f' = disk_desc f" by (simp_all add: f' M)
  have "f_holds f' (ext_at L (nth_extent j)) (data_at j)" if j: "j < Suc i" for j
  proof (cases "j = i")
    case True
    then show ?thesis using disk.wr_same [OF data_len(1) [OF i]] by (simp add: f')
  next
    case False
    then have "j < i" using j by simp
    then have "f_holds f (ext_at L (nth_extent j)) (data_at j)" using d by (simp add: example_disk_def)
    moreover have "ext_at L (nth_extent j) + length (data_at j) \<le> ext_at L (nth_extent i)"
      using \<open>j < i\<close> i data_len(2) [of j] by (simp add: ext_at_nth [OF D(3)])
    ultimately show ?thesis using disk.wr_disjoint [of f "ext_at L (nth_extent j)"] by (simp add: f')
  qed
  then show "example_disk crc U nxt (Suc i) L f'"
    using d M by (simp add: example_disk_def f' disk_used_def)
qed

lemma write_one_runs:
  assumes i: "i < 4"
  shows "runs q (stage crc U nxt a 4 i) (write_one i) [Call ''kes_extent_write''] (stage crc U nxt a 4 (Suc i))"
proof (rule runs_checked)
  fix e
  assume e: "stage crc U nxt a 4 i e" "q \<longrightarrow> quiet (ex_os e)"
  then obtain s x f L where s: "ex_storage e = Some s" "session (ex_os e) s x f L" "of_path x = example_path" "example_disk crc U nxt i L f"
    "sto_desc s = disk_desc f" "st_allocated_extents (sto_stats s) = of_nat a" by (auto simp: stage_def)
  have x: "ex_extents e ! i = nth_extent i" using e i by (simp add: stage_def)
  have D: "d_user_blocks L = 6398" "d_block_size L = 8192" using s(4) by (simp_all add: example_disk_def)
  have S: "\<not> sto_readonly s" "of_wr x" "disk_static L f" "handle_ok L s" using s(2) by (simp_all add: session_def)
  define sz where "sz = (of_nat (length (data_at i)) :: u64)"
  have sz: "unat sz = length (data_at i)" using data_len(2) [OF i] by (simp add: sz_def unat_of_nat)
  have fit: "unat (0 :: u64) + unat sz \<le> ext_bytes L (nth_extent i)" "unat sz \<le> length (data_at i)"
    using sz data_len(2) [OF i] by (simp_all add: ext_bytes_def nth_extent_def block_bytes_def D(2))
  obtain r s' k f' os1 where W: "kes_extent_write (Some s) (Some (nth_extent i)) (Some (data_at i)) sz 0 (ex_os e) = Some (r, Some s', os1)"
    "f' = (fwrite f (ext_at L (nth_extent i) + unat (0 :: u64)) (take k (data_at i)))\<lparr>f_dirty := f_dirty f'\<rparr>"
    "os_files os1 = (os_files (ex_os e))(of_path x \<mapsto> f')" "os_fds os1 = os_fds (ex_os e)" "quiet (ex_os e) \<longrightarrow> quiet os1"
    "r = KES_SUCCESS \<or> r = KES_ERROR_IO" "r = KES_SUCCESS \<longrightarrow> k = unat sz" "quiet (ex_os e) \<and> of_wr x \<longrightarrow> r = KES_SUCCESS"
    "sto_desc s' = sto_desc s" "sto_fd s' = sto_fd s" "\<not> sto_lock s'" "sto_bitmap s' = sto_bitmap s"
    "sto_readonly s' = sto_readonly s" "st_allocated_extents (sto_stats s') = st_allocated_extents (sto_stats s)"
    by (rule kes_extent_write_spec [OF session_io [OF s(2)] S(1) inside_nth [OF D(1) i] fit])
  have run: "write_one i e = checked ''kes_extent_write'' r (e\<lparr>ex_os := os1, ex_storage := Some s'\<rparr>)"
    unfolding write_one_def Let_def x s(1) data_at_def [symmetric] data_len(3) [OF i] sz_def [symmetric] W(1) by simp
  have ok: "stage crc U nxt a 4 (Suc i) (e\<lparr>ex_os := os1, ex_storage := Some s'\<rparr>)" if r: "r = KES_SUCCESS"
  proof -
    have "f' = (fwrite f (ext_at L (nth_extent i)) (data_at i))\<lparr>f_dirty := f_dirty f'\<rparr>" using W(2,7) sz r by simp
    note N = write_disk [OF s(4) i S(3) this]
    have aft: "os_after (ex_os e) os1 x f'" using W(3-5) by (simp add: os_after_def)
    have "session os1 s' x f' L"
      by (rule session_after [OF s(2) aft N(2)]) (use W(9-13) S(4) in \<open>simp_all add: handle_ok_def\<close>)
    then show ?thesis by (rule stage_update [OF e(1) _ s(3) N(1)]) (use s(5,6) N(3) W(9,14) in simp_all)
  qed
  show "\<exists>r e1. write_one i e = checked ''kes_extent_write'' r e1 \<and> ex_out e1 = ex_out e \<and> r \<in> {- 8..0} \<and>
      (q \<longrightarrow> r = KES_SUCCESS \<and> quiet (ex_os e1)) \<and> (r = KES_SUCCESS \<longrightarrow> stage crc U nxt a 4 (Suc i) e1)"
    by (intro exI conjI impI, rule run) (use W(5,6,8) S(2) e ok in auto)
qed

definition read_line :: "nat \<Rightarrow> string" where
  "read_line i = ''  Extent '' @ dec (i + 1) @ '' data: '' @ take 100 (test_data i (nth_extent i)) @ ''...'' @ nl"

lemma read_one_runs:
  assumes i: "i < 4"
  shows "runs q (stage crc U nxt a 4 4) (read_one i)
    [Read i, Line (read_line i)] (stage crc U nxt a 4 4)"
  unfolding runs_def
proof (intro allI impI)
  fix e
  let ?line = "read_line i"
  assume e: "stage crc U nxt a 4 4 e \<and> (q \<longrightarrow> quiet (ex_os e))"
  then obtain s x f L where s: "ex_storage e = Some s" "session (ex_os e) s x f L" "of_path x = example_path" "example_disk crc U nxt 4 L f"
    "sto_desc s = disk_desc f" "st_allocated_extents (sto_stats s) = of_nat a" by (auto simp: stage_def)
  have x: "ex_extents e ! i = nth_extent i" using e i by (simp add: stage_def)
  have D: "d_user_blocks L = 6398" "d_block_size L = 8192" "f_holds f (ext_at L (nth_extent i)) (data_at i)"
    using s(4) i by (simp_all add: example_disk_def)
  have S: "of_rd x" "disk_static L f" "handle_ok L s" using s(2) by (simp_all add: session_def)
  define sz where "sz = (of_nat (length (data_at i)) :: u64)"
  have sz: "unat sz = length (data_at i)" using data_len(2) [OF i] by (simp add: sz_def unat_of_nat)
  have fit: "unat (0 :: u64) + unat sz \<le> ext_bytes L (nth_extent i)" "unat sz \<le> length (replicate 1024 (0 :: u8))"
    using sz data_len(2) [OF i] by (simp_all add: ext_bytes_def nth_extent_def block_bytes_def D(2))
  obtain r s' bs os1 where R:
    "kes_extent_read (Some s) (Some (nth_extent i)) (Some (replicate 1024 0)) sz 0 (ex_os e) = Some (r, Some s', Some (overlay bs (replicate 1024 0)), os1)"
    "os_same (ex_os e) os1" "r = KES_SUCCESS \<or> r = KES_ERROR_IO"
    "r = KES_SUCCESS \<longrightarrow> length bs = unat sz \<and> bs = fread f (ext_at L (nth_extent i) + unat (0 :: u64)) (unat sz)"
    "quiet (ex_os e) \<longrightarrow> bs = fread f (ext_at L (nth_extent i) + unat (0 :: u64)) (unat sz) \<and> (r = KES_SUCCESS \<longleftrightarrow> length bs = unat sz)"
    "sto_desc s' = sto_desc s" "sto_fd s' = sto_fd s" "\<not> sto_lock s'" "sto_bitmap s' = sto_bitmap s"
    "sto_readonly s' = sto_readonly s" "st_allocated_extents (sto_stats s') = st_allocated_extents (sto_stats s)"
    by (rule kes_extent_read_spec [OF session_io [OF s(2)] S(1) inside_nth [OF D(1) i] fit])
  have fr: "fread f (ext_at L (nth_extent i)) (unat sz) = data_at i" using f_holds_fread [OF D(3)] sz by simp
  let ?e1 = "e\<lparr>ex_os := os1, ex_storage := Some s'\<rparr>"
  have run: "read_one i e = (if r \<noteq> KES_SUCCESS then do {
       msg \<leftarrow> kes_get_error_string r;
       print_error_and_exit ''kes_extent_read'' r
         (c_printf (''Failed to read extent '' @ dec (i + 1) @ '' (ID: '' @ dec (unat (x_extent_id (nth_extent i))) @ '', start_block: '' @
            dec (unat (x_start_block (nth_extent i))) @ ''): '' @ msg @ nl) ?e1) }
     else say (''  Extent '' @ dec (i + 1) @ '' data: '' @ take 100 (c_string (overlay bs (replicate 1024 0))) @ ''...'' @ nl) ?e1)"
    unfolding read_one_def Let_def x s(1) data_at_def [symmetric] data_len(3) [OF i] sz_def [symmetric] R(1) by simp
  have q1: "q \<longrightarrow> quiet os1 \<and> r = KES_SUCCESS" using e R(2,5) fr sz by (auto simp: os_same_def)
  show "(\<exists>e'. read_one i e = Some (Go e') \<and> stage crc U nxt a 4 4 e' \<and> ex_out e' = ex_out e @ texts [Read i, Line ?line] \<and> (q \<longrightarrow> quiet (ex_os e'))) \<or>
    (\<exists>e' out. read_one i e = Some (Exit 1 e') \<and> \<not> q \<and> stopped [Read i, Line ?line] out \<and> ex_out e' = ex_out e @ out)"
  proof (cases "r = KES_SUCCESS")
    case True
    have "session os1 s' x f L"
      by (rule session_after [OF s(2) os_after_same [OF s(2) R(2)] S(2)]) (use R(6-10) S(3) in \<open>simp_all add: handle_ok_def\<close>)
    then have "stage crc U nxt a 4 4 ?e1"
      by (rule stage_update [OF conjunct1 [OF e] _ s(3,4)]) (use s(5,6) R(6,11) in simp_all)
    moreover have "c_string (overlay bs (replicate 1024 0)) = test_data i (nth_extent i)"
      using R(4) True fr terminated(3) [OF test_data_ok(1) [OF i], of 1024] test_data_ok(2) [OF i] by (simp add: overlay_def data_at_def)
    ultimately show ?thesis using True q1 by (intro disjI1) (simp add: run say_def c_printf_def read_line_def)
  next
    case False
    obtain msg where msg: "kes_get_error_string r = Some msg" using error_message [of r] R(3) False by auto
    have id: "unat (x_extent_id (nth_extent i)) = i + 2" using i by (simp add: nth_extent_def unat_of_nat del: of_nat_add of_nat_Suc)
    have "stopped [Read i, Line ?line] (the (report (Read i) msg))" by (rule stopped_here [OF False msg]) simp
    then show ?thesis using False q1 msg start_nth [OF i] id
      by (intro disjI2 exI [of _ "the (report (Read i) msg)"] exI) (auto simp: run print_error_and_exit_def c_printf_def)
  qed
qed

lemma free_one_runs:
  assumes i: "i < 4" and U: "{8 * i..<8 * i + 8} \<subseteq> U"
  shows "runs q (stage crc U nxt (Suc a) 4 4) (free_one crc i) [Call ''kes_extent_free''] (stage crc (U - {8 * i..<8 * i + 8}) nxt a 4 4)"
proof (rule runs_checked)
  fix e
  assume e: "stage crc U nxt (Suc a) 4 4 e" "q \<longrightarrow> quiet (ex_os e)"
  then obtain s x f L where s: "ex_storage e = Some s" "session (ex_os e) s x f L" "of_path x = example_path" "example_disk crc U nxt 4 L f"
    "sto_desc s = disk_desc f" "st_allocated_extents (sto_stats s) = of_nat (Suc a)" by (auto simp: stage_def)
  have x: "ex_extents e ! i = nth_extent i" using e i by (simp add: stage_def)
  have D: "disk_coherent crc L f" "disk_used L f = U" "layout_ok L" "d_next_extent_id (disk_desc f) = of_nat nxt"
    using s(4) by (simp_all add: example_disk_def)
  obtain r s' f' os1 where F: "kes_extent_free crc (Some s) (Some (nth_extent i)) (ex_os e) = Some (r, Some s', os1)"
    "session os1 s' x f' L" "os_after (ex_os e) os1 x f'" "free_post crc L (nth_extent i) r f f'"
    "quiet (ex_os e) \<longrightarrow> r \<noteq> KES_ERROR_IO" "r = KES_SUCCESS \<longrightarrow> sto_desc s' = disk_desc f' \<and>
       sto_stats s' = (sto_stats s)\<lparr>st_allocated_extents := st_allocated_extents (sto_stats s) - 1\<rparr>"
    by (rule kes_extent_free_spec [OF s(2)])
  have n: "x_block_count (nth_extent i) \<noteq> 0" by (simp add: nth_extent_def)
  have P: "r = KES_SUCCESS \<or> r = KES_ERROR_IO" "user_area_kept L f f'"
    using F(4) D(2) U n blocks_nth [OF i] unfolding free_post_def Let_def by auto
  have run: "free_one crc i e = checked ''kes_extent_free'' r (e\<lparr>ex_os := os1, ex_storage := Some s'\<rparr>)"
    using F(1) by (simp add: free_one_def x s(1))
  have ok: "stage crc (U - {8 * i..<8 * i + 8}) nxt a 4 4 (e\<lparr>ex_os := os1, ex_storage := Some s'\<rparr>)" if r: "r = KES_SUCCESS"
  proof -
    note Q = free_post_success [OF F(4) [unfolded r], unfolded D blocks_nth [OF i]]
    have "disk_coherent crc L f'" by (rule free_coherent [OF D(1) F(4) [unfolded r] _ D(3)]) (use F(2) in \<open>simp add: session_def\<close>)
    then have "example_disk crc (U - {8 * i..<8 * i + 8}) nxt 4 L f'"
      by (rule example_disk_kept [OF s(4) P(2) order_refl]) (use Q(2,4) D(4) in simp_all)
    then show ?thesis by (rule stage_update [OF e(1) F(2) s(3)]) (use F(6) r s(6) in simp_all)
  qed
  show "\<exists>r e1. free_one crc i e = checked ''kes_extent_free'' r e1 \<and> ex_out e1 = ex_out e \<and> r \<in> {- 8..0} \<and>
      (q \<longrightarrow> r = KES_SUCCESS \<and> quiet (ex_os e1)) \<and> (r = KES_SUCCESS \<longrightarrow> stage crc (U - {8 * i..<8 * i + 8}) nxt a 4 4 e1)"
    by (intro exI conjI impI, rule run) (use P(1) F(3,5) e ok in \<open>auto simp: os_after_def\<close>)
qed

lemma allocate_large_runs:
  shows "runs q (stage crc ({..<8} \<union> {16..<24}) 5 2 4 4) (allocate_large crc)
    [Call ''large allocation'', Line (''  Large extent: start_block=24, count=20, id=6'' @ nl)] (stage crc ({..<8} \<union> {16..<44}) 6 3 5 4)"
proof (rule runs_checked_say)
  fix e
  let ?U = "{..<8} \<union> {16..<24} :: nat set" and ?V = "{..<8} \<union> {16..<44} :: nat set"
  assume e: "stage crc ?U 5 2 4 4 e" "q \<longrightarrow> quiet (ex_os e)"
  have "\<not> fits ?U 6398 20 j" if "j < 24" for j
    using that fits_used [of j j 20 ?U] fits_used [of j 16 20 ?U] by (cases "j < 8 \<or> 16 \<le> j") auto
  moreover have "fits ?U 6398 20 24" by (auto simp: fits_def)
  ultimately have fit: "fits ?U 6398 (unat (20 :: u32)) 24" "\<forall>j < 24. \<not> fits ?U 6398 (unat (20 :: u32)) j" by simp_all
  obtain r s' y' os1 where A:
    "kes_extent_allocate crc (ex_storage e) (Some (example_request 20)) (Some (ex_large e)) (ex_os e) = Some (r, Some s', Some y', os1)"
    "r \<in> {- 8..0}" "quiet (ex_os e) \<longrightarrow> r = KES_SUCCESS \<and> quiet os1"
    "r = KES_SUCCESS \<longrightarrow> y' = \<lparr>x_start_block = of_nat 24, x_block_count = 20, x_flags = 0, x_extent_id = of_nat (5 + 1)\<rparr> \<and>
       stage crc (?U \<union> {24..<24 + unat (20 :: u32)}) (5 + 1) (2 + 1) 4 4 (e\<lparr>ex_os := os1, ex_storage := Some s'\<rparr>)"
    by (rule allocate_stage [OF e(1) order_refl _ fit]) simp_all
  let ?e1 = "e\<lparr>ex_os := os1, ex_storage := Some s', ex_large := y'\<rparr>"
  let ?t = "''  Large extent: start_block='' @ dec (unat (x_start_block y')) @ '', count='' @ dec (unat (x_block_count y')) @
         '', id='' @ dec (unat (x_extent_id y')) @ nl"
  have run: "allocate_large crc e = (if r \<noteq> KES_SUCCESS then print_error_and_exit ''large allocation'' r ?e1 else say ?t ?e1)"
    using A(1) by (simp add: allocate_large_def)
  have ok: "stage crc ?V 6 3 5 4 ?e1 \<and> ?t = ''  Large extent: start_block=24, count=20, id=6'' @ nl" if r: "r = KES_SUCCESS"
  proof -
    have y: "y' = large_extent" using A(4) r by (simp add: large_extent_def)
    have un: "?U \<union> {24..<24 + unat (20 :: u32)} = ?V" by auto
    have "stage crc ?V 6 3 5 4 ?e1" using A(4) r unfolding un y stage_def by auto
    then show ?thesis by (simp add: y large_extent_def dec_eval)
  qed
  show "\<exists>r e1 t. allocate_large crc e = (if r \<noteq> KES_SUCCESS then print_error_and_exit ''large allocation'' r e1 else say t e1) \<and>
      ex_out e1 = ex_out e \<and> r \<in> {- 8..0} \<and> (q \<longrightarrow> r = KES_SUCCESS \<and> quiet (ex_os e1)) \<and>
      (r = KES_SUCCESS \<longrightarrow> stage crc ?V 6 3 5 4 e1 \<and> t = ''  Large extent: start_block=24, count=20, id=6'' @ nl)"
    by (intro exI conjI impI, rule run) (use A(2,3) e ok in auto)
qed simp

lemma large_size_runs:
  "runs q (stage crc U nxt a 5 w) print_large_size [Line (''Large extent size: 163840 bytes (160.0 KB)'' @ nl)] (stage crc U nxt a 5 w)"
proof (rule runs_go)
  fix e
  assume e: "stage crc U nxt a 5 w e" "q \<longrightarrow> quiet (ex_os e)"
  have "to_double (of_nat 163840) = of_nat 163840" "to_double (of_nat 160) = of_nat 160" by (rule to_double_nat, simp)+
  then have k: "to_double (to_double 163840 / 1024) = of_nat 160 / of_nat 1" by simp
  have "fixed1 (of_nat 160 / of_nat 1) = ''160.0''" by (subst fixed1_div) (simp_all add: dec_eval Let_def)
  moreover have "ex_large e = large_extent" using e(1) by (simp add: stage_def)
  ultimately show "\<exists>e'. print_large_size e = Some (Go e') \<and> stage crc U nxt a 5 w e' \<and>
      ex_out e' = ex_out e @ texts [Line (''Large extent size: 163840 bytes (160.0 KB)'' @ nl)] \<and> (q \<longrightarrow> quiet (ex_os e'))"
    using e k by (simp add: print_large_size_def kes_calculate_extent_size_def large_extent_def say_def c_printf_def dec_eval)
qed

lemma version_runs:
  assumes "\<And>e ls. P (e\<lparr>ex_out := ls\<rparr>) = P e"
  shows "runs q P print_version [Line (''KES Library Version: 2.0.0'' @ nl)] P"
  by (rule runs_go) (simp add: print_version_def kes_get_version_def say_def c_printf_def dec_eval assms)

lemma sync_runs:
  "runs q (stage crc U nxt a k 4) (sync_phase crc) [Call ''kes_storage_sync''] (stage crc U nxt a k 4)"
proof (rule runs_checked)
  fix e
  assume e: "stage crc U nxt a k 4 e" "q \<longrightarrow> quiet (ex_os e)"
  then obtain s x f L where s: "ex_storage e = Some s" "session (ex_os e) s x f L" "of_path x = example_path" "example_disk crc U nxt 4 L f"
    "sto_desc s = disk_desc f" "st_allocated_extents (sto_stats s) = of_nat a" by (auto simp: stage_def)
  have D: "disk_coherent crc L f" "disk_used L f = U" "d_next_extent_id (disk_desc f) = of_nat nxt"
    using s(4) by (simp_all add: example_disk_def)
  obtain r s' f' os1 where Y: "kes_storage_sync crc (Some s) (ex_os e) = Some (r, Some s', os1)"
    "session os1 s' x f' L" "os_after (ex_os e) os1 x f'" "user_area_kept L f f'" "disk_bits L f' = disk_bits L f"
    "r = KES_SUCCESS \<or> r = KES_ERROR_IO" "quiet (ex_os e) \<longrightarrow> r = KES_SUCCESS"
    "r = KES_SUCCESS \<longrightarrow> \<not> f_dirty f' \<and> disk_desc f' = (disk_desc f)\<lparr>d_bitmap_checksum := crc 0 (disk_bits L f)\<rparr>"
    "r = KES_SUCCESS \<longrightarrow> sto_desc s' = disk_desc f' \<and> sto_stats s' = sto_stats s"
    by (rule kes_storage_sync_spec [OF s(2)])
  have run: "sync_phase crc e = checked ''kes_storage_sync'' r (e\<lparr>ex_os := os1, ex_storage := Some s'\<rparr>)"
    using Y(1) by (simp add: sync_phase_def s(1))
  have ok: "stage crc U nxt a k 4 (e\<lparr>ex_os := os1, ex_storage := Some s'\<rparr>)" if r: "r = KES_SUCCESS"
  proof -
    have "disk_coherent crc L f'" using D(1) Y(2,5,8) r by (simp add: disk_coherent_def disk_used_def session_def)
    then have "example_disk crc U nxt 4 L f'"
      by (rule example_disk_kept [OF s(4) Y(4) order_refl]) (use Y(5,8) r D in \<open>simp_all add: disk_used_def\<close>)
    then show ?thesis by (rule stage_update [OF e(1) Y(2) s(3)]) (use Y(9) r s(6) in simp_all)
  qed
  show "\<exists>r e1. sync_phase crc e = checked ''kes_storage_sync'' r e1 \<and> ex_out e1 = ex_out e \<and> r \<in> {- 8..0} \<and>
      (q \<longrightarrow> r = KES_SUCCESS \<and> quiet (ex_os e1)) \<and> (r = KES_SUCCESS \<longrightarrow> stage crc U nxt a k 4 e1)"
    by (intro exI conjI impI, rule run) (use Y(3,6,7) e ok in \<open>auto simp: os_after_def\<close>)
qed

definition started :: "example \<Rightarrow> bool" where
  "started e \<longleftrightarrow> unlocked (ex_os e) \<and> length (ex_extents e) = 4"

lemma create_runs:
  "runs q started (create_phase crc) [Call ''kes_storage_create''] (stage crc {..<8 * 0} (0 + 1) 0 0 0)"
proof (rule runs_checked)
  fix e
  assume "started e" "q \<longrightarrow> quiet (ex_os e)"
  then have e: "unlocked (ex_os e) \<and> length (ex_extents e) = 4" "q \<longrightarrow> quiet (ex_os e)" by (simp_all add: started_def)
  let ?c = example_config
  have c: "validate_config (Some ?c) = KES_SUCCESS" "unat (cfg_device_size ?c) < 2 ^ 63" "cfg_flags ?c AND KES_STORAGE_READONLY = 0"
    "cfg_flags ?c AND KES_STORAGE_CREATE \<noteq> 0" "cfg_device_size ?c = 52428800" "cfg_device_path ?c = Some example_path"
    by (simp_all add: example_config_def validate_config_def KES_IS_POWER_OF_2_def)
  obtain r st os1 where C: "kes_storage_create crc (ex_os e) (Some ?c) True = Some (r, st, os1)"
    "r = KES_SUCCESS \<longrightarrow> (\<exists>s x f. st = Some s \<and> created crc (ex_os e) ?c s x f os1)"
    "quiet (ex_os e) \<and> (cfg_flags ?c AND KES_STORAGE_CREATE \<noteq> 0 \<or> os_files (ex_os e) (the (cfg_device_path ?c)) \<noteq> None) \<longrightarrow>
       r = KES_SUCCESS \<and> quiet os1"
    by (rule kes_storage_create_spec [OF c(1,2)])
  have run: "create_phase crc e = checked ''kes_storage_create'' r (e\<lparr>ex_os := os1, ex_storage := st\<rparr>)"
    using C(1) by (simp add: create_phase_def)
  have ok: "stage crc {..<8 * 0} (0 + 1) 0 0 0 (e\<lparr>ex_os := os1, ex_storage := st\<rparr>)" if r: "r = KES_SUCCESS"
  proof -
    obtain s x f where s: "st = Some s" "created crc (ex_os e) ?c s x f os1" using C(2) r by blast
    note H = create_handle [OF C(1) [unfolded r s(1)], unfolded c(5)]
    have ses: "session os1 s x f (sto_desc s)" by (rule created_session [OF s(2) conjunct1 [OF e(1)] c(3)])
    have "d_user_blocks (sto_desc s) = 6398" "d_total_blocks (sto_desc s) = 6400"
      using H(2,3) by (simp_all add: calculate_bitmap_blocks_def Let_def)
    moreover have "of_path x = example_path" using s(2) c(6) by (simp add: created_def)
    ultimately have "example_disk crc {..<8 * 0} (0 + 1) 0 (sto_desc s) f" "of_path x = example_path" "sto_desc s = disk_desc f"
      using s(2) by (simp_all add: example_disk_def created_def)
    then show ?thesis using ses s(1) e H(1) by (auto simp: stage_def zero_stats_def)
  qed
  show "\<exists>r e1. create_phase crc e = checked ''kes_storage_create'' r e1 \<and> ex_out e1 = ex_out e \<and> r \<in> {- 8..0} \<and>
      (q \<longrightarrow> r = KES_SUCCESS \<and> quiet (ex_os e1)) \<and> (r = KES_SUCCESS \<longrightarrow> stage crc {..<8 * 0} (0 + 1) 0 0 0 e1)"
    by (intro exI conjI impI, rule run) (use C(3) create_code [OF C(1)] c(4) e ok in auto)
qed

text \<open>After the close no lock is held; without faults the file is complete and flushed.\<close>

definition finished :: "bool \<Rightarrow> (u32 \<Rightarrow> u8 list \<Rightarrow> u32) \<Rightarrow> nat set \<Rightarrow> nat \<Rightarrow> example \<Rightarrow> bool" where
  "finished q crc U nxt e \<longleftrightarrow> unlocked (ex_os e) \<and>
     (q \<longrightarrow> (\<exists>f L. os_files (ex_os e) example_path = Some f \<and> \<not> f_dirty f \<and> example_disk crc U nxt 4 L f))"

lemma close_runs: "runs q (stage crc U nxt a k 4) (close_phase crc) [Call ''kes_storage_close''] (finished q crc U nxt)"
proof (rule runs_checked)
  fix e
  assume e: "stage crc U nxt a k 4 e" "q \<longrightarrow> quiet (ex_os e)"
  then obtain s x f L where s: "ex_storage e = Some s" "session (ex_os e) s x f L" "of_path x = example_path" "example_disk crc U nxt 4 L f"
    by (auto simp: stage_def)
  have D: "disk_coherent crc L f" "disk_used L f = U" "d_next_extent_id (disk_desc f) = of_nat nxt"
    using s(4) by (simp_all add: example_disk_def)
  obtain os1 where R: "kes_storage_close crc (Some s) (ex_os e) = Some (KES_SUCCESS, os1)" "os_fds os1 = (os_fds (ex_os e))[nat (sto_fd s) := None]"
    by (rule kes_storage_close_returns [OF s(2)])
  let ?e1 = "e\<lparr>ex_os := os1, ex_storage := None\<rparr>"
  have un: "unlocked os1" using s(2) R(2) set_update_subset_insert [of "os_fds (ex_os e)" "nat (sto_fd s)" None]
    by (auto simp: session_def unlocked_def)
  have disk: "quiet os1 \<and> (\<exists>f L. os_files os1 example_path = Some f \<and> \<not> f_dirty f \<and> example_disk crc U nxt 4 L f)" if q
  proof -
    have qu: "quiet (ex_os e)" using e(2) that by simp
    obtain os' f' where C: "kes_storage_close crc (Some s) (ex_os e) = Some (KES_SUCCESS, os')"
      "os_files os' = (os_files (ex_os e))(of_path x \<mapsto> f')" "disk_static L f'" "user_area_kept L f f'" "disk_bits L f' = disk_bits L f"
      "disk_desc f' = (disk_desc f)\<lparr>d_bitmap_checksum := crc 0 (disk_bits L f)\<rparr>" "\<not> f_dirty f'" "quiet os'"
      by (rule kes_storage_close_quiet [OF s(2) qu])
    have "disk_coherent crc L f'" using D(1) C(3,5,6) by (simp add: disk_coherent_def disk_used_def)
    then have "example_disk crc U nxt 4 L f'"
      by (rule example_disk_kept [OF s(4) C(4) order_refl]) (use C(5,6) D in \<open>simp_all add: disk_used_def\<close>)
    then show ?thesis using C(1,2,7,8) R(1) s(3) by auto
  qed
  show "\<exists>r e1. close_phase crc e = checked ''kes_storage_close'' r e1 \<and> ex_out e1 = ex_out e \<and> r \<in> {- 8..0} \<and>
      (q \<longrightarrow> r = KES_SUCCESS \<and> quiet (ex_os e1)) \<and> (r = KES_SUCCESS \<longrightarrow> finished q crc U nxt e1)"
    by (rule exI [of _ KES_SUCCESS], rule exI [of _ ?e1]) (use R(1) s(1) un disk in \<open>simp add: close_phase_def finished_def\<close>)
qed

section \<open>The whole program\<close>

text \<open>The steps of the program, one string for each call of \<open>printf\<close>, and its output when none fails.\<close>

definition example_steps :: "step list" where
  "example_steps =
     map Line [''=== KES Storage Example ==='' @ nl, ''Creating storage...'' @ nl] @ [Call ''kes_storage_create''] @ map Line (
     [nl @ ''Storage Information:'' @ nl, ''  Total blocks: 6400'' @ nl, ''  Free blocks:  6398 (100.0%)'' @ nl,
      ''  Used blocks:  0 (0.0%)'' @ nl, ''  Allocated extents: 0'' @ nl, ''  Fragmentation: 0%'' @ nl, nl] @
     [''Allocating extents...'' @ nl]) @
     [Call ''kes_extent_allocate'', Line (''  Allocated extent 1: start_block=0, count=8, id=2'' @ nl),
      Call ''kes_extent_allocate'', Line (''  Allocated extent 2: start_block=8, count=8, id=3'' @ nl),
      Call ''kes_extent_allocate'', Line (''  Allocated extent 3: start_block=16, count=8, id=4'' @ nl),
      Call ''kes_extent_allocate'', Line (''  Allocated extent 4: start_block=24, count=8, id=5'' @ nl)] @ map Line (
     [nl @ ''Storage Information:'' @ nl, ''  Total blocks: 6400'' @ nl, ''  Free blocks:  6366 (99.5%)'' @ nl,
      ''  Used blocks:  32 (0.5%)'' @ nl, ''  Allocated extents: 4'' @ nl, ''  Fragmentation: 9%'' @ nl, nl] @
     [''Writing data to extents...'' @ nl]) @
     [Call ''kes_extent_write'', Call ''kes_extent_write'', Call ''kes_extent_write'', Call ''kes_extent_write''] @
     [Line (''Reading data back...'' @ nl),
      Read 0, Line (''  Extent 1 data: This is test data for extent 1 (ID: 2). The extent starts at block 0 and contains 8 blocks. This dem...'' @ nl),
      Read 1, Line (''  Extent 2 data: This is test data for extent 2 (ID: 3). The extent starts at block 8 and contains 8 blocks. This dem...'' @ nl),
      Read 2, Line (''  Extent 3 data: This is test data for extent 3 (ID: 4). The extent starts at block 16 and contains 8 blocks. This de...'' @ nl),
      Read 3, Line (''  Extent 4 data: This is test data for extent 4 (ID: 5). The extent starts at block 24 and contains 8 blocks. This de...'' @ nl),
      Line (nl @ ''Freeing extents 2 and 4...'' @ nl), Call ''kes_extent_free'', Call ''kes_extent_free''] @ map Line (
     [nl @ ''Storage Information:'' @ nl, ''  Total blocks: 6400'' @ nl, ''  Free blocks:  6382 (99.7%)'' @ nl,
      ''  Used blocks:  16 (0.2%)'' @ nl, ''  Allocated extents: 2'' @ nl, ''  Fragmentation: 6%'' @ nl, nl] @
     [''Allocating a larger extent...'' @ nl]) @ [Call ''large allocation''] @ map Line ([''  Large extent: start_block=24, count=20, id=6'' @ nl] @
     [nl @ ''Storage Information:'' @ nl, ''  Total blocks: 6400'' @ nl, ''  Free blocks:  6362 (99.4%)'' @ nl,
      ''  Used blocks:  36 (0.6%)'' @ nl, ''  Allocated extents: 3'' @ nl, ''  Fragmentation: 5%'' @ nl, nl] @
     [''Large extent size: 163840 bytes (160.0 KB)'' @ nl, nl @ ''Synchronizing storage...'' @ nl]) @ [Call ''kes_storage_sync''] @ map Line (
     [nl @ ''Storage Information:'' @ nl, ''  Total blocks: 6400'' @ nl, ''  Free blocks:  6362 (99.4%)'' @ nl,
      ''  Used blocks:  36 (0.6%)'' @ nl, ''  Allocated extents: 3'' @ nl, ''  Fragmentation: 5%'' @ nl, nl] @
     [''KES Library Version: 2.0.0'' @ nl, nl @ ''Closing storage...'' @ nl]) @ [Call ''kes_storage_close''] @ map Line
     [[CHR 0xE2, CHR 0x9C, CHR 0x85] @ '' Example completed successfully!'' @ nl,
      nl @ ''To clean up, remove: /tmp/example_storage.kes'' @ nl]"

definition example_output :: "string list" where
  "example_output = texts example_steps"

lemma info_text_eval:
  "info_text 0 0 = [nl @ ''Storage Information:'' @ nl, ''  Total blocks: 6400'' @ nl, ''  Free blocks:  6398 (100.0%)'' @ nl,
      ''  Used blocks:  0 (0.0%)'' @ nl, ''  Allocated extents: 0'' @ nl, ''  Fragmentation: 0%'' @ nl, nl]"
  "info_text 32 4 = [nl @ ''Storage Information:'' @ nl, ''  Total blocks: 6400'' @ nl, ''  Free blocks:  6366 (99.5%)'' @ nl,
      ''  Used blocks:  32 (0.5%)'' @ nl, ''  Allocated extents: 4'' @ nl, ''  Fragmentation: 9%'' @ nl, nl]"
  "info_text 16 2 = [nl @ ''Storage Information:'' @ nl, ''  Total blocks: 6400'' @ nl, ''  Free blocks:  6382 (99.7%)'' @ nl,
      ''  Used blocks:  16 (0.2%)'' @ nl, ''  Allocated extents: 2'' @ nl, ''  Fragmentation: 6%'' @ nl, nl]"
  "info_text 36 3 = [nl @ ''Storage Information:'' @ nl, ''  Total blocks: 6400'' @ nl, ''  Free blocks:  6362 (99.4%)'' @ nl,
      ''  Used blocks:  36 (0.6%)'' @ nl, ''  Allocated extents: 3'' @ nl, ''  Fragmentation: 5%'' @ nl, nl]"
proof -
  have z: "0 < (64 :: nat)" by simp
  show "info_text 0 0 = [nl @ ''Storage Information:'' @ nl, ''  Total blocks: 6400'' @ nl, ''  Free blocks:  6398 (100.0%)'' @ nl,
      ''  Used blocks:  0 (0.0%)'' @ nl, ''  Allocated extents: 0'' @ nl, ''  Fragmentation: 0%'' @ nl, nl]"
    unfolding info_text_def fixed1_div [OF z] Let_def by (simp add: dec_eval)
  show "info_text 32 4 = [nl @ ''Storage Information:'' @ nl, ''  Total blocks: 6400'' @ nl, ''  Free blocks:  6366 (99.5%)'' @ nl,
      ''  Used blocks:  32 (0.5%)'' @ nl, ''  Allocated extents: 4'' @ nl, ''  Fragmentation: 9%'' @ nl, nl]"
    unfolding info_text_def fixed1_div [OF z] Let_def by (simp add: dec_eval)
  show "info_text 16 2 = [nl @ ''Storage Information:'' @ nl, ''  Total blocks: 6400'' @ nl, ''  Free blocks:  6382 (99.7%)'' @ nl,
      ''  Used blocks:  16 (0.2%)'' @ nl, ''  Allocated extents: 2'' @ nl, ''  Fragmentation: 6%'' @ nl, nl]"
    unfolding info_text_def fixed1_div [OF z] Let_def by (simp add: dec_eval)
  show "info_text 36 3 = [nl @ ''Storage Information:'' @ nl, ''  Total blocks: 6400'' @ nl, ''  Free blocks:  6362 (99.4%)'' @ nl,
      ''  Used blocks:  36 (0.6%)'' @ nl, ''  Allocated extents: 3'' @ nl, ''  Fragmentation: 5%'' @ nl, nl]"
    unfolding info_text_def fixed1_div [OF z] Let_def by (simp add: dec_eval)
qed

lemma upt_4: "[0..<4] = [0, 1, 2, 3 :: nat]"
  by (simp add: upt_rec)

lemma read_lines_eval:
  "take 100 (test_data 0 (nth_extent 0)) = ''This is test data for extent 1 (ID: 2). The extent starts at block 0 and contains 8 blocks. This dem''"
  "take 100 (test_data (Suc 0) (nth_extent (Suc 0))) = ''This is test data for extent 2 (ID: 3). The extent starts at block 8 and contains 8 blocks. This dem''"
  "take 100 (test_data 2 (nth_extent 2)) = ''This is test data for extent 3 (ID: 4). The extent starts at block 16 and contains 8 blocks. This de''"
  "take 100 (test_data 3 (nth_extent 3)) = ''This is test data for extent 4 (ID: 5). The extent starts at block 24 and contains 8 blocks. This de''"
  by (simp_all add: test_data_def nth_extent_def dec_eval)

lemma runs_text: "runs q P c ts Q \<Longrightarrow> ts = us \<Longrightarrow> runs q P c us Q"
  by simp

text \<open>The phases at the numbers of this program.\<close>

lemma freeing_runs:
  "runs q (stage crc {..<32} 5 4 4 4) (free_one crc 1) [Call ''kes_extent_free''] (stage crc ({..<32} - {8..<16}) 5 3 4 4)"
  "runs q (stage crc ({..<32} - {8..<16}) 5 3 4 4) (free_one crc 3) [Call ''kes_extent_free''] (stage crc ({..<8} \<union> {16..<24}) 5 2 4 4)"
proof -
  have "{8 * 1..<8 * 1 + 8} \<subseteq> {..<32 :: nat}" by auto
  from free_one_runs [OF _ this, of q crc 5 3]
  show "runs q (stage crc {..<32} 5 4 4 4) (free_one crc 1) [Call ''kes_extent_free''] (stage crc ({..<32} - {8..<16}) 5 3 4 4)" by simp
  have "{8 * 3..<8 * 3 + 8} \<subseteq> {..<32 :: nat} - {8..<16}" "{..<32 :: nat} - {8..<16} - {24..<32} = {..<8} \<union> {16..<24}" by auto
  then show "runs q (stage crc ({..<32} - {8..<16}) 5 3 4 4) (free_one crc 3) [Call ''kes_extent_free''] (stage crc ({..<8} \<union> {16..<24}) 5 2 4 4)"
    using free_one_runs [of 3 "{..<32} - {8..<16}" q crc 5 2] by simp
qed

lemma printing_runs:
  "runs q (stage crc {..<8 * 0} (0 + 1) 0 0 0) print_storage_info (map Line (info_text 0 0)) (stage crc {..<8 * 0} (0 + 1) 0 0 0)"
  "runs q (stage crc {..<32} 5 4 4 0) print_storage_info (map Line (info_text 32 4)) (stage crc {..<32} 5 4 4 0)"
  "runs q (stage crc ({..<8} \<union> {16..<24}) 5 2 4 4) print_storage_info (map Line (info_text 16 2)) (stage crc ({..<8} \<union> {16..<24}) 5 2 4 4)"
  "runs q (stage crc ({..<8} \<union> {16..<44}) 6 3 5 4) print_storage_info (map Line (info_text 36 3)) (stage crc ({..<8} \<union> {16..<44}) 6 3 5 4)"
proof -
  have "card ({..<8} \<union> {16..<24} :: nat set) = 16" "card ({..<8} \<union> {16..<44} :: nat set) = 36" by (subst card_Un_disjoint; auto)+
  note info_runs [OF this(1), of 2 q crc 5 4 4] info_runs [OF this(2), of 3 q crc 6 5 4]
  then show "runs q (stage crc ({..<8} \<union> {16..<24}) 5 2 4 4) print_storage_info (map Line (info_text 16 2)) (stage crc ({..<8} \<union> {16..<24}) 5 2 4 4)"
    "runs q (stage crc ({..<8} \<union> {16..<44}) 6 3 5 4) print_storage_info (map Line (info_text 36 3)) (stage crc ({..<8} \<union> {16..<44}) 6 3 5 4)" by simp_all
qed (rule info_runs; simp)+

lemma loops_run:
  assumes rest: "runs q (stage crc {..<32} 5 4 4 4) (run_phases rest) us R"
  shows "runs q (stage crc {..<32} 5 4 4 0) (run_phases (map write_one [0..<4] @ say t # map read_one [0..<4] @ rest))
     (concat (map (\<lambda>i. [Call ''kes_extent_write'']) [0..<4]) @ Line t # concat (map (\<lambda>i. [Read i, Line (read_line i)]) [0..<4]) @ us) R"
proof -
  have rd: "runs q (stage crc {..<32} 5 4 4 4) (run_phases (map read_one [0..<4] @ rest))
     (concat (map (\<lambda>i. [Read i, Line (read_line i)]) [0..<4]) @ us) R"
    using runs_for [where P = "\<lambda>_. stage crc {..<32} 5 4 4 4" and n = 4 and k = 0, OF read_one_runs rest] by simp
  have sr: "runs q (stage crc {..<32} 5 4 4 4) (say t) [Line t] (stage crc {..<32} 5 4 4 4)" by (rule runs_say) simp
  show ?thesis
    using runs_for [where P = "stage crc {..<32} 5 4 4" and n = 4 and k = 0, OF write_one_runs runs_cons [OF sr rd]]
    by (simp add: map_replicate_const del: run_phases.simps)
qed

lemma main_runs: "runs q started (run_phases (main_phases crc)) example_steps (finished q crc ({..<8} \<union> {16..<44}) 6)"
proof -
  let ?V = "{..<8} \<union> {16..<44} :: nat set"
  have say_st: "runs q (stage crc U nxt a k w) (say t) [Line t] (stage crc U nxt a k w)" for U nxt a k w t by (rule runs_say) simp
  have say_end: "runs q (finished q crc ?V 6) (say t) [Line t] (finished q crc ?V 6)" for t by (rule runs_say) (simp add: finished_def)
  have say_0: "runs q started (say t) [Line t] started" for t by (rule runs_say) (simp add: started_def)
  note tail = runs_cons [OF say_st runs_cons [OF freeing_runs(1) runs_cons [OF freeing_runs(2) runs_cons [OF printing_runs(3) runs_cons [OF say_st
      runs_cons [OF allocate_large_runs runs_cons [OF printing_runs(4) runs_cons [OF large_size_runs runs_cons [OF say_st
      runs_cons [OF sync_runs runs_cons [OF printing_runs(4) runs_cons [OF version_runs [OF stage_out] runs_cons [OF say_st runs_cons [OF close_runs
      runs_cons [OF say_end runs_cons [OF say_end runs_nil]]]]]]]]]]]]]]]]
  note middle = runs_cons [OF printing_runs(2) runs_cons [OF say_st loops_run [OF tail]]]
  have alloc: "runs q (stage crc {..<8 * 0} (0 + 1) 0 0 0) (run_phases (map (allocate_one crc) [0..<4] @ rest))
      (concat (map (\<lambda>i. [Call ''kes_extent_allocate'', Line (alloc_line i)]) [0..<4]) @ us) R"
    if "runs q (stage crc {..<32} 5 4 4 0) (run_phases rest) us R" for rest us R
    using runs_for [where P = "\<lambda>i. stage crc {..<8 * i} (i + 1) i i 0" and n = 4 and k = 0, OF allocate_one_runs] that by simp
  show ?thesis
    unfolding main_phases_def append_Cons append_Nil append_assoc
    by (rule runs_text [OF runs_cons [OF say_0 runs_cons [OF say_0 runs_cons [OF create_runs runs_cons [OF printing_runs(1) runs_cons [OF say_st alloc [OF middle]]]]]]])
       (simp add: example_steps_def info_text_eval upt_4 read_lines_eval dec_eval alloc_line_def read_line_def)
qed

text \<open>
  C14. The example program does what it is written to show. Whatever was on the file system before, as long as nobody holds a lock:
  \<open>main\<close> ends. If no call of the operating system fails it ends with status 0, its output is exactly \<open>example_output\<close> (the extents at blocks 0, 8, 16
  and 24, read back as written, the large extent in the first gap that is long enough, at block 24), and
  the file it leaves is coherent, has exactly the blocks of the three extents that are left in use, and holds the data. If calls fail at
  any points it either still ends with status 0 and that output or it ends with status 1 at a call that failed: the output is then exactly the lines printed before that
  call (\<open>example_steps\<close> has the lines and the calls in order) and the error report of the call, with its name and the text of the error code.
\<close>

theorem example_main:
  assumes "unlocked os"
  shows "\<exists>status out os'. main crc junk os = Some (status, out, os') \<and>
    (status = 0 \<and> out = example_output \<and> unlocked os' \<or>
     status = 1 \<and> \<not> quiet os \<and> stopped example_steps out) \<and>
    (quiet os \<longrightarrow> (\<exists>f L. os_files os' example_path = Some f \<and> \<not> f_dirty f \<and> disk_coherent crc L f \<and>
       disk_used L f = {..<8} \<union> {16..<44} \<and> (\<forall>i < 4. f_holds f (ext_at L (nth_extent i)) (data_at i))))"
proof -
  let ?e = "\<lparr>ex_os = os, ex_out = [], ex_storage = None, ex_extents = map junk [0..<4], ex_large = junk 4\<rparr>"
  have st: "started ?e" using assms by (simp add: started_def)
  consider (go) e' where "run_phases (main_phases crc) ?e = Some (Go e')" "finished (quiet os) crc ({..<8} \<union> {16..<44}) 6 e'" "ex_out e' = example_output"
    | (exit) e' where "run_phases (main_phases crc) ?e = Some (Exit 1 e')" "\<not> quiet os" "stopped example_steps (ex_out e')"
    using main_runs [of "quiet os" crc, unfolded runs_def, rule_format, of ?e] st by (auto simp: example_output_def)
  then show ?thesis
  proof cases
    case go
    then show ?thesis by (auto simp: main_def finished_def example_disk_def)
  next
    case exit
    then show ?thesis by (auto simp: main_def)
  qed
qed

theorem example_main_witness:
  "\<exists>os' f L. main sum_crc (\<lambda>_. sample_extent) sample_os = Some (0, example_output, os') \<and> os_files os' example_path = Some f \<and>
     disk_used L f = {..<8} \<union> {16..<44} \<and> f_holds f (ext_at L (nth_extent 2)) (data_at 2)"
proof -
  have q: "quiet sample_os" by (rule sample_os_fd(2))
  from example_main [OF sample_os_unlocked, of sum_crc "\<lambda>_. sample_extent"]
  obtain status out os' where M: "main sum_crc (\<lambda>_. sample_extent) sample_os = Some (status, out, os')"
    "status = 0 \<and> out = example_output \<and> unlocked os' \<or>
     status = 1 \<and> \<not> quiet sample_os \<and> stopped example_steps out"
    "quiet sample_os \<longrightarrow> (\<exists>f L. os_files os' example_path = Some f \<and> \<not> f_dirty f \<and> disk_coherent sum_crc L f \<and>
       disk_used L f = {..<8} \<union> {16..<44} \<and> (\<forall>i < 4. f_holds f (ext_at L (nth_extent i)) (data_at i)))"
    by (elim exE conjE)
  then obtain f L where f: "os_files os' example_path = Some f" "disk_used L f = {..<8} \<union> {16..<44}"
    "\<forall>i < 4. f_holds f (ext_at L (nth_extent i)) (data_at i)" using q by blast
  moreover have "f_holds f (ext_at L (nth_extent 2)) (data_at 2)" using f(3) by simp
  moreover have "status = 0" "out = example_output" using M(2) q by blast+
  ultimately show ?thesis using M(1) by blast
qed

end
