(* ===== verification/Kes_Cache.thy ===== *)
theory Kes_Cache
  imports Kes_Types
begin

text \<open>
  The extent cache (\<open>src/kes_cache.c\<close>, \<open>include/kes/kes_cache.h\<close>): one definition per function,
  over an explicit heap of cache entries (the intrusive hash chains and the LRU list are pointers
  in it), a heap of data buffers and the state of the device behind the I/O callbacks. The
  callbacks are function values in the cache, as in the code. Locks are flags: taking a lock that
  is held, releasing one that is not, waiting for a load that nobody performs, following a
  dangling pointer or freeing twice is \<open>None\<close>. One thread runs an operation from start to end.
  Trace output is left out, and so are the fields \<open>memory_pool\<close>, \<open>pool_size\<close> and \<open>free_list\<close>, which
  no function touches.
\<close>

section \<open>Data\<close>

record kes_extent_id =
  id_start_block :: u64
  id_block_count :: u32
  id_block_size :: u32
  id_reserved :: u32

abbreviation (input) KES_EXTENT_CLEAN :: u32 where "KES_EXTENT_CLEAN \<equiv> 0x01"
abbreviation (input) KES_EXTENT_DIRTY :: u32 where "KES_EXTENT_DIRTY \<equiv> 0x02"
abbreviation (input) KES_EXTENT_PINNED :: u32 where "KES_EXTENT_PINNED \<equiv> 0x04"
abbreviation (input) KES_EXTENT_LOADING :: u32 where "KES_EXTENT_LOADING \<equiv> 0x08"
abbreviation (input) KES_EXTENT_FLUSHING :: u32 where "KES_EXTENT_FLUSHING \<equiv> 0x10"
abbreviation (input) KES_EXTENT_ERROR :: u32 where "KES_EXTENT_ERROR \<equiv> 0x20"

abbreviation (input) KES_CACHE_MIN_MEMORY :: u64 where "KES_CACHE_MIN_MEMORY \<equiv> 1048576"
abbreviation (input) KES_CACHE_MIN_ENTRIES :: u32 where "KES_CACHE_MIN_ENTRIES \<equiv> 16"
abbreviation (input) KES_CACHE_DEFAULT_BUCKETS :: u32 where "KES_CACHE_DEFAULT_BUCKETS \<equiv> 1024"
abbreviation (input) KES_CACHE_HASH_SEED :: u32 where "KES_CACHE_HASH_SEED \<equiv> 0x12345678"
abbreviation (input) KES_CACHE_ALIGNMENT :: u64 where "KES_CACHE_ALIGNMENT \<equiv> 64"

datatype kes_cache_policy = KES_CACHE_LRU | KES_CACHE_LFU | KES_CACHE_CUSTOM

record kes_cache_config =
  cc_max_memory :: u64
  cc_min_memory :: u64
  cc_max_entries :: u32
  cc_policy :: kes_cache_policy
  cc_background_threads :: int
  cc_sync_interval_ms :: int
  cc_enable_prefetch :: bool
  cc_enable_compression :: bool

record kes_cache_stats =
  cs_hits :: u64
  cs_misses :: u64
  cs_evictions :: u64
  cs_flushes :: u64
  cs_bytes_read :: u64
  cs_bytes_written :: u64
  cs_memory_used :: u64
  cs_entries_cached :: u32
  cs_entries_dirty :: u32
  cs_entries_pinned :: u32

type_synonym addr = nat

text \<open>An entry: first the fields that describe the extent, then the links of the two lists.
  \<open>e_lock\<close> tells whether the entry's mutex is held.\<close>

record extent_body =
  e_id :: kes_extent_id
  e_data :: "addr option"
  e_state :: u32
  e_ref_count :: u32
  e_pin_count :: u32
  e_access_time :: u64
  e_access_count :: u64
  e_data_size :: u64
  e_lookup_pins :: u32
  e_cond_waiters :: u32
  e_lock :: bool

record kes_extent_entry = extent_body +
  e_hash_next :: "addr option"
  e_hash_prev :: "addr option"
  e_list_next :: "addr option"
  e_list_prev :: "addr option"

record kes_cache_bucket =
  b_head :: "addr option"
  b_lock :: bool

text \<open>The memory, the device and the clock. \<open>m_junk\<close> is what a fresh buffer holds; \<open>m_sched\<close> tells
  which of the next allocations and thread creations fail (none, once it is used up).\<close>

record 'd mach =
  m_heap :: "addr \<Rightarrow> kes_extent_entry option"
  m_bufs :: "addr \<Rightarrow> u8 list option"
  m_next :: addr
  m_junk :: "addr \<Rightarrow> nat \<Rightarrow> u8"
  m_dev :: 'd
  m_clock :: "nat \<Rightarrow> int \<times> int"
  m_ticks :: nat
  m_sched :: "bool list"

text \<open>\<open>read_extent\<close> gets the contents of the buffer and returns a result code and what it left in the
  buffer.\<close>

type_synonym 'd read_cb = "'d \<Rightarrow> kes_extent_id \<Rightarrow> u8 list \<Rightarrow> u64 \<Rightarrow> int \<times> u8 list \<times> 'd"
type_synonym 'd write_cb = "'d \<Rightarrow> kes_extent_id \<Rightarrow> u8 list \<Rightarrow> u64 \<Rightarrow> int \<times> 'd"
type_synonym 'd sync_cb = "'d \<Rightarrow> int \<times> 'd"

record 'd kes_cache = "'d mach" +
  c_config :: kes_cache_config
  c_stats :: kes_cache_stats
  c_buckets :: "nat \<Rightarrow> kes_cache_bucket"
  c_bucket_count :: u32
  c_bucket_mask :: u32
  c_mru_head :: "addr option"
  c_lru_tail :: "addr option"
  c_bg_threads :: "bool list option"
  c_shutdown :: bool
  c_cache_lock :: bool
  c_inflight_lookups :: u32
  c_destroying :: bool
  c_read_extent :: "'d read_cb option"
  c_write_extent :: "'d write_cb option"
  c_sync_device :: "'d sync_cb option"

section \<open>Memory and locks\<close>

definition upd :: "'d kes_cache \<Rightarrow> addr \<Rightarrow> (kes_extent_entry \<Rightarrow> kes_extent_entry) \<Rightarrow> 'd kes_cache option" where
  "upd c a f = (case m_heap c a of None \<Rightarrow> None | Some e \<Rightarrow> Some (c\<lparr>m_heap := (m_heap c)(a \<mapsto> f e)\<rparr>))"

definition stats :: "(kes_cache_stats \<Rightarrow> kes_cache_stats) \<Rightarrow> 'd kes_cache \<Rightarrow> 'd kes_cache" where
  "stats f c = c\<lparr>c_stats := f (c_stats c)\<rparr>"

definition lock_cache :: "'d kes_cache \<Rightarrow> 'd kes_cache option" where
  "lock_cache c = (if c_cache_lock c then None else Some (c\<lparr>c_cache_lock := True\<rparr>))"

definition unlock_cache :: "'d kes_cache \<Rightarrow> 'd kes_cache option" where
  "unlock_cache c = (if c_cache_lock c then Some (c\<lparr>c_cache_lock := False\<rparr>) else None)"

definition lock_bucket :: "'d kes_cache \<Rightarrow> u32 \<Rightarrow> 'd kes_cache option" where
  "lock_bucket c i = (if i \<ge> c_bucket_count c \<or> b_lock (c_buckets c (unat i)) then None
     else Some (c\<lparr>c_buckets := (c_buckets c)(unat i := (c_buckets c (unat i))\<lparr>b_lock := True\<rparr>)\<rparr>))"

definition unlock_bucket :: "'d kes_cache \<Rightarrow> u32 \<Rightarrow> 'd kes_cache option" where
  "unlock_bucket c i = (if i \<ge> c_bucket_count c \<or> \<not> b_lock (c_buckets c (unat i)) then None
     else Some (c\<lparr>c_buckets := (c_buckets c)(unat i := (c_buckets c (unat i))\<lparr>b_lock := False\<rparr>)\<rparr>))"

definition set_head :: "'d kes_cache \<Rightarrow> u32 \<Rightarrow> addr option \<Rightarrow> 'd kes_cache" where
  "set_head c i p = c\<lparr>c_buckets := (c_buckets c)(unat i := (c_buckets c (unat i))\<lparr>b_head := p\<rparr>)\<rparr>"

definition lock_entry :: "'d kes_cache \<Rightarrow> addr \<Rightarrow> 'd kes_cache option" where
  "lock_entry c a = (case m_heap c a of None \<Rightarrow> None
     | Some e \<Rightarrow> if e_lock e then None else upd c a (e_lock_update (\<lambda>_. True)))"

definition unlock_entry :: "'d kes_cache \<Rightarrow> addr \<Rightarrow> 'd kes_cache option" where
  "unlock_entry c a = (case m_heap c a of None \<Rightarrow> None
     | Some e \<Rightarrow> if e_lock e then upd c a (e_lock_update (\<lambda>_. False)) else None)"

definition pin_lookup :: "'d kes_cache \<Rightarrow> addr \<Rightarrow> 'd kes_cache option" where
  "pin_lookup c a = upd c a (\<lambda>e. e\<lparr>e_lookup_pins := e_lookup_pins e + 1\<rparr>)"

definition unpin_lookup :: "'d kes_cache \<Rightarrow> addr \<Rightarrow> 'd kes_cache option" where
  "unpin_lookup c a = upd c a (\<lambda>e. e\<lparr>e_lookup_pins := e_lookup_pins e - 1\<rparr>)"

text \<open>Whether the next allocation or thread creation works.\<close>

definition may_fail :: "('d, 'z) mach_scheme \<Rightarrow> bool \<times> ('d, 'z) mach_scheme" where
  "may_fail c = (case m_sched c of [] \<Rightarrow> (False, c) | b # bs \<Rightarrow> (b, c\<lparr>m_sched := bs\<rparr>))"

section \<open>Helpers\<close>

definition get_timestamp :: "'d kes_cache \<Rightarrow> u64 \<times> 'd kes_cache" where
  "get_timestamp c = (let (sec, nsec) = m_clock c (m_ticks c)
     in (of_int sec * 1000000 + of_int (nsec div 1000), c\<lparr>m_ticks := m_ticks c + 1\<rparr>))"

definition KES_ALIGN :: "u64 \<Rightarrow> u64 \<Rightarrow> u64" where
  "KES_ALIGN sz align = (sz + align - 1) AND NOT (align - 1)"

definition hash_mix :: "u32 \<Rightarrow> u32" where
  "hash_mix hash = (drop_bit 16 hash XOR hash) * 0x45d9f3b"

definition kes_extent_hash :: "kes_extent_id \<Rightarrow> u32" where
  "kes_extent_hash i =
    (let hash = KES_CACHE_HASH_SEED;
         hash = hash XOR ucast (id_start_block i AND 0xFFFFFFFF);
         hash = hash XOR ucast (drop_bit 32 (id_start_block i));
         hash = hash XOR id_block_count i;
         hash = hash XOR id_block_size i;
         hash = hash_mix hash;
         hash = hash_mix hash
     in drop_bit 16 hash XOR hash)"

definition kes_extent_equal :: "kes_extent_id \<Rightarrow> kes_extent_id \<Rightarrow> bool" where
  "kes_extent_equal id1 id2 \<longleftrightarrow> id_start_block id1 = id_start_block id2 \<and>
     id_block_count id1 = id_block_count id2 \<and> id_block_size id1 = id_block_size id2"

definition extent_data_size :: "kes_extent_id \<Rightarrow> u64" where
  "extent_data_size i = ucast (id_block_count i) * ucast (id_block_size i)"

definition init_extent_entry :: "kes_extent_id \<Rightarrow> 'd kes_cache \<Rightarrow> kes_extent_entry \<times> 'd kes_cache" where
  "init_extent_entry i c = (let (now, c1) = get_timestamp c
     in (\<lparr>e_id = i, e_data = None, e_state = 0, e_ref_count = 0, e_pin_count = 0,
          e_access_time = now, e_access_count = 0, e_data_size = extent_data_size i,
          e_lookup_pins = 0, e_cond_waiters = 0, e_lock = False,
          e_hash_next = None, e_hash_prev = None, e_list_next = None, e_list_prev = None\<rparr>, c1))"

section \<open>The LRU list\<close>

definition lru_add_head :: "'d kes_cache \<Rightarrow> addr \<Rightarrow> 'd kes_cache option" where
  "lru_add_head c a = do {
     c1 \<leftarrow> upd c a (\<lambda>e. e\<lparr>e_list_next := c_mru_head c, e_list_prev := None\<rparr>);
     c2 \<leftarrow> (case c_mru_head c1 of None \<Rightarrow> Some c1
            | Some h \<Rightarrow> upd c1 h (e_list_prev_update (\<lambda>_. Some a)));
     let c3 = c2\<lparr>c_mru_head := Some a\<rparr>;
     Some (if c_lru_tail c3 = None then c3\<lparr>c_lru_tail := Some a\<rparr> else c3) }"

definition lru_remove :: "'d kes_cache \<Rightarrow> addr \<Rightarrow> 'd kes_cache option" where
  "lru_remove c a = do {
     e \<leftarrow> m_heap c a;
     c1 \<leftarrow> (case e_list_prev e of
              Some p \<Rightarrow> upd c p (e_list_next_update (\<lambda>_. e_list_next e))
            | None \<Rightarrow> Some (c\<lparr>c_mru_head := e_list_next e\<rparr>));
     e1 \<leftarrow> m_heap c1 a;
     c2 \<leftarrow> (case e_list_next e1 of
              Some n \<Rightarrow> upd c1 n (e_list_prev_update (\<lambda>_. e_list_prev e1))
            | None \<Rightarrow> Some (c1\<lparr>c_lru_tail := e_list_prev e1\<rparr>));
     upd c2 a (\<lambda>e. e\<lparr>e_list_next := None, e_list_prev := None\<rparr>) }"

definition lru_touch :: "'d kes_cache \<Rightarrow> addr \<Rightarrow> 'd kes_cache option" where
  "lru_touch c a = (if Some a = c_mru_head c then Some c
     else do { c1 \<leftarrow> lru_remove c a; lru_add_head c1 a })"

section \<open>The hash table\<close>

text \<open>The walk along a chain; a chain that loops would never be left.\<close>

partial_function (option) chain_find ::
    "(addr \<Rightarrow> kes_extent_entry option) \<Rightarrow> kes_extent_id \<Rightarrow> addr option \<Rightarrow> addr option option" where
  "chain_find h i p = (case p of None \<Rightarrow> Some None | Some a \<Rightarrow>
     (case h a of None \<Rightarrow> None
      | Some e \<Rightarrow> if kes_extent_equal (e_id e) i then Some (Some a) else chain_find h i (e_hash_next e)))"

definition bucket_idx :: "'d kes_cache \<Rightarrow> kes_extent_id \<Rightarrow> u32" where
  "bucket_idx c i = kes_extent_hash i AND c_bucket_mask c"

definition hash_find :: "'d kes_cache \<Rightarrow> kes_extent_id \<Rightarrow> (addr option \<times> 'd kes_cache) option" where
  "hash_find c i = do {
     let b = bucket_idx c i;
     c1 \<leftarrow> lock_bucket c b;
     entry \<leftarrow> chain_find (m_heap c1) i (b_head (c_buckets c1 (unat b)));
     c2 \<leftarrow> (case entry of None \<Rightarrow> Some c1 | Some a \<Rightarrow> pin_lookup c1 a);
     c3 \<leftarrow> unlock_bucket c2 b;
     Some (entry, c3) }"

definition hash_find_or_insert :: "'d kes_cache \<Rightarrow> addr \<Rightarrow> (addr option \<times> 'd kes_cache) option" where
  "hash_find_or_insert c candidate = do {
     e \<leftarrow> m_heap c candidate;
     let b = bucket_idx c (e_id e);
     c1 \<leftarrow> lock_bucket c b;
     let head = b_head (c_buckets c1 (unat b));
     entry \<leftarrow> chain_find (m_heap c1) (e_id e) head;
     c4 \<leftarrow> (case entry of
         None \<Rightarrow> do {
           c2 \<leftarrow> upd c1 candidate (\<lambda>e. e\<lparr>e_hash_next := head, e_hash_prev := None\<rparr>);
           c3 \<leftarrow> (case head of None \<Rightarrow> Some c2
                  | Some h \<Rightarrow> upd c2 h (e_hash_prev_update (\<lambda>_. Some candidate)));
           Some (set_head c3 b (Some candidate)) }
       | Some a \<Rightarrow> pin_lookup c1 a);
     c5 \<leftarrow> unlock_bucket c4 b;
     Some (entry, c5) }"

section \<open>Memory management and eviction\<close>

definition extent_alloc_data :: "'d kes_cache \<Rightarrow> u64 \<Rightarrow> addr option \<times> 'd kes_cache" where
  "extent_alloc_data c sz = (let (fails, c1) = may_fail c; aligned_size = KES_ALIGN sz KES_CACHE_ALIGNMENT in
     if fails then (None, c1)
     else let p = m_next c1 in
       (Some p, c1\<lparr>m_bufs := (m_bufs c1)(p \<mapsto> map (m_junk c1 p) [0..<unat aligned_size]), m_next := p + 1\<rparr>))"

definition free_buffer :: "'d kes_cache \<Rightarrow> addr \<Rightarrow> 'd kes_cache option" where
  "free_buffer c p = (if m_bufs c p = None then None else Some (c\<lparr>m_bufs := (m_bufs c)(p := None)\<rparr>))"

definition free_entry :: "'d kes_cache \<Rightarrow> addr \<Rightarrow> 'd kes_cache option" where
  "free_entry c a = (if m_heap c a = None then None else Some (c\<lparr>m_heap := (m_heap c)(a := None)\<rparr>))"

definition extent_free_data :: "'d kes_cache \<Rightarrow> addr option \<Rightarrow> u64 \<Rightarrow> 'd kes_cache option" where
  "extent_free_data c ptr sz = (case ptr of None \<Rightarrow> Some c
     | Some p \<Rightarrow> do {
         c1 \<leftarrow> free_buffer c p;
         let aligned_size = KES_ALIGN sz KES_CACHE_ALIGNMENT;
         Some (stats (\<lambda>s. s\<lparr>cs_memory_used := cs_memory_used s - aligned_size\<rparr>) c1) })"

text \<open>Unlinking an entry from its hash chain (in \<open>try_evict_entry_locked\<close>).\<close>

definition hash_unlink :: "'d kes_cache \<Rightarrow> u32 \<Rightarrow> addr \<Rightarrow> 'd kes_cache option" where
  "hash_unlink c b a = do {
     e \<leftarrow> m_heap c a;
     c1 \<leftarrow> (case e_hash_prev e of
              Some p \<Rightarrow> upd c p (e_hash_next_update (\<lambda>_. e_hash_next e))
            | None \<Rightarrow> Some (set_head c b (e_hash_next e)));
     e1 \<leftarrow> m_heap c1 a;
     c2 \<leftarrow> (case e_hash_next e1 of
              Some n \<Rightarrow> upd c1 n (e_hash_prev_update (\<lambda>_. e_hash_prev e1))
            | None \<Rightarrow> Some c1);
     upd c2 a (\<lambda>e. e\<lparr>e_hash_next := None, e_hash_prev := None\<rparr>) }"

definition evictable :: "'a extent_body_scheme \<Rightarrow> bool \<Rightarrow> bool" where
  "evictable e discard_dirty \<longleftrightarrow> e_ref_count e = 0 \<and> e_pin_count e = 0 \<and> e_cond_waiters e = 0 \<and>
     (discard_dirty \<or> e_state e AND KES_EXTENT_DIRTY = 0 \<and> e_state e AND KES_EXTENT_ERROR = 0)"

definition try_evict_entry_locked :: "'d kes_cache \<Rightarrow> addr \<Rightarrow> bool \<Rightarrow> (bool \<times> 'd kes_cache) option" where
  "try_evict_entry_locked c a discard_dirty = do {
     e \<leftarrow> m_heap c a;
     if \<not> evictable e discard_dirty then Some (False, c)
     else do {
       let b = bucket_idx c (e_id e);
       c1 \<leftarrow> lock_bucket c b;
       c2 \<leftarrow> lock_cache c1;
       e2 \<leftarrow> m_heap c2 a;
       if e_lookup_pins e2 \<noteq> 0 then do {
         c3 \<leftarrow> unlock_cache c2;
         c4 \<leftarrow> unlock_bucket c3 b;
         Some (False, c4) }
       else do {
         c3 \<leftarrow> hash_unlink c2 b a;
         c4 \<leftarrow> lru_remove c3 a;
         e4 \<leftarrow> m_heap c4 a;
         c5 \<leftarrow> extent_free_data c4 (e_data e4) (e_data_size e4);
         let c6 = stats (\<lambda>s. s\<lparr>cs_entries_cached := cs_entries_cached s - 1\<rparr>) c5;
         c7 \<leftarrow> unlock_cache c6;
         c8 \<leftarrow> unlock_bucket c7 b;
         c9 \<leftarrow> unlock_entry c8 a;
         c10 \<leftarrow> free_entry c9 a;
         Some (True, c10) } } }"


section \<open>I/O through the callbacks\<close>

text \<open>The callback sees the first \<open>data_size\<close> bytes of the buffer; writing beyond them would be
  undefined.\<close>

definition load_data :: "'d kes_cache \<Rightarrow> kes_extent_id \<Rightarrow> addr \<Rightarrow> (int \<times> 'd kes_cache) option" where
  "load_data c i a = (case c_read_extent c of None \<Rightarrow> Some (KES_ERROR_INVALID, c)
     | Some rd \<Rightarrow> do {
         e \<leftarrow> m_heap c a;
         p \<leftarrow> e_data e;
         buf \<leftarrow> m_bufs c p;
         let n = unat (e_data_size e);
         let (result, bs, d) = rd (m_dev c) i (take n buf) (e_data_size e);
         if length bs > n then None
         else Some (result, c\<lparr>m_bufs := (m_bufs c)(p \<mapsto> overlay bs buf), m_dev := d\<rparr>) })"

definition store_data ::
    "'d write_cb \<Rightarrow> 'd kes_cache \<Rightarrow> kes_extent_id \<Rightarrow> addr \<Rightarrow> (int \<times> 'd kes_cache) option" where
  "store_data wr c i a = do {
     e \<leftarrow> m_heap c a;
     p \<leftarrow> e_data e;
     buf \<leftarrow> m_bufs c p;
     let (result, d) = wr (m_dev c) i (take (unat (e_data_size e)) buf) (e_data_size e);
     Some (result, c\<lparr>m_dev := d\<rparr>) }"

text \<open>The bookkeeping after a successful write-back.\<close>

definition note_flushed :: "'d kes_cache \<Rightarrow> addr \<Rightarrow> 'd kes_cache option" where
  "note_flushed c a = do {
     c1 \<leftarrow> upd c a (\<lambda>e. e\<lparr>e_state := e_state e AND NOT KES_EXTENT_DIRTY AND NOT KES_EXTENT_ERROR OR KES_EXTENT_CLEAN\<rparr>);
     c2 \<leftarrow> lock_cache c1;
     e \<leftarrow> m_heap c2 a;
     unlock_cache (stats (\<lambda>s. s\<lparr>cs_bytes_written := cs_bytes_written s + e_data_size e,
        cs_flushes := cs_flushes s + 1, cs_entries_dirty := cs_entries_dirty s - 1\<rparr>) c2) }"

text \<open>Writing a dirty entry back, as \<open>sweep_flush_and_maybe_evict\<close> and \<open>make_room_for_new_entry\<close>
  do it.\<close>

definition flush_dirty :: "'d kes_cache \<Rightarrow> addr \<Rightarrow> 'd kes_cache option" where
  "flush_dirty c a = do {
     e \<leftarrow> m_heap c a;
     if e_state e AND KES_EXTENT_DIRTY \<noteq> 0 \<and> e_state e AND KES_EXTENT_LOADING = 0
     then (case c_write_extent c of None \<Rightarrow> Some c
       | Some wr \<Rightarrow> do {
           (result, c1) \<leftarrow> store_data wr c (e_id e) a;
           if result = KES_SUCCESS then note_flushed c1 a
           else upd c1 a (\<lambda>e. e\<lparr>e_state := e_state e OR KES_EXTENT_ERROR\<rparr>) })
     else Some c }"

section \<open>Sweeping and making room\<close>

definition sweep_flush_and_maybe_evict :: "'d kes_cache \<Rightarrow> addr \<Rightarrow> 'd kes_cache option" where
  "sweep_flush_and_maybe_evict c a = do {
     c1 \<leftarrow> lock_entry c a;
     c2 \<leftarrow> unpin_lookup c1 a;
     c3 \<leftarrow> flush_dirty c2 a;
     (evicted, c4) \<leftarrow> try_evict_entry_locked c3 a False;
     if evicted then Some c4 else unlock_entry c4 a }"

text \<open>Pinning the node a traversal goes to next, if there is one.\<close>

definition pin_next :: "'d kes_cache \<Rightarrow> addr option \<Rightarrow> 'd kes_cache option" where
  "pin_next c p = (case p of None \<Rightarrow> Some c | Some a \<Rightarrow> pin_lookup c a)"

definition pin_list_next :: "'d kes_cache \<Rightarrow> addr \<Rightarrow> (addr option \<times> 'd kes_cache) option" where
  "pin_list_next c a = do {
     c1 \<leftarrow> lock_cache c;
     e \<leftarrow> m_heap c1 a;
     c2 \<leftarrow> pin_next c1 (e_list_next e);
     c3 \<leftarrow> unlock_cache c2;
     Some (e_list_next e, c3) }"

partial_function (option) cache_sweep_loop :: "'d kes_cache \<Rightarrow> addr option \<Rightarrow> 'd kes_cache option" where
  "cache_sweep_loop c entry = (case entry of None \<Rightarrow> Some c | Some a \<Rightarrow> do {
     (nxt, c1) \<leftarrow> pin_list_next c a;
     c2 \<leftarrow> sweep_flush_and_maybe_evict c1 a;
     cache_sweep_loop c2 nxt })"

definition cache_sweep :: "'d kes_cache \<Rightarrow> 'd kes_cache option" where
  "cache_sweep c = do {
     c1 \<leftarrow> lock_cache c;
     let entry = c_mru_head c1;
     c2 \<leftarrow> pin_next c1 entry;
     c3 \<leftarrow> unlock_cache c2;
     cache_sweep_loop c3 entry }"

definition room_for :: "'d kes_cache \<Rightarrow> u64 \<Rightarrow> bool" where
  "room_for c aligned_needed \<longleftrightarrow>
     cs_entries_cached (c_stats c) + 1 \<le> cc_max_entries (c_config c) \<and>
     cs_memory_used (c_stats c) + aligned_needed \<le> cc_max_memory (c_config c)"

text \<open>One visit of the walk in \<open>make_room_for_new_entry\<close>: flush, pin the predecessor, try to evict, and
  decide where to go. It returns the new \<open>fits\<close> and the next node.\<close>

definition make_room_visit ::
    "'d kes_cache \<Rightarrow> u64 \<Rightarrow> bool \<Rightarrow> addr \<Rightarrow> (bool \<times> addr option \<times> 'd kes_cache) option" where
  "make_room_visit c aligned_needed fits a = do {
     c1 \<leftarrow> lock_entry c a;
     c2 \<leftarrow> unpin_lookup c1 a;
     c3 \<leftarrow> flush_dirty c2 a;
     c4 \<leftarrow> lock_cache c3;
     e \<leftarrow> m_heap c4 a;
     let prev = e_list_prev e;
     c5 \<leftarrow> (if \<not> fits then pin_next c4 prev else Some c4);
     c6 \<leftarrow> unlock_cache c5;
     (evicted, c7) \<leftarrow> try_evict_entry_locked c6 a False;
     (fits1, c9) \<leftarrow> (if evicted then do {
           c8 \<leftarrow> lock_cache c7;
           let c8 = stats (\<lambda>s. s\<lparr>cs_evictions := cs_evictions s + 1\<rparr>) c8;
           c9 \<leftarrow> unlock_cache c8;
           Some (room_for c8 aligned_needed, c9) }
         else do { c8 \<leftarrow> unlock_entry c7 a; Some (fits, c8) });
     (case prev of None \<Rightarrow> Some (fits1, None, c9)
      | Some p \<Rightarrow> if fits1 then do { c10 \<leftarrow> unpin_lookup c9 p; Some (fits1, None, c10) }
          else Some (fits1, Some p, c9)) }"

partial_function (option) make_room_loop ::
    "'d kes_cache \<Rightarrow> u64 \<Rightarrow> bool \<Rightarrow> addr option \<Rightarrow> (bool \<times> 'd kes_cache) option" where
  "make_room_loop c aligned_needed fits entry = (case entry of None \<Rightarrow> Some (fits, c) | Some a \<Rightarrow> do {
     (fits1, prev, c1) \<leftarrow> make_room_visit c aligned_needed fits a;
     make_room_loop c1 aligned_needed fits1 prev })"

definition make_room_for_new_entry :: "'d kes_cache \<Rightarrow> u64 \<Rightarrow> (bool \<times> 'd kes_cache) option" where
  "make_room_for_new_entry c needed_size = do {
     let aligned_needed = KES_ALIGN needed_size KES_CACHE_ALIGNMENT;
     c1 \<leftarrow> lock_cache c;
     let fits = room_for c1 aligned_needed;
     let entry = (if fits then None else c_lru_tail c1);
     c2 \<leftarrow> pin_next c1 entry;
     c3 \<leftarrow> unlock_cache c2;
     make_room_loop c3 aligned_needed fits entry }"


section \<open>Lifecycle\<close>

definition kes_cache_get_default_config :: "bool \<Rightarrow> kes_cache_config" where
  "kes_cache_get_default_config is_edge_device =
    (if is_edge_device
     then \<lparr>cc_max_memory = 8 * 1024 * 1024, cc_min_memory = 2 * 1024 * 1024, cc_max_entries = 256,
       cc_policy = KES_CACHE_LRU, cc_background_threads = 1, cc_sync_interval_ms = 5000,
       cc_enable_prefetch = True, cc_enable_compression = False\<rparr>
     else \<lparr>cc_max_memory = 512 * 1024 * 1024, cc_min_memory = 64 * 1024 * 1024, cc_max_entries = 4096,
       cc_policy = KES_CACHE_LRU, cc_background_threads = 4, cc_sync_interval_ms = 1000,
       cc_enable_prefetch = True, cc_enable_compression = False\<rparr>)"

definition zero_cache_stats :: kes_cache_stats where
  "zero_cache_stats = \<lparr>cs_hits = 0, cs_misses = 0, cs_evictions = 0, cs_flushes = 0, cs_bytes_read = 0,
     cs_bytes_written = 0, cs_memory_used = 0, cs_entries_cached = 0, cs_entries_dirty = 0,
     cs_entries_pinned = 0\<rparr>"

text \<open>\<open>kes_cache_create\<close> works on the memory alone; the cache it returns contains it.\<close>

definition kes_cache_create :: "kes_cache_config option \<Rightarrow> 'd mach \<Rightarrow> 'd mach + 'd kes_cache" where
  "kes_cache_create config m = (case config of None \<Rightarrow> Inl m | Some cfg \<Rightarrow>
     if cc_max_memory cfg < KES_CACHE_MIN_MEMORY \<or> cc_max_entries cfg < KES_CACHE_MIN_ENTRIES then Inl m
     else if cc_policy cfg \<noteq> KES_CACHE_LRU then Inl m
     else let (fails1, m1) = may_fail m in
     if fails1 then Inl m1
     else let (fails2, m2) = may_fail m1 in
     if fails2 then Inl m2
     else Inr (mach.extend m2
       \<lparr>c_config = cfg, c_stats = zero_cache_stats,
        c_buckets = (\<lambda>_. \<lparr>b_head = None, b_lock = False\<rparr>),
        c_bucket_count = KES_CACHE_DEFAULT_BUCKETS, c_bucket_mask = KES_CACHE_DEFAULT_BUCKETS - 1,
        c_mru_head = None, c_lru_tail = None, c_bg_threads = None, c_shutdown = False,
        c_cache_lock = False, c_inflight_lookups = 0, c_destroying = False,
        c_read_extent = None, c_write_extent = None, c_sync_device = None\<rparr>))"

text \<open>Joining the first \<open>n\<close> threads of the array; joining a thread twice is undefined. A join takes the thread out of the array; that a thread
  ends once \<open>shutdown\<close> is set is a property of \<open>cache_bg_thread_func\<close> below.\<close>

fun join_threads :: "bool list \<Rightarrow> nat \<Rightarrow> nat \<Rightarrow> bool list option" where
  "join_threads ts i 0 = Some ts"
| "join_threads ts i (Suc k) =
     (if i < length ts \<and> ts ! i then join_threads (ts[i := False]) (i + 1) k else None)"

definition kes_cache_stop :: "'d kes_cache option \<Rightarrow> (int \<times> 'd kes_cache option) option" where
  "kes_cache_stop cache = (case cache of None \<Rightarrow> Some (KES_ERROR_INVALID, None) | Some c \<Rightarrow> do {
     c1 \<leftarrow> lock_cache c;
     c2 \<leftarrow> unlock_cache (c1\<lparr>c_shutdown := True\<rparr>);
     c3 \<leftarrow> (case c_bg_threads c2 of None \<Rightarrow> Some c2
            | Some ts \<Rightarrow> do {
                ts1 \<leftarrow> join_threads ts 0 (nat (cc_background_threads (c_config c2)));
                Some (c2\<lparr>c_bg_threads := None\<rparr>) });
     Some (KES_SUCCESS, Some c3) })"

text \<open>The loop that creates the threads from the \<open>i\<close>-th on; when one cannot be created the earlier
  ones are stopped and joined.\<close>

fun start_threads :: "'d kes_cache \<Rightarrow> bool list \<Rightarrow> nat \<Rightarrow> nat \<Rightarrow> (int \<times> 'd kes_cache) option" where
  "start_threads c ts i 0 = Some (KES_SUCCESS, c\<lparr>c_bg_threads := Some ts\<rparr>)"
| "start_threads c ts i (Suc k) = (let (fails, c1) = may_fail c in
     if fails then do {
       c2 \<leftarrow> lock_cache c1;
       c3 \<leftarrow> unlock_cache (c2\<lparr>c_shutdown := True\<rparr>);
       ts1 \<leftarrow> join_threads ts 0 i;
       Some (KES_ERROR_INVALID, c3\<lparr>c_bg_threads := None, c_shutdown := False\<rparr>) }
     else start_threads c1 (ts[i := True]) (i + 1) k)"

definition kes_cache_start :: "'d kes_cache option \<Rightarrow> (int \<times> 'd kes_cache option) option" where
  "kes_cache_start cache = (case cache of None \<Rightarrow> Some (KES_ERROR_INVALID, None) | Some c \<Rightarrow>
     if cc_background_threads (c_config c) \<le> 0 then Some (KES_ERROR_INVALID, Some c)
     else if c_bg_threads c \<noteq> None then Some (KES_ERROR_EXISTS, Some c)
     else let (fails, c1) = may_fail c; n = nat (cc_background_threads (c_config c)) in
     if fails then Some (KES_ERROR_NOMEM, Some c1)
     else do {
       (result, c2) \<leftarrow> start_threads (c1\<lparr>c_shutdown := False\<rparr>) (replicate n False) 0 n;
       Some (result, Some c2) })"

text \<open>One wake-up of a background thread, which holds \<open>cache_lock\<close> when \<open>pthread_cond_timedwait\<close> returns:
  it ends when \<open>shutdown\<close> is set and sweeps otherwise. The result tells whether it goes on.\<close>

definition bg_wakeup :: "'d kes_cache \<Rightarrow> (bool \<times> 'd kes_cache) option" where
  "bg_wakeup c = (if c_shutdown c then do { c1 \<leftarrow> unlock_cache c; Some (False, c1) }
     else do {
       c1 \<leftarrow> unlock_cache c;
       c2 \<leftarrow> cache_sweep c1;
       c3 \<leftarrow> lock_cache c2;
       Some (True, c3) })"

text \<open>The deadline of the wait: seconds and nanoseconds; \<open>/\<close> and \<open>%\<close> of C round towards zero.\<close>

definition bg_deadline :: "int \<times> int \<Rightarrow> int \<Rightarrow> int \<times> int" where
  "bg_deadline now sync_interval_ms =
    (let quot = sgn sync_interval_ms * (\<bar>sync_interval_ms\<bar> div 1000);
         rem = sync_interval_ms - quot * 1000;
         sec = fst now + quot;
         nsec = snd now + rem * 1000000
     in if nsec \<ge> 1000000000 then (sec + 1, nsec - 1000000000) else (sec, nsec))"

text \<open>A background thread. Each element of the list is one wait: the time at which it starts and what the other
  threads do until it ends, given its deadline. \<open>pthread_cond_timedwait\<close> releases \<open>cache_lock\<close> meanwhile. The result tells whether
  the thread has ended or, after the last wait of the list, waits again.\<close>

type_synonym 'd wait = "(int \<times> int) \<times> (int \<times> int \<Rightarrow> 'd kes_cache \<Rightarrow> 'd kes_cache option)"

fun cache_bg_loop :: "'d wait list \<Rightarrow> 'd kes_cache \<Rightarrow> (bool \<times> 'd kes_cache) option" where
  "cache_bg_loop ws c = (if c_shutdown c then do { c1 \<leftarrow> unlock_cache c; Some (True, c1) }
     else case ws of [] \<Rightarrow> Some (False, c)
     | (now, others) # ws' \<Rightarrow> do {
         let deadline = bg_deadline now (cc_sync_interval_ms (c_config c));
         c1 \<leftarrow> unlock_cache c;
         c2 \<leftarrow> others deadline c1;
         c3 \<leftarrow> lock_cache c2;
         (goes_on, c4) \<leftarrow> bg_wakeup c3;
         if goes_on then cache_bg_loop ws' c4 else Some (True, c4) })"

declare cache_bg_loop.simps [simp del]

definition cache_bg_thread_func :: "'d wait list \<Rightarrow> 'd kes_cache \<Rightarrow> (bool \<times> 'd kes_cache) option" where
  "cache_bg_thread_func ws c = do {
     c1 \<leftarrow> lock_cache c;
     cache_bg_loop ws c1 }"

section \<open>Extent operations\<close>

definition end_lookup :: "'d kes_cache \<Rightarrow> 'd kes_cache option" where
  "end_lookup c = do {
     c1 \<leftarrow> lock_cache c;
     unlock_cache (c1\<lparr>c_inflight_lookups := c_inflight_lookups c1 - 1\<rparr>) }"

definition add_bytes_read :: "'d kes_cache \<Rightarrow> addr \<Rightarrow> 'd kes_cache option" where
  "add_bytes_read c a = do {
     c1 \<leftarrow> lock_cache c;
     e \<leftarrow> m_heap c1 a;
     unlock_cache (stats (\<lambda>s. s\<lparr>cs_bytes_read := cs_bytes_read s + e_data_size e\<rparr>) c1) }"

text \<open>The published candidate: accounting, the load, and its outcome.\<close>

definition publish_and_load ::
    "'d kes_cache \<Rightarrow> kes_extent_id \<Rightarrow> addr \<Rightarrow> (int \<times> addr option \<times> 'd kes_cache) option" where
  "publish_and_load c i a = do {
     c1 \<leftarrow> lock_cache c;
     c2 \<leftarrow> lru_add_head (stats (\<lambda>s. s\<lparr>cs_misses := cs_misses s + 1\<rparr>) c1) a;
     e \<leftarrow> m_heap c2 a;
     let c3 = stats (\<lambda>s. s\<lparr>cs_entries_cached := cs_entries_cached s + 1,
        cs_memory_used := cs_memory_used s + KES_ALIGN (e_data_size e) KES_CACHE_ALIGNMENT\<rparr>) c2;
     c4 \<leftarrow> unlock_cache (c3\<lparr>c_inflight_lookups := c_inflight_lookups c3 - 1\<rparr>);
     (result, c5) \<leftarrow> load_data c4 i a;
     c6 \<leftarrow> lock_entry c5 a;
     e6 \<leftarrow> m_heap c6 a;
     if result = KES_SUCCESS then do {
       c7 \<leftarrow> upd c6 a (\<lambda>e. e\<lparr>e_state := KES_EXTENT_CLEAN\<rparr>);
       c8 \<leftarrow> unlock_entry c7 a;
       c9 \<leftarrow> add_bytes_read c8 a;
       Some (result, e_data e6, c9) }
     else do {
       c7 \<leftarrow> upd c6 a (\<lambda>e. e\<lparr>e_state := KES_EXTENT_ERROR,
               e_ref_count := (if e_ref_count e > 0 then e_ref_count e - 1 else e_ref_count e)\<rparr>);
       c8 \<leftarrow> unlock_entry c7 a;
       Some (if result \<noteq> KES_ERROR_INVALID then KES_ERROR_IO else result, None, c8) } }"

text \<open>The miss path up to the insertion: either the call is over (\<open>Inl\<close>), or another entry for the id
  has appeared (\<open>Inr\<close>) and the candidate is dropped.\<close>

definition get_extent_miss ::
    "'d kes_cache \<Rightarrow> kes_extent_id \<Rightarrow> ((int \<times> addr option + addr) \<times> 'd kes_cache) option" where
  "get_extent_miss c i = do {
     (room, c1) \<leftarrow> make_room_for_new_entry c (extent_data_size i);
     if \<not> room then do { c2 \<leftarrow> end_lookup c1; Some (Inl (KES_ERROR_BUSY, None), c2) }
     else let (fails, c2) = may_fail c1 in
     if fails then do { c3 \<leftarrow> end_lookup c2; Some (Inl (KES_ERROR_NOMEM, None), c3) }
     else let candidate = m_next c2;
              (e, c3) = init_extent_entry i (c2\<lparr>m_next := candidate + 1\<rparr>);
              c4 = c3\<lparr>m_heap := (m_heap c3)(candidate \<mapsto> e\<lparr>e_state := KES_EXTENT_LOADING, e_ref_count := 1\<rparr>)\<rparr>;
              (p, c5) = extent_alloc_data c4 (e_data_size e) in
     (case p of
        None \<Rightarrow> do {
          c6 \<leftarrow> free_entry c5 candidate;
          c7 \<leftarrow> end_lookup c6;
          Some (Inl (KES_ERROR_NOMEM, None), c7) }
      | Some q \<Rightarrow> do {
          c6 \<leftarrow> upd c5 candidate (e_data_update (\<lambda>_. Some q));
          (found, c7) \<leftarrow> hash_find_or_insert c6 candidate;
          (case found of
             None \<Rightarrow> do {
               (result, buf, c8) \<leftarrow> publish_and_load c7 i candidate;
               Some (Inl (result, buf), c8) }
           | Some a \<Rightarrow> do {
               c8 \<leftarrow> free_buffer c7 q;
               c9 \<leftarrow> free_entry c8 candidate;
               Some (Inr a, c9) }) }) }"

text \<open>Waiting for a load in progress: only another thread could end it.\<close>

definition wait_loaded :: "'d kes_cache \<Rightarrow> addr \<Rightarrow> 'd kes_cache option" where
  "wait_loaded c a = do {
     e \<leftarrow> m_heap c a;
     if e_state e AND KES_EXTENT_LOADING \<noteq> 0 then None else Some c }"

definition retry_load :: "'d kes_cache \<Rightarrow> kes_extent_id \<Rightarrow> addr \<Rightarrow> 'd kes_cache option" where
  "retry_load c i a = do {
     c1 \<leftarrow> upd c a (\<lambda>e. e\<lparr>e_state := KES_EXTENT_LOADING\<rparr>);
     c2 \<leftarrow> unlock_entry c1 a;
     (retry_result, c3) \<leftarrow> load_data c2 i a;
     c4 \<leftarrow> lock_entry c3 a;
     c5 \<leftarrow> upd c4 a (\<lambda>e. e\<lparr>e_state := if retry_result = KES_SUCCESS then KES_EXTENT_CLEAN else KES_EXTENT_ERROR\<rparr>);
     c6 \<leftarrow> unlock_entry c5 a;
     c7 \<leftarrow> (if retry_result = KES_SUCCESS then add_bytes_read c6 a else Some c6);
     lock_entry c7 a }"

definition get_extent_hit ::
    "'d kes_cache \<Rightarrow> kes_extent_id \<Rightarrow> addr \<Rightarrow> (int \<times> addr option \<times> 'd kes_cache) option" where
  "get_extent_hit c i a = do {
     c1 \<leftarrow> lock_entry c a;
     c2 \<leftarrow> unpin_lookup c1 a;
     c3 \<leftarrow> wait_loaded c2 a;
     e \<leftarrow> m_heap c3 a;
     c4 \<leftarrow> (if e_state e AND KES_EXTENT_ERROR \<noteq> 0 \<and> e_state e AND KES_EXTENT_DIRTY = 0
            then retry_load c3 i a else Some c3);
     e4 \<leftarrow> m_heap c4 a;
     if e_state e4 AND KES_EXTENT_ERROR \<noteq> 0 then do {
       c5 \<leftarrow> unlock_entry c4 a;
       c6 \<leftarrow> end_lookup c5;
       Some (KES_ERROR_IO, None, c6) }
     else do {
       let (now, c5) = get_timestamp c4;
       c6 \<leftarrow> upd c5 a (\<lambda>e. e\<lparr>e_ref_count := e_ref_count e + 1, e_access_time := now,
               e_access_count := e_access_count e + 1\<rparr>);
       c7 \<leftarrow> unlock_entry c6 a;
       c8 \<leftarrow> lock_cache c7;
       c9 \<leftarrow> lru_touch c8 a;
       let c10 = stats (\<lambda>s. s\<lparr>cs_hits := cs_hits s + 1\<rparr>) c9;
       c11 \<leftarrow> unlock_cache (c10\<lparr>c_inflight_lookups := c_inflight_lookups c10 - 1\<rparr>);
       Some (KES_SUCCESS, e_data e4, c11) } }"

text \<open>\<open>buffer\<close> is the caller's pointer variable (\<open>None\<close>: a NULL argument).\<close>

definition kes_cache_get_extent ::
    "'d kes_cache option \<Rightarrow> kes_extent_id option \<Rightarrow> addr option option \<Rightarrow>
     (int \<times> 'd kes_cache option \<times> addr option option) option" where
  "kes_cache_get_extent cache ident buffer = (case (cache, ident, buffer) of
     (Some c, Some i, Some _) \<Rightarrow>
       if \<not> KES_IS_POWER_OF_2 (id_block_size i) \<or> id_block_size i < KES_MIN_BLOCK_SIZE \<or>
          id_block_size i > KES_MAX_BLOCK_SIZE then Some (KES_ERROR_INVALID, cache, buffer)
       else if id_block_count i = 0 then Some (KES_ERROR_INVALID, cache, buffer)
       else do {
         c1 \<leftarrow> lock_cache c;
         if c_destroying c1 then do { c2 \<leftarrow> unlock_cache c1; Some (KES_ERROR_INVALID, Some c2, buffer) }
         else do {
           c2 \<leftarrow> unlock_cache (c1\<lparr>c_inflight_lookups := c_inflight_lookups c1 + 1\<rparr>);
           (entry, c3) \<leftarrow> hash_find c2 i;
           (r, c4) \<leftarrow> (case entry of None \<Rightarrow> get_extent_miss c3 i | Some a \<Rightarrow> Some (Inr a, c3));
           (case r of
              Inl (result, buf) \<Rightarrow> Some (result, Some c4, Some buf)
            | Inr a \<Rightarrow> do {
                (result, buf, c5) \<leftarrow> get_extent_hit c4 i a;
                Some (result, Some c5, Some buf) }) } }
   | _ \<Rightarrow> Some (KES_ERROR_INVALID, cache, buffer))"

text \<open>The opening of the operations on a cached entry: look it up, lock it, release the pin.\<close>

definition find_locked :: "'d kes_cache \<Rightarrow> kes_extent_id \<Rightarrow> (addr option \<times> 'd kes_cache) option" where
  "find_locked c i = do {
     (entry, c1) \<leftarrow> hash_find c i;
     (case entry of None \<Rightarrow> Some (None, c1)
      | Some a \<Rightarrow> do {
          c2 \<leftarrow> lock_entry c1 a;
          c3 \<leftarrow> unpin_lookup c2 a;
          Some (Some a, c3) }) }"

definition kes_cache_put_extent ::
    "'d kes_cache option \<Rightarrow> kes_extent_id option \<Rightarrow> (int \<times> 'd kes_cache option) option" where
  "kes_cache_put_extent cache ident = (case (cache, ident) of
     (Some c, Some i) \<Rightarrow> do {
       (entry, c1) \<leftarrow> find_locked c i;
       (case entry of None \<Rightarrow> Some (KES_ERROR_NOTFOUND, Some c1)
        | Some a \<Rightarrow> do {
            c2 \<leftarrow> upd c1 a (\<lambda>e. if e_ref_count e > 0 then e\<lparr>e_ref_count := e_ref_count e - 1\<rparr> else e);
            c3 \<leftarrow> unlock_entry c2 a;
            Some (KES_SUCCESS, Some c3) }) }
   | _ \<Rightarrow> Some (KES_ERROR_INVALID, cache))"

definition kes_cache_mark_dirty ::
    "'d kes_cache option \<Rightarrow> kes_extent_id option \<Rightarrow> (int \<times> 'd kes_cache option) option" where
  "kes_cache_mark_dirty cache ident = (case (cache, ident) of
     (Some c, Some i) \<Rightarrow> do {
       (entry, c1) \<leftarrow> find_locked c i;
       (case entry of None \<Rightarrow> Some (KES_ERROR_NOTFOUND, Some c1)
        | Some a \<Rightarrow> do {
            e \<leftarrow> m_heap c1 a;
            c3 \<leftarrow> (if e_state e AND KES_EXTENT_DIRTY = 0 then do {
                c2 \<leftarrow> upd c1 a (\<lambda>e. e\<lparr>e_state := e_state e OR KES_EXTENT_DIRTY\<rparr>);
                c3 \<leftarrow> lock_cache c2;
                unlock_cache (stats (\<lambda>s. s\<lparr>cs_entries_dirty := cs_entries_dirty s + 1\<rparr>) c3) }
              else Some c1);
            c4 \<leftarrow> unlock_entry c3 a;
            Some (KES_SUCCESS, Some c4) }) }
   | _ \<Rightarrow> Some (KES_ERROR_INVALID, cache))"

definition kes_cache_pin_extent ::
    "'d kes_cache option \<Rightarrow> kes_extent_id option \<Rightarrow> (int \<times> 'd kes_cache option) option" where
  "kes_cache_pin_extent cache ident = (case (cache, ident) of
     (Some c, Some i) \<Rightarrow> do {
       (entry, c1) \<leftarrow> find_locked c i;
       (case entry of None \<Rightarrow> Some (KES_ERROR_NOTFOUND, Some c1)
        | Some a \<Rightarrow> do {
            e \<leftarrow> m_heap c1 a;
            c3 \<leftarrow> (if e_pin_count e = 0 then do {
                c2 \<leftarrow> upd c1 a (\<lambda>e. e\<lparr>e_state := e_state e OR KES_EXTENT_PINNED\<rparr>);
                c3 \<leftarrow> lock_cache c2;
                unlock_cache (stats (\<lambda>s. s\<lparr>cs_entries_pinned := cs_entries_pinned s + 1\<rparr>) c3) }
              else Some c1);
            c4 \<leftarrow> upd c3 a (\<lambda>e. e\<lparr>e_pin_count := e_pin_count e + 1\<rparr>);
            c5 \<leftarrow> unlock_entry c4 a;
            Some (KES_SUCCESS, Some c5) }) }
   | _ \<Rightarrow> Some (KES_ERROR_INVALID, cache))"

definition kes_cache_unpin_extent ::
    "'d kes_cache option \<Rightarrow> kes_extent_id option \<Rightarrow> (int \<times> 'd kes_cache option) option" where
  "kes_cache_unpin_extent cache ident = (case (cache, ident) of
     (Some c, Some i) \<Rightarrow> do {
       (entry, c1) \<leftarrow> find_locked c i;
       (case entry of None \<Rightarrow> Some (KES_ERROR_NOTFOUND, Some c1)
        | Some a \<Rightarrow> do {
            e \<leftarrow> m_heap c1 a;
            c4 \<leftarrow> (if e_pin_count e > 0 then do {
                c2 \<leftarrow> upd c1 a (\<lambda>e. e\<lparr>e_pin_count := e_pin_count e - 1\<rparr>);
                (if e_pin_count e - 1 = 0 then do {
                   c3 \<leftarrow> upd c2 a (\<lambda>e. e\<lparr>e_state := e_state e AND NOT KES_EXTENT_PINNED\<rparr>);
                   c4 \<leftarrow> lock_cache c3;
                   unlock_cache (stats (\<lambda>s. s\<lparr>cs_entries_pinned := cs_entries_pinned s - 1\<rparr>) c4) }
                 else Some c2) }
              else Some c1);
            c5 \<leftarrow> unlock_entry c4 a;
            Some (KES_SUCCESS, Some c5) }) }
   | _ \<Rightarrow> Some (KES_ERROR_INVALID, cache))"

definition kes_cache_flush_extent ::
    "'d kes_cache option \<Rightarrow> kes_extent_id option \<Rightarrow> (int \<times> 'd kes_cache option) option" where
  "kes_cache_flush_extent cache ident = (case (cache, ident) of
     (Some c, Some i) \<Rightarrow> do {
       (entry, c1) \<leftarrow> find_locked c i;
       (case entry of None \<Rightarrow> Some (KES_ERROR_NOTFOUND, Some c1)
        | Some a \<Rightarrow> do {
            c2 \<leftarrow> wait_loaded c1 a;
            e \<leftarrow> m_heap c2 a;
            if e_state e AND KES_EXTENT_DIRTY \<noteq> 0 then
              (case c_write_extent c2 of
                 None \<Rightarrow> do { c3 \<leftarrow> unlock_entry c2 a; Some (KES_ERROR_INVALID, Some c3) }
               | Some wr \<Rightarrow> do {
                   (result, c3) \<leftarrow> store_data wr c2 i a;
                   if result = KES_SUCCESS then do {
                     c4 \<leftarrow> note_flushed c3 a;
                     c5 \<leftarrow> unlock_entry c4 a;
                     Some (KES_SUCCESS, Some c5) }
                   else do {
                     c4 \<leftarrow> upd c3 a (\<lambda>e. e\<lparr>e_state := e_state e OR KES_EXTENT_ERROR\<rparr>);
                     c5 \<leftarrow> unlock_entry c4 a;
                     Some (KES_ERROR_IO, Some c5) } })
            else do { c3 \<leftarrow> unlock_entry c2 a; Some (KES_SUCCESS, Some c3) } }) }
   | _ \<Rightarrow> Some (KES_ERROR_INVALID, cache))"

definition kes_cache_invalidate ::
    "'d kes_cache option \<Rightarrow> kes_extent_id option \<Rightarrow> (int \<times> 'd kes_cache option) option" where
  "kes_cache_invalidate cache ident = (case (cache, ident) of
     (Some c, Some i) \<Rightarrow> do {
       (entry, c1) \<leftarrow> find_locked c i;
       (case entry of None \<Rightarrow> Some (KES_ERROR_NOTFOUND, Some c1)
        | Some a \<Rightarrow> do {
            e \<leftarrow> m_heap c1 a;
            if e_ref_count e > 0 \<or> e_pin_count e > 0 then do {
              c2 \<leftarrow> unlock_entry c1 a; Some (KES_ERROR_BUSY, Some c2) }
            else do {
              let was_dirty = (e_state e AND KES_EXTENT_DIRTY \<noteq> 0);
              (evicted, c2) \<leftarrow> try_evict_entry_locked c1 a True;
              if \<not> evicted then do { c3 \<leftarrow> unlock_entry c2 a; Some (KES_ERROR_BUSY, Some c3) }
              else do {
                c4 \<leftarrow> (if was_dirty then do {
                    c3 \<leftarrow> lock_cache c2;
                    unlock_cache (stats (\<lambda>s. s\<lparr>cs_entries_dirty := cs_entries_dirty s - 1\<rparr>) c3) }
                  else Some c2);
                Some (KES_SUCCESS, Some c4) } } }) }
   | _ \<Rightarrow> Some (KES_ERROR_INVALID, cache))"

definition kes_cache_sync :: "'d kes_cache option \<Rightarrow> (int \<times> 'd kes_cache option) option" where
  "kes_cache_sync cache = (case cache of None \<Rightarrow> Some (KES_ERROR_INVALID, None)
     | Some c \<Rightarrow> do { c1 \<leftarrow> cache_sweep c; Some (KES_SUCCESS, Some c1) })"

section \<open>Statistics and callbacks\<close>

definition kes_cache_get_stats ::
    "'d kes_cache option \<Rightarrow> bool \<Rightarrow> (int \<times> 'd kes_cache option \<times> kes_cache_stats option) option" where
  "kes_cache_get_stats cache outp = (case cache of None \<Rightarrow> Some (KES_ERROR_INVALID, None, None)
     | Some c \<Rightarrow> if \<not> outp then Some (KES_ERROR_INVALID, cache, None) else do {
         c1 \<leftarrow> lock_cache c;
         c2 \<leftarrow> unlock_cache c1;
         Some (KES_SUCCESS, Some c2, Some (c_stats c1)) })"

definition kes_cache_reset_stats :: "'d kes_cache option \<Rightarrow> (int \<times> 'd kes_cache option) option" where
  "kes_cache_reset_stats cache = (case cache of None \<Rightarrow> Some (KES_ERROR_INVALID, None) | Some c \<Rightarrow> do {
     c1 \<leftarrow> lock_cache c;
     c2 \<leftarrow> unlock_cache (stats (\<lambda>s. s\<lparr>cs_hits := 0, cs_misses := 0, cs_evictions := 0, cs_flushes := 0,
        cs_bytes_read := 0, cs_bytes_written := 0\<rparr>) c1);
     Some (KES_SUCCESS, Some c2) })"

definition kes_cache_set_io_callbacks ::
    "'d kes_cache option \<Rightarrow> 'd read_cb option \<Rightarrow> 'd write_cb option \<Rightarrow> 'd sync_cb option \<Rightarrow>
     int \<times> 'd kes_cache option" where
  "kes_cache_set_io_callbacks cache read_func write_func sync_func = (case cache of
     None \<Rightarrow> (KES_ERROR_INVALID, None)
   | Some c \<Rightarrow> (KES_SUCCESS, Some (c\<lparr>c_read_extent := read_func, c_write_extent := write_func,
       c_sync_device := sync_func\<rparr>)))"

section \<open>Destruction\<close>

partial_function (option) destroy_loop :: "'d kes_cache \<Rightarrow> addr option \<Rightarrow> 'd kes_cache option" where
  "destroy_loop c entry = (case entry of None \<Rightarrow> Some c | Some a \<Rightarrow> do {
     (nxt, c1) \<leftarrow> pin_list_next c a;
     c2 \<leftarrow> lock_entry c1 a;
     c3 \<leftarrow> unpin_lookup c2 a;
     (evicted, c4) \<leftarrow> try_evict_entry_locked c3 a True;
     c5 \<leftarrow> (if evicted then Some c4 else unlock_entry c4 a);
     destroy_loop c5 nxt })"

text \<open>A destroyed cache leaves the memory (\<open>Inl\<close>); otherwise the cache stays (\<open>Inr\<close>). The heap has entries and buffers; the bucket array, the
  array of threads, the locks and the struct itself are fields of the cache and go with it.\<close>

definition kes_cache_destroy :: "'d kes_cache option \<Rightarrow> (int \<times> ('d mach + 'd kes_cache) option) option" where
  "kes_cache_destroy cache = (case cache of None \<Rightarrow> Some (KES_ERROR_INVALID, None) | Some c \<Rightarrow> do {
     (stopped, cache1) \<leftarrow> kes_cache_stop cache;
     c1 \<leftarrow> cache1;
     c2 \<leftarrow> lock_cache c1;
     if c_inflight_lookups c2 \<noteq> 0 then do {
       c3 \<leftarrow> unlock_cache c2; Some (KES_ERROR_BUSY, Some (Inr c3)) }
     else do {
       let c3 = c2\<lparr>c_destroying := True\<rparr>;
       let entry = c_mru_head c3;
       c4 \<leftarrow> pin_next c3 entry;
       c5 \<leftarrow> unlock_cache c4;
       c6 \<leftarrow> destroy_loop c5 entry;
       c7 \<leftarrow> lock_cache c6;
       if \<not> (c_mru_head c7 = None \<and> c_inflight_lookups c7 = 0) then do {
         c8 \<leftarrow> unlock_cache (c7\<lparr>c_destroying := False\<rparr>);
         Some (KES_ERROR_BUSY, Some (Inr c8)) }
       else do {
         c8 \<leftarrow> unlock_cache c7;
         Some (KES_SUCCESS, Some (Inl (mach.truncate c8))) } } })"

end
