(* ===== verification/Kes_Links.thy ===== *)
theory Kes_Links
  imports Kes_Prelude
begin

text \<open>
  Intrusive doubly linked lists in a heap, as the hash chains and the LRU list of the cache use
  them: the segments of such a list, and what pushing a node in front and unlinking a node do to
  the segments and to everything else an entry holds. The interface \<open>linked\<close> asks for two link fields
  and their update functions; it is interpreted for both pairs of fields of a cache entry.
\<close>

section \<open>Segments\<close>

definition first :: "nat list \<Rightarrow> nat option \<Rightarrow> nat option" where
  "first xs r = (case xs of [] \<Rightarrow> r | y # ys \<Rightarrow> Some y)"

definition final :: "nat list \<Rightarrow> nat option \<Rightarrow> nat option" where
  "final xs l = (if xs = [] then l else Some (last xs))"

lemma first_simps [simp]: "first [] r = r" "first (x # xs) r = Some x" "first (xs @ ys) r = first xs (first ys r)"
  by (auto simp: first_def split: list.splits)

lemma final_simps [simp]: "final [] l = l" "final (x # xs) l = final xs (Some x)" "final (xs @ ys) l = final ys (final xs l)"
  by (auto simp: final_def)

lemma first_None: "first xs None = None \<longleftrightarrow> xs = []" and final_None: "final xs None = None \<longleftrightarrow> xs = []"
  by (auto simp: first_def final_def split: list.splits)

lemma first_SomeD: "first xs r = Some a \<Longrightarrow> a \<in> set xs \<or> r = Some a"
  and final_SomeD: "final xs l = Some a \<Longrightarrow> a \<in> set xs \<or> l = Some a"
  by (auto simp: first_def final_def split: list.splits if_splits)

text \<open>The nodes \<open>xs\<close> are linked in both directions, between the node \<open>l\<close> in front and \<open>r\<close> behind.\<close>

fun seg :: "('e \<Rightarrow> nat option) \<Rightarrow> ('e \<Rightarrow> nat option) \<Rightarrow> (nat \<Rightarrow> 'e option) \<Rightarrow>
    nat option \<Rightarrow> nat list \<Rightarrow> nat option \<Rightarrow> bool" where
  "seg n p h l [] r = True"
| "seg n p h l (x # xs) r = (\<exists>e. h x = Some e \<and> p e = l \<and> n e = first xs r \<and> seg n p h (Some x) xs r)"

lemma seg_append [simp]:
  "seg n p h l (xs @ ys) r \<longleftrightarrow> seg n p h l xs (first ys r) \<and> seg n p h (final xs l) ys r"
proof (induction xs arbitrary: l)
  case (Cons x xs)
  have "first (xs @ ys) r = first xs (first ys r)" by simp
  then show ?case using Cons.IH [of "Some x"] by auto
qed simp

lemma seg_cong:
  assumes "\<And>x. x \<in> set xs \<Longrightarrow> map_option (\<lambda>e. (n e, p e)) (h x) = map_option (\<lambda>e. (n e, p e)) (h' x)"
  shows "seg n p h l xs r = seg n p h' l xs r"
  using assms
proof (induction xs arbitrary: l)
  case (Cons x xs)
  have "map_option (\<lambda>e. (n e, p e)) (h x) = map_option (\<lambda>e. (n e, p e)) (h' x)" using Cons.prems by simp
  then show ?case using Cons by (cases "h x"; cases "h' x") auto
qed simp

lemma seg_frame [simp]: "a \<notin> set xs \<Longrightarrow> seg n p (h(a := v)) l xs r = seg n p h l xs r"
  by (rule seg_cong) auto

lemma seg_dom: "seg n p h l xs r \<Longrightarrow> x \<in> set xs \<Longrightarrow> \<exists>e. h x = Some e"
  by (induction xs arbitrary: l) auto

section \<open>Pushing and unlinking\<close>

text \<open>\<open>sn\<close> and \<open>sp\<close> are update functions of the two links, as a record provides them.\<close>

definition push :: "((nat option \<Rightarrow> nat option) \<Rightarrow> 'e \<Rightarrow> 'e) \<Rightarrow> ((nat option \<Rightarrow> nat option) \<Rightarrow> 'e \<Rightarrow> 'e) \<Rightarrow>
    nat option \<Rightarrow> nat \<Rightarrow> (nat \<Rightarrow> 'e option) \<Rightarrow> nat \<Rightarrow> 'e option" where
  "push sn sp q a h =
    (let h1 = h(a := map_option (\<lambda>e. sp (\<lambda>_. None) (sn (\<lambda>_. q) e)) (h a))
     in case q of None \<Rightarrow> h1 | Some b \<Rightarrow> h1(b := map_option (sp (\<lambda>_. Some a)) (h1 b)))"

definition unlink :: "('e \<Rightarrow> nat option) \<Rightarrow> ('e \<Rightarrow> nat option) \<Rightarrow>
    ((nat option \<Rightarrow> nat option) \<Rightarrow> 'e \<Rightarrow> 'e) \<Rightarrow> ((nat option \<Rightarrow> nat option) \<Rightarrow> 'e \<Rightarrow> 'e) \<Rightarrow>
    nat \<Rightarrow> (nat \<Rightarrow> 'e option) \<Rightarrow> nat \<Rightarrow> 'e option" where
  "unlink n p sn sp a h =
    (let e = the (h a);
         h1 = (case p e of None \<Rightarrow> h | Some b \<Rightarrow> h(b := map_option (sn (\<lambda>_. n e)) (h b)));
         h2 = (case n e of None \<Rightarrow> h1 | Some b \<Rightarrow> h1(b := map_option (sp (\<lambda>_. p e)) (h1 b)))
     in h2(a := map_option (\<lambda>e. sp (\<lambda>_. None) (sn (\<lambda>_. None) e)) (h2 a)))"

text \<open>What the links do not touch stays.\<close>

lemma push_other:
  assumes "\<And>f e. g (sn f e) = g e" "\<And>f e. g (sp f e) = g e"
  shows "map_option g (push sn sp q a h x) = map_option g (h x)"
  using assms by (cases "h x") (auto simp: push_def Let_def option.map_comp o_def split: option.splits)

lemma unlink_other:
  assumes "\<And>f e. g (sn f e) = g e" "\<And>f e. g (sp f e) = g e"
  shows "map_option g (unlink n p sn sp a h x) = map_option g (h x)"
  using assms by (cases "h x") (auto simp: unlink_def Let_def option.map_comp o_def split: option.splits)

locale linked =
  fixes nxt prv :: "'e \<Rightarrow> nat option"
    and set_nxt set_prv :: "(nat option \<Rightarrow> nat option) \<Rightarrow> 'e \<Rightarrow> 'e"
  assumes nxt_set_nxt: "nxt (set_nxt f e) = f (nxt e)" and prv_set_nxt: "prv (set_nxt f e) = prv e"
    and nxt_set_prv: "nxt (set_prv f e) = nxt e" and prv_set_prv: "prv (set_prv f e) = f (prv e)"
begin

lemmas link_simps = nxt_set_nxt prv_set_nxt nxt_set_prv prv_set_prv

lemma seg_set_last:
  assumes "seg nxt prv h l xs r" "distinct xs" "xs \<noteq> []"
  shows "seg nxt prv (h(last xs := map_option (set_nxt (\<lambda>_. r')) (h (last xs)))) l xs r'"
proof -
  obtain ys y where xs: "xs = ys @ [y]" using assms(3) by (cases xs rule: rev_cases) auto
  then show ?thesis using assms by (auto simp: link_simps)
qed

lemma seg_set_first:
  assumes "seg nxt prv h l xs r" "distinct xs" "xs \<noteq> []"
  shows "seg nxt prv (h(hd xs := map_option (set_prv (\<lambda>_. l')) (h (hd xs)))) l' xs r"
  using assms by (cases xs) (auto simp: link_simps)

lemma push_seg:
  assumes "seg nxt prv h None xs None" "distinct xs" "a \<notin> set xs" "h a = Some e"
  shows "seg nxt prv (push set_nxt set_prv (first xs None) a h) None (a # xs) None"
  using assms by (cases xs) (auto simp: push_def Let_def link_simps)

lemma push_frame: "x \<noteq> a \<Longrightarrow> x \<notin> set xs \<Longrightarrow> push set_nxt set_prv (first xs None) a h x = h x"
  by (cases xs) (auto simp: push_def Let_def)

lemma unlink_frame:
  assumes "seg nxt prv h None (xs @ a # ys) None" "x \<notin> set (xs @ a # ys)"
  shows "unlink nxt prv set_nxt set_prv a h x = h x"
proof -
  obtain e where e: "h a = Some e" "prv e = final xs None" "nxt e = first ys None" using assms(1) by auto
  have "prv e \<noteq> Some x" "nxt e \<noteq> Some x" "x \<noteq> a"
    using assms(2) e(2,3) final_SomeD [of xs None x] first_SomeD [of ys None x] by auto
  then show ?thesis using e(1) by (auto simp: unlink_def Let_def split: option.splits)
qed

lemma unlink_seg:
  assumes s: "seg nxt prv h None (xs @ a # ys) None" and d: "distinct (xs @ a # ys)"
  shows "seg nxt prv (unlink nxt prv set_nxt set_prv a h) None (xs @ ys) None"
proof -
  obtain e where e: "h a = Some e" "prv e = final xs None" "nxt e = first ys None"
    and sx: "seg nxt prv h None xs (Some a)" and sy: "seg nxt prv h (Some a) ys None" using s by auto
  define h1 where "h1 = (case prv e of None \<Rightarrow> h | Some b \<Rightarrow> h(b := map_option (set_nxt (\<lambda>_. nxt e)) (h b)))"
  define h2 where "h2 = (case nxt e of None \<Rightarrow> h1 | Some b \<Rightarrow> h1(b := map_option (set_prv (\<lambda>_. prv e)) (h1 b)))"
  have x1: "seg nxt prv h1 None xs (first ys None)"
    using seg_set_last [OF sx, of "first ys None"] d e by (auto simp: h1_def final_def)
  have y1: "seg nxt prv h1 (Some a) ys None"
  proof (cases "xs = []")
    case False
    have "set xs \<inter> set ys = {}" using d by auto
    then have "last xs \<notin> set ys" using last_in_set [OF False] by blast
    then show ?thesis using sy e False by (simp add: h1_def final_def)
  qed (use sy e in \<open>simp add: h1_def\<close>)
  have "seg nxt prv h2 None xs (first ys None)"
    using x1 d e(3) by (cases ys) (auto simp: h2_def)
  moreover have "seg nxt prv h2 (final xs None) ys None"
    using seg_set_first [OF y1, of "final xs None"] d e(2,3) by (cases ys) (auto simp: h2_def)
  moreover have "unlink nxt prv set_nxt set_prv a h = h2(a := map_option (\<lambda>e. set_prv (\<lambda>_. None) (set_nxt (\<lambda>_. None) e)) (h2 a))"
    unfolding unlink_def Let_def h2_def h1_def e(1) option.sel ..
  ultimately show ?thesis using d by simp
qed

end

end
