(* ===== verification/Kes_Cache_Inv.thy ===== *)
theory Kes_Cache_Inv
  imports Kes_Cache Kes_Links
begin

text \<open>
  The structure invariant of the cache and what the structural operations do to it: the LRU list
  and the hash chains are well-linked lists over the same entries, and the cache is abstracted to
  the list of its entries, most recently used first, without the links. Lookup, insertion,
  touching and eviction are described on that list.
\<close>

section \<open>The two lists of the cache\<close>

interpretation lr: linked e_list_next e_list_prev e_list_next_update e_list_prev_update
  by unfold_locales simp_all

interpretation hs: linked e_hash_next e_hash_prev e_hash_next_update e_hash_prev_update
  by unfold_locales simp_all

definition lru :: "'d kes_cache \<Rightarrow> addr list \<Rightarrow> bool" where
  "lru c xs \<longleftrightarrow> distinct xs \<and> seg e_list_next e_list_prev (m_heap c) None xs None \<and>
     c_mru_head c = first xs None \<and> c_lru_tail c = final xs None"

text \<open>The bucket an entry belongs to.\<close>

definition home :: "'d kes_cache \<Rightarrow> addr \<Rightarrow> nat option" where
  "home c a = map_option (\<lambda>e. unat (bucket_idx c (e_id e))) (m_heap c a)"

definition chain_at :: "'d kes_cache \<Rightarrow> nat \<Rightarrow> addr list \<Rightarrow> bool" where
  "chain_at c b ys \<longleftrightarrow> distinct ys \<and> seg e_hash_next e_hash_prev (m_heap c) None ys None \<and>
     b_head (c_buckets c b) = first ys None"

definition chains :: "'d kes_cache \<Rightarrow> addr set \<Rightarrow> bool" where
  "chains c S \<longleftrightarrow> c_bucket_count c = 1024 \<and> c_bucket_mask c = 1023 \<and>
     (\<forall>b < 1024. \<exists>ys. chain_at c b ys \<and> set ys = {a \<in> S. home c a = Some b})"

definition bodies :: "'d kes_cache \<Rightarrow> addr \<Rightarrow> extent_body option" where
  "bodies c a = map_option extent_body.truncate (m_heap c a)"

definition buckets_free :: "'d kes_cache \<Rightarrow> bool" where
  "buckets_free c \<longleftrightarrow> (\<forall>b. \<not> b_lock (c_buckets c b))"

text \<open>The cache \<open>c\<close> holds the entries \<open>es\<close>, most recently used first, and no other entry is in memory.\<close>

definition holds :: "'d kes_cache \<Rightarrow> (addr \<times> extent_body) list \<Rightarrow> bool" where
  "holds c es \<longleftrightarrow> lru c (map fst es) \<and> chains c (fst ` set es) \<and> buckets_free c \<and> bodies c = map_of es"

text \<open>Everything of the state but the pointer structure.\<close>

definition core :: "'d kes_cache \<Rightarrow> 'd kes_cache" where
  "core c = c\<lparr>m_heap := \<lambda>_. None, c_buckets := \<lambda>_. \<lparr>b_head = None, b_lock = False\<rparr>,
     c_mru_head := None, c_lru_tail := None\<rparr>"

lemma holds_distinct: "holds c es \<Longrightarrow> distinct (map fst es)"
  by (simp add: holds_def lru_def)

text \<open>The parts of the state the structure does not depend on.\<close>

lemma lru_frame:
  "m_heap c' = m_heap c \<Longrightarrow> c_mru_head c' = c_mru_head c \<Longrightarrow> c_lru_tail c' = c_lru_tail c \<Longrightarrow> lru c' xs = lru c xs"
  by (simp add: lru_def)

lemma home_frame: "m_heap c' = m_heap c \<Longrightarrow> c_bucket_mask c' = c_bucket_mask c \<Longrightarrow> home c' = home c"
  by (rule ext) (simp add: home_def bucket_idx_def)

lemma chains_frame:
  assumes "m_heap c' = m_heap c" "c_bucket_mask c' = c_bucket_mask c" "c_bucket_count c' = c_bucket_count c"
    "\<And>b. b_head (c_buckets c' b) = b_head (c_buckets c b)"
  shows "chains c' S = chains c S"
  by (simp add: chains_def chain_at_def home_frame [OF assms(1,2)] assms)

lemma bodies_frame: "m_heap c' = m_heap c \<Longrightarrow> bodies c' = bodies c"
  by (rule ext) (simp add: bodies_def)

lemma holds_frame:
  assumes "m_heap c' = m_heap c" "c_buckets c' = c_buckets c" "c_mru_head c' = c_mru_head c"
    "c_lru_tail c' = c_lru_tail c" "c_bucket_count c' = c_bucket_count c" "c_bucket_mask c' = c_bucket_mask c"
  shows "holds c' es = holds c es"
  using assms by (simp add: holds_def lru_frame [of c' c] chains_frame [of c' c] bodies_frame [of c' c] buckets_free_def)

lemma holds_simps [simp]:
  "holds (c\<lparr>c_cache_lock := x1\<rparr>) es = holds c es" "holds (c\<lparr>c_stats := x2\<rparr>) es = holds c es"
  "holds (c\<lparr>c_inflight_lookups := x3\<rparr>) es = holds c es" "holds (c\<lparr>m_bufs := x4\<rparr>) es = holds c es"
  "holds (c\<lparr>m_dev := x5\<rparr>) es = holds c es" "holds (c\<lparr>m_ticks := x6\<rparr>) es = holds c es"
  "holds (c\<lparr>m_sched := x7\<rparr>) es = holds c es" "holds (c\<lparr>m_next := x8\<rparr>) es = holds c es"
  "holds (c\<lparr>c_destroying := x9\<rparr>) es = holds c es" "holds (c\<lparr>c_shutdown := x10\<rparr>) es = holds c es"
  "holds (c\<lparr>c_bg_threads := x11\<rparr>) es = holds c es" "holds (c\<lparr>c_read_extent := x12\<rparr>) es = holds c es"
  "holds (c\<lparr>c_write_extent := x13\<rparr>) es = holds c es" "holds (c\<lparr>c_sync_device := x14\<rparr>) es = holds c es"
  "holds (stats f c) es = holds c es"
  by (rule holds_frame; simp add: stats_def)+

lemma entry_of:
  assumes "holds c es" "map_of es a = Some b"
  obtains e where "m_heap c a = Some e" "extent_body.truncate e = b"
  using assms by (metis bodies_def holds_def map_option_eq_Some)

lemma no_entry_of: "holds c es \<Longrightarrow> a \<notin> fst ` set es \<Longrightarrow> m_heap c a = None"
  by (metis bodies_def holds_def map_of_eq_None_iff option.map_disc_iff)

lemma truncate_sel [simp]:
  "e_id (extent_body.truncate e) = e_id e" "e_data (extent_body.truncate e) = e_data e"
  "e_state (extent_body.truncate e) = e_state e" "e_ref_count (extent_body.truncate e) = e_ref_count e"
  "e_pin_count (extent_body.truncate e) = e_pin_count e" "e_access_time (extent_body.truncate e) = e_access_time e"
  "e_access_count (extent_body.truncate e) = e_access_count e" "e_data_size (extent_body.truncate e) = e_data_size e"
  "e_lookup_pins (extent_body.truncate e) = e_lookup_pins e" "e_cond_waiters (extent_body.truncate e) = e_cond_waiters e"
  "e_lock (extent_body.truncate e) = e_lock e"
  by (simp_all add: extent_body.truncate_def)

text \<open>\<open>at a g\<close> changes the entry at address \<open>a\<close>.\<close>

definition at :: "addr \<Rightarrow> (extent_body \<Rightarrow> extent_body) \<Rightarrow> (addr \<times> extent_body) list \<Rightarrow> (addr \<times> extent_body) list" where
  "at a g es = map (\<lambda>(x, b). (x, if x = a then g b else b)) es"

lemma map_fst_at [simp]: "map fst (at a g es) = map fst es"
  by (auto simp: at_def)

lemma set_fst_at [simp]: "fst ` set (at a g es) = fst ` set es"
  by (metis list.set_map map_fst_at)

lemma map_of_at: "map_of (at a g es) x = (if x = a then map_option g (map_of es x) else map_of es x)"
  by (induction es) (auto simp: at_def)

lemma at_at [simp]: "at a f (at a g es) = at a (f \<circ> g) es"
  by (auto simp: at_def)

lemma at_other: "a \<notin> fst ` set es \<Longrightarrow> at a g es = es"
  by (induction es) (auto simp: at_def)

lemma at_same:
  assumes "distinct (map fst es)" "map_of es a = Some b" "g b = b"
  shows "at a g es = es"
  unfolding at_def
proof (rule map_idI)
  fix z
  assume z: "z \<in> set es"
  then have "map_of es (fst z) = Some (snd z)" using assms(1) by (metis map_of_is_SomeI prod.collapse)
  then show "(\<lambda>(x, b). (x, if x = a then g b else b)) z = z" using assms(2,3) by (cases z) auto
qed

lemma links_same:
  assumes "m_heap c a = Some e" "e_list_next e' = e_list_next e" "e_list_prev e' = e_list_prev e"
    "e_hash_next e' = e_hash_next e" "e_hash_prev e' = e_hash_prev e"
  shows "seg e_list_next e_list_prev ((m_heap c)(a \<mapsto> e')) l xs r = seg e_list_next e_list_prev (m_heap c) l xs r"
    "seg e_hash_next e_hash_prev ((m_heap c)(a \<mapsto> e')) l xs r = seg e_hash_next e_hash_prev (m_heap c) l xs r"
  using assms by (auto intro!: seg_cong)

lemma holds_upd:
  assumes "holds c es" "m_heap c a = Some e" "e_id e' = e_id e" "e_list_next e' = e_list_next e"
    "e_list_prev e' = e_list_prev e" "e_hash_next e' = e_hash_next e" "e_hash_prev e' = e_hash_prev e"
  shows "holds (c\<lparr>m_heap := (m_heap c)(a \<mapsto> e')\<rparr>) (at a (\<lambda>_. extent_body.truncate e') es)"
proof -
  let ?c = "c\<lparr>m_heap := (m_heap c)(a \<mapsto> e')\<rparr>"
  have home: "home ?c = home c" using assms(2,3) by (auto simp: home_def bucket_idx_def)
  have "map_of es a = Some (extent_body.truncate e)"
    using assms(1,2) unfolding holds_def by (metis bodies_def option.simps(9))
  then have "bodies ?c x = map_of (at a (\<lambda>_. extent_body.truncate e') es) x" for x
    using assms(1) by (auto simp: holds_def bodies_def map_of_at fun_eq_iff)
  then have "bodies ?c = map_of (at a (\<lambda>_. extent_body.truncate e') es)" by (rule ext)
  then show ?thesis
    using assms(1) links_same [OF assms(2,4-7)]
    by (simp add: holds_def lru_def chains_def chain_at_def home buckets_free_def)
qed

section \<open>The LRU list\<close>

lemma lru_add_head_eq:
  assumes "lru c xs" "a \<notin> set xs" "m_heap c a = Some e"
  shows "lru_add_head c a = Some (c\<lparr>m_heap := push e_list_next_update e_list_prev_update (first xs None) a (m_heap c),
      c_mru_head := Some a, c_lru_tail := final (a # xs) None\<rparr>)"
proof (cases xs)
  case Nil
  then show ?thesis using assms by (simp add: lru_add_head_def upd_def lru_def push_def)
next
  case (Cons y ys)
  then obtain ey where "m_heap c y = Some ey" using assms(1) by (auto simp: lru_def)
  then show ?thesis using assms Cons by (auto simp: lru_add_head_def upd_def lru_def push_def Let_def final_def)
qed

lemma lru_remove_eq:
  assumes "lru c (xs @ a # ys)"
  shows "lru_remove c a = Some (c\<lparr>m_heap := unlink e_list_next e_list_prev e_list_next_update e_list_prev_update a (m_heap c),
      c_mru_head := first (xs @ ys) None, c_lru_tail := final (xs @ ys) None\<rparr>)"
proof -
  obtain e where e: "m_heap c a = Some e" "e_list_prev e = final xs None" "e_list_next e = first ys None"
    using assms by (auto simp: lru_def)
  have d: "distinct (xs @ a # ys)" "seg e_list_next e_list_prev (m_heap c) None xs (Some a)"
    "seg e_list_next e_list_prev (m_heap c) (Some a) ys None" using assms by (auto simp: lru_def)
  have hds: "c_mru_head c = first (xs @ a # ys) None" "c_lru_tail c = final (xs @ a # ys) None"
    using assms by (auto simp: lru_def)
  have mru: "xs \<noteq> [] \<Longrightarrow> first (xs @ ys) None = c_mru_head c" by (cases xs) (simp_all add: hds(1))
  have tail: "ys \<noteq> [] \<Longrightarrow> final (xs @ ys) None = c_lru_tail c" by (simp add: hds(2) final_def)
  have px: "\<exists>ez. m_heap c (last xs) = Some ez" "last xs \<noteq> a" if "xs \<noteq> []"
    using seg_dom [OF d(2)] last_in_set [OF that] d(1) by auto
  have py: "\<exists>ez. m_heap c (hd ys) = Some ez" "hd ys \<noteq> a" if "ys \<noteq> []"
    using seg_dom [OF d(3)] hd_in_set [OF that] d(1) by auto
  have xy: "last xs \<noteq> hd ys" if "xs \<noteq> []" "ys \<noteq> []"
    using d(1) last_in_set [OF that(1)] hd_in_set [OF that(2)] by fastforce
  have ends: "final xs None = (if xs = [] then None else Some (last xs))" "first ys None = (if ys = [] then None else Some (hd ys))"
    by (simp_all add: final_def first_def split: list.splits)
  show ?thesis
  proof (cases "xs = []")
    case True
    then show ?thesis
      using e py tail by (cases "ys = []") (auto simp: lru_remove_def upd_def unlink_def ends)
  next
    case False
    then show ?thesis
      using e px py xy mru tail by (cases "ys = []") (auto simp: lru_remove_def upd_def unlink_def ends)
  qed
qed


lemma lru_pushed:
  assumes "lru c xs" "a \<notin> set xs" "m_heap c a = Some e"
  shows "lru (c\<lparr>m_heap := push e_list_next_update e_list_prev_update (first xs None) a (m_heap c),
      c_mru_head := Some a, c_lru_tail := final (a # xs) None\<rparr>) (a # xs)"
  using assms lr.push_seg [of "m_heap c" xs a e] by (simp add: lru_def)

lemma lru_unlinked:
  assumes "lru c (xs @ a # ys)"
  shows "lru (c\<lparr>m_heap := unlink e_list_next e_list_prev e_list_next_update e_list_prev_update a (m_heap c),
      c_mru_head := first (xs @ ys) None, c_lru_tail := final (xs @ ys) None\<rparr>) (xs @ ys)"
proof -
  have "seg e_list_next e_list_prev (unlink e_list_next e_list_prev e_list_next_update e_list_prev_update a (m_heap c))
      None (xs @ ys) None"
    by (rule lr.unlink_seg) (use assms in \<open>simp_all add: lru_def\<close>)
  then show ?thesis using assms by (simp add: lru_def)
qed

text \<open>Heaps that agree on bodies and hash links, or on bodies and list links.\<close>

lemma chain_at_cong:
  assumes "\<And>x. map_option (\<lambda>e. (e_hash_next e, e_hash_prev e)) (m_heap c' x) = map_option (\<lambda>e. (e_hash_next e, e_hash_prev e)) (m_heap c x)"
    "b_head (c_buckets c' b) = b_head (c_buckets c b)"
  shows "chain_at c' b ys = chain_at c b ys"
proof -
  have "seg e_hash_next e_hash_prev (m_heap c') None ys None = seg e_hash_next e_hash_prev (m_heap c) None ys None"
    by (rule seg_cong) (rule assms(1))
  then show ?thesis using assms(2) by (simp add: chain_at_def)
qed

lemma home_bodies: "home c a = map_option (\<lambda>b. unat (bucket_idx c (e_id b))) (bodies c a)"
  by (simp add: home_def bodies_def option.map_comp o_def)

lemma home_cong:
  "bodies c' a = bodies c a \<Longrightarrow> c_bucket_mask c' = c_bucket_mask c \<Longrightarrow> home c' a = home c a"
  by (simp add: home_bodies bucket_idx_def)

lemma chains_cong:
  assumes "\<And>x. map_option (\<lambda>e. (e_hash_next e, e_hash_prev e)) (m_heap c' x) = map_option (\<lambda>e. (e_hash_next e, e_hash_prev e)) (m_heap c x)"
    "\<And>x. bodies c' x = bodies c x" "c_bucket_mask c' = c_bucket_mask c" "c_bucket_count c' = c_bucket_count c"
    "\<And>b. b_head (c_buckets c' b) = b_head (c_buckets c b)"
  shows "chains c' S = chains c S"
  by (simp add: chains_def chain_at_cong [OF assms(1,5)] home_cong [OF assms(2,3)] assms(3,4))

lemma push_list_same [simp]:
  "map_option extent_body.truncate (push e_list_next_update e_list_prev_update q a h x) = map_option extent_body.truncate (h x)"
  "map_option (\<lambda>e. (e_hash_next e, e_hash_prev e)) (push e_list_next_update e_list_prev_update q a h x) =
   map_option (\<lambda>e. (e_hash_next e, e_hash_prev e)) (h x)"
  by (rule push_other; simp add: extent_body.truncate_def)+

lemma unlink_list_same [simp]:
  "map_option extent_body.truncate (unlink e_list_next e_list_prev e_list_next_update e_list_prev_update a h x) =
   map_option extent_body.truncate (h x)"
  "map_option (\<lambda>e. (e_hash_next e, e_hash_prev e)) (unlink e_list_next e_list_prev e_list_next_update e_list_prev_update a h x) =
   map_option (\<lambda>e. (e_hash_next e, e_hash_prev e)) (h x)"
  by (rule unlink_other; simp add: extent_body.truncate_def)+

lemma push_hash_same [simp]:
  "map_option extent_body.truncate (push e_hash_next_update e_hash_prev_update q a h x) = map_option extent_body.truncate (h x)"
  "map_option (\<lambda>e. (e_list_next e, e_list_prev e)) (push e_hash_next_update e_hash_prev_update q a h x) =
   map_option (\<lambda>e. (e_list_next e, e_list_prev e)) (h x)"
  by (rule push_other; simp add: extent_body.truncate_def)+

lemma unlink_hash_same [simp]:
  "map_option extent_body.truncate (unlink e_hash_next e_hash_prev e_hash_next_update e_hash_prev_update a h x) =
   map_option extent_body.truncate (h x)"
  "map_option (\<lambda>e. (e_list_next e, e_list_prev e)) (unlink e_hash_next e_hash_prev e_hash_next_update e_hash_prev_update a h x) =
   map_option (\<lambda>e. (e_list_next e, e_list_prev e)) (h x)"
  by (rule unlink_other; simp add: extent_body.truncate_def)+

text \<open>\<open>lru_touch\<close> moves an entry to the front of the list and does nothing else.\<close>

lemma to_front:
  assumes "distinct (map fst es)" "es = us @ (a, b) # vs"
  shows "map_of ((a, b) # us @ vs) = map_of es"
proof -
  have "map_of us a = None" using assms by (auto simp: map_of_eq_None_iff)
  then show ?thesis using assms(2) by (auto simp: fun_eq_iff map_add_def split: option.splits)
qed

lemma lru_touch_holds:
  assumes h: "holds c es" and es: "es = us @ (a, b) # vs"
  obtains c' where "lru_touch c a = Some c'" "holds c' ((a, b) # us @ vs)" "core c' = core c"
proof (cases "us = []")
  case True
  then show thesis using that [of c] h es by (simp add: lru_touch_def holds_def lru_def)
next
  case False
  let ?us = "map fst us" and ?vs = "map fst vs"
  have l: "lru c (?us @ a # ?vs)" and d: "distinct (map fst es)" using h es by (simp_all add: holds_def lru_def)
  define c1 where "c1 = c\<lparr>m_heap := unlink e_list_next e_list_prev e_list_next_update e_list_prev_update a (m_heap c),
      c_mru_head := first (?us @ ?vs) None, c_lru_tail := final (?us @ ?vs) None\<rparr>"
  have c1: "lru_remove c a = Some c1" "lru c1 (?us @ ?vs)"
    unfolding c1_def by (rule lru_remove_eq [OF l], rule lru_unlinked [OF l])
  have a: "a \<notin> set (?us @ ?vs)" using d es by auto
  have "bodies c a \<noteq> None" using h es by (auto simp: holds_def)
  then obtain e where e: "m_heap c a = Some e" by (auto simp: bodies_def)
  have "map_option extent_body.truncate (m_heap c1 a) = map_option extent_body.truncate (m_heap c a)"
    by (simp add: c1_def)
  then obtain e1 where e1: "m_heap c1 a = Some e1" using e by auto
  define c2 where "c2 = c1\<lparr>m_heap := push e_list_next_update e_list_prev_update (first (?us @ ?vs) None) a (m_heap c1),
      c_mru_head := Some a, c_lru_tail := final (a # ?us @ ?vs) None\<rparr>"
  have c2: "lru_add_head c1 a = Some c2" "lru c2 (a # ?us @ ?vs)"
    unfolding c2_def by (rule lru_add_head_eq [OF c1(2) a e1], rule lru_pushed [OF c1(2) a e1])
  have fields: "c_buckets c2 = c_buckets c" "c_bucket_mask c2 = c_bucket_mask c" "c_bucket_count c2 = c_bucket_count c"
    "core c2 = core c" by (simp_all add: c2_def c1_def core_def)
  have b: "bodies c2 x = bodies c x" for x by (simp add: bodies_def c2_def c1_def)
  have "chains c2 (fst ` set es) = chains c (fst ` set es)"
    by (rule chains_cong) (simp_all add: b fields, simp add: c2_def c1_def)
  moreover have "fst ` set es = fst ` set ((a, b) # us @ vs)" using es by auto
  moreover have "map_of ((a, b) # us @ vs) = map_of es" by (rule to_front [OF d es])
  ultimately have "holds c2 ((a, b) # us @ vs)"
    using h c2(2) fields b by (simp add: holds_def buckets_free_def fun_eq_iff)
  moreover have "lru_touch c a = Some c2"
    using False l c1(1) c2(1) a by (cases us) (auto simp: lru_touch_def lru_def)
  ultimately show thesis using that fields(4) by blast
qed


section \<open>The hash table\<close>

text \<open>What identifies an extent; \<open>reserved\<close> does not count.\<close>

definition key :: "kes_extent_id \<Rightarrow> u64 \<times> u32 \<times> u32" where
  "key i = (id_start_block i, id_block_count i, id_block_size i)"

lemma kes_extent_equal_key: "kes_extent_equal i j \<longleftrightarrow> key i = key j"
  by (simp add: kes_extent_equal_def key_def)

lemma hash_key: "key i = key j \<Longrightarrow> kes_extent_hash i = kes_extent_hash j"
  by (simp add: kes_extent_hash_def key_def)

definition keyed :: "(addr \<times> extent_body) list \<Rightarrow> bool" where
  "keyed es \<longleftrightarrow> distinct (map (\<lambda>(a, b). key (e_id b)) es)"

definition slot :: "(addr \<times> extent_body) list \<Rightarrow> kes_extent_id \<Rightarrow> (addr \<times> extent_body) option" where
  "slot es i = find (\<lambda>(a, b). kes_extent_equal (e_id b) i) es"

lemma find_SomeD: "find P xs = Some x \<Longrightarrow> x \<in> set xs \<and> P x"
  by (induction xs) (auto split: if_splits)

lemma find_unique:
  assumes "a \<in> set xs" "P a" "\<And>x. x \<in> set xs \<Longrightarrow> P x \<Longrightarrow> x = a"
  shows "find P xs = Some a"
proof (cases "find P xs")
  case None
  then show ?thesis using assms(1,2) by (auto simp: find_None_iff)
next
  case (Some x)
  then show ?thesis using assms(3) find_SomeD by fastforce
qed

lemma slot_SomeD: "slot es i = Some (a, b) \<Longrightarrow> (a, b) \<in> set es \<and> key (e_id b) = key i"
  unfolding slot_def kes_extent_equal_key by (drule find_SomeD) simp

lemma slot_NoneD: "slot es i = None \<Longrightarrow> (a, b) \<in> set es \<Longrightarrow> key (e_id b) \<noteq> key i"
  by (auto simp: slot_def find_None_iff kes_extent_equal_key)

lemma keyed_unique: "keyed es \<Longrightarrow> (a, b) \<in> set es \<Longrightarrow> (a', b') \<in> set es \<Longrightarrow> key (e_id b) = key (e_id b') \<Longrightarrow> a = a' \<and> b = b'"
  unfolding keyed_def distinct_map inj_on_def by fastforce

lemma slot_map_of: "distinct (map fst es) \<Longrightarrow> slot es i = Some (a, b) \<Longrightarrow> map_of es a = Some b"
  by (drule slot_SomeD) auto

lemma bucket_idx_bound: "c_bucket_mask c = 1023 \<Longrightarrow> unat (bucket_idx c i) < 1024"
proof -
  assume "c_bucket_mask c = 1023"
  then have "bucket_idx c i \<le> 1023" by (simp add: bucket_idx_def word_and_le1)
  then have "unat (bucket_idx c i) \<le> unat (1023 :: u32)" by (simp only: word_le_nat_alt)
  then show ?thesis by simp
qed

lemma chain_find_seg:
  "seg e_hash_next p h l ys None \<Longrightarrow>
   chain_find h i (first ys None) = Some (find (\<lambda>a. kes_extent_equal (e_id (the (h a))) i) ys)"
proof (induction ys arbitrary: l)
  case Nil
  then show ?case by (simp add: chain_find.simps)
next
  case (Cons y ys)
  then obtain e where e: "h y = Some e" "e_hash_next e = first ys None" "seg e_hash_next p h (Some y) ys None" by auto
  show ?case using Cons.IH [OF e(3)] e(1,2) by (simp add: chain_find.simps [of _ _ "Some y"])
qed

text \<open>A weaker form of \<open>holds\<close>: other entries may be in memory.\<close>

definition keeps :: "'d kes_cache \<Rightarrow> (addr \<times> extent_body) list \<Rightarrow> bool" where
  "keeps c es \<longleftrightarrow> lru c (map fst es) \<and> chains c (fst ` set es) \<and> buckets_free c \<and>
     (\<forall>(a, b) \<in> set es. bodies c a = Some b)"

lemma holds_keeps: "holds c es \<Longrightarrow> keeps c es"
  using holds_distinct by (fastforce simp: keeps_def holds_def)

lemma home_slot:
  assumes "keeps c es" "(a, b) \<in> set es"
  shows "home c a = Some (unat (bucket_idx c (e_id b)))" "m_heap c a \<noteq> None" "e_id (the (m_heap c a)) = e_id b"
proof -
  have "bodies c a = Some b" using assms by (auto simp: keeps_def)
  then show "home c a = Some (unat (bucket_idx c (e_id b)))" "m_heap c a \<noteq> None" "e_id (the (m_heap c a)) = e_id b"
    by (auto simp: home_bodies bodies_def)
qed

lemma chain_lookup:
  assumes h: "keeps c es" and k: "keyed es"
  shows "chain_find (m_heap c) i (b_head (c_buckets c (unat (bucket_idx c i)))) = Some (map_option fst (slot es i))"
proof -
  let ?b = "unat (bucket_idx c i)" and ?P = "\<lambda>a. kes_extent_equal (e_id (the (m_heap c a))) i"
  obtain ys where ys: "chain_at c ?b ys" "set ys = {a \<in> fst ` set es. home c a = Some ?b}"
    using h bucket_idx_bound [of c i] by (auto simp: keeps_def chains_def)
  have "find ?P ys = map_option fst (slot es i)"
  proof (cases "slot es i")
    case None
    have "\<not> ?P a" if "a \<in> set ys" for a
    proof -
      obtain b where b: "(a, b) \<in> set es" using \<open>a \<in> set ys\<close> ys(2) by auto
      then show ?thesis using slot_NoneD [OF None b] home_slot(3) [OF h b] by (simp add: kes_extent_equal_key)
    qed
    then show ?thesis using None by (simp add: find_None_iff)
  next
    case (Some z)
    obtain a b where z: "z = (a, b)" by (cases z)
    note ab = slot_SomeD [OF Some [unfolded z]]
    have "a \<in> set ys" using ys(2) ab home_slot(1) [OF h] hash_key [of "e_id b" i] by (force simp: bucket_idx_def)
    moreover have "?P a" using ab home_slot(3) [OF h, of a b] by (simp add: kes_extent_equal_key)
    moreover have "x = a" if "x \<in> set ys" "?P x" for x
    proof -
      obtain b' where b': "(x, b') \<in> set es" using \<open>x \<in> set ys\<close> ys(2) by auto
      then show ?thesis
        using keyed_unique [OF k b', of a b] ab home_slot(3) [OF h b'] that(2) by (simp add: kes_extent_equal_key)
    qed
    ultimately have "find ?P ys = Some a"
      by (rule find_unique)
    then show ?thesis using Some z by simp
  qed
  then show ?thesis using ys(1) chain_find_seg unfolding chain_at_def by metis
qed

lemma lock_bucket_eq:
  "chains c S \<Longrightarrow> buckets_free c \<Longrightarrow> b = bucket_idx c i \<Longrightarrow>
   lock_bucket c b = Some (c\<lparr>c_buckets := (c_buckets c)(unat b := (c_buckets c (unat b))\<lparr>b_lock := True\<rparr>)\<rparr>)"
  using bucket_idx_bound [of c i]
  by (auto simp: lock_bucket_def chains_def buckets_free_def word_le_nat_alt)

lemma b_lock_restore [simp]: "\<not> b_lock x \<Longrightarrow> x\<lparr>b_lock := False\<rparr> = x"
  by (cases x) simp

text \<open>A lookup pins the entry it finds and changes nothing else.\<close>

lemma hash_find_eq:
  assumes h: "holds c es" and k: "keyed es"
  shows "hash_find c i = (case slot es i of None \<Rightarrow> Some (None, c)
     | Some (a, b) \<Rightarrow> Some (Some a, c\<lparr>m_heap := (m_heap c)(a \<mapsto> (the (m_heap c a))\<lparr>e_lookup_pins := e_lookup_pins (the (m_heap c a)) + 1\<rparr>)\<rparr>))"
proof -
  let ?b = "bucket_idx c i"
  have free: "\<not> b_lock (c_buckets c x)" for x using h by (simp add: holds_def buckets_free_def)
  have ch: "chains c (fst ` set es)" using h by (simp add: holds_def)
  then have cnt: "c_bucket_count c = 1024" "\<not> 1024 \<le> ?b"
    using bucket_idx_bound [of c i] by (auto simp: chains_def word_le_nat_alt)
  note lk = lock_bucket_eq [OF ch _ refl, of i] chain_lookup [OF holds_keeps [OF h] k, of i]
  show ?thesis
  proof (cases "slot es i")
    case None
    then show ?thesis using lk free cnt
      by (simp add: hash_find_def buckets_free_def unlock_bucket_def)
  next
    case (Some z)
    obtain a b where z: "z = (a, b)" by (cases z)
    have "m_heap c a \<noteq> None" using home_slot(2) [OF holds_keeps [OF h]] slot_SomeD [OF Some [unfolded z]] by blast
    then show ?thesis using lk free cnt Some z
      by (auto simp: hash_find_def buckets_free_def unlock_bucket_def pin_lookup_def upd_def)
  qed
qed


lemma chains_push:
  assumes c: "chains c S" and a: "a \<notin> S" "m_heap c a = Some e" "home c a = Some b0"
    and ys: "chain_at c b0 ys" "set ys = {x \<in> S. home c x = Some b0}"
    and c': "m_heap c' = push e_hash_next_update e_hash_prev_update (first ys None) a (m_heap c)"
      "\<And>b. b_head (c_buckets c' b) = (if b = b0 then Some a else b_head (c_buckets c b))"
      "c_bucket_mask c' = c_bucket_mask c" "c_bucket_count c' = c_bucket_count c"
  shows "chains c' (insert a S)"
proof -
  have home: "home c' x = home c x" for x by (rule home_cong) (simp_all add: bodies_def c')
  have "\<exists>zs. chain_at c' b zs \<and> set zs = {x \<in> insert a S. home c' x = Some b}" if b: "b < 1024" for b
  proof (cases "b = b0")
    case True
    have "chain_at c' b0 (a # ys)"
      using ys a(1,2) c'(1,2) hs.push_seg [of "m_heap c" ys a e] by (simp add: chain_at_def)
    moreover have "set (a # ys) = {x \<in> insert a S. home c' x = Some b}" using ys(2) a True by (auto simp: home)
    ultimately show ?thesis using True by blast
  next
    case False
    obtain zs where zs: "chain_at c b zs" "set zs = {x \<in> S. home c x = Some b}"
      using c b by (auto simp: chains_def)
    have "m_heap c' x = m_heap c x" if "x \<in> set zs" for x
      unfolding c'(1) by (rule hs.push_frame) (use that zs(2) ys(2) a False in auto)
    then have "seg e_hash_next e_hash_prev (m_heap c') None zs None = seg e_hash_next e_hash_prev (m_heap c) None zs None"
      by (intro seg_cong) simp
    then have "chain_at c' b zs" using zs(1) c'(2) False by (simp add: chain_at_def)
    then show ?thesis using zs(2) a False by (auto simp: home)
  qed
  then show ?thesis using c c'(3,4) by (simp add: chains_def)
qed

lemma chains_unlink:
  assumes c: "chains c S" and a: "home c a = Some b0"
    and xs: "chain_at c b0 (xs @ a # ys)" "set (xs @ a # ys) = {x \<in> S. home c x = Some b0}"
    and c': "m_heap c' = unlink e_hash_next e_hash_prev e_hash_next_update e_hash_prev_update a (m_heap c)"
      "\<And>b. b_head (c_buckets c' b) = (if b = b0 then first (xs @ ys) None else b_head (c_buckets c b))"
      "c_bucket_mask c' = c_bucket_mask c" "c_bucket_count c' = c_bucket_count c"
  shows "chains c' (S - {a})"
proof -
  have home: "home c' x = home c x" for x by (rule home_cong) (simp_all add: bodies_def c')
  have d: "distinct (xs @ a # ys)" "seg e_hash_next e_hash_prev (m_heap c) None (xs @ a # ys) None"
    using xs(1) by (simp_all add: chain_at_def)
  have "\<exists>zs. chain_at c' b zs \<and> set zs = {x \<in> S - {a}. home c' x = Some b}" if b: "b < 1024" for b
  proof (cases "b = b0")
    case True
    have "chain_at c' b0 (xs @ ys)"
      using d(1) c'(2) hs.unlink_seg [OF d(2,1)] unfolding chain_at_def c'(1) by simp
    moreover have "set (xs @ ys) = {x \<in> S - {a}. home c' x = Some b}" using xs(2) d(1) True by (auto simp: home)
    ultimately show ?thesis using True by blast
  next
    case False
    obtain zs where zs: "chain_at c b zs" "set zs = {x \<in> S. home c x = Some b}"
      using c b by (auto simp: chains_def)
    have "m_heap c' x = m_heap c x" if "x \<in> set zs" for x
      unfolding c'(1) by (rule hs.unlink_frame [OF d(2)]) (use that zs(2) xs(2) False in auto)
    then have "seg e_hash_next e_hash_prev (m_heap c') None zs None = seg e_hash_next e_hash_prev (m_heap c) None zs None"
      by (intro seg_cong) simp
    then have "chain_at c' b zs" using zs(1) c'(2) False by (simp add: chain_at_def)
    then show ?thesis using zs(2) a False by (auto simp: home)
  qed
  then show ?thesis using c c'(3,4) by (simp add: chains_def)
qed

text \<open>Inserting a candidate for which there is no entry.\<close>

lemma lru_hash_push:
  "m_heap c' = push e_hash_next_update e_hash_prev_update q a (m_heap c) \<Longrightarrow> c_mru_head c' = c_mru_head c \<Longrightarrow>
   c_lru_tail c' = c_lru_tail c \<Longrightarrow> lru c' xs = lru c xs"
  using seg_cong [of xs e_list_next e_list_prev "m_heap c'" "m_heap c" None None] by (simp add: lru_def)

lemma hash_insert_holds:
  assumes k: "keeps c es" "keyed es" and a: "m_heap c a = Some e" "a \<notin> fst ` set es"
    and new: "slot es (e_id e) = None"
  obtains c' where "hash_find_or_insert c a = Some (None, c')" "lru c' (map fst es)" "chains c' (insert a (fst ` set es))"
    "buckets_free c'" "bodies c' = bodies c" "core c' = core c"
proof -
  let ?b = "bucket_idx c (e_id e)"
  have ch: "chains c (fst ` set es)" and free: "buckets_free c" and l: "lru c (map fst es)"
    using k(1) by (simp_all add: keeps_def)
  have cnt: "c_bucket_count c = 1024" "\<not> 1024 \<le> ?b" "unat ?b < 1024"
    using ch bucket_idx_bound [of c "e_id e"] by (auto simp: chains_def word_le_nat_alt)
  obtain ys where ys: "chain_at c (unat ?b) ys" "set ys = {x \<in> fst ` set es. home c x = Some (unat ?b)}"
    using ch cnt(3) unfolding chains_def by blast
  have hd: "b_head (c_buckets c (unat ?b)) = first ys None" using ys(1) by (simp add: chain_at_def)
  have fr: "\<not> b_lock (c_buckets c x)" for x using free by (simp add: buckets_free_def)
  define c' where "c' = c\<lparr>m_heap := push e_hash_next_update e_hash_prev_update (first ys None) a (m_heap c),
     c_buckets := (c_buckets c)(unat ?b := (c_buckets c (unat ?b))\<lparr>b_head := Some a\<rparr>)\<rparr>"
  have fnd: "chain_find (m_heap c) (e_id e) (first ys None) = Some None"
    using chain_lookup [OF k, of "e_id e"] new hd by simp
  have "\<exists>ey. m_heap c y = Some ey" "y \<noteq> a" if "first ys None = Some y" for y
    using first_SomeD [OF that] ys seg_dom [of e_hash_next e_hash_prev "m_heap c" None ys None y] a(2)
    by (auto simp: chain_at_def)
  then have "hash_find_or_insert c a = Some (None, c')"
    using a(1) hd lock_bucket_eq [OF ch free refl, of "e_id e"] fnd cnt fr
    by (cases "first ys None")
       (auto simp: hash_find_or_insert_def unlock_bucket_def upd_def set_head_def c'_def push_def Let_def)
  moreover have "lru c' (map fst es)" using l lru_hash_push [of c' "first ys None" a c] by (simp add: c'_def)
  moreover have "chains c' (insert a (fst ` set es))"
    by (rule chains_push [OF ch a(2,1) _ ys]) (simp_all add: c'_def home_def a(1))
  moreover have "buckets_free c'" using fr by (simp add: buckets_free_def c'_def)
  moreover have "bodies c' = bodies c" "core c' = core c" by (simp_all add: bodies_def c'_def core_def fun_eq_iff)
  ultimately show thesis using that by blast
qed


lemma lru_publish:
  assumes l: "lru c (map fst es)" "chains c (insert a (fst ` set es))" "buckets_free c"
    and b: "bodies c = (map_of es)(a \<mapsto> b)" and a: "a \<notin> fst ` set es"
  obtains c' where "lru_add_head c a = Some c'" "holds c' ((a, b) # es)" "core c' = core c"
proof -
  have a': "a \<notin> set (map fst es)" using a by simp
  obtain e where e: "m_heap c a = Some e" using b by (auto simp: bodies_def fun_eq_iff split: if_splits)
  define c' where "c' = c\<lparr>m_heap := push e_list_next_update e_list_prev_update (first (map fst es) None) a (m_heap c),
      c_mru_head := Some a, c_lru_tail := final (a # map fst es) None\<rparr>"
  have "lru_add_head c a = Some c'" unfolding c'_def by (rule lru_add_head_eq [OF l(1) a' e])
  moreover have "lru c' (a # map fst es)" unfolding c'_def by (rule lru_pushed [OF l(1) a' e])
  moreover have "chains c' (insert a (fst ` set es)) = chains c (insert a (fst ` set es))"
    by (rule chains_cong) (simp_all add: c'_def bodies_def)
  moreover have "bodies c' = bodies c" by (simp add: c'_def bodies_def fun_eq_iff)
  moreover have "buckets_free c'" "core c' = core c" using l(3) by (simp_all add: c'_def buckets_free_def core_def)
  ultimately show thesis using that [of c'] l(2) b by (simp add: holds_def)
qed

section \<open>Eviction\<close>

lemma hash_unlink_eq:
  assumes "chain_at c (unat b) (xs @ a # ys)"
  shows "hash_unlink c b a = Some (c\<lparr>m_heap := unlink e_hash_next e_hash_prev e_hash_next_update e_hash_prev_update a (m_heap c),
      c_buckets := (c_buckets c)(unat b := (c_buckets c (unat b))\<lparr>b_head := first (xs @ ys) None\<rparr>)\<rparr>)"
proof -
  obtain e where e: "m_heap c a = Some e" "e_hash_prev e = final xs None" "e_hash_next e = first ys None"
    using assms by (auto simp: chain_at_def)
  have d: "distinct (xs @ a # ys)" "seg e_hash_next e_hash_prev (m_heap c) None xs (Some a)"
    "seg e_hash_next e_hash_prev (m_heap c) (Some a) ys None" using assms by (auto simp: chain_at_def)
  have hds: "b_head (c_buckets c (unat b)) = first (xs @ a # ys) None" using assms by (simp add: chain_at_def)
  have same: "(c_buckets c)(unat b := (c_buckets c (unat b))\<lparr>b_head := first (xs @ ys) None\<rparr>) = c_buckets c" if "xs \<noteq> []"
    using that hds by (cases xs) (auto simp: fun_eq_iff)
  have px: "\<exists>ez. m_heap c (last xs) = Some ez" "last xs \<noteq> a" if "xs \<noteq> []"
    using seg_dom [OF d(2)] last_in_set [OF that] d(1) by auto
  have py: "\<exists>ez. m_heap c (hd ys) = Some ez" "hd ys \<noteq> a" if "ys \<noteq> []"
    using seg_dom [OF d(3)] hd_in_set [OF that] d(1) by auto
  have xy: "last xs \<noteq> hd ys" if "xs \<noteq> []" "ys \<noteq> []"
    using d(1) last_in_set [OF that(1)] hd_in_set [OF that(2)] by fastforce
  have ends: "final xs None = (if xs = [] then None else Some (last xs))" "first ys None = (if ys = [] then None else Some (hd ys))"
    by (simp_all add: final_def first_def split: list.splits)
  show ?thesis
  proof (cases "xs = []")
    case True
    then show ?thesis
      using e py by (cases "ys = []") (auto simp: hash_unlink_def upd_def unlink_def ends set_head_def)
  next
    case False
    then show ?thesis unfolding same [OF False]
      using e px py xy by (cases "ys = []") (auto simp: hash_unlink_def upd_def unlink_def ends)
  qed
qed

lemma lru_drop: "a \<notin> set xs \<Longrightarrow> lru (c\<lparr>m_heap := (m_heap c)(a := v)\<rparr>) xs = lru c xs"
  by (simp add: lru_def)

lemma chains_drop:
  assumes "a \<notin> S"
  shows "chains (c\<lparr>m_heap := (m_heap c)(a := v)\<rparr>) S = chains c S"
proof -
  let ?c = "c\<lparr>m_heap := (m_heap c)(a := v)\<rparr>"
  have home: "x \<in> S \<and> home ?c x = Some b \<longleftrightarrow> x \<in> S \<and> home c x = Some b" for x b
    using assms by (auto simp: home_def bucket_idx_def)
  have "chain_at ?c b ys = chain_at c b ys" if "set ys = {x \<in> S. home c x = Some b}" for b ys
  proof -
    have "a \<notin> set ys" using assms that by auto
    then show ?thesis by (simp add: chain_at_def)
  qed
  then have eq: "(chain_at ?c b ys \<and> set ys = {x \<in> S. home c x = Some b}) =
      (chain_at c b ys \<and> set ys = {x \<in> S. home c x = Some b})" for b ys by blast
  show ?thesis unfolding chains_def home eq by simp
qed

lemma map_of_remove:
  assumes "distinct (map fst (us @ (a, b) # vs))"
  shows "map_of (us @ vs) = (map_of (us @ (a, b) # vs))(a := None)"
proof -
  have "map_of us a = None" "map_of vs a = None" using assms by (auto simp: map_of_eq_None_iff)
  then show ?thesis by (auto simp: fun_eq_iff map_add_def split: option.splits)
qed

lemma evict_refused:
  assumes h: "holds c es" "map_of es a = Some b" "\<not> c_cache_lock c" and r: "\<not> evictable b d \<or> e_lookup_pins b \<noteq> 0"
  shows "try_evict_entry_locked c a d = Some (False, c)"
proof -
  obtain e where e: "m_heap c a = Some e" "extent_body.truncate e = b" by (rule entry_of [OF h(1,2)])
  have ev: "evictable e d = evictable b d" "e_lookup_pins b = e_lookup_pins e" "e_id b = e_id e"
    using e(2) by (auto simp: evictable_def)
  have ch: "chains c (fst ` set es)" and fr: "buckets_free c" using h(1) by (simp_all add: holds_def)
  then have cnt: "c_bucket_count c = 1024" "\<not> 1024 \<le> bucket_idx c (e_id e)"
    using bucket_idx_bound [of c "e_id e"] by (auto simp: chains_def word_le_nat_alt)
  have "\<not> b_lock (c_buckets c x)" for x using fr by (simp add: buckets_free_def)
  then show ?thesis
    using e(1) ev r lock_bucket_eq [OF ch fr refl, of "e_id e"] cnt h(3)
    by (auto simp: try_evict_entry_locked_def lock_cache_def unlock_cache_def unlock_bucket_def)
qed

text \<open>What an eviction does to the rest of the state.\<close>

definition evict_core :: "extent_body \<Rightarrow> 'd kes_cache \<Rightarrow> 'd kes_cache" where
  "evict_core b c = stats (\<lambda>s. s\<lparr>cs_memory_used := cs_memory_used s - KES_ALIGN (e_data_size b) KES_CACHE_ALIGNMENT,
      cs_entries_cached := cs_entries_cached s - 1\<rparr>) (c\<lparr>m_bufs := (m_bufs c)(the (e_data b) := None)\<rparr>)"

lemma evict_holds:
  assumes h: "holds c es" and es: "es = us @ (a, b) # vs" and ok: "evictable b d" "e_lookup_pins b = 0" "e_lock b"
    and lock: "\<not> c_cache_lock c" and data: "e_data b = Some p" "m_bufs c p \<noteq> None"
  obtains c' where "try_evict_entry_locked c a d = Some (True, c')" "holds c' (us @ vs)" "core c' = core (evict_core b c)"
proof -
  have dist: "distinct (map fst es)" and ch: "chains c (fst ` set es)" and fr: "buckets_free c" and l: "lru c (map fst us @ a # map fst vs)"
    and bd: "bodies c = map_of es"
    using h es holds_distinct [OF h] by (simp_all add: holds_def)
  have "map_of es a = Some b" using map_of_is_SomeI [OF dist, of a b] es by simp
  then obtain e where e: "m_heap c a = Some e" "extent_body.truncate e = b" using entry_of [OF h] by blast
  define bk where "bk = bucket_idx c (e_id e)"
  have cnt: "c_bucket_count c = 1024" "\<not> 1024 \<le> bk" "unat bk < 1024"
    using ch bucket_idx_bound [of c "e_id e"] by (auto simp: chains_def word_le_nat_alt bk_def)
  have home: "home c a = Some (unat bk)" using e(1) by (simp add: home_def bk_def)
  obtain zs where zs: "chain_at c (unat bk) zs" "set zs = {x \<in> fst ` set es. home c x = Some (unat bk)}"
    using ch cnt(3) unfolding chains_def by blast
  then have "a \<in> set zs" using home es by auto
  then obtain xs ys where xy: "zs = xs @ a # ys" by (auto dest: split_list)
  have fr': "\<not> b_lock (c_buckets c x)" for x using fr by (simp add: buckets_free_def)
  define H1 where "H1 = unlink e_hash_next e_hash_prev e_hash_next_update e_hash_prev_update a (m_heap c)"
  define H2 where "H2 = unlink e_list_next e_list_prev e_list_next_update e_list_prev_update a H1"
  define c2 where "c2 = c\<lparr>c_buckets := (c_buckets c)(unat bk := (c_buckets c (unat bk))\<lparr>b_lock := True\<rparr>), c_cache_lock := True\<rparr>"
  define c3 where "c3 = c2\<lparr>m_heap := H1, c_buckets := (c_buckets c2)(unat bk := (c_buckets c2 (unat bk))\<lparr>b_head := first (xs @ ys) None\<rparr>)\<rparr>"
  define c4 where "c4 = c3\<lparr>m_heap := H2, c_mru_head := first (map fst us @ map fst vs) None,
      c_lru_tail := final (map fst us @ map fst vs) None\<rparr>"
  have hu: "hash_unlink c2 bk a = Some c3"
    using hash_unlink_eq [of c2 bk xs a ys] zs(1) xy by (simp add: chain_at_def c2_def c3_def H1_def)
  have same1: "map_option (\<lambda>e. (e_list_next e, e_list_prev e)) (m_heap c3 x) = map_option (\<lambda>e. (e_list_next e, e_list_prev e)) (m_heap c x)" for x
    by (simp add: c3_def H1_def)
  have l3: "lru c3 (map fst us @ a # map fst vs)"
    using l seg_cong [of "map fst us @ a # map fst vs" e_list_next e_list_prev "m_heap c3" "m_heap c" None None, OF same1]
    by (simp add: lru_def c3_def c2_def)
  have lr: "lru_remove c3 a = Some c4" using lru_remove_eq [OF l3] by (simp add: c4_def H2_def c3_def)
  have l4: "lru c4 (map fst us @ map fst vs)" using lru_unlinked [OF l3] by (simp add: c4_def H2_def c3_def)
  have body: "map_option extent_body.truncate (H2 x) = bodies c x" for x by (simp add: H2_def H1_def bodies_def)
  then have "map_option extent_body.truncate (H2 a) = Some b" using e by (simp add: bodies_def)
  then obtain e2 where e2: "H2 a = Some e2" "extent_body.truncate e2 = b" by auto
  have e2': "e_lock e2" "e_data e2 = Some p" "e_data_size e2 = e_data_size b" using e2(2) ok data by auto
  define c' where "c' = (evict_core b c)\<lparr>m_heap := H2(a := None),
     c_buckets := (c_buckets c)(unat bk := (c_buckets c (unat bk))\<lparr>b_head := first (xs @ ys) None\<rparr>),
     c_mru_head := c_mru_head c4, c_lru_tail := c_lru_tail c4\<rparr>"
  have "evictable e d" "e_lookup_pins e = 0" using ok e(2) by (auto simp: evictable_def)
  moreover have "lock_bucket c bk = Some (c2\<lparr>c_cache_lock := False\<rparr>)"
    using lock_bucket_eq [OF ch fr refl, of "e_id e"] lock by (simp add: c2_def bk_def)
  ultimately have run: "try_evict_entry_locked c a d = Some (True, c')"
    using e(1) hu lr data e2' e2(1) cnt lock fr'
    by (simp add: try_evict_entry_locked_def bk_def [symmetric] lock_cache_def)
       (simp add: extent_free_data_def free_buffer_def unlock_cache_def unlock_bucket_def unlock_entry_def free_entry_def
         upd_def stats_def c4_def c3_def c2_def c'_def evict_core_def)
  have da: "a \<notin> set (map fst us @ map fst vs)" using dist es by auto
  have "lru c' (map fst us @ map fst vs)"
    using l4 lru_drop [OF da, of c4 None] lru_frame [of c' "c4\<lparr>m_heap := (m_heap c4)(a := None)\<rparr>"]
    by (simp add: c'_def c4_def)
  moreover have "chains c' (fst ` set (us @ vs))"
  proof -
    have "chains c3 (fst ` set es - {a})"
      by (rule chains_unlink [OF ch home, of xs ys])
         (use zs xy in \<open>simp_all add: c3_def c2_def H1_def\<close>)
    moreover have "chains c4 S = chains c3 S" for S
      by (rule chains_cong) (simp_all add: c4_def c3_def H2_def bodies_def)
    moreover have "chains (c4\<lparr>m_heap := (m_heap c4)(a := None)\<rparr>) (fst ` set es - {a}) = chains c4 (fst ` set es - {a})"
      by (rule chains_drop) simp
    moreover have "chains c' S = chains (c4\<lparr>m_heap := (m_heap c4)(a := None)\<rparr>) S" for S
      by (rule chains_frame) (simp_all add: c'_def c4_def c3_def c2_def evict_core_def stats_def)
    moreover have "fst ` set es - {a} = fst ` set (us @ vs)" using dist es by auto
    ultimately show ?thesis by simp
  qed
  moreover have "bodies c' = map_of (us @ vs)"
    using map_of_remove [OF dist [unfolded es]] bd es body by (auto simp: bodies_def c'_def fun_eq_iff)
  moreover have "buckets_free c'" using fr' by (simp add: buckets_free_def c'_def)
  ultimately have "holds c' (us @ vs)" by (simp add: holds_def)
  moreover have "core c' = core (evict_core b c)" by (simp add: core_def c'_def)
  ultimately show thesis using that run by blast
qed

end
