(* ===== verification/Kes_Cache_Ok.thy ===== *)
theory Kes_Cache_Ok
  imports Kes_Cache_Inv
begin

text \<open>
  The invariant of the cache between two calls: the structure of \<open>Kes_Cache_Inv\<close>, one entry per
  extent, no lock held and no pin left, a buffer of the right size for each entry and no other
  buffer, counters that agree with the entries, and the configured limits. The traversals keep it
  with the next node pinned.
\<close>

section \<open>Sizes\<close>

lemma and_mask_sum: "(w AND m) + (w AND NOT m) = (w :: 'a::len word)"
proof -
  have "(w AND m) AND (w AND NOT m) = 0" by (rule bit_word_eqI) (auto simp: bit_simps)
  then have "(w AND m) + (w AND NOT m) = (w AND m) OR (w AND NOT m)" by (rule disjunctive_add_eq_or)
  also have "\<dots> = w" by (rule bit_word_eqI) (auto simp: bit_simps)
  finally show ?thesis .
qed

lemma KES_ALIGN_bounds:
  assumes "unat sz + 63 < 2 ^ 64"
  shows "unat sz \<le> unat (KES_ALIGN sz 64)" "unat (KES_ALIGN sz 64) \<le> unat sz + 63"
proof -
  define w where "w = sz + 63"
  have w: "unat w = unat sz + 63" unfolding w_def using assms by (subst unat_add_no_overflow) simp_all
  have al: "KES_ALIGN sz 64 = w AND NOT 63" by (simp add: KES_ALIGN_def w_def algebra_simps)
  have le: "unat (w AND NOT 63) \<le> unat w" using word_and_le2 [of w "NOT 63"] by (simp add: word_le_nat_alt)
  have "unat (w AND 63) \<le> 63" using word_and_le1 [of w 63] by (simp add: word_le_nat_alt)
  moreover have "w AND 63 = w - (w AND NOT 63)" using and_mask_sum [of w 63] by (metis add_diff_cancel_right')
  moreover have "unat (w - (w AND NOT 63)) = unat w - unat (w AND NOT 63)"
    by (rule unat_diff_le) (use le in \<open>simp add: word_le_nat_alt\<close>)
  ultimately show "unat sz \<le> unat (KES_ALIGN sz 64)" "unat (KES_ALIGN sz 64) \<le> unat sz + 63"
    using le w al by simp_all
qed

definition id_ok :: "kes_extent_id \<Rightarrow> bool" where
  "id_ok i \<longleftrightarrow> KES_IS_POWER_OF_2 (id_block_size i) \<and> KES_MIN_BLOCK_SIZE \<le> id_block_size i \<and>
     id_block_size i \<le> KES_MAX_BLOCK_SIZE \<and> id_block_count i \<noteq> 0"

lemma extent_data_size_bounds:
  assumes "id_ok i"
  shows "unat (extent_data_size i) = unat (id_block_count i) * unat (id_block_size i)"
    "4096 \<le> unat (extent_data_size i)" "unat (extent_data_size i) \<le> 2 ^ 48"
proof -
  have s: "4096 \<le> unat (id_block_size i)" "unat (id_block_size i) \<le> 65536" "0 < unat (id_block_count i)"
    using assms by (simp_all add: id_ok_def word_le_nat_alt unat_gt_0)
  have le: "unat (id_block_count i) * unat (id_block_size i) \<le> 2 ^ 32 * 65536"
    by (rule mult_mono) (use s unat_u32_bound [of "id_block_count i"] in auto)
  show eq: "unat (extent_data_size i) = unat (id_block_count i) * unat (id_block_size i)"
    unfolding extent_data_size_def by (subst unat_mult_no_overflow) (use le in simp_all)
  show "4096 \<le> unat (extent_data_size i)" unfolding eq using mult_le_mono [of 1 "unat (id_block_count i)" 4096] s by simp
  show "unat (extent_data_size i) \<le> 2 ^ 48" unfolding eq using le by simp
qed

section \<open>The invariant\<close>

definition asize :: "extent_body \<Rightarrow> nat" where
  "asize b = unat (KES_ALIGN (e_data_size b) KES_CACHE_ALIGNMENT)"

definition mem :: "(addr \<times> extent_body) list \<Rightarrow> nat" where
  "mem es = sum_list (map (\<lambda>(a, b). asize b) es)"

definition count :: "(extent_body \<Rightarrow> bool) \<Rightarrow> (addr \<times> extent_body) list \<Rightarrow> nat" where
  "count P es = length (filter (\<lambda>(a, b). P b) es)"

definition dirty :: "extent_body \<Rightarrow> bool" where
  "dirty b \<longleftrightarrow> e_state b AND KES_EXTENT_DIRTY \<noteq> 0"

definition failed :: "extent_body \<Rightarrow> bool" where
  "failed b \<longleftrightarrow> e_state b AND KES_EXTENT_ERROR \<noteq> 0"

definition pinned :: "extent_body \<Rightarrow> bool" where
  "pinned b \<longleftrightarrow> e_pin_count b \<noteq> 0"

text \<open>An entry between two calls.\<close>

definition resting :: "extent_body \<Rightarrow> bool" where
  "resting b \<longleftrightarrow> \<not> e_lock b \<and> e_lookup_pins b = 0 \<and> e_cond_waiters b = 0 \<and>
     e_state b AND KES_EXTENT_LOADING = 0 \<and> id_ok (e_id b) \<and> e_data_size b = extent_data_size (e_id b)"

definition bufs_ok :: "(addr \<Rightarrow> u8 list option) \<Rightarrow> (addr \<times> extent_body) list \<Rightarrow> bool" where
  "bufs_ok m es \<longleftrightarrow> distinct (map (\<lambda>(a, b). e_data b) es) \<and>
     (\<forall>(a, b) \<in> set es. \<exists>p buf. e_data b = Some p \<and> m p = Some buf \<and> length buf = asize b) \<and>
     (\<forall>p. m p \<noteq> None \<longrightarrow> (\<exists>(a, b) \<in> set es. e_data b = Some p))"

definition fresh :: "'d kes_cache \<Rightarrow> (addr \<times> extent_body) list \<Rightarrow> bool" where
  "fresh c es \<longleftrightarrow> (\<forall>(a, b) \<in> set es. a < m_next c) \<and> (\<forall>p. m_bufs c p \<noteq> None \<longrightarrow> p < m_next c)"

definition counts :: "'d kes_cache \<Rightarrow> (addr \<times> extent_body) list \<Rightarrow> bool" where
  "counts c es \<longleftrightarrow> unat (cs_entries_cached (c_stats c)) = length es \<and>
     unat (cs_memory_used (c_stats c)) = mem es \<and> unat (cs_entries_pinned (c_stats c)) = count pinned es"

definition within :: "kes_cache_config \<Rightarrow> (addr \<times> extent_body) list \<Rightarrow> bool" where
  "within cfg es \<longleftrightarrow> length es \<le> unat (cc_max_entries cfg) \<and> mem es \<le> unat (cc_max_memory cfg)"

text \<open>Limits for which the sums in \<open>make_room_for_new_entry\<close> do not wrap; the documented maxima
  (1 GB and 65536 entries) are far below.\<close>

definition config_ok :: "kes_cache_config \<Rightarrow> bool" where
  "config_ok cfg \<longleftrightarrow> unat (cc_max_entries cfg) < 2 ^ 32 - 1 \<and> unat (cc_max_memory cfg) < 2 ^ 63"

text \<open>A read callback does not write beyond the size it is given.\<close>

definition read_ok :: "'d kes_cache \<Rightarrow> bool" where
  "read_ok c \<longleftrightarrow> (\<forall>rd. c_read_extent c = Some rd \<longrightarrow> (\<forall>d i buf n. length (fst (snd (rd d i buf n))) \<le> unat n))"

text \<open>The background threads: all of the array are running.\<close>

definition threads_ok :: "'d kes_cache \<Rightarrow> bool" where
  "threads_ok c \<longleftrightarrow> (\<forall>ts. c_bg_threads c = Some ts \<longrightarrow> ts = replicate (nat (cc_background_threads (c_config c))) True)"

text \<open>The facts about the entries that do not depend on the pointer structure.\<close>

definition tidy :: "'d kes_cache \<Rightarrow> (addr \<times> extent_body) list \<Rightarrow> bool" where
  "tidy c es \<longleftrightarrow> keyed es \<and> (\<forall>(a, b) \<in> set es. resting b) \<and> bufs_ok (m_bufs c) es \<and> fresh c es \<and>
     counts c es \<and> within (c_config c) es \<and> \<not> c_cache_lock c"

text \<open>The state during a traversal: the node \<open>n\<close>, if there is one, carries a pin.\<close>

definition pinat :: "addr option \<Rightarrow> (addr \<times> extent_body) list \<Rightarrow> (addr \<times> extent_body) list" where
  "pinat n es = (case n of None \<Rightarrow> es | Some a \<Rightarrow> at a (\<lambda>b. b\<lparr>e_lookup_pins := e_lookup_pins b + 1\<rparr>) es)"

definition walking :: "addr option \<Rightarrow> 'd kes_cache \<Rightarrow> (addr \<times> extent_body) list \<Rightarrow> bool" where
  "walking n c es \<longleftrightarrow> holds c (pinat n es) \<and> tidy c es"

definition cache_ok :: "'d kes_cache \<Rightarrow> (addr \<times> extent_body) list \<Rightarrow> bool" where
  "cache_ok c es \<longleftrightarrow> walking None c es \<and> c_inflight_lookups c = 0 \<and> \<not> c_destroying c \<and>
     config_ok (c_config c) \<and> read_ok c \<and> threads_ok c"

section \<open>Helper facts\<close>

lemma asize_pos: "resting b \<Longrightarrow> unat (e_data_size b) \<le> asize b \<and> 0 < asize b \<and> asize b \<le> 2 ^ 48 + 63"
  using KES_ALIGN_bounds [of "e_data_size b"] extent_data_size_bounds [of "e_id b"]
  by (auto simp: resting_def asize_def)

lemma mem_Nil [simp]: "mem [] = 0" and mem_Cons [simp]: "mem ((a, b) # es) = asize b + mem es"
  and mem_append [simp]: "mem (us @ vs) = mem us + mem vs"
  by (simp_all add: mem_def)

lemma count_Nil [simp]: "count P [] = 0"
  and count_Cons [simp]: "count P ((a, b) # es) = (if P b then 1 else 0) + count P es"
  and count_append [simp]: "count P (us @ vs) = count P us + count P vs"
  by (simp_all add: count_def)

lemma split_at:
  assumes "distinct (map fst es)" "map_of es a = Some b"
  obtains us vs where "es = us @ (a, b) # vs" "a \<notin> fst ` set us" "a \<notin> fst ` set vs"
    "at a g es = us @ (a, g b) # vs"
proof -
  obtain us vs where es: "es = us @ (a, b) # vs" using map_of_SomeD [OF assms(2)] by (auto dest: split_list)
  then have "a \<notin> fst ` set us" "a \<notin> fst ` set vs" using assms(1) by auto
  moreover from this have "at a g es = us @ (a, g b) # vs"
    using es at_other [of a us g] at_other [of a vs g] by (simp add: at_def)
  ultimately show thesis using that es by blast
qed


lemma holds_upd':
  assumes "holds c es" "m_heap c a = Some e" "e_id e' = e_id e" "e_list_next e' = e_list_next e"
    "e_list_prev e' = e_list_prev e" "e_hash_next e' = e_hash_next e" "e_hash_prev e' = e_hash_prev e"
    and "m_heap c' = (m_heap c)(a \<mapsto> e')" "c_buckets c' = c_buckets c" "c_mru_head c' = c_mru_head c"
    "c_lru_tail c' = c_lru_tail c" "c_bucket_count c' = c_bucket_count c" "c_bucket_mask c' = c_bucket_mask c"
  shows "holds c' (at a (\<lambda>_. extent_body.truncate e') es)"
  using holds_upd [OF assms(1-7)] holds_frame [of c' "c\<lparr>m_heap := (m_heap c)(a \<mapsto> e')\<rparr>"] assms(8-13) by simp

lemma core_eqD:
  assumes "core c = core c'"
  shows "m_bufs c = m_bufs c'" "m_next c = m_next c'" "m_dev c = m_dev c'" "m_sched c = m_sched c'" "m_junk c = m_junk c'"
    "m_clock c = m_clock c'" "m_ticks c = m_ticks c'"
    "c_config c = c_config c'" "c_stats c = c_stats c'" "c_bucket_count c = c_bucket_count c'" "c_bucket_mask c = c_bucket_mask c'"
    "c_bg_threads c = c_bg_threads c'" "c_shutdown c = c_shutdown c'" "c_cache_lock c = c_cache_lock c'"
    "c_inflight_lookups c = c_inflight_lookups c'" "c_destroying c = c_destroying c'"
    "c_read_extent c = c_read_extent c'" "c_write_extent c = c_write_extent c'" "c_sync_device c = c_sync_device c'"
proof -
  note s = arg_cong [OF assms]
  show "m_bufs c = m_bufs c'" using s [of m_bufs] by (simp add: core_def)
  show "m_next c = m_next c'" using s [of m_next] by (simp add: core_def)
  show "m_dev c = m_dev c'" using s [of m_dev] by (simp add: core_def)
  show "m_sched c = m_sched c'" using s [of m_sched] by (simp add: core_def)
  show "m_junk c = m_junk c'" using s [of m_junk] by (simp add: core_def)
  show "m_clock c = m_clock c'" using s [of m_clock] by (simp add: core_def)
  show "m_ticks c = m_ticks c'" using s [of m_ticks] by (simp add: core_def)
  show "c_config c = c_config c'" using s [of c_config] by (simp add: core_def)
  show "c_stats c = c_stats c'" using s [of c_stats] by (simp add: core_def)
  show "c_bucket_count c = c_bucket_count c'" using s [of c_bucket_count] by (simp add: core_def)
  show "c_bucket_mask c = c_bucket_mask c'" using s [of c_bucket_mask] by (simp add: core_def)
  show "c_bg_threads c = c_bg_threads c'" using s [of c_bg_threads] by (simp add: core_def)
  show "c_shutdown c = c_shutdown c'" using s [of c_shutdown] by (simp add: core_def)
  show "c_cache_lock c = c_cache_lock c'" using s [of c_cache_lock] by (simp add: core_def)
  show "c_inflight_lookups c = c_inflight_lookups c'" using s [of c_inflight_lookups] by (simp add: core_def)
  show "c_destroying c = c_destroying c'" using s [of c_destroying] by (simp add: core_def)
  show "c_read_extent c = c_read_extent c'" using s [of c_read_extent] by (simp add: core_def)
  show "c_write_extent c = c_write_extent c'" using s [of c_write_extent] by (simp add: core_def)
  show "c_sync_device c = c_sync_device c'" using s [of c_sync_device] by (simp add: core_def)
qed

lemma core_sel [simp]:
  "m_bufs (core c) = m_bufs c" "m_next (core c) = m_next c" "m_dev (core c) = m_dev c" "c_config (core c) = c_config c"
  "c_stats (core c) = c_stats c" "c_cache_lock (core c) = c_cache_lock c" "c_write_extent (core c) = c_write_extent c"
  "c_read_extent (core c) = c_read_extent c" "c_inflight_lookups (core c) = c_inflight_lookups c"
  "c_destroying (core c) = c_destroying c" "core (core c) = core c" "m_sched (core c) = m_sched c"
  "c_bg_threads (core c) = c_bg_threads c" "c_shutdown (core c) = c_shutdown c"
  by (simp_all add: core_def)

lemma tidy_core: "tidy (core c) es = tidy c es"
  by (simp add: tidy_def fresh_def counts_def)

lemma tidy_cong: "core c = core c' \<Longrightarrow> tidy c es = tidy c' es"
  by (metis tidy_core)

text \<open>Updates of the rest of the state commute with forgetting the pointers.\<close>

lemma core_upd [simp]:
  "core (stats f c) = stats f (core c)" "core (c\<lparr>m_dev := x1\<rparr>) = (core c)\<lparr>m_dev := x1\<rparr>"
  "core (c\<lparr>c_stats := x2\<rparr>) = (core c)\<lparr>c_stats := x2\<rparr>" "core (c\<lparr>m_bufs := x3\<rparr>) = (core c)\<lparr>m_bufs := x3\<rparr>"
  "core (c\<lparr>c_cache_lock := x4\<rparr>) = (core c)\<lparr>c_cache_lock := x4\<rparr>" "core (c\<lparr>m_heap := x5\<rparr>) = core c"
  "core (evict_core b c) = evict_core b (core c)"
  "core (c\<lparr>c_inflight_lookups := x6\<rparr>) = (core c)\<lparr>c_inflight_lookups := x6\<rparr>"
  "core (c\<lparr>m_ticks := x7\<rparr>) = (core c)\<lparr>m_ticks := x7\<rparr>" "core (c\<lparr>m_next := x8\<rparr>) = (core c)\<lparr>m_next := x8\<rparr>"
  "core (c\<lparr>m_sched := x9\<rparr>) = (core c)\<lparr>m_sched := x9\<rparr>" "core (c\<lparr>c_destroying := x10\<rparr>) = (core c)\<lparr>c_destroying := x10\<rparr>"
  by (simp_all add: core_def stats_def evict_core_def)


section \<open>State bits\<close>

definition clean_state :: "u32 \<Rightarrow> u32" where
  "clean_state s = s AND NOT KES_EXTENT_DIRTY AND NOT KES_EXTENT_ERROR OR KES_EXTENT_CLEAN"

lemma clean_state_bits [simp]:
  "clean_state s AND 2 = 0" "clean_state s AND 32 = 0" "clean_state s AND 8 = s AND 8" "clean_state s AND 4 = s AND 4"
  unfolding clean_state_def bit.conj_disj_distrib2 and.assoc by simp_all

lemma or_error_bits [simp]: "(s OR 32) AND 2 = s AND (2 :: u32)" "(s OR 32) AND 32 = (32 :: u32)" "(s OR 32) AND 8 = s AND (8 :: u32)"
  unfolding bit.conj_disj_distrib2 by simp_all

lemma or_dirty_bits [simp]: "(s OR 2) AND 2 = (2 :: u32)" "(s OR 2) AND 32 = s AND (32 :: u32)" "(s OR 2) AND 8 = s AND (8 :: u32)"
  unfolding bit.conj_disj_distrib2 by simp_all

lemma or_pinned_bits [simp]: "(s OR 4) AND 2 = s AND (2 :: u32)" "(s OR 4) AND 32 = s AND (32 :: u32)" "(s OR 4) AND 8 = s AND (8 :: u32)"
  unfolding bit.conj_disj_distrib2 by simp_all

section \<open>Keeping the invariant\<close>

lemma keyed_at:
  assumes "keyed es" "distinct (map fst es)" "map_of es a = Some b" "e_id (g b) = e_id b"
  shows "keyed (at a g es)"
proof -
  obtain us vs where "es = us @ (a, b) # vs" "at a g es = us @ (a, g b) # vs" by (rule split_at [OF assms(2,3)])
  then show ?thesis using assms(1,4) by (simp add: keyed_def)
qed

lemma tidy_distinct: "bufs_ok m es \<Longrightarrow> distinct es"
  by (auto simp: bufs_ok_def distinct_map)

lemma bufs_ok_at:
  assumes "bufs_ok m es" "distinct (map fst es)" "map_of es a = Some b" "e_data (g b) = e_data b" "asize (g b) = asize b"
    "\<And>p. map_option length (m' p) = map_option length (m p)"
  shows "bufs_ok m' (at a g es)"
proof -
  obtain us vs where es: "es = us @ (a, b) # vs" "at a g es = us @ (a, g b) # vs" by (rule split_at [OF assms(2,3)])
  have m: "m' p = None \<longleftrightarrow> m p = None" for p using assms(6) [of p] by (cases "m p"; cases "m' p") auto
  have len: "\<exists>buf'. m' p = Some buf' \<and> length buf' = n" if "m p = Some buf" "length buf = n" for p buf n
    using assms(6) [of p] that by auto
  have d: "(\<forall>(x, y) \<in> set (us @ (a, g b) # vs). Q (e_data y) (asize y)) \<longleftrightarrow> (\<forall>(x, y) \<in> set es. Q (e_data y) (asize y))" for Q
    using es(1) assms(4,5) by auto
  have "(\<exists>(x, y) \<in> set (us @ (a, g b) # vs). e_data y = Some p) \<longleftrightarrow> (\<exists>(x, y) \<in> set es. e_data y = Some p)" for p
    using es(1) assms(4) by auto
  moreover have "map (\<lambda>(x, y). e_data y) (us @ (a, g b) # vs) = map (\<lambda>(x, y). e_data y) es"
    using es(1) assms(4) by simp
  moreover have "\<forall>(x, y) \<in> set es. \<exists>p buf. e_data y = Some p \<and> m' p = Some buf \<and> length buf = asize y"
    using assms(1) len unfolding bufs_ok_def by fastforce
  ultimately show ?thesis
    using assms(1) d [of "\<lambda>q n. \<exists>p buf. q = Some p \<and> m' p = Some buf \<and> length buf = n"]
    unfolding bufs_ok_def es(2) m by simp
qed

lemma mem_at:
  assumes "distinct (map fst es)" "map_of es a = Some b" "asize (g b) = asize b"
  shows "mem (at a g es) = mem es"
proof -
  obtain us vs where "es = us @ (a, b) # vs" "at a g es = us @ (a, g b) # vs" by (rule split_at [OF assms(1,2)])
  then show ?thesis using assms(3) by simp
qed

lemma count_at:
  assumes "distinct (map fst es)" "map_of es a = Some b"
  shows "count P (at a g es) + (if P b then 1 else 0) = count P es + (if P (g b) then 1 else 0)"
proof -
  obtain us vs where "es = us @ (a, b) # vs" "at a g es = us @ (a, g b) # vs" by (rule split_at [OF assms(1,2)])
  then show ?thesis by simp
qed

lemma length_at [simp]: "length (at a g es) = length es"
  by (simp add: at_def)

lemma set_at: "(x, y) \<in> set (at a g es) \<Longrightarrow> \<exists>b. (x, b) \<in> set es \<and> y = (if x = a then g b else b)"
  by (auto simp: at_def)

lemma tidy_at:
  assumes t: "tidy c es" "distinct (map fst es)" "map_of es a = Some b"
    and b: "resting (g b)" "e_id (g b) = e_id b" "e_data (g b) = e_data b"
    and c': "\<And>p. map_option length (m_bufs c' p) = map_option length (m_bufs c p)" "m_next c' = m_next c"
      "c_config c' = c_config c" "\<not> c_cache_lock c'" "cs_entries_cached (c_stats c') = cs_entries_cached (c_stats c)"
      "cs_memory_used (c_stats c') = cs_memory_used (c_stats c)"
      "unat (cs_entries_pinned (c_stats c')) = count pinned (at a g es)"
  shows "tidy c' (at a g es)"
proof -
  have rb: "resting b" using t(1) map_of_SomeD [OF t(3)] by (auto simp: tidy_def)
  then have sz: "asize (g b) = asize b" using b by (simp add: asize_def resting_def)
  have "resting y" if xy: "(x, y) \<in> set (at a g es)" for x y
  proof -
    obtain b0 where b0: "(x, b0) \<in> set es" "y = (if x = a then g b0 else b0)" using set_at [OF xy] by blast
    then have "x = a \<longrightarrow> b0 = b" using t(2,3) map_of_is_SomeI by fastforce
    then show ?thesis using b0 b(1) t(1) by (auto simp: tidy_def)
  qed
  moreover have "fresh c' (at a g es)"
  proof -
    have f: "fresh c es" using t(1) by (simp add: tidy_def)
    have "m_bufs c' p = None \<longleftrightarrow> m_bufs c p = None" for p
      using c'(1) [of p] by (cases "m_bufs c p"; cases "m_bufs c' p") auto
    moreover have "x < m_next c'" if xy: "(x, y) \<in> set (at a g es)" for x y
      using set_at [OF xy] f c'(2) by (auto simp: fresh_def)
    ultimately show ?thesis using f c'(2) by (auto simp: fresh_def)
  qed
  moreover have "mem (at a g es) = mem es" by (rule mem_at [where g = g, OF t(2,3) sz])
  moreover have "keyed (at a g es)" by (rule keyed_at [where g = g, OF _ t(2,3) b(2)]) (use t(1) in \<open>simp add: tidy_def\<close>)
  moreover have "bufs_ok (m_bufs c') (at a g es)"
    by (rule bufs_ok_at [where g = g, OF _ t(2,3) b(3) sz c'(1)]) (use t(1) in \<open>simp add: tidy_def\<close>)
  moreover have "counts c es" "within (c_config c) es" using t(1) by (simp_all add: tidy_def)
  ultimately show ?thesis using c'(3-7) unfolding tidy_def counts_def within_def by auto
qed

lemma bufs_ok_remove:
  assumes "bufs_ok m (us @ (a, b) # vs)"
  shows "bufs_ok (m(the (e_data b) := None)) (us @ vs)"
proof -
  obtain p where p: "e_data b = Some p" using assms by (auto simp: bufs_ok_def)
  have "e_data y \<noteq> Some p" if "(x, y) \<in> set (us @ vs)" for x y
    using assms that p unfolding bufs_ok_def by (force simp: image_iff)
  note other = this
  have "\<exists>q buf. e_data y = Some q \<and> (m(p := None)) q = Some buf \<and> length buf = asize y" if xy: "(x, y) \<in> set (us @ vs)" for x y
  proof -
    have "(x, y) \<in> set (us @ (a, b) # vs)" using xy by auto
    then obtain q buf where "e_data y = Some q" "m q = Some buf" "length buf = asize y"
      using assms unfolding bufs_ok_def by blast
    then show ?thesis using other [OF xy] by auto
  qed
  moreover have "\<exists>(x, y) \<in> set (us @ vs). e_data y = Some q" if q: "(m(p := None)) q \<noteq> None" for q
  proof -
    have "q \<noteq> p" "m q \<noteq> None" using q by (auto split: if_splits)
    then obtain x y where "(x, y) \<in> set (us @ (a, b) # vs)" "e_data y = Some q" using assms unfolding bufs_ok_def by blast
    then show ?thesis using \<open>q \<noteq> p\<close> p by auto
  qed
  moreover have "distinct (map (\<lambda>(a, b). e_data b) (us @ vs))" using assms by (simp add: bufs_ok_def)
  ultimately show ?thesis unfolding bufs_ok_def p option.sel by blast
qed

lemma unat_minus_one: "unat (w :: 'a::len word) = Suc n \<Longrightarrow> unat (w - 1) = n"
  by (subst unat_diff_le) (auto simp: word_le_nat_alt)

lemma tidy_remove:
  assumes t: "tidy c (us @ (a, b) # vs)" and b: "\<not> pinned b"
  shows "tidy (evict_core b c) (us @ vs)"
proof -
  let ?s = "c_stats c"
  have cnt: "unat (cs_entries_cached ?s) = Suc (length (us @ vs))" "unat (cs_memory_used ?s) = mem (us @ vs) + asize b"
    using t by (simp_all add: tidy_def counts_def)
  have "unat (cs_entries_cached ?s - 1) = length (us @ vs)" by (rule unat_minus_one [OF cnt(1)])
  moreover have "unat (cs_memory_used ?s - KES_ALIGN (e_data_size b) 64) = mem (us @ vs)"
    by (subst unat_diff_le) (use cnt(2) in \<open>simp_all add: word_le_nat_alt asize_def\<close>)
  ultimately have "counts (evict_core b c) (us @ vs)"
    using t b by (simp add: counts_def tidy_def evict_core_def stats_def)
  moreover have "bufs_ok (m_bufs (evict_core b c)) (us @ vs)"
    using t bufs_ok_remove [of "m_bufs c" us a b vs] by (simp add: tidy_def evict_core_def stats_def)
  moreover have "keyed (us @ vs)" using t by (auto simp: tidy_def keyed_def)
  moreover have "fresh (evict_core b c) (us @ vs)" using t by (auto simp: tidy_def fresh_def evict_core_def stats_def)
  ultimately show ?thesis using t by (simp add: tidy_def within_def evict_core_def stats_def)
qed

end
