(* ===== verification/Kes_Cache_Sweep.thy ===== *)
theory Kes_Cache_Sweep
  imports Kes_Cache_Ok
begin

text \<open>
  The traversals of the cache: what \<open>cache_sweep\<close>, \<open>make_room_for_new_entry\<close> and the loop of
  \<open>kes_cache_destroy\<close> do, as functions on the list of entries and the rest of the state, and that the
  pointer-level definitions compute exactly these, terminate and keep the invariant.
\<close>

section \<open>One visit\<close>

text \<open>The write-back of a dirty entry: the result of the callback, if it is called.\<close>

definition write_back :: "'d kes_cache \<Rightarrow> extent_body \<Rightarrow> (int \<times> 'd) option" where
  "write_back c b = (if dirty b then map_option (\<lambda>wr. wr (m_dev c) (e_id b)
     (take (unat (e_data_size b)) (the (m_bufs c (the (e_data b))))) (e_data_size b)) (c_write_extent c) else None)"

definition flush_body :: "(int \<times> 'd) option \<Rightarrow> extent_body \<Rightarrow> extent_body" where
  "flush_body r b = (case r of None \<Rightarrow> b
     | Some (result, d) \<Rightarrow> b\<lparr>e_state := (if result = KES_SUCCESS then clean_state (e_state b) else e_state b OR KES_EXTENT_ERROR)\<rparr>)"

definition flush_core :: "(int \<times> 'd) option \<Rightarrow> extent_body \<Rightarrow> 'd kes_cache \<Rightarrow> 'd kes_cache" where
  "flush_core r b c = (case r of None \<Rightarrow> c
     | Some (result, d) \<Rightarrow> if result = KES_SUCCESS then stats (\<lambda>s. s\<lparr>cs_bytes_written := cs_bytes_written s + e_data_size b,
         cs_flushes := cs_flushes s + 1, cs_entries_dirty := cs_entries_dirty s - 1\<rparr>) (c\<lparr>m_dev := d\<rparr>)
       else c\<lparr>m_dev := d\<rparr>)"

definition drop_at :: "addr \<Rightarrow> (addr \<times> extent_body) list \<Rightarrow> (addr \<times> extent_body) list" where
  "drop_at a es = filter (\<lambda>(x, b). x \<noteq> a) es"

definition visit :: "addr \<Rightarrow> (addr \<times> extent_body) list \<times> 'd kes_cache \<Rightarrow> (addr \<times> extent_body) list \<times> 'd kes_cache" where
  "visit a s = (case s of (es, c) \<Rightarrow> case map_of es a of None \<Rightarrow> s
     | Some b \<Rightarrow> let r = write_back c b; b' = flush_body r b; c' = flush_core r b c in
         if evictable b' False then (drop_at a es, evict_core b' c') else (at a (\<lambda>_. b') es, c'))"

lemma write_back_core [simp]: "write_back (core c) b = write_back c b"
  by (simp add: write_back_def)

lemma flush_core_core [simp]: "core (flush_core r b c) = flush_core r b (core c)"
  by (auto simp: flush_core_def split: option.splits)

lemma flush_body_sel [simp]:
  "e_id (flush_body r b) = e_id b" "e_data (flush_body r b) = e_data b" "e_data_size (flush_body r b) = e_data_size b"
  "e_ref_count (flush_body r b) = e_ref_count b" "e_pin_count (flush_body r b) = e_pin_count b"
  "e_lookup_pins (flush_body r b) = e_lookup_pins b" "e_cond_waiters (flush_body r b) = e_cond_waiters b"
  "e_lock (flush_body r b) = e_lock b" "e_state (flush_body r b) AND 8 = e_state b AND 8"
  by (auto simp: flush_body_def split: option.splits)

lemma flush_core_sel [simp]:
  "m_bufs (flush_core r b c) = m_bufs c" "m_next (flush_core r b c) = m_next c" "c_config (flush_core r b c) = c_config c"
  "c_cache_lock (flush_core r b c) = c_cache_lock c" "m_heap (flush_core r b c) = m_heap c"
  "cs_entries_cached (c_stats (flush_core r b c)) = cs_entries_cached (c_stats c)"
  "cs_memory_used (c_stats (flush_core r b c)) = cs_memory_used (c_stats c)"
  "cs_entries_pinned (c_stats (flush_core r b c)) = cs_entries_pinned (c_stats c)"
  "c_buckets (flush_core r b c) = c_buckets c" "c_mru_head (flush_core r b c) = c_mru_head c"
  "c_lru_tail (flush_core r b c) = c_lru_tail c" "c_bucket_count (flush_core r b c) = c_bucket_count c"
  "c_bucket_mask (flush_core r b c) = c_bucket_mask c" "c_inflight_lookups (flush_core r b c) = c_inflight_lookups c"
  "c_destroying (flush_core r b c) = c_destroying c" "c_read_extent (flush_core r b c) = c_read_extent c"
  "c_write_extent (flush_core r b c) = c_write_extent c" "c_bg_threads (flush_core r b c) = c_bg_threads c"
  "m_sched (flush_core r b c) = m_sched c" "c_shutdown (flush_core r b c) = c_shutdown c"
  by (auto simp: flush_core_def stats_def split: option.splits)

lemma e_state_same [simp]: "e\<lparr>e_state := e_state e\<rparr> = (e :: ('a) extent_body_scheme)"
  by (cases e) simp

lemma cache_lock_restore [simp]: "\<not> c_cache_lock c \<Longrightarrow> c\<lparr>c_cache_lock := False\<rparr> = (c :: 'd kes_cache)"
  by (cases c) simp

lemma flush_dirty_eq:
  fixes e :: kes_extent_entry
  assumes e: "m_heap c a = Some e" "e_data e = Some p" "m_bufs c p = Some buf" "e_state e AND 8 = 0"
    and lock: "\<not> c_cache_lock c" and r: "r = write_back c (extent_body.truncate e)"
  shows "flush_dirty c a = Some ((flush_core r (extent_body.truncate e) c)
    \<lparr>m_heap := (m_heap c)(a \<mapsto> e\<lparr>e_state := e_state (flush_body r (extent_body.truncate e))\<rparr>)\<rparr>)"
proof (cases r)
  case None
  then have "\<not> dirty (extent_body.truncate e) \<or> c_write_extent c = None" using r by (auto simp: write_back_def split: if_splits)
  then have "flush_dirty c a = Some c" using e by (auto simp: flush_dirty_def dirty_def)
  moreover have "c = c\<lparr>m_heap := (m_heap c)(a \<mapsto> e)\<rparr>" using e(1) by (simp add: fun_upd_idem)
  ultimately show ?thesis using None by (simp add: flush_core_def flush_body_def)
next
  case (Some z)
  then obtain wr where w: "c_write_extent c = Some wr" "dirty (extent_body.truncate e)"
    "wr (m_dev c) (e_id e) (take (unat (e_data_size e)) buf) (e_data_size e) = z"
    using r e(2,3) by (auto simp: write_back_def split: if_splits)
  obtain res d where z: "z = (res, d)" by (cases z)
  show ?thesis
  proof (cases "res = KES_SUCCESS")
    case True
    then show ?thesis using e w lock Some z
      by (simp add: flush_dirty_def dirty_def store_data_def note_flushed_def upd_def lock_cache_def unlock_cache_def
          flush_core_def flush_body_def stats_def clean_state_def)
  next
    case False
    then show ?thesis using e w lock Some z
      by (simp add: flush_dirty_def dirty_def store_data_def upd_def flush_core_def flush_body_def)
  qed
qed


lemma pinat_map: "pinat n es = map (\<lambda>(x, b). (x, if n = Some x then b\<lparr>e_lookup_pins := e_lookup_pins b + 1\<rparr> else b)) es"
proof (cases n)
  case None
  then show ?thesis by (simp add: pinat_def split_def)
next
  case (Some y)
  have "(\<lambda>(x, b). (x, if x = y then b\<lparr>e_lookup_pins := e_lookup_pins b + 1\<rparr> else b)) =
      (\<lambda>(x, b :: extent_body). (x, if Some y = Some x then b\<lparr>e_lookup_pins := e_lookup_pins b + 1\<rparr> else b))" by auto
  then show ?thesis unfolding Some pinat_def at_def by simp
qed

lemma map_fst_pinat [simp]: "map fst (pinat n es) = map fst es"
  by (auto simp: pinat_map)

lemma set_fst_pinat [simp]: "fst ` set (pinat n es) = fst ` set es"
  by (metis list.set_map map_fst_pinat)

lemma pinat_simps [simp]:
  "pinat None es = es" "pinat n (us @ vs) = pinat n us @ pinat n vs" "pinat n [] = []"
  "n \<noteq> Some a \<Longrightarrow> pinat n ((a, b) # vs) = (a, b) # pinat n vs"
  by (simp_all add: pinat_map split_def)

lemma map_of_pinat: "map_of (pinat n es) a = map_option (\<lambda>b. if n = Some a then b\<lparr>e_lookup_pins := e_lookup_pins b + 1\<rparr> else b) (map_of es a)"
  by (induction es) (auto simp: pinat_map)

lemma drop_at_split: "a \<notin> fst ` set us \<Longrightarrow> a \<notin> fst ` set vs \<Longrightarrow> drop_at a (us @ (a, b) # vs) = us @ vs"
proof -
  assume "a \<notin> fst ` set us" "a \<notin> fst ` set vs"
  then have "filter (\<lambda>(x, b). x \<noteq> a) us = us" "filter (\<lambda>(x, b). x \<noteq> a) vs = vs"
    by (force simp: filter_id_conv)+
  then show ?thesis by (simp add: drop_at_def)
qed

lemma walking_distinct: "walking n c es \<Longrightarrow> distinct (map fst es)"
  using holds_distinct [of c "pinat n es"] by (simp add: walking_def)

lemma evict_core_lock [simp]: "evict_core (b\<lparr>e_lock := x\<rparr>) c = evict_core b c"
  by (simp add: evict_core_def)

lemma evict_core_sel [simp]:
  "m_next (evict_core b c) = m_next c" "c_config (evict_core b c) = c_config c"
  "c_cache_lock (evict_core b c) = c_cache_lock c" "c_inflight_lookups (evict_core b c) = c_inflight_lookups c"
  "c_destroying (evict_core b c) = c_destroying c" "c_read_extent (evict_core b c) = c_read_extent c"
  "c_write_extent (evict_core b c) = c_write_extent c" "c_bg_threads (evict_core b c) = c_bg_threads c"
  "m_dev (evict_core b c) = m_dev c" "m_sched (evict_core b c) = m_sched c" "c_shutdown (evict_core b c) = c_shutdown c"
  by (simp_all add: evict_core_def stats_def)

text \<open>The end of a visit: the locked entry \<open>a\<close> is evicted or unlocked.\<close>

lemma settle:
  assumes h: "holds c (pinat n (at a (\<lambda>_. b\<lparr>e_lock := True\<rparr>) es))" and es: "map_of es a = Some b0" and n: "n \<noteq> Some a"
    and t: "tidy c (at a (\<lambda>_. b) es)"
  obtains (evicted) c' where "evictable b d" "try_evict_entry_locked c a d = Some (True, c')"
      "holds c' (pinat n (drop_at a es))" "core c' = evict_core b (core c)" "tidy c' (drop_at a es)"
  | (kept) c' where "\<not> evictable b d" "try_evict_entry_locked c a d = Some (False, c)" "unlock_entry c a = Some c'"
      "holds c' (pinat n (at a (\<lambda>_. b) es))" "core c' = core c"
proof -
  have d: "distinct (map fst es)" using holds_distinct [OF h] by simp
  obtain us vs where sp: "es = us @ (a, b0) # vs" "a \<notin> fst ` set us" "a \<notin> fst ` set vs"
    "at a (\<lambda>_. b) es = us @ (a, b) # vs" by (rule split_at [OF d es])
  have sp2: "at a (\<lambda>_. b\<lparr>e_lock := True\<rparr>) es = us @ (a, b\<lparr>e_lock := True\<rparr>) # vs"
    using sp(1-3) at_other by (simp add: at_def)
  have h': "holds c (pinat n us @ (a, b\<lparr>e_lock := True\<rparr>) # pinat n vs)" using h n by (simp add: sp2)
  have rb: "resting b" using t by (simp add: sp(4) tidy_def)
  have lk: "\<not> c_cache_lock c" using t by (simp add: tidy_def)
  obtain p buf where p: "e_data b = Some p" "m_bufs c p = Some buf"
    using t by (auto simp: sp(4) tidy_def bufs_ok_def)
  show thesis
  proof (cases "evictable b d")
    case True
    have ev: "evictable (b\<lparr>e_lock := True\<rparr>) d" using True by (simp add: evictable_def)
    obtain c' where c': "try_evict_entry_locked c a d = Some (True, c')" "holds c' (pinat n us @ pinat n vs)"
      "core c' = core (evict_core (b\<lparr>e_lock := True\<rparr>) c)"
      by (rule evict_holds [OF h' refl ev, of p]) (use rb lk p in \<open>auto simp: resting_def\<close>)
    have np: "\<not> pinned b" using True by (simp add: evictable_def pinned_def)
    have "tidy (evict_core b c) (us @ vs)" by (rule tidy_remove [OF _ np]) (use t sp(4) in simp)
    then have "tidy c' (us @ vs)" using tidy_cong [of c' "evict_core b c"] c'(3) by simp
    then show thesis using evicted [of c'] True c' sp(1-3) by (simp add: drop_at_split)
  next
    case False
    have nev: "\<not> evictable (b\<lparr>e_lock := True\<rparr>) d" using False by (simp add: evictable_def)
    have m: "map_of (pinat n us @ (a, b\<lparr>e_lock := True\<rparr>) # pinat n vs) a = Some (b\<lparr>e_lock := True\<rparr>)"
      using map_of_is_SomeI [OF holds_distinct [OF h'], of a] by simp
    have r: "try_evict_entry_locked c a d = Some (False, c)"
      by (rule evict_refused [OF h' m lk]) (use nev in simp)
    obtain e where e: "m_heap c a = Some e" "extent_body.truncate e = b\<lparr>e_lock := True\<rparr>" by (rule entry_of [OF h' m])
    then have "e_lock e" by (metis (no_types) extent_body.select_convs(11) extent_body.surjective extent_body.update_convs(11) truncate_sel(11))
    define c' where "c' = c\<lparr>m_heap := (m_heap c)(a \<mapsto> e\<lparr>e_lock := False\<rparr>)\<rparr>"
    have u: "unlock_entry c a = Some c'" using e(1) \<open>e_lock e\<close> by (simp add: unlock_entry_def upd_def c'_def)
    have tr: "extent_body.truncate (e\<lparr>e_lock := False\<rparr>) = b"
      using e(2) rb by (cases e; cases b) (simp add: extent_body.defs resting_def)
    have "holds c' (at a (\<lambda>_. extent_body.truncate (e\<lparr>e_lock := False\<rparr>)) (pinat n us @ (a, b\<lparr>e_lock := True\<rparr>) # pinat n vs))"
      by (rule holds_upd' [OF h' e(1)]) (simp_all add: c'_def)
    moreover have "a \<notin> fst ` set (pinat n us)" "a \<notin> fst ` set (pinat n vs)" using sp(2,3) by simp_all
    then have "at a (\<lambda>_. b) (pinat n us @ (a, b\<lparr>e_lock := True\<rparr>) # pinat n vs) = pinat n us @ (a, b) # pinat n vs"
      using at_other [of a "pinat n us" "\<lambda>_. b"] at_other [of a "pinat n vs" "\<lambda>_. b"] by (simp add: at_def)
    ultimately have "holds c' (pinat n (us @ (a, b) # vs))" using n unfolding tr by simp
    then show thesis using kept [of c'] False r u by (simp add: sp(4) c'_def)
  qed
qed


text \<open>The beginning of a visit: the pin is exchanged for the lock and a dirty entry is written back.\<close>

lemma pin_lookup_holds:
  assumes h: "holds c es" and y: "y \<in> fst ` set es"
  obtains c' where "pin_lookup c y = Some c'" "holds c' (pinat (Some y) es)" "core c' = core c"
proof -
  obtain b where b: "map_of es y = Some b" using y by (metis map_of_eq_None_iff not_None_eq)
  obtain e where e: "m_heap c y = Some e" "extent_body.truncate e = b" by (rule entry_of [OF h b])
  define c' where "c' = c\<lparr>m_heap := (m_heap c)(y \<mapsto> e\<lparr>e_lookup_pins := e_lookup_pins e + 1\<rparr>)\<rparr>"
  have tr: "extent_body.truncate (e\<lparr>e_lookup_pins := e_lookup_pins e + 1\<rparr>) = b\<lparr>e_lookup_pins := e_lookup_pins b + 1\<rparr>"
    using e(2) by (cases e; cases b) (simp add: extent_body.defs)
  obtain us vs where sp: "es = us @ (y, b) # vs" "y \<notin> fst ` set us" "y \<notin> fst ` set vs"
    "at y (\<lambda>_. b\<lparr>e_lookup_pins := e_lookup_pins b + 1\<rparr>) es = us @ (y, b\<lparr>e_lookup_pins := e_lookup_pins b + 1\<rparr>) # vs"
    by (rule split_at [OF holds_distinct [OF h] b])
  then have "at y (\<lambda>_. b\<lparr>e_lookup_pins := e_lookup_pins b + 1\<rparr>) es = pinat (Some y) es"
    using at_other [of y us] at_other [of y vs] by (simp add: pinat_def at_def)
  moreover have "holds c' (at y (\<lambda>_. extent_body.truncate (e\<lparr>e_lookup_pins := e_lookup_pins e + 1\<rparr>)) es)"
    by (rule holds_upd' [OF h e(1)]) (simp_all add: c'_def)
  ultimately have "holds c' (pinat (Some y) es)" unfolding tr by simp
  moreover have "pin_lookup c y = Some c'" using e(1) by (simp add: pin_lookup_def upd_def c'_def)
  moreover have "core c' = core c" by (simp add: c'_def)
  ultimately show thesis using that by blast
qed

lemma pin_next_holds:
  assumes "holds c es" "\<And>y. n = Some y \<Longrightarrow> y \<in> fst ` set es"
  obtains c' where "pin_next c n = Some c'" "holds c' (pinat n es)" "core c' = core c"
  using assms pin_lookup_holds [of c es] that by (cases n) (force simp: pin_next_def)+

lemma lock_body_simps [simp]:
  "write_back c (b\<lparr>e_lock := x\<rparr>) = write_back c b" "flush_core r (b\<lparr>e_lock := x\<rparr>) c = flush_core r b c"
  "flush_body r (b\<lparr>e_lock := x\<rparr>) = (flush_body r b)\<lparr>e_lock := x\<rparr>"
  by (auto simp: write_back_def dirty_def flush_core_def flush_body_def split: option.splits)

lemma resting_flush: "resting b \<Longrightarrow> resting (flush_body r b)"
  by (simp add: resting_def)

lemma pinned_flush [simp]: "pinned (flush_body r b) = pinned b"
  by (simp add: pinned_def)

lemma start_visit:
  assumes h: "holds c (pinat n (pinat (Some a) es))" and n: "n \<noteq> Some a" and t: "tidy c es" and b: "map_of es a = Some b"
    and r: "r = write_back c b"
  obtains c1 c2 c3 where "lock_entry c a = Some c1" "unpin_lookup c1 a = Some c2" "flush_dirty c2 a = Some c3"
    "holds c2 (pinat n (at a (\<lambda>_. b\<lparr>e_lock := True\<rparr>) es))" "core c2 = core c"
    "holds c3 (pinat n (at a (\<lambda>_. (flush_body r b)\<lparr>e_lock := True\<rparr>) es))" "core c3 = flush_core r b (core c)"
    "tidy c3 (at a (\<lambda>_. flush_body r b) es)"
proof -
  have d: "distinct (map fst es)" using holds_distinct [OF h] by simp
  obtain us vs where sp: "es = us @ (a, b) # vs" "a \<notin> fst ` set us" "a \<notin> fst ` set vs" "at a (\<lambda>b. b) es = us @ (a, b) # vs"
    by (rule split_at [OF d b])
  have at: "at a (\<lambda>_. y) es = us @ (a, y) # vs" for y using sp at_other [of a us] at_other [of a vs] by (simp add: at_def)
  let ?us = "pinat n us" and ?vs = "pinat n vs"
  have nu: "a \<notin> fst ` set ?us" "a \<notin> fst ` set ?vs" using sp(2,3) by simp_all
  have at': "at a (\<lambda>_. y) (?us @ (a, z) # ?vs) = ?us @ (a, y) # ?vs" for y z
    using nu at_other [of a ?us] at_other [of a ?vs] by (simp add: at_def)
  have pa: "pinat (Some a) es = us @ (a, b\<lparr>e_lookup_pins := e_lookup_pins b + 1\<rparr>) # vs"
    using sp at_other [of a us] at_other [of a vs] by (simp add: pinat_def at_def)
  have h0: "holds c (?us @ (a, b\<lparr>e_lookup_pins := e_lookup_pins b + 1\<rparr>) # ?vs)" using h n by (simp add: pa)
  have "map_of (?us @ (a, b\<lparr>e_lookup_pins := e_lookup_pins b + 1\<rparr>) # ?vs) a = Some (b\<lparr>e_lookup_pins := e_lookup_pins b + 1\<rparr>)"
    using map_of_is_SomeI [OF holds_distinct [OF h0], of a] by simp
  then obtain e where e: "m_heap c a = Some e" "extent_body.truncate e = b\<lparr>e_lookup_pins := e_lookup_pins b + 1\<rparr>"
    using entry_of [OF h0] by blast
  have rb: "resting b" using t map_of_SomeD [OF b] by (auto simp: tidy_def)
  have sel: "e_lock e = e_lock b" "e_data e = e_data b" "e_state e = e_state b"
    using arg_cong [OF e(2), of e_lock] arg_cong [OF e(2), of e_data] arg_cong [OF e(2), of e_state] by simp_all
  define e2 where "e2 = e\<lparr>e_lock := True, e_lookup_pins := e_lookup_pins e - 1\<rparr>"
  have tr2: "extent_body.truncate e2 = b\<lparr>e_lock := True\<rparr>"
    using e(2) by (cases e; cases b) (simp add: extent_body.defs e2_def)
  define c1 where "c1 = c\<lparr>m_heap := (m_heap c)(a \<mapsto> e\<lparr>e_lock := True\<rparr>)\<rparr>"
  define c2 where "c2 = c\<lparr>m_heap := (m_heap c)(a \<mapsto> e2)\<rparr>"
  have l: "lock_entry c a = Some c1" using e(1) sel rb by (simp add: lock_entry_def upd_def c1_def resting_def)
  have u: "unpin_lookup c1 a = Some c2" by (simp add: unpin_lookup_def upd_def c1_def c2_def e2_def)
  obtain p buf where p: "e_data b = Some p" "m_bufs c p = Some buf" using t by (auto simp: sp(1) tidy_def bufs_ok_def)
  have lk: "\<not> c_cache_lock c" using t by (simp add: tidy_def)
  have wb: "write_back c2 (b\<lparr>e_lock := True\<rparr>) = r" using r by (simp add: write_back_def c2_def dirty_def)
  define c3 where "c3 = (flush_core r b c2)\<lparr>m_heap := (m_heap c2)(a \<mapsto> e2\<lparr>e_state := e_state (flush_body r b)\<rparr>)\<rparr>"
  have f: "flush_dirty c2 a = Some c3"
    using flush_dirty_eq [of c2 a e2 p buf r] sel p lk rb wb tr2
    by (simp add: c2_def c3_def e2_def resting_def)
  have tr3: "extent_body.truncate (e2\<lparr>e_state := e_state (flush_body r b)\<rparr>) = (flush_body r b)\<lparr>e_lock := True\<rparr>"
  proof -
    have "extent_body.truncate (e2\<lparr>e_state := s\<rparr>) = (extent_body.truncate e2)\<lparr>e_state := s\<rparr>" for s
      by (cases e2) (simp add: extent_body.defs)
    then show ?thesis unfolding tr2 by (cases r) (auto simp: flush_body_def)
  qed
  have h2: "holds c2 (?us @ (a, b\<lparr>e_lock := True\<rparr>) # ?vs)"
    using holds_upd' [OF h0 e(1), of e2 c2] at' [of "extent_body.truncate e2"] tr2 by (simp add: c2_def e2_def)
  have h3: "holds c3 (?us @ (a, (flush_body r b)\<lparr>e_lock := True\<rparr>) # ?vs)"
    using holds_upd' [OF h2, of a e2 "e2\<lparr>e_state := e_state (flush_body r b)\<rparr>" c3] at' [of "(flush_body r b)\<lparr>e_lock := True\<rparr>"] tr3
    by (simp add: c2_def c3_def)
  have cr: "core c2 = core c" "core c3 = flush_core r b (core c)" by (simp_all add: c2_def c3_def)
  have "tidy (flush_core r b c) (at a (\<lambda>_. flush_body r b) es)"
  proof (rule tidy_at [OF t d b])
    have "count pinned (at a (\<lambda>_. flush_body r b) es) = count pinned es" unfolding at by (simp add: sp(1))
    then show "unat (cs_entries_pinned (c_stats (flush_core r b c))) = count pinned (at a (\<lambda>_. flush_body r b) es)"
      using t by (simp add: tidy_def counts_def)
  qed (use rb lk in \<open>simp_all add: resting_flush\<close>)
  then have "tidy c3 (at a (\<lambda>_. flush_body r b) es)" using tidy_cong [of c3 "flush_core r b c"] cr(2) by simp
  moreover have "pinat n (us @ (a, y) # vs) = ?us @ (a, y) # ?vs" for y using n by simp
  ultimately show thesis using that [OF l u f] h2 h3 cr by (simp only: at)
qed


text \<open>The neighbours of an entry in the LRU list.\<close>

lemma lru_neighbours:
  assumes "lru c (xs @ a # ys)" "m_heap c a = Some e"
  shows "e_list_next e = first ys None" "e_list_prev e = final xs None"
  using assms by (auto simp: lru_def)

lemma pin_list_next_holds:
  assumes h: "holds c es" and l: "map fst es = xs @ a # ys" and k: "\<not> c_cache_lock c"
  obtains c' where "pin_list_next c a = Some (first ys None, c')" "holds c' (pinat (first ys None) es)" "core c' = core c"
proof -
  have "lru c (xs @ a # ys)" using h l by (simp add: holds_def)
  moreover have "a \<in> fst ` set es" using l by (metis in_set_conv_decomp list.set_map)
  then obtain e where e: "m_heap c a = Some e" using entry_of [OF h] by (metis map_of_eq_None_iff not_None_eq)
  ultimately have nx: "e_list_next e = first ys None" using lru_neighbours by blast
  have hl: "holds (c\<lparr>c_cache_lock := True\<rparr>) es" using h by simp
  have mem: "y \<in> fst ` set es" if "first ys None = Some y" for y
  proof -
    have "y \<in> set (map fst es)" using first_SomeD [OF that] unfolding l by auto
    then show ?thesis by simp
  qed
  obtain c1 where c1: "pin_next (c\<lparr>c_cache_lock := True\<rparr>) (first ys None) = Some c1" "holds c1 (pinat (first ys None) es)"
    "core c1 = core (c\<lparr>c_cache_lock := True\<rparr>)"
    by (rule pin_next_holds [OF hl mem])
  have "c_cache_lock c1" using core_eqD(14) [OF c1(3)] by simp
  then have "pin_list_next c a = Some (first ys None, c1\<lparr>c_cache_lock := False\<rparr>)"
    using k e nx c1(1) by (simp add: pin_list_next_def lock_cache_def unlock_cache_def)
  moreover have "core (c1\<lparr>c_cache_lock := False\<rparr>) = core c" using c1(3) k by simp
  ultimately show thesis using that c1(2) by simp
qed

lemma walking_upd_core: "holds c' (pinat n es) \<Longrightarrow> tidy c' es \<Longrightarrow> walking n c' es"
  by (simp add: walking_def)

lemma pinat_swap: "pinat n (pinat m es) = pinat m (pinat n es)"
  by (auto simp: pinat_map)

lemma sweep_visit:
  assumes w: "walking (Some a) c es" and l: "map fst es = xs @ a # ys"
  obtains c1 c2 es' where "pin_list_next c a = Some (first ys None, c1)" "sweep_flush_and_maybe_evict c1 a = Some c2"
    "walking (first ys None) c2 es'" "visit a (es, core c) = (es', core c2)" "map fst es' = xs @ ys \<or> map fst es' = map fst es"
proof -
  have h: "holds c (pinat (Some a) es)" and t: "tidy c es" using w by (simp_all add: walking_def)
  have d: "distinct (map fst es)" by (rule walking_distinct [OF w])
  let ?n = "first ys None"
  have lk: "\<not> c_cache_lock c" using t by (simp add: tidy_def)
  have l': "map fst (pinat (Some a) es) = xs @ a # ys" using l by simp
  obtain c1 where c1: "pin_list_next c a = Some (?n, c1)" "holds c1 (pinat ?n (pinat (Some a) es))" "core c1 = core c"
    by (rule pin_list_next_holds [OF h l' lk])
  have n: "?n \<noteq> Some a" using d l first_SomeD [of ys None a] by auto
  have "a \<in> fst ` set es" using l by (metis in_set_conv_decomp list.set_map)
  then obtain b where b: "map_of es a = Some b" by (metis map_of_eq_None_iff not_None_eq)
  have t1: "tidy c1 es" using t tidy_cong [OF c1(3)] by simp
  define r where "r = write_back c b"
  have r1: "r = write_back c1 b" using core_eqD(1,3,18) [OF c1(3)] by (simp add: r_def write_back_def)
  obtain c2 c3 c4 where c4: "lock_entry c1 a = Some c2" "unpin_lookup c2 a = Some c3" "flush_dirty c3 a = Some c4"
    "holds c4 (pinat ?n (at a (\<lambda>_. (flush_body r b)\<lparr>e_lock := True\<rparr>) es))" "core c4 = flush_core r b (core c1)"
    "tidy c4 (at a (\<lambda>_. flush_body r b) es)"
    by (rule start_visit [OF c1(2) n t1 b r1])
  have v: "visit a (es, core c) = (if evictable (flush_body r b) False
      then (drop_at a es, evict_core (flush_body r b) (core c4)) else (at a (\<lambda>_. flush_body r b) es, core c4))"
    using b c4(5) c1(3) by (simp add: visit_def r_def Let_def)
  obtain us vs where sp: "es = us @ (a, b) # vs" "a \<notin> fst ` set us" "a \<notin> fst ` set vs" "at a (\<lambda>b. b) es = us @ (a, b) # vs"
    by (rule split_at [OF d b])
  have "map fst us = xs \<and> map fst vs = ys"
  proof -
    have "map fst us @ a # map fst vs = xs @ a # ys" using l sp(1) by simp
    moreover have "a \<notin> set (map fst us)" "a \<notin> set (map fst vs)" using sp(2,3) by simp_all
    ultimately show ?thesis using append_Cons_eq_iff by metis
  qed
  then have dr: "map fst (drop_at a es) = xs @ ys" using sp(1-3) drop_at_split [of a us vs b] by simp
  from c4(4) b n c4(6) show thesis
  proof (cases rule: settle [where d = False])
    case (evicted c5)
    then have "sweep_flush_and_maybe_evict c1 a = Some c5" using c4 by (simp add: sweep_flush_and_maybe_evict_def)
    then show thesis using that [OF c1(1), of c5 "drop_at a es"] evicted v dr by (simp add: walking_def)
  next
    case (kept c5)
    then have "sweep_flush_and_maybe_evict c1 a = Some c5" using c4 by (simp add: sweep_flush_and_maybe_evict_def)
    moreover have "tidy c5 (at a (\<lambda>_. flush_body r b) es)" using c4(6) tidy_cong [OF kept(5)] by simp
    ultimately show thesis using that [OF c1(1), of c5 "at a (\<lambda>_. flush_body r b) es"] kept v by (simp add: walking_def)
  qed
qed


section \<open>The sweep\<close>

lemma cache_sweep_loop_eq:
  assumes "walking (first ws None) c es" "map fst es = xs @ ws"
  shows "\<exists>c' es'. cache_sweep_loop c (first ws None) = Some c' \<and> walking None c' es' \<and>
    fold visit ws (es, core c) = (es', core c')"
  using assms
proof (induction ws arbitrary: c es xs)
  case Nil
  then show ?case by (auto simp: cache_sweep_loop.simps)
next
  case (Cons a ws)
  have w: "walking (Some a) c es" using Cons.prems(1) by simp
  obtain c1 c2 es' where v: "pin_list_next c a = Some (first ws None, c1)" "sweep_flush_and_maybe_evict c1 a = Some c2"
    "walking (first ws None) c2 es'" "visit a (es, core c) = (es', core c2)" "map fst es' = xs @ ws \<or> map fst es' = map fst es"
    by (rule sweep_visit [OF w Cons.prems(2)])
  have "map fst es' = xs @ ws \<or> map fst es' = (xs @ [a]) @ ws" using v(5) Cons.prems(2) by simp
  then obtain xs' where "map fst es' = xs' @ ws" by blast
  from Cons.IH [OF v(3) this] v(1,2,4) show ?case
    by (simp add: cache_sweep_loop.simps [of c "Some a"])
qed

text \<open>\<open>cache_sweep\<close> visits every entry once, from the most recently used on.\<close>

lemma cache_sweep_eq:
  assumes w: "walking None c es"
  obtains c' es' where "cache_sweep c = Some c'" "walking None c' es'" "fold visit (map fst es) (es, core c) = (es', core c')"
proof -
  have h: "holds c es" and t: "tidy c es" using w by (simp_all add: walking_def)
  have lk: "\<not> c_cache_lock c" using t by (simp add: tidy_def)
  have hd: "c_mru_head c = first (map fst es) None" using h by (simp add: holds_def lru_def)
  have hl: "holds (c\<lparr>c_cache_lock := True\<rparr>) es" using h by simp
  have mem: "y \<in> fst ` set es" if "first (map fst es) None = Some y" for y using first_SomeD [OF that] by simp
  obtain c1 where c1: "pin_next (c\<lparr>c_cache_lock := True\<rparr>) (first (map fst es) None) = Some c1"
    "holds c1 (pinat (first (map fst es) None) es)" "core c1 = core (c\<lparr>c_cache_lock := True\<rparr>)"
    by (rule pin_next_holds [OF hl mem])
  have l1: "c_cache_lock c1" using core_eqD(14) [OF c1(3)] by simp
  have cr: "core (c1\<lparr>c_cache_lock := False\<rparr>) = core c" using c1(3) lk by simp
  have "walking (first (map fst es) None) (c1\<lparr>c_cache_lock := False\<rparr>) es"
    using c1(2) t tidy_cong [OF cr] by (simp add: walking_def)
  from cache_sweep_loop_eq [OF this, of "[]"] obtain c' es' where
    "cache_sweep_loop (c1\<lparr>c_cache_lock := False\<rparr>) (first (map fst es) None) = Some c'" "walking None c' es'"
    "fold visit (map fst es) (es, core c) = (es', core c')" unfolding cr by auto
  then show thesis using that lk hd c1(1) l1 by (simp add: cache_sweep_def lock_cache_def unlock_cache_def)
qed

section \<open>Making room\<close>

definition room_visit :: "u64 \<Rightarrow> addr \<Rightarrow> (addr \<times> extent_body) list \<times> 'd kes_cache \<Rightarrow>
    bool \<times> (addr \<times> extent_body) list \<times> 'd kes_cache" where
  "room_visit needed a s = (case visit a s of (es, c) \<Rightarrow>
     if map_of es a = None then let c' = stats (\<lambda>s. s\<lparr>cs_evictions := cs_evictions s + 1\<rparr>) c in (room_for c' needed, es, c')
     else (False, es, c))"

fun room_walk :: "u64 \<Rightarrow> addr list \<Rightarrow> (addr \<times> extent_body) list \<times> 'd kes_cache \<Rightarrow>
    bool \<times> (addr \<times> extent_body) list \<times> 'd kes_cache" where
  "room_walk needed [] s = (False, s)"
| "room_walk needed (a # as) s = (case room_visit needed a s of (fits, s') \<Rightarrow>
     if fits then (True, s') else room_walk needed as s')"

lemma room_for_core [simp]: "room_for (core c) needed = room_for c needed"
  by (simp add: room_for_def)

lemma tidy_stats:
  assumes "\<And>s. cs_entries_cached (f s) = cs_entries_cached s" "\<And>s. cs_memory_used (f s) = cs_memory_used s"
    "\<And>s. cs_entries_pinned (f s) = cs_entries_pinned s"
  shows "tidy (stats f c) es = tidy c es"
  using assms by (simp add: tidy_def fresh_def counts_def stats_def)

lemma unpin_pinned:
  assumes h: "holds c (pinat (Some p) es)" and p: "p \<in> fst ` set es"
  obtains c' where "unpin_lookup c p = Some c'" "holds c' es" "core c' = core c"
proof -
  have d: "distinct (map fst es)" using holds_distinct [OF h] by simp
  obtain b where b: "map_of es p = Some b" using p by (metis map_of_eq_None_iff not_None_eq)
  obtain us vs where sp: "es = us @ (p, b) # vs" "p \<notin> fst ` set us" "p \<notin> fst ` set vs" "at p (\<lambda>b. b) es = us @ (p, b) # vs"
    by (rule split_at [OF d b])
  let ?b = "b\<lparr>e_lookup_pins := e_lookup_pins b + 1\<rparr>"
  have pp: "pinat (Some p) es = us @ (p, ?b) # vs" using sp at_other [of p us] at_other [of p vs] by (simp add: pinat_def at_def)
  have m: "map_of (us @ (p, ?b) # vs) p = Some ?b"
    using map_of_is_SomeI [OF holds_distinct [OF h [unfolded pp]], of p] by simp
  obtain e where e: "m_heap c p = Some e" "extent_body.truncate e = ?b" by (rule entry_of [OF h [unfolded pp] m])
  define c' where "c' = c\<lparr>m_heap := (m_heap c)(p \<mapsto> e\<lparr>e_lookup_pins := e_lookup_pins e - 1\<rparr>)\<rparr>"
  have tr: "extent_body.truncate (e\<lparr>e_lookup_pins := e_lookup_pins e - 1\<rparr>) = b"
    using e(2) by (cases e; cases b) (simp add: extent_body.defs)
  have "holds c' (at p (\<lambda>_. extent_body.truncate (e\<lparr>e_lookup_pins := e_lookup_pins e - 1\<rparr>)) (us @ (p, ?b) # vs))"
    by (rule holds_upd' [OF h [unfolded pp] e(1)]) (simp_all add: c'_def)
  then have "holds c' es" unfolding tr using sp at_other [of p us] at_other [of p vs] by (simp add: at_def)
  moreover have "unpin_lookup c p = Some c'" using e(1) by (simp add: unpin_lookup_def upd_def c'_def)
  ultimately show thesis using that by (simp add: c'_def)
qed

lemma drop_at_None: "map_of (drop_at a es) a = None"
  by (auto simp: drop_at_def map_of_eq_None_iff)

text \<open>A visit in two parts: the entry is written back and its predecessor pinned, then it is evicted or kept.\<close>

definition room_decide ::
    "'d kes_cache \<Rightarrow> u64 \<Rightarrow> addr option \<Rightarrow> addr \<Rightarrow> (bool \<times> addr option \<times> 'd kes_cache) option" where
  "room_decide c needed prev a = do {
     (evicted, c1) \<leftarrow> try_evict_entry_locked c a False;
     (fits, c3) \<leftarrow> (if evicted then do {
           c2 \<leftarrow> lock_cache c1;
           let c2 = stats (\<lambda>s. s\<lparr>cs_evictions := cs_evictions s + 1\<rparr>) c2;
           c3 \<leftarrow> unlock_cache c2;
           Some (room_for c2 needed, c3) }
         else do { c2 \<leftarrow> unlock_entry c1 a; Some (False, c2) });
     (case prev of None \<Rightarrow> Some (fits, None, c3)
      | Some p \<Rightarrow> if fits then do { c4 \<leftarrow> unpin_lookup c3 p; Some (fits, None, c4) }
          else Some (fits, Some p, c3)) }"

lemma room_advance:
  assumes w: "walking (Some a) c es" and l: "map fst es = xs @ a # ys" and b: "map_of es a = Some b" and r: "r = write_back c b"
  obtains c' where "make_room_visit c needed False a = room_decide c' needed (final xs None) a"
    "holds c' (pinat (final xs None) (at a (\<lambda>_. (flush_body r b)\<lparr>e_lock := True\<rparr>) es))"
    "tidy c' (at a (\<lambda>_. flush_body r b) es)" "core c' = flush_core r b (core c)"
proof -
  have h0: "holds c (pinat None (pinat (Some a) es))" and t: "tidy c es" using w by (simp_all add: walking_def)
  let ?n = "final xs None" and ?es = "at a (\<lambda>_. (flush_body r b)\<lparr>e_lock := True\<rparr>) es"
  obtain c1 c2 c3 where c3: "lock_entry c a = Some c1" "unpin_lookup c1 a = Some c2" "flush_dirty c2 a = Some c3"
    "holds c3 (pinat None ?es)" "core c3 = flush_core r b (core c)" "tidy c3 (at a (\<lambda>_. flush_body r b) es)"
    by (rule start_visit [OF h0 _ t b r]) simp
  have h3: "holds c3 ?es" "\<not> c_cache_lock c3" using c3(4,6) by (simp_all add: tidy_def)
  have "lru c3 (xs @ a # ys)" using h3(1) l by (simp add: holds_def)
  moreover obtain e3 where e3: "m_heap c3 a = Some e3"
    using entry_of [OF h3(1), of a] b by (auto simp: map_of_at)
  ultimately have pv: "e_list_prev e3 = ?n" using lru_neighbours by blast
  have mem: "y \<in> fst ` set ?es" if "?n = Some y" for y
  proof -
    have "y \<in> set (map fst es)" using final_SomeD [OF that] unfolding l by auto
    then show ?thesis by simp
  qed
  have hl: "holds (c3\<lparr>c_cache_lock := True\<rparr>) ?es" using h3 by simp
  obtain c5 where c5: "pin_next (c3\<lparr>c_cache_lock := True\<rparr>) ?n = Some c5" "holds c5 (pinat ?n ?es)"
    "core c5 = core (c3\<lparr>c_cache_lock := True\<rparr>)" by (rule pin_next_holds [OF hl mem])
  define c6 where "c6 = c5\<lparr>c_cache_lock := False\<rparr>"
  have l5: "c_cache_lock c5" using core_eqD(14) [OF c5(3)] by simp
  have cr: "core c6 = core c3" using c5(3) h3(2) by (simp add: c6_def)
  have "make_room_visit c needed False a = room_decide c6 needed ?n a"
    using c3(1-3) h3(2) e3 pv c5(1) l5
    by (simp add: make_room_visit_def room_decide_def lock_cache_def unlock_cache_def c6_def)
  then show thesis using that [of c6] c5(2) c3(5,6) cr tidy_cong [OF cr] by (simp add: c6_def)
qed

lemma room_evicted:
  assumes ev: "try_evict_entry_locked c a False = Some (True, c1)" and h: "holds c1 (pinat n fs)" and t: "tidy c1 fs"
    and n: "\<And>p. n = Some p \<Longrightarrow> p \<in> fst ` set fs"
    and c2: "c2 = stats (\<lambda>s. s\<lparr>cs_evictions := cs_evictions s + 1\<rparr>) c1"
  obtains c' where "room_decide c needed n a = Some (room_for c2 needed, if room_for c2 needed then None else n, c')"
    "walking (if room_for c2 needed then None else n) c' fs" "core c' = core c2"
proof -
  let ?l = "stats (\<lambda>s. s\<lparr>cs_evictions := cs_evictions s + 1\<rparr>) (c1\<lparr>c_cache_lock := True\<rparr>)"
  have t2: "tidy c2 fs" using t unfolding c2 by (subst tidy_stats) simp_all
  have h2: "holds c2 (pinat n fs)" using h by (simp add: c2)
  have l: "\<not> c_cache_lock c1" using t by (simp add: tidy_def)
  have rm: "room_for ?l needed = room_for c2 needed" "unlock_cache ?l = Some c2"
    using l by (simp_all add: room_for_def unlock_cache_def stats_def c2)
  show thesis
  proof (cases n)
    case None
    then have "room_decide c needed n a = Some (room_for c2 needed, None, c2)"
      using ev l rm by (simp add: room_decide_def lock_cache_def)
    then show thesis using that [of c2] None h2 t2 by (simp add: walking_def)
  next
    case (Some p)
    obtain c3 where c3: "unpin_lookup c2 p = Some c3" "holds c3 fs" "core c3 = core c2"
      by (rule unpin_pinned [OF h2 [unfolded Some] n [OF Some]])
    have "room_decide c needed n a = Some (room_for c2 needed, if room_for c2 needed then None else n,
        if room_for c2 needed then c3 else c2)"
      using ev l rm Some c3(1) by (simp add: room_decide_def lock_cache_def)
    moreover have "tidy c3 fs" using t2 tidy_cong [OF c3(3)] by simp
    ultimately show thesis
      using that [of "if room_for c2 needed then c3 else c2"] h2 t2 c3(2,3) by (simp add: walking_def)
  qed
qed

lemma drop_at_keys:
  assumes "distinct (map fst es)" "map fst es = xs @ a # ys"
  shows "map fst (drop_at a es) = xs @ ys"
proof -
  have "map fst (drop_at a es) = filter (\<lambda>x. x \<noteq> a) (map fst es)"
    by (induction es) (auto simp: drop_at_def)
  also have "\<dots> = removeAll a xs @ removeAll a ys" unfolding assms(2) by (simp add: removeAll_filter_not_eq eq_commute)
  also have "\<dots> = xs @ ys" using assms(1) unfolding assms(2) by simp
  finally show ?thesis .
qed

lemma make_room_visit_eq:
  assumes w: "walking (Some a) c es" and l: "map fst es = xs @ a # ys"
  obtains fits c' es' where
    "make_room_visit c needed False a = Some (fits, if fits then None else final xs None, c')"
    "walking (if fits then None else final xs None) c' es'" "room_visit needed a (es, core c) = (fits, es', core c')"
    "map fst es' = xs @ ys \<or> map fst es' = map fst es"
proof -
  have d: "distinct (map fst es)" by (rule walking_distinct [OF w])
  let ?n = "final xs None"
  have n: "?n \<noteq> Some a" using d l final_SomeD [of xs None a] by auto
  have "a \<in> fst ` set es" using l by (metis in_set_conv_decomp list.set_map)
  then obtain b where b: "map_of es a = Some b" by (metis map_of_eq_None_iff not_None_eq)
  define r where "r = write_back c b"
  obtain c6 where c6: "make_room_visit c needed False a = room_decide c6 needed ?n a"
    "holds c6 (pinat ?n (at a (\<lambda>_. (flush_body r b)\<lparr>e_lock := True\<rparr>) es))"
    "tidy c6 (at a (\<lambda>_. flush_body r b) es)" "core c6 = flush_core r b (core c)"
    by (rule room_advance [OF w l b r_def])
  have v: "visit a (es, core c) = (if evictable (flush_body r b) False
      then (drop_at a es, evict_core (flush_body r b) (core c6)) else (at a (\<lambda>_. flush_body r b) es, core c6))"
    using b c6(4) by (simp add: visit_def r_def Let_def)
  note dr = drop_at_keys [OF d l]
  have mem: "p \<in> fst ` set (drop_at a es)" if "?n = Some p" for p
  proof -
    have "p \<in> set (map fst (drop_at a es))" using final_SomeD [OF that] unfolding dr by auto
    then show ?thesis by simp
  qed
  from c6(2) b n c6(3) show thesis
  proof (cases rule: settle [where d = False])
    case (evicted c7)
    define c9 where "c9 = stats (\<lambda>s. s\<lparr>cs_evictions := cs_evictions s + 1\<rparr>) c7"
    obtain c' where c': "room_decide c6 needed ?n a = Some (room_for c9 needed, if room_for c9 needed then None else ?n, c')"
      "walking (if room_for c9 needed then None else ?n) c' (drop_at a es)" "core c' = core c9"
      by (rule room_evicted [OF evicted(2,3,5) mem c9_def])
    have "room_visit needed a (es, core c) = (room_for c9 needed, drop_at a es, core c9)"
      using v evicted(1,4) room_for_core [of c9 needed] by (simp add: room_visit_def drop_at_None c9_def)
    then show thesis using that [of "room_for c9 needed" c' "drop_at a es"] c6(1) c' dr by simp
  next
    case (kept c7)
    have rv: "room_visit needed a (es, core c) = (False, at a (\<lambda>_. flush_body r b) es, core c7)"
      using v kept(1,5) b by (simp add: room_visit_def map_of_at)
    have "make_room_visit c needed False a = Some (False, ?n, c7)"
      using c6(1) kept(2,3) by (cases "?n") (simp_all add: room_decide_def)
    moreover have "tidy c7 (at a (\<lambda>_. flush_body r b) es)" using c6(3) tidy_cong [OF kept(5)] by simp
    ultimately show thesis using that [of False c7 "at a (\<lambda>_. flush_body r b) es"] kept(4) rv by (simp add: walking_def)
  qed
qed


lemma make_room_loop_eq:
  assumes "walking (final xs None) c es" "map fst es = xs @ ys"
  shows "\<exists>fits c' es'. make_room_loop c needed False (final xs None) = Some (fits, c') \<and> walking None c' es' \<and>
    room_walk needed (rev xs) (es, core c) = (fits, es', core c')"
  using assms
proof (induction xs arbitrary: c es ys rule: rev_induct)
  case Nil
  then show ?case by (auto simp: make_room_loop.simps)
next
  case (snoc a xs)
  have w: "walking (Some a) c es" using snoc.prems(1) by simp
  have l: "map fst es = xs @ a # ys" using snoc.prems(2) by simp
  obtain fits c' es' where v: "make_room_visit c needed False a = Some (fits, if fits then None else final xs None, c')"
    "walking (if fits then None else final xs None) c' es'" "room_visit needed a (es, core c) = (fits, es', core c')"
    "map fst es' = xs @ ys \<or> map fst es' = map fst es" by (rule make_room_visit_eq [OF w l])
  show ?case
  proof (cases fits)
    case True
    then show ?thesis using v
      by (auto simp: make_room_loop.simps [of c needed False "Some a"] make_room_loop.simps [of c' needed True None])
  next
    case False
    obtain zs where "map fst es' = xs @ zs" using v(4) l by auto
    with snoc.IH [of c' es' zs] v(2) False obtain f c'' es'' where
      "make_room_loop c' needed False (final xs None) = Some (f, c'')" "walking None c'' es''"
      "room_walk needed (rev xs) (es', core c') = (f, es'', core c'')" by auto
    then show ?thesis using v False by (simp add: make_room_loop.simps [of c needed False "Some a"])
  qed
qed

text \<open>\<open>make_room_for_new_entry\<close>: nothing when the entry fits, otherwise the walk from the least recently
  used entry on.\<close>

lemma make_room_eq:
  assumes w: "walking None c es" and nd: "needed = KES_ALIGN sz KES_CACHE_ALIGNMENT"
  obtains fits c' es' where "make_room_for_new_entry c sz = Some (fits, c')" "walking None c' es'"
    "(if room_for c needed then (True, es, core c) else room_walk needed (rev (map fst es)) (es, core c)) = (fits, es', core c')"
proof -
  have h: "holds c es" and t: "tidy c es" using w by (simp_all add: walking_def)
  have lk: "\<not> c_cache_lock c" using t by (simp add: tidy_def)
  have tl: "c_lru_tail c = final (map fst es) None" using h by (simp add: holds_def lru_def)
  have rf: "room_for (c\<lparr>c_cache_lock := True\<rparr>) needed = room_for c needed" by (simp add: room_for_def)
  show thesis
  proof (cases "room_for c needed")
    case True
    then have "make_room_for_new_entry c sz = Some (True, c)"
      using lk rf nd by (simp add: make_room_for_new_entry_def lock_cache_def unlock_cache_def pin_next_def make_room_loop.simps)
    then show thesis using that [of True c es] True w by simp
  next
    case False
    have hl: "holds (c\<lparr>c_cache_lock := True\<rparr>) es" using h by simp
    have mem: "y \<in> fst ` set es" if "final (map fst es) None = Some y" for y using final_SomeD [OF that] by simp
    obtain c1 where c1: "pin_next (c\<lparr>c_cache_lock := True\<rparr>) (final (map fst es) None) = Some c1"
      "holds c1 (pinat (final (map fst es) None) es)" "core c1 = core (c\<lparr>c_cache_lock := True\<rparr>)"
      by (rule pin_next_holds [OF hl mem])
    have l1: "c_cache_lock c1" using core_eqD(14) [OF c1(3)] by simp
    have cr: "core (c1\<lparr>c_cache_lock := False\<rparr>) = core c" using c1(3) lk by simp
    have "walking (final (map fst es) None) (c1\<lparr>c_cache_lock := False\<rparr>) es"
      using c1(2) t tidy_cong [OF cr] by (simp add: walking_def)
    from make_room_loop_eq [OF this, of "[]" needed] obtain f c' es' where
      "make_room_loop (c1\<lparr>c_cache_lock := False\<rparr>) needed False (final (map fst es) None) = Some (f, c')" "walking None c' es'"
      "room_walk needed (rev (map fst es)) (es, core c) = (f, es', core c')" unfolding cr by auto
    then show thesis
      using that [of f c' es'] False lk rf nd tl c1(1) l1 by (simp add: make_room_for_new_entry_def lock_cache_def unlock_cache_def)
  qed
qed

section \<open>Draining\<close>

definition discard :: "addr \<Rightarrow> (addr \<times> extent_body) list \<times> 'd kes_cache \<Rightarrow> (addr \<times> extent_body) list \<times> 'd kes_cache" where
  "discard a s = (case s of (es, c) \<Rightarrow> case map_of es a of None \<Rightarrow> s
     | Some b \<Rightarrow> if evictable b True then (drop_at a es, evict_core b c) else s)"

lemma destroy_visit:
  assumes w: "walking (Some a) c es" and l: "map fst es = xs @ a # ys"
  obtains c1 c2 es' where "pin_list_next c a = Some (first ys None, c1)"
    "(do { c2 \<leftarrow> lock_entry c1 a; c3 \<leftarrow> unpin_lookup c2 a; (evicted, c4) \<leftarrow> try_evict_entry_locked c3 a True;
        if evicted then Some c4 else unlock_entry c4 a }) = Some c2"
    "walking (first ys None) c2 es'" "discard a (es, core c) = (es', core c2)" "map fst es' = xs @ ys \<or> map fst es' = map fst es"
proof -
  have h: "holds c (pinat (Some a) es)" and t: "tidy c es" using w by (simp_all add: walking_def)
  have d: "distinct (map fst es)" by (rule walking_distinct [OF w])
  let ?n = "first ys None"
  have lk: "\<not> c_cache_lock c" using t by (simp add: tidy_def)
  have l': "map fst (pinat (Some a) es) = xs @ a # ys" using l by simp
  obtain c1 where c1: "pin_list_next c a = Some (?n, c1)" "holds c1 (pinat ?n (pinat (Some a) es))" "core c1 = core c"
    by (rule pin_list_next_holds [OF h l' lk])
  have n: "?n \<noteq> Some a" using d l first_SomeD [of ys None a] by auto
  have "a \<in> fst ` set es" using l by (metis in_set_conv_decomp list.set_map)
  then obtain b where b: "map_of es a = Some b" by (metis map_of_eq_None_iff not_None_eq)
  have t1: "tidy c1 es" using t tidy_cong [OF c1(3)] by simp
  obtain c2 c3 where c3: "lock_entry c1 a = Some c2" "unpin_lookup c2 a = Some c3"
    "holds c3 (pinat ?n (at a (\<lambda>_. b\<lparr>e_lock := True\<rparr>) es))" "core c3 = core c1"
    by (rule start_visit [OF c1(2) n t1 b refl])
  have same: "at a (\<lambda>_. b) es = es" by (rule at_same [OF d b]) simp
  have t3: "tidy c3 (at a (\<lambda>_. b) es)" using t1 tidy_cong [OF c3(4)] by (simp add: same)
  obtain us vs where sp: "es = us @ (a, b) # vs" "a \<notin> fst ` set us" "a \<notin> fst ` set vs" "at a (\<lambda>b. b) es = us @ (a, b) # vs"
    by (rule split_at [OF d b])
  have "map fst us = xs \<and> map fst vs = ys"
  proof -
    have "map fst us @ a # map fst vs = xs @ a # ys" using l sp(1) by simp
    moreover have "a \<notin> set (map fst us)" "a \<notin> set (map fst vs)" using sp(2,3) by simp_all
    ultimately show ?thesis using append_Cons_eq_iff by metis
  qed
  then have dr: "map fst (drop_at a es) = xs @ ys" using sp(1-3) drop_at_split [of a us vs b] by simp
  from c3(3) b n t3 show thesis
  proof (cases rule: settle [where d = True])
    case (evicted c4)
    then show thesis using that [OF c1(1), of c4 "drop_at a es"] c3 c1(3) b dr by (simp add: walking_def discard_def)
  next
    case (kept c4)
    then have "tidy c4 es" using t3 tidy_cong [OF kept(5)] by (simp add: same)
    then show thesis using that [OF c1(1), of c4 es] c3 kept c1(3) b by (simp add: walking_def discard_def same)
  qed
qed

lemma destroy_loop_eq:
  assumes "walking (first ws None) c es" "map fst es = xs @ ws"
  shows "\<exists>c' es'. destroy_loop c (first ws None) = Some c' \<and> walking None c' es' \<and>
    fold discard ws (es, core c) = (es', core c')"
  using assms
proof (induction ws arbitrary: c es xs)
  case Nil
  then show ?case by (auto simp: destroy_loop.simps)
next
  case (Cons a ws)
  have w: "walking (Some a) c es" using Cons.prems(1) by simp
  obtain c1 c2 es' where v: "pin_list_next c a = Some (first ws None, c1)"
    "(do { c2 \<leftarrow> lock_entry c1 a; c3 \<leftarrow> unpin_lookup c2 a; (evicted, c4) \<leftarrow> try_evict_entry_locked c3 a True;
        if evicted then Some c4 else unlock_entry c4 a }) = Some c2"
    "walking (first ws None) c2 es'" "discard a (es, core c) = (es', core c2)" "map fst es' = xs @ ws \<or> map fst es' = map fst es"
    by (rule destroy_visit [OF w Cons.prems(2)])
  have "map fst es' = xs @ ws \<or> map fst es' = (xs @ [a]) @ ws" using v(5) Cons.prems(2) by simp
  then obtain xs' where "map fst es' = xs' @ ws" by blast
  from Cons.IH [OF v(3) this] v(1,2,4) show ?case
    by (auto simp: destroy_loop.simps [of c "Some a"] split: Option.bind_splits)
qed

end
