(* ===== verification/Kes_Cache_Ops.thy ===== *)
theory Kes_Cache_Ops
  imports Kes_Cache_Sweep
begin

text \<open>
  What each operation of the cache does, as equations on the list of entries: the operations on a
  cached entry, the hit and the miss path of \<open>kes_cache_get_extent\<close>, the sweep, invalidation and
  destruction. Every operation returns and keeps the invariant.
\<close>

section \<open>Operations on one entry\<close>

lemma cache_okD:
  assumes "cache_ok c es"
  shows "holds c es" "tidy c es" "keyed es" "distinct (map fst es)" "\<not> c_cache_lock c" "walking None c es"
    "c_inflight_lookups c = 0" "\<not> c_destroying c" "config_ok (c_config c)" "read_ok c" "threads_ok c"
  using assms holds_distinct by (auto simp: cache_ok_def walking_def tidy_def)

lemma cache_okI:
  "walking None c es \<Longrightarrow> c_inflight_lookups c = 0 \<Longrightarrow> \<not> c_destroying c \<Longrightarrow> config_ok (c_config c) \<Longrightarrow> read_ok c \<Longrightarrow>
   threads_ok c \<Longrightarrow> cache_ok c es"
  by (simp add: cache_ok_def)

lemma slot_entry:
  assumes "cache_ok c es" "slot es i = Some (a, b)"
  obtains e p buf where "m_heap c a = Some e" "extent_body.truncate e = b" "map_of es a = Some b" "resting b"
    "key (e_id b) = key i" "e_data b = Some p" "m_bufs c p = Some buf" "length buf = asize b" "\<not> e_lock e" "e_lookup_pins e = 0"
    "e_state e AND KES_EXTENT_LOADING = 0" "e_data e = Some p"
proof -
  note ok = cache_okD [OF assms(1)]
  have m: "map_of es a = Some b" by (rule slot_map_of [OF ok(4) assms(2)])
  obtain e where e: "m_heap c a = Some e" "extent_body.truncate e = b" by (rule entry_of [OF ok(1) m])
  have ab: "(a, b) \<in> set es" "key (e_id b) = key i" using slot_SomeD [OF assms(2)] by simp_all
  then have r: "resting b" using ok(2) by (auto simp: tidy_def)
  obtain p buf where p: "e_data b = Some p" "m_bufs c p = Some buf" "length buf = asize b"
    using ok(2) ab(1) by (fastforce simp: tidy_def bufs_ok_def)
  show thesis using that [OF e m r ab(2) p] r p(1) e(2) by (auto simp: resting_def)
qed

lemma pins_restore [simp]: "e_lookup_pins e = 0 \<Longrightarrow> e\<lparr>e_lookup_pins := 0\<rparr> = (e :: 'a extent_body_scheme)"
  by (cases e) simp

lemma find_locked_eq:
  assumes ok: "cache_ok c es"
  shows "find_locked c i = (case slot es i of None \<Rightarrow> Some (None, c)
     | Some (a, b) \<Rightarrow> Some (Some a, c\<lparr>m_heap := (m_heap c)(a \<mapsto> (the (m_heap c a))\<lparr>e_lock := True\<rparr>)\<rparr>))"
proof (cases "slot es i")
  case None
  then show ?thesis using hash_find_eq [OF cache_okD(1,3) [OF ok], of i] by (simp add: find_locked_def)
next
  case (Some z)
  obtain a b where z: "z = (a, b)" by (cases z)
  obtain e where e: "m_heap c a = Some e" "\<not> e_lock e" "e_lookup_pins e = 0"
    by (rule slot_entry [OF ok Some [unfolded z]])
  then show ?thesis using hash_find_eq [OF cache_okD(1,3) [OF ok], of i] Some z e
    by (simp add: find_locked_def lock_entry_def unpin_lookup_def upd_def)
qed

text \<open>Changing one entry and the statistics.\<close>

lemma cache_ok_at:
  assumes ok: "cache_ok c es" and b: "map_of es a = Some b" and e: "m_heap c a = Some e" "extent_body.truncate e = b"
    and l: "e_id e' = e_id e" "e_list_next e' = e_list_next e" "e_list_prev e' = e_list_prev e"
      "e_hash_next e' = e_hash_next e" "e_hash_prev e' = e_hash_prev e" "e_data e' = e_data e"
    and b': "extent_body.truncate e' = g b" "resting (g b)"
    and c': "m_heap c' = (m_heap c)(a \<mapsto> e')" "c_buckets c' = c_buckets c" "c_mru_head c' = c_mru_head c"
      "c_lru_tail c' = c_lru_tail c" "c_bucket_count c' = c_bucket_count c" "c_bucket_mask c' = c_bucket_mask c"
      "\<And>p. map_option length (m_bufs c' p) = map_option length (m_bufs c p)" "m_next c' = m_next c"
      "c_config c' = c_config c" "\<not> c_cache_lock c'" "cs_entries_cached (c_stats c') = cs_entries_cached (c_stats c)"
      "cs_memory_used (c_stats c') = cs_memory_used (c_stats c)"
      "unat (cs_entries_pinned (c_stats c')) = count pinned (at a g es)"
      "c_inflight_lookups c' = c_inflight_lookups c" "c_destroying c' = c_destroying c"
      "c_read_extent c' = c_read_extent c" "c_bg_threads c' = c_bg_threads c"
  shows "cache_ok c' (at a g es)"
proof -
  note k = cache_okD [OF ok]
  obtain us vs where sp: "es = us @ (a, b) # vs" "a \<notin> fst ` set us" "a \<notin> fst ` set vs" "at a g es = us @ (a, g b) # vs"
    by (rule split_at [OF k(4) b])
  then have eq: "at a (\<lambda>_. extent_body.truncate e') es = at a g es"
    using at_other [of a us] at_other [of a vs] b'(1) by (simp add: at_def)
  have sel: "e_id (g b) = e_id b" "e_data (g b) = e_data b"
    using arg_cong [OF b'(1), of e_id] arg_cong [OF b'(1), of e_data] l(1,6) e(2) by auto
  have "holds c' (at a g es)" using holds_upd' [OF k(1) e(1) l(1-5) c'(1-6)] by (simp add: eq)
  moreover have "tidy c' (at a g es)" by (rule tidy_at [OF k(2,4) b b'(2) sel c'(7-13)])
  ultimately show ?thesis
    using k c'(9,14-17) by (simp add: cache_ok_def walking_def read_ok_def threads_ok_def)
qed

lemma count_pinned_at:
  assumes "cache_ok c es" "map_of es a = Some b" "pinned (g b) = pinned b"
  shows "unat (cs_entries_pinned (c_stats c)) = count pinned (at a g es)"
  using count_at [OF cache_okD(4) [OF assms(1)] assms(2), of pinned g] assms(3) cache_okD(2) [OF assms(1)]
  by (auto simp: tidy_def counts_def split: if_splits)

definition put_body :: "extent_body \<Rightarrow> extent_body" where
  "put_body b = (if e_ref_count b > 0 then b\<lparr>e_ref_count := e_ref_count b - 1\<rparr> else b)"

lemma e_lock_restore [simp]: "\<not> e_lock e \<Longrightarrow> e\<lparr>e_lock := False\<rparr> = (e :: 'a extent_body_scheme)"
  by (cases e) simp

lemma truncate_upd [simp]:
  "extent_body.truncate (e\<lparr>e_ref_count := x1\<rparr>) = (extent_body.truncate e)\<lparr>e_ref_count := x1\<rparr>"
  "extent_body.truncate (e\<lparr>e_state := x2\<rparr>) = (extent_body.truncate e)\<lparr>e_state := x2\<rparr>"
  "extent_body.truncate (e\<lparr>e_pin_count := x3\<rparr>) = (extent_body.truncate e)\<lparr>e_pin_count := x3\<rparr>"
  "extent_body.truncate (e\<lparr>e_access_time := x4\<rparr>) = (extent_body.truncate e)\<lparr>e_access_time := x4\<rparr>"
  "extent_body.truncate (e\<lparr>e_access_count := x5\<rparr>) = (extent_body.truncate e)\<lparr>e_access_count := x5\<rparr>"
  "extent_body.truncate (e\<lparr>e_lock := x6\<rparr>) = (extent_body.truncate e)\<lparr>e_lock := x6\<rparr>"
  "extent_body.truncate (e\<lparr>e_data := x7\<rparr>) = (extent_body.truncate e)\<lparr>e_data := x7\<rparr>"
  by (cases e; simp add: extent_body.defs)+

lemma put_eq:
  assumes ok: "cache_ok c es"
  obtains c' where "kes_cache_put_extent (Some c) (Some i) = Some (if slot es i = None then KES_ERROR_NOTFOUND else KES_SUCCESS, Some c')"
    "cache_ok c' (case slot es i of None \<Rightarrow> es | Some (a, b) \<Rightarrow> at a put_body es)" "core c' = core c"
proof (cases "slot es i")
  case None
  then show thesis using that [of c] ok find_locked_eq [OF ok, of i] by (simp add: kes_cache_put_extent_def)
next
  case (Some z)
  obtain a b where z: "z = (a, b)" by (cases z)
  obtain e where e: "m_heap c a = Some e" "extent_body.truncate e = b" "map_of es a = Some b" "resting b" "\<not> e_lock e"
    by (rule slot_entry [OF ok Some [unfolded z]])
  define e' where "e' = (if e_ref_count e > 0 then e\<lparr>e_ref_count := e_ref_count e - 1\<rparr> else e)"
  define c' where "c' = c\<lparr>m_heap := (m_heap c)(a \<mapsto> e')\<rparr>"
  have "kes_cache_put_extent (Some c) (Some i) = Some (KES_SUCCESS, Some c')"
    using find_locked_eq [OF ok, of i] Some z e
    by (simp add: kes_cache_put_extent_def upd_def unlock_entry_def c'_def e'_def)
  moreover have tr: "extent_body.truncate e' = put_body b" using e(2) by (auto simp: e'_def put_body_def)
  have "cache_ok c' (at a put_body es)"
  proof (rule cache_ok_at [where g = put_body, OF ok e(3,1,2) _ _ _ _ _ _ tr])
    show "resting (put_body b)" using e(4) by (simp add: put_body_def resting_def)
    show "unat (cs_entries_pinned (c_stats c')) = count pinned (at a put_body es)"
      using count_pinned_at [OF ok e(3), of put_body] by (simp add: c'_def put_body_def pinned_def)
  qed (use cache_okD(5) [OF ok] in \<open>simp_all add: c'_def e'_def\<close>)
  ultimately show thesis using that [of c'] Some z by (simp add: c'_def)
qed


definition dirty_body :: "extent_body \<Rightarrow> extent_body" where
  "dirty_body b = b\<lparr>e_state := e_state b OR KES_EXTENT_DIRTY\<rparr>"

lemma mark_dirty_eq:
  assumes ok: "cache_ok c es"
  obtains c' where "kes_cache_mark_dirty (Some c) (Some i) = Some (if slot es i = None then KES_ERROR_NOTFOUND else KES_SUCCESS, Some c')"
    "cache_ok c' (case slot es i of Some (a, b) \<Rightarrow> if dirty b then es else at a dirty_body es | _ \<Rightarrow> es)"
    "core c' = (case slot es i of Some (a, b) \<Rightarrow>
        if dirty b then core c else stats (\<lambda>s. s\<lparr>cs_entries_dirty := cs_entries_dirty s + 1\<rparr>) (core c) | _ \<Rightarrow> core c)"
proof (cases "slot es i")
  case None
  then show thesis using that [of c] ok find_locked_eq [OF ok, of i] by (simp add: kes_cache_mark_dirty_def)
next
  case (Some z)
  obtain a b where z: "z = (a, b)" by (cases z)
  obtain e where e: "m_heap c a = Some e" "extent_body.truncate e = b" "map_of es a = Some b" "resting b" "\<not> e_lock e"
    by (rule slot_entry [OF ok Some [unfolded z]])
  have st: "e_state e = e_state b" using e(2) by auto
  note lk = cache_okD(5) [OF ok]
  show thesis
  proof (cases "dirty b")
    case True
    have "c\<lparr>m_heap := (m_heap c)(a \<mapsto> e)\<rparr> = c" using e(1) by (simp add: fun_upd_idem)
    then have "kes_cache_mark_dirty (Some c) (Some i) = Some (KES_SUCCESS, Some c)"
      using find_locked_eq [OF ok, of i] Some z e True st
      by (simp add: kes_cache_mark_dirty_def upd_def unlock_entry_def dirty_def)
    then show thesis using that [of c] Some z ok True by simp
  next
    case False
    define e' where "e' = e\<lparr>e_state := e_state e OR KES_EXTENT_DIRTY\<rparr>"
    define c' where "c' = stats (\<lambda>s. s\<lparr>cs_entries_dirty := cs_entries_dirty s + 1\<rparr>) (c\<lparr>m_heap := (m_heap c)(a \<mapsto> e')\<rparr>)"
    have run: "kes_cache_mark_dirty (Some c) (Some i) = Some (KES_SUCCESS, Some c')"
      using find_locked_eq [OF ok, of i] Some z e False st lk
      by (simp add: kes_cache_mark_dirty_def upd_def unlock_entry_def lock_cache_def unlock_cache_def dirty_def c'_def e'_def stats_def)
    have tr: "extent_body.truncate e' = dirty_body b" using e(2) by (auto simp: e'_def dirty_body_def)
    have "cache_ok c' (at a dirty_body es)"
    proof (rule cache_ok_at [where g = dirty_body, OF ok e(3,1,2) _ _ _ _ _ _ tr])
      show "resting (dirty_body b)" using e(4) by (simp add: dirty_body_def resting_def)
      show "unat (cs_entries_pinned (c_stats c')) = count pinned (at a dirty_body es)"
        using count_pinned_at [OF ok e(3), of dirty_body] by (simp add: c'_def stats_def dirty_body_def pinned_def)
    qed (use lk in \<open>simp_all add: c'_def e'_def stats_def\<close>)
    then show thesis using that [of c'] run Some z False by (simp add: c'_def)
  qed
qed

definition pin_body :: "extent_body \<Rightarrow> extent_body" where
  "pin_body b = b\<lparr>e_state := (if e_pin_count b = 0 then e_state b OR KES_EXTENT_PINNED else e_state b),
     e_pin_count := e_pin_count b + 1\<rparr>"

lemma count_le_length: "count P es \<le> length es"
  by (simp add: count_def)

lemma length_bound: "cache_ok c es \<Longrightarrow> length es < 2 ^ 32 - 1"
  using cache_okD(2,9) [of c es] by (auto simp: tidy_def within_def config_ok_def)

lemma pin_eq:
  assumes ok: "cache_ok c es" and max: "\<And>a b. slot es i = Some (a, b) \<Longrightarrow> unat (e_pin_count b) < 2 ^ 32 - 1"
  obtains c' where "kes_cache_pin_extent (Some c) (Some i) = Some (if slot es i = None then KES_ERROR_NOTFOUND else KES_SUCCESS, Some c')"
    "cache_ok c' (case slot es i of Some (a, b) \<Rightarrow> at a pin_body es | _ \<Rightarrow> es)"
    "core c' = (case slot es i of Some (a, b) \<Rightarrow>
        if pinned b then core c else stats (\<lambda>s. s\<lparr>cs_entries_pinned := cs_entries_pinned s + 1\<rparr>) (core c) | _ \<Rightarrow> core c)"
proof (cases "slot es i")
  case None
  then show thesis using that [of c] ok find_locked_eq [OF ok, of i] by (simp add: kes_cache_pin_extent_def)
next
  case (Some z)
  obtain a b where z: "z = (a, b)" by (cases z)
  obtain e where e: "m_heap c a = Some e" "extent_body.truncate e = b" "map_of es a = Some b" "resting b" "\<not> e_lock e"
    by (rule slot_entry [OF ok Some [unfolded z]])
  have st: "e_state e = e_state b" "e_pin_count e = e_pin_count b" using e(2) by auto
  note lk = cache_okD(5) [OF ok]
  define f where "f = (\<lambda>s :: kes_cache_stats. if pinned b then s else s\<lparr>cs_entries_pinned := cs_entries_pinned s + 1\<rparr>)"
  define e' where "e' = (if e_pin_count e = 0 then e\<lparr>e_state := e_state e OR KES_EXTENT_PINNED, e_pin_count := e_pin_count e + 1\<rparr>
    else e\<lparr>e_pin_count := e_pin_count e + 1\<rparr>)"
  define c' where "c' = stats f (c\<lparr>m_heap := (m_heap c)(a \<mapsto> e')\<rparr>)"
  have run: "kes_cache_pin_extent (Some c) (Some i) = Some (KES_SUCCESS, Some c')"
    using find_locked_eq [OF ok, of i] Some z e st lk
    by (simp add: kes_cache_pin_extent_def upd_def unlock_entry_def lock_cache_def unlock_cache_def pinned_def c'_def e'_def stats_def f_def)
  have tr: "extent_body.truncate e' = pin_body b" using e(2) by (auto simp: e'_def pin_body_def)
  have p1: "pinned (pin_body b)"
    using max [OF Some [unfolded z]] unat_plus_one [of "e_pin_count b"] by (auto simp: pinned_def pin_body_def unat_eq_0 [symmetric])
  have cnt: "unat (cs_entries_pinned (c_stats c)) = count pinned es" "count pinned es < 2 ^ 32 - 1"
    using cache_okD(2) [OF ok] count_le_length [of pinned es] length_bound [OF ok] by (auto simp: tidy_def counts_def)
  have "cache_ok c' (at a pin_body es)"
  proof (rule cache_ok_at [where g = pin_body, OF ok e(3,1,2) _ _ _ _ _ _ tr])
    show "resting (pin_body b)" using e(4) by (simp add: pin_body_def resting_def)
    have "unat (cs_entries_pinned (c_stats c) + 1) = count pinned es + 1"
      using cnt by (subst unat_plus_one) simp_all
    then show "unat (cs_entries_pinned (c_stats c')) = count pinned (at a pin_body es)"
      using count_at [OF cache_okD(4) [OF ok] e(3), of pinned pin_body] p1 cnt(1)
      by (auto simp: c'_def stats_def f_def split: if_splits)
  qed (use lk in \<open>auto simp: c'_def e'_def stats_def f_def\<close>)
  then show thesis using that [of c'] run Some z by (auto simp: c'_def f_def stats_def)
qed

lemma and_unpin_bits [simp]: "(s AND - 5) AND 8 = s AND (8 :: u32)" "(s AND - 5) AND 2 = s AND (2 :: u32)" "(s AND - 5) AND 32 = s AND (32 :: u32)"
  unfolding and.assoc by simp_all

definition unpin_body :: "extent_body \<Rightarrow> extent_body" where
  "unpin_body b = (if e_pin_count b > 0 then b\<lparr>e_pin_count := e_pin_count b - 1,
     e_state := (if e_pin_count b = 1 then e_state b AND NOT KES_EXTENT_PINNED else e_state b)\<rparr> else b)"

lemma unpin_eq:
  assumes ok: "cache_ok c es"
  obtains c' where "kes_cache_unpin_extent (Some c) (Some i) = Some (if slot es i = None then KES_ERROR_NOTFOUND else KES_SUCCESS, Some c')"
    "cache_ok c' (case slot es i of Some (a, b) \<Rightarrow> at a unpin_body es | _ \<Rightarrow> es)"
    "core c' = (case slot es i of Some (a, b) \<Rightarrow>
        if e_pin_count b = 1 then stats (\<lambda>s. s\<lparr>cs_entries_pinned := cs_entries_pinned s - 1\<rparr>) (core c) else core c | _ \<Rightarrow> core c)"
proof (cases "slot es i")
  case None
  then show thesis using that [of c] ok find_locked_eq [OF ok, of i] by (simp add: kes_cache_unpin_extent_def)
next
  case (Some z)
  obtain a b where z: "z = (a, b)" by (cases z)
  obtain e where e: "m_heap c a = Some e" "extent_body.truncate e = b" "map_of es a = Some b" "resting b" "\<not> e_lock e"
    by (rule slot_entry [OF ok Some [unfolded z]])
  have st: "e_state e = e_state b" "e_pin_count e = e_pin_count b" using e(2) by auto
  note lk = cache_okD(5) [OF ok]
  define f where "f = (\<lambda>s :: kes_cache_stats. if e_pin_count b = 1 then s\<lparr>cs_entries_pinned := cs_entries_pinned s - 1\<rparr> else s)"
  define e' where "e' = (if e_pin_count e > 0 then e\<lparr>e_pin_count := e_pin_count e - 1,
     e_state := (if e_pin_count e = 1 then e_state e AND NOT KES_EXTENT_PINNED else e_state e)\<rparr> else e)"
  define c' where "c' = stats f (c\<lparr>m_heap := (m_heap c)(a \<mapsto> e')\<rparr>)"
  have "c\<lparr>m_heap := (m_heap c)(a \<mapsto> e)\<rparr> = c" using e(1) by (simp add: fun_upd_idem)
  then have run: "kes_cache_unpin_extent (Some c) (Some i) = Some (KES_SUCCESS, Some c')"
    using find_locked_eq [OF ok, of i] Some z e st lk
    by (auto simp: kes_cache_unpin_extent_def upd_def unlock_entry_def lock_cache_def unlock_cache_def c'_def e'_def stats_def f_def)
  have tr: "extent_body.truncate e' = unpin_body b" using e(2) by (auto simp: e'_def unpin_body_def)
  have cnt: "unat (cs_entries_pinned (c_stats c)) = count pinned es"
    using cache_okD(2) [OF ok] by (auto simp: tidy_def counts_def)
  have "cache_ok c' (at a unpin_body es)"
  proof (rule cache_ok_at [where g = unpin_body, OF ok e(3,1,2) _ _ _ _ _ _ tr])
    show "resting (unpin_body b)" using e(4) by (simp add: unpin_body_def resting_def)
    have pu: "pinned (unpin_body b) \<longleftrightarrow> pinned b \<and> e_pin_count b \<noteq> 1"
      by (auto simp: pinned_def unpin_body_def word_gt_0)
    note ca = count_at [OF cache_okD(4) [OF ok] e(3), of pinned unpin_body]
    show "unat (cs_entries_pinned (c_stats c')) = count pinned (at a unpin_body es)"
    proof (cases "e_pin_count b = 1")
      case True
      then have "count pinned es = Suc (count pinned (at a unpin_body es))" using ca pu by (simp add: pinned_def)
      then show ?thesis using True cnt unat_minus_one by (simp add: c'_def stats_def f_def)
    next
      case False
      then show ?thesis using ca pu cnt by (auto simp: c'_def stats_def f_def split: if_splits)
    qed
  qed (use lk in \<open>auto simp: c'_def e'_def stats_def f_def\<close>)
  then show thesis using that [of c'] run Some z by (auto simp: c'_def f_def stats_def)
qed


text \<open>\<open>kes_cache_flush_extent\<close> hands the caller's id to the callback.\<close>

definition flush_back :: "'d kes_cache \<Rightarrow> kes_extent_id \<Rightarrow> extent_body \<Rightarrow> (int \<times> 'd) option" where
  "flush_back c i b = (if dirty b then map_option (\<lambda>wr. wr (m_dev c) i
     (take (unat (e_data_size b)) (the (m_bufs c (the (e_data b))))) (e_data_size b)) (c_write_extent c) else None)"

definition flush_code :: "'d kes_cache \<Rightarrow> kes_extent_id \<Rightarrow> extent_body \<Rightarrow> int" where
  "flush_code c i b = (if \<not> dirty b then KES_SUCCESS else case flush_back c i b of None \<Rightarrow> KES_ERROR_INVALID
     | Some (result, d) \<Rightarrow> if result = KES_SUCCESS then KES_SUCCESS else KES_ERROR_IO)"

lemma heap_idem: "m_heap c a = Some e \<Longrightarrow> c\<lparr>m_heap := (m_heap c)(a \<mapsto> e)\<rparr> = c"
  by (simp add: fun_upd_idem)

lemma flush_eq:
  assumes ok: "cache_ok c es"
  obtains c' where
    "kes_cache_flush_extent (Some c) (Some i) = Some (case slot es i of None \<Rightarrow> KES_ERROR_NOTFOUND | Some (a, b) \<Rightarrow> flush_code c i b, Some c')"
    "cache_ok c' (case slot es i of Some (a, b) \<Rightarrow> at a (\<lambda>_. flush_body (flush_back c i b) b) es | _ \<Rightarrow> es)"
    "core c' = (case slot es i of Some (a, b) \<Rightarrow> flush_core (flush_back c i b) b (core c) | _ \<Rightarrow> core c)"
proof (cases "slot es i")
  case None
  then show thesis using that [of c] ok find_locked_eq [OF ok, of i] by (simp add: kes_cache_flush_extent_def)
next
  case (Some z)
  obtain a b where z: "z = (a, b)" by (cases z)
  obtain e p buf where e: "m_heap c a = Some e" "extent_body.truncate e = b" "map_of es a = Some b" "resting b" "\<not> e_lock e"
    "e_data b = Some p" "m_bufs c p = Some buf" "e_state e AND 8 = 0" "e_data e = Some p"
    by (rule slot_entry [OF ok Some [unfolded z]])
  have st: "e_state e = e_state b" "e_data_size e = e_data_size b" using e(2) by auto
  note lk = cache_okD(5) [OF ok] and fl = find_locked_eq [OF ok, of i]
  show thesis
  proof (cases "flush_back c i b")
    case None
    have "kes_cache_flush_extent (Some c) (Some i) = Some (flush_code c i b, Some c)"
    proof (cases "dirty b")
      case True
      then have "c_write_extent c = None" using None by (simp add: flush_back_def)
      then show ?thesis using fl Some z e st True None heap_idem [OF e(1)]
        by (simp add: kes_cache_flush_extent_def wait_loaded_def upd_def unlock_entry_def flush_code_def dirty_def)
    next
      case False
      then show ?thesis using fl Some z e st heap_idem [OF e(1)]
        by (simp add: kes_cache_flush_extent_def wait_loaded_def upd_def unlock_entry_def flush_code_def dirty_def)
    qed
    moreover have "at a (\<lambda>_. b) es = es" by (rule at_same [OF cache_okD(4) [OF ok] e(3)]) simp
    ultimately show thesis using that [of c] None Some z ok by (simp add: flush_body_def flush_core_def)
  next
    case (Some y)
    obtain res d where y: "y = (res, d)" by (cases y)
    obtain wr where w: "dirty b" "c_write_extent c = Some wr"
      "wr (m_dev c) i (take (unat (e_data_size b)) buf) (e_data_size b) = (res, d)"
      using Some y e(6,7) by (auto simp: flush_back_def split: if_splits)
    let ?b = "flush_body (flush_back c i b) b"
    define e' where "e' = e\<lparr>e_state := e_state ?b\<rparr>"
    define c' where "c' = (flush_core (flush_back c i b) b c)\<lparr>m_heap := (m_heap c)(a \<mapsto> e')\<rparr>"
    have tr: "extent_body.truncate e' = ?b" using e(2) Some y by (auto simp: e'_def flush_body_def)
    have run: "kes_cache_flush_extent (Some c) (Some i) = Some (flush_code c i b, Some c')"
    proof (cases "res = KES_SUCCESS")
      case True
      then show ?thesis using fl \<open>slot es i = Some z\<close> z e st lk w Some y
        by (simp add: kes_cache_flush_extent_def wait_loaded_def store_data_def note_flushed_def upd_def lock_cache_def
            unlock_cache_def unlock_entry_def flush_code_def dirty_def c'_def e'_def flush_core_def flush_body_def stats_def clean_state_def)
    next
      case False
      then show ?thesis using fl \<open>slot es i = Some z\<close> z e st lk w Some y
        by (simp add: kes_cache_flush_extent_def wait_loaded_def store_data_def upd_def unlock_entry_def flush_code_def
            dirty_def c'_def e'_def flush_core_def flush_body_def)
    qed
    have "cache_ok c' (at a (\<lambda>_. ?b) es)"
    proof (rule cache_ok_at [where g = "\<lambda>_. ?b", OF ok e(3,1,2) _ _ _ _ _ _ tr])
      show "resting ?b" by (rule resting_flush [OF e(4)])
      show "unat (cs_entries_pinned (c_stats c')) = count pinned (at a (\<lambda>_. ?b) es)"
        using count_pinned_at [OF ok e(3), of "\<lambda>_. ?b"] by (simp add: c'_def)
    qed (use lk in \<open>simp_all add: c'_def e'_def\<close>)
    then show thesis using that [of c'] run \<open>slot es i = Some z\<close> z by (simp add: c'_def)
  qed
qed

section \<open>What the traversals leave alone\<close>

definition steady :: "'d kes_cache \<Rightarrow> 'd kes_cache \<Rightarrow> bool" where
  "steady c c' \<longleftrightarrow> c_config c' = c_config c \<and> c_read_extent c' = c_read_extent c \<and> c_write_extent c' = c_write_extent c \<and>
     c_bg_threads c' = c_bg_threads c \<and> c_shutdown c' = c_shutdown c \<and> c_inflight_lookups c' = c_inflight_lookups c \<and>
     c_destroying c' = c_destroying c \<and> m_next c' = m_next c \<and> m_sched c' = m_sched c \<and> m_junk c' = m_junk c"

lemma steady_refl [simp]: "steady c c" and steady_trans: "steady c c1 \<Longrightarrow> steady c1 c2 \<Longrightarrow> steady c c2"
  by (auto simp: steady_def)

lemma steady_core: "steady (core c) (core c') \<Longrightarrow> steady c c'"
  by (auto simp: steady_def core_def)

lemma steady_evict [simp]: "steady c (evict_core b c)" and steady_flush [simp]: "steady c (flush_core r b c)"
  and steady_stats [simp]: "steady c (stats f c)"
  by (auto simp: steady_def evict_core_def flush_core_def stats_def split: option.splits)

lemma visit_steady: "visit a (es, c) = (es', c') \<Longrightarrow> steady c c'"
  using steady_trans [OF steady_flush steady_evict]
  by (auto simp: visit_def Let_def split: option.splits if_splits)

lemma fold_visit_steady: "fold visit as (es, c) = (es', c') \<Longrightarrow> steady c c'"
proof (induction as arbitrary: es c)
  case (Cons a as)
  obtain es1 c1 where v: "visit a (es, c) = (es1, c1)" by fastforce
  then show ?case using Cons visit_steady [OF v] steady_trans by fastforce
qed simp

lemma discard_steady: "discard a (es, c) = (es', c') \<Longrightarrow> steady c c'"
  by (auto simp: discard_def split: option.splits if_splits)

lemma fold_discard_steady: "fold discard as (es, c) = (es', c') \<Longrightarrow> steady c c'"
proof (induction as arbitrary: es c)
  case (Cons a as)
  obtain es1 c1 where v: "discard a (es, c) = (es1, c1)" by fastforce
  then show ?case using Cons discard_steady [OF v] steady_trans by fastforce
qed simp

lemma room_visit_steady: "room_visit needed a (es, c) = (f, es', c') \<Longrightarrow> steady c c'"
proof -
  assume r: "room_visit needed a (es, c) = (f, es', c')"
  obtain es1 c1 where v: "visit a (es, c) = (es1, c1)" by fastforce
  then have "c' = c1 \<or> c' = stats (\<lambda>s. s\<lparr>cs_evictions := cs_evictions s + 1\<rparr>) c1"
    using r by (auto simp: room_visit_def Let_def split: if_splits)
  then show ?thesis using visit_steady [OF v] steady_trans [OF visit_steady [OF v] steady_stats] by auto
qed

lemma room_walk_facts:
  "room_walk needed as (es, c) = (f, es', c') \<Longrightarrow> steady c c' \<and> (f \<longrightarrow> room_for c' needed)"
proof (induction as arbitrary: es c)
  case (Cons a as)
  obtain g es1 c1 where v: "room_visit needed a (es, c) = (g, es1, c1)" by (cases "room_visit needed a (es, c)") auto
  have g: "g \<longrightarrow> room_for c1 needed" using v by (auto simp: room_visit_def Let_def split: prod.splits if_splits)
  show ?case
  proof (cases g)
    case True
    then show ?thesis using Cons.prems v g room_visit_steady [OF v] by simp
  next
    case False
    then show ?thesis using Cons.prems Cons.IH [of es1 c1] v room_visit_steady [OF v] steady_trans by auto
  qed
qed simp

section \<open>Sweeping, invalidating\<close>

lemma sync_eq:
  assumes ok: "cache_ok c es"
  obtains c' es' where "kes_cache_sync (Some c) = Some (KES_SUCCESS, Some c')" "cache_ok c' es'"
    "fold visit (map fst es) (es, core c) = (es', core c')"
proof -
  obtain c' es' where s: "cache_sweep c = Some c'" "walking None c' es'" "fold visit (map fst es) (es, core c) = (es', core c')"
    by (rule cache_sweep_eq [OF cache_okD(6) [OF ok]])
  have "steady c c'" by (rule steady_core [OF fold_visit_steady [OF s(3)]])
  then have "cache_ok c' es'" using s(2) cache_okD [OF ok] by (simp add: cache_ok_def steady_def read_ok_def threads_ok_def)
  then show thesis using that s by (simp add: kes_cache_sync_def)
qed

definition busy :: "extent_body \<Rightarrow> bool" where
  "busy b \<longleftrightarrow> e_ref_count b \<noteq> 0 \<or> e_pin_count b \<noteq> 0"

lemma evictable_discard: "resting b \<Longrightarrow> evictable b True \<longleftrightarrow> \<not> busy b"
  by (auto simp: evictable_def busy_def resting_def)

lemma invalidate_eq:
  assumes ok: "cache_ok c es"
  obtains c' where
    "kes_cache_invalidate (Some c) (Some i) = Some (case slot es i of None \<Rightarrow> KES_ERROR_NOTFOUND
       | Some (a, b) \<Rightarrow> if busy b then KES_ERROR_BUSY else KES_SUCCESS, Some c')"
    "cache_ok c' (case slot es i of Some (a, b) \<Rightarrow> if busy b then es else drop_at a es | _ \<Rightarrow> es)"
    "core c' = (case slot es i of Some (a, b) \<Rightarrow> if busy b then core c
        else if dirty b then stats (\<lambda>s. s\<lparr>cs_entries_dirty := cs_entries_dirty s - 1\<rparr>) (evict_core b (core c))
        else evict_core b (core c) | _ \<Rightarrow> core c)"
proof (cases "slot es i")
  case None
  then show thesis using that [of c] ok find_locked_eq [OF ok, of i] by (simp add: kes_cache_invalidate_def)
next
  case (Some z)
  obtain a b where z: "z = (a, b)" by (cases z)
  obtain e where e: "m_heap c a = Some e" "extent_body.truncate e = b" "map_of es a = Some b" "resting b" "\<not> e_lock e"
    by (rule slot_entry [OF ok Some [unfolded z]])
  have st: "e_state e = e_state b" "e_ref_count e = e_ref_count b" "e_pin_count e = e_pin_count b" using e(2) by auto
  note lk = cache_okD(5) [OF ok] and fl = find_locked_eq [OF ok, of i]
  show thesis
  proof (cases "busy b")
    case True
    then have "kes_cache_invalidate (Some c) (Some i) = Some (KES_ERROR_BUSY, Some c)"
      using fl Some z e st heap_idem [OF e(1)]
      by (auto simp: kes_cache_invalidate_def upd_def unlock_entry_def busy_def word_gt_0)
    then show thesis using that [of c] True Some z ok by simp
  next
    case False
    define c1 where "c1 = c\<lparr>m_heap := (m_heap c)(a \<mapsto> e\<lparr>e_lock := True\<rparr>)\<rparr>"
    have "holds c1 (at a (\<lambda>_. extent_body.truncate (e\<lparr>e_lock := True\<rparr>)) es)"
      by (rule holds_upd' [OF cache_okD(1) [OF ok] e(1)]) (simp_all add: c1_def)
    then have h1: "holds c1 (pinat None (at a (\<lambda>_. b\<lparr>e_lock := True\<rparr>) es))" using e(2) by simp
    have same: "at a (\<lambda>_. b) es = es" by (rule at_same [OF cache_okD(4) [OF ok] e(3)]) simp
    have cr1: "core c1 = core c" by (simp add: c1_def)
    have t1: "tidy c1 (at a (\<lambda>_. b) es)" using cache_okD(2) [OF ok] tidy_cong [OF cr1] by (simp add: same)
    have ev: "evictable b True" using evictable_discard [OF e(4)] False by simp
    from h1 e(3) _ t1 obtain c2 where c2: "try_evict_entry_locked c1 a True = Some (True, c2)" "holds c2 (drop_at a es)"
      "core c2 = evict_core b (core c1)" "tidy c2 (drop_at a es)"
      by (cases rule: settle [where d = True and n = None]) (use ev in simp_all)
    define c' where "c' = (if dirty b then stats (\<lambda>s. s\<lparr>cs_entries_dirty := cs_entries_dirty s - 1\<rparr>) c2 else c2)"
    have l2: "\<not> c_cache_lock c2" using c2(4) by (simp add: tidy_def)
    have run: "kes_cache_invalidate (Some c) (Some i) = Some (KES_SUCCESS, Some c')"
      using fl Some z e st False c2(1) l2
      by (simp add: kes_cache_invalidate_def busy_def c1_def [symmetric])
         (simp add: c1_def c'_def dirty_def lock_cache_def unlock_cache_def stats_def)
    have "tidy c' (drop_at a es)" unfolding c'_def using c2(4) by (cases "dirty b") (simp_all, subst tidy_stats, simp_all)
    then have w: "walking None c' (drop_at a es)" using c2(2) by (simp add: walking_def c'_def)
    have cr: "core c' = (if dirty b then stats (\<lambda>s. s\<lparr>cs_entries_dirty := cs_entries_dirty s - 1\<rparr>) (evict_core b (core c))
        else evict_core b (core c))" using c2(3) cr1 by (simp add: c'_def)
    have "steady (core c) (core c')" unfolding cr by (simp add: steady_trans [OF steady_evict steady_stats])
    then have "steady c c'" by (rule steady_core)
    then have "cache_ok c' (drop_at a es)" using w cache_okD [OF ok] by (simp add: cache_ok_def steady_def read_ok_def threads_ok_def)
    then show thesis using that [of c'] run Some z False cr by simp
  qed
qed

end
