(* ===== verification/Kes_Cache_Get.thy ===== *)
theory Kes_Cache_Get
  imports Kes_Cache_Ops
begin

text \<open>
  \<open>kes_cache_get_extent\<close>: the hit path with its one retry of a failed load, the miss path with
  eviction, insertion and load, and the whole operation.
\<close>

section \<open>Loading\<close>

definition load_result :: "'d kes_cache \<Rightarrow> kes_extent_id \<Rightarrow> extent_body \<Rightarrow> int \<times> u8 list \<times> 'd" where
  "load_result c i b = (case c_read_extent c of None \<Rightarrow> (KES_ERROR_INVALID, [], m_dev c)
     | Some rd \<Rightarrow> rd (m_dev c) i (take (unat (e_data_size b)) (the (m_bufs c (the (e_data b))))) (e_data_size b))"

definition load_core :: "int \<times> u8 list \<times> 'd \<Rightarrow> extent_body \<Rightarrow> 'd kes_cache \<Rightarrow> 'd kes_cache" where
  "load_core r b c = (case r of (result, bs, d) \<Rightarrow>
     c\<lparr>m_bufs := (m_bufs c)(the (e_data b) \<mapsto> overlay bs (the (m_bufs c (the (e_data b))))), m_dev := d\<rparr>)"

lemma load_result_core [simp]: "load_result (core c) i b = load_result c i b"
  by (simp add: load_result_def split: option.splits)

lemma load_core_core [simp]: "core (load_core r b c) = load_core r b (core c)"
  by (cases r) (simp add: load_core_def)

lemma load_data_eq:
  fixes e :: kes_extent_entry
  assumes "m_heap c a = Some e" "e_data e = Some p" "m_bufs c p = Some buf" "read_ok c"
    "e_data b = Some p" "e_data_size e = e_data_size b"
  shows "load_data c i a = Some (fst (load_result c i b), load_core (load_result c i b) b c)"
proof (cases "c_read_extent c")
  case None
  have "c\<lparr>m_bufs := (m_bufs c)(p \<mapsto> buf)\<rparr> = c" using assms(3) by (simp add: fun_upd_idem)
  then show ?thesis using None assms by (simp add: load_data_def load_result_def load_core_def overlay_def)
next
  case (Some rd)
  obtain res bs d where r: "rd (m_dev c) i (take (unat (e_data_size b)) buf) (e_data_size b) = (res, bs, d)"
    by (cases "rd (m_dev c) i (take (unat (e_data_size b)) buf) (e_data_size b)") auto
  have "length (fst (snd (rd (m_dev c) i (take (unat (e_data_size b)) buf) (e_data_size b)))) \<le> unat (e_data_size b)"
    using assms(4) Some by (simp add: read_ok_def)
  then have "length bs \<le> unat (e_data_size b)" using r by simp
  then show ?thesis using Some assms r by (simp add: load_data_def load_result_def load_core_def)
qed

lemma load_length:
  assumes "m_bufs c p = Some buf" "read_ok c" "e_data b = Some p" "unat (e_data_size b) \<le> length buf"
  shows "map_option length (m_bufs (load_core (load_result c i b) b c) q) = map_option length (m_bufs c q)"
proof -
  obtain res bs d where r: "load_result c i b = (res, bs, d)" by (cases "load_result c i b") auto
  have "length bs \<le> unat (e_data_size b)"
  proof (cases "c_read_extent c")
    case (Some rd)
    then have "length (fst (snd (load_result c i b))) \<le> unat (e_data_size b)"
      using assms(2) by (simp add: load_result_def read_ok_def)
    then show ?thesis by (simp add: r)
  qed (use r in \<open>auto simp: load_result_def\<close>)
  then show ?thesis using assms r by (simp add: load_core_def length_overlay)
qed

lemma load_core_sel [simp]:
  "m_heap (load_core r b c) = m_heap c" "m_next (load_core r b c) = m_next c" "c_config (load_core r b c) = c_config c"
  "c_stats (load_core r b c) = c_stats c" "c_cache_lock (load_core r b c) = c_cache_lock c"
  "c_buckets (load_core r b c) = c_buckets c" "c_mru_head (load_core r b c) = c_mru_head c"
  "c_lru_tail (load_core r b c) = c_lru_tail c" "c_bucket_count (load_core r b c) = c_bucket_count c"
  "c_bucket_mask (load_core r b c) = c_bucket_mask c" "c_inflight_lookups (load_core r b c) = c_inflight_lookups c"
  "c_destroying (load_core r b c) = c_destroying c" "c_read_extent (load_core r b c) = c_read_extent c"
  "c_write_extent (load_core r b c) = c_write_extent c" "c_bg_threads (load_core r b c) = c_bg_threads c"
  "m_ticks (load_core r b c) = m_ticks c" "m_clock (load_core r b c) = m_clock c" "m_sched (load_core r b c) = m_sched c"
  "c_shutdown (load_core r b c) = c_shutdown c"
  by (cases r; simp add: load_core_def)+

section \<open>The hit path\<close>

definition add_read :: "extent_body \<Rightarrow> 'd kes_cache \<Rightarrow> 'd kes_cache" where
  "add_read b c = stats (\<lambda>s. s\<lparr>cs_bytes_read := cs_bytes_read s + e_data_size b\<rparr>) c"

definition retry_body :: "int \<Rightarrow> extent_body \<Rightarrow> extent_body" where
  "retry_body result b = b\<lparr>e_state := (if result = KES_SUCCESS then KES_EXTENT_CLEAN else KES_EXTENT_ERROR)\<rparr>"

definition retry_core :: "int \<times> u8 list \<times> 'd \<Rightarrow> extent_body \<Rightarrow> 'd kes_cache \<Rightarrow> 'd kes_cache" where
  "retry_core r b c = (if fst r = KES_SUCCESS then add_read b (load_core r b c) else load_core r b c)"

lemma retry_core_core [simp]: "core (retry_core r b c) = retry_core r b (core c)"
  by (simp add: retry_core_def add_read_def)

lemma retry_core_heap [simp]: "retry_core r b (c\<lparr>m_heap := h\<rparr>) = (retry_core r b c)\<lparr>m_heap := h\<rparr>"
  by (cases r) (simp add: retry_core_def add_read_def load_core_def stats_def)

lemma e_lock_set [simp]: "e_lock e \<Longrightarrow> e\<lparr>e_lock := True\<rparr> = (e :: 'a extent_body_scheme)"
  by (cases e) simp

lemma retry_load_eq:
  fixes e :: kes_extent_entry
  assumes e: "m_heap c a = Some e" "e_lock e" "e_data e = Some p" "m_bufs c p = Some buf" and ok: "read_ok c" "\<not> c_cache_lock c"
    and b: "e_data b = Some p" "e_data_size e = e_data_size b"
  shows "retry_load c i a = Some ((retry_core (load_result c i b) b c)\<lparr>m_heap := (m_heap c)(a \<mapsto> e\<lparr>e_state :=
      e_state (retry_body (fst (load_result c i b)) b)\<rparr>)\<rparr>)"
proof -
  define c2 where "c2 = c\<lparr>m_heap := (m_heap c)(a \<mapsto> e\<lparr>e_state := KES_EXTENT_LOADING, e_lock := False\<rparr>)\<rparr>"
  have "load_data c2 i a = Some (fst (load_result c2 i b), load_core (load_result c2 i b) b c2)"
    by (rule load_data_eq [of _ _ "e\<lparr>e_state := KES_EXTENT_LOADING, e_lock := False\<rparr>" p buf])
       (use e ok b in \<open>simp_all add: c2_def read_ok_def\<close>)
  moreover have lr: "load_result c2 i b = load_result c i b" by (simp add: load_result_def c2_def split: option.splits)
  ultimately have ld: "load_data c2 i a = Some (fst (load_result c i b), load_core (load_result c i b) b c2)" by simp
  show ?thesis
    using e ok b
    by (simp add: retry_load_def upd_def unlock_entry_def c2_def [symmetric] ld)
       (cases "load_result c i b", simp add: lock_entry_def upd_def unlock_entry_def add_bytes_read_def lock_cache_def unlock_cache_def
         retry_core_def add_read_def retry_body_def c2_def load_core_def stats_def)
qed


text \<open>What a hit does with the entry before it is handed out: one new attempt if its load failed.\<close>

definition attach :: "'d kes_cache \<Rightarrow> kes_extent_id \<Rightarrow> extent_body \<Rightarrow> extent_body \<times> 'd kes_cache" where
  "attach c i b = (if failed b \<and> \<not> dirty b
     then (retry_body (fst (load_result c i b)) b, retry_core (load_result c i b) b c) else (b, c))"

definition hit_body :: "u64 \<Rightarrow> extent_body \<Rightarrow> extent_body" where
  "hit_body now b = b\<lparr>e_ref_count := e_ref_count b + 1, e_access_time := now, e_access_count := e_access_count b + 1\<rparr>"

lemma retry_core_sel [simp]:
  "m_heap (retry_core r b c) = m_heap c" "m_next (retry_core r b c) = m_next c" "c_config (retry_core r b c) = c_config c"
  "m_bufs (retry_core r b c) = m_bufs (load_core r b c)"
  "cs_entries_cached (c_stats (retry_core r b c)) = cs_entries_cached (c_stats c)"
  "cs_memory_used (c_stats (retry_core r b c)) = cs_memory_used (c_stats c)"
  "cs_entries_pinned (c_stats (retry_core r b c)) = cs_entries_pinned (c_stats c)"
  "c_cache_lock (retry_core r b c) = c_cache_lock c"
  "c_buckets (retry_core r b c) = c_buckets c" "c_mru_head (retry_core r b c) = c_mru_head c"
  "c_lru_tail (retry_core r b c) = c_lru_tail c" "c_bucket_count (retry_core r b c) = c_bucket_count c"
  "c_bucket_mask (retry_core r b c) = c_bucket_mask c" "c_inflight_lookups (retry_core r b c) = c_inflight_lookups c"
  "c_destroying (retry_core r b c) = c_destroying c" "c_read_extent (retry_core r b c) = c_read_extent c"
  "c_write_extent (retry_core r b c) = c_write_extent c" "c_bg_threads (retry_core r b c) = c_bg_threads c"
  "m_ticks (retry_core r b c) = m_ticks c" "m_clock (retry_core r b c) = m_clock c" "m_sched (retry_core r b c) = m_sched c"
  by (auto simp: retry_core_def add_read_def stats_def)

lemma attach_core: "attach (core c) i b = (fst (attach c i b), core (snd (attach c i b)))"
  by (simp add: attach_def)

lemma attach_sel:
  assumes "attach c i b = (b1, c1)"
  shows "e_id b1 = e_id b" "e_data b1 = e_data b" "e_data_size b1 = e_data_size b" "e_ref_count b1 = e_ref_count b"
    "e_pin_count b1 = e_pin_count b" "m_next c1 = m_next c" "c_config c1 = c_config c" "c_cache_lock c1 = c_cache_lock c"
    "cs_entries_cached (c_stats c1) = cs_entries_cached (c_stats c)" "cs_memory_used (c_stats c1) = cs_memory_used (c_stats c)"
    "cs_entries_pinned (c_stats c1) = cs_entries_pinned (c_stats c)" "c_read_extent c1 = c_read_extent c"
    "c_bg_threads c1 = c_bg_threads c" "c_destroying c1 = c_destroying c" "c_inflight_lookups c1 = c_inflight_lookups c"
    "m_ticks c1 = m_ticks c" "m_clock c1 = m_clock c" "m_heap c1 = m_heap c" "c_write_extent c1 = c_write_extent c"
    "c_buckets c1 = c_buckets c" "c_mru_head c1 = c_mru_head c" "c_lru_tail c1 = c_lru_tail c"
    "c_bucket_count c1 = c_bucket_count c" "c_bucket_mask c1 = c_bucket_mask c" "resting b \<Longrightarrow> resting b1"
    "e_lock b1 = e_lock b"
  using assms by (auto simp: attach_def retry_body_def resting_def split: if_splits)

lemma attach_length:
  assumes "attach c i b = (b1, c1)" "m_bufs c p = Some buf" "read_ok c" "e_data b = Some p" "unat (e_data_size b) \<le> length buf"
  shows "map_option length (m_bufs c1 q) = map_option length (m_bufs c q)"
  using assms(1) load_length [OF assms(2-5), of i q] by (auto simp: attach_def split: if_splits)

lemma tidy_front:
  assumes "tidy c (us @ x # vs)"
  shows "tidy c (x # us @ vs)"
proof -
  obtain a b where x: "x = (a, b)" by (cases x)
  have "set (us @ x # vs) = set (x # us @ vs)" by auto
  then have s: "(\<forall>y \<in> set (us @ x # vs). P y) = (\<forall>y \<in> set (x # us @ vs). P y)"
    "(\<exists>y \<in> set (us @ x # vs). P y) = (\<exists>y \<in> set (x # us @ vs). P y)" for P by simp_all
  have "keyed (us @ x # vs) = keyed (x # us @ vs)" by (auto simp: keyed_def)
  moreover have "bufs_ok m (us @ x # vs) = bufs_ok m (x # us @ vs)" for m
    unfolding bufs_ok_def s by (auto simp: x)
  moreover have "fresh c (us @ x # vs) = fresh c (x # us @ vs)" unfolding fresh_def s ..
  moreover have "counts c (us @ x # vs) = counts c (x # us @ vs)" by (simp add: counts_def x ac_simps)
  moreover have "within cfg (us @ x # vs) = within cfg (x # us @ vs)" for cfg by (simp add: within_def x ac_simps)
  ultimately show ?thesis using assms unfolding tidy_def s by simp
qed

text \<open>The state at the start of the hit path: the lookup has pinned the entry.\<close>

definition hit_finish :: "'d kes_cache \<Rightarrow> addr \<Rightarrow> (int \<times> addr option \<times> 'd kes_cache) option" where
  "hit_finish c a = do {
     e \<leftarrow> m_heap c a;
     if failed (extent_body.truncate e) then do {
       c1 \<leftarrow> unlock_entry c a;
       c2 \<leftarrow> end_lookup c1;
       Some (KES_ERROR_IO, None, c2) }
     else do {
       let (now, c1) = get_timestamp c;
       c2 \<leftarrow> upd c1 a (\<lambda>e. e\<lparr>e_ref_count := e_ref_count e + 1, e_access_time := now, e_access_count := e_access_count e + 1\<rparr>);
       c3 \<leftarrow> unlock_entry c2 a;
       c4 \<leftarrow> lock_cache c3;
       c5 \<leftarrow> lru_touch c4 a;
       let c6 = stats (\<lambda>s. s\<lparr>cs_hits := cs_hits s + 1\<rparr>) c5;
       c7 \<leftarrow> unlock_cache (c6\<lparr>c_inflight_lookups := c_inflight_lookups c6 - 1\<rparr>);
       Some (KES_SUCCESS, e_data e, c7) } }"

lemma drop_at_at: "drop_at a (at a g es) = drop_at a es"
  by (induction es) (auto simp: drop_at_def at_def)

lemma body_of_sel:
  assumes "extent_body.truncate e = b"
  shows "e_lock e = e_lock b" "e_data e = e_data b" "e_data_size e = e_data_size b" "e_state e = e_state b"
    "e_ref_count e = e_ref_count b" "e_access_count e = e_access_count b" "e_id e = e_id b"
  using assms by auto

text \<open>From a locked entry to the end of the lookup: the entry whose load failed again, and the entry that is handed out.\<close>

lemma hit_fails:
  assumes h: "holds c (at a (\<lambda>_. b\<lparr>e_lock := True\<rparr>) es)" and t: "tidy c es" and b: "map_of es a = Some b" and f: "failed b"
  obtains c' where "hit_finish c a = Some (KES_ERROR_IO, None, c')" "walking None c' es"
    "core c' = (core c)\<lparr>c_inflight_lookups := c_inflight_lookups c - 1\<rparr>"
proof -
  obtain e where e: "m_heap c a = Some e" "extent_body.truncate e = b\<lparr>e_lock := True\<rparr>"
    using entry_of [OF h, of a] b by (auto simp: map_of_at)
  have d: "distinct (map fst es)" using holds_distinct [OF h] by simp
  have rb: "resting b" "\<not> c_cache_lock c" using t map_of_SomeD [OF b] by (auto simp: tidy_def)
  define c' where "c' = c\<lparr>m_heap := (m_heap c)(a \<mapsto> e\<lparr>e_lock := False\<rparr>), c_inflight_lookups := c_inflight_lookups c - 1\<rparr>"
  have "holds c' (at a (\<lambda>_. extent_body.truncate (e\<lparr>e_lock := False\<rparr>)) (at a (\<lambda>_. b\<lparr>e_lock := True\<rparr>) es))"
    by (rule holds_upd' [OF h e(1)]) (simp_all add: c'_def)
  moreover have "extent_body.truncate (e\<lparr>e_lock := False\<rparr>) = b" using e(2) rb(1) by (simp add: resting_def)
  ultimately have "holds c' es" using at_same [OF d b, of "\<lambda>_. b"] by (simp add: comp_def)
  moreover have "tidy c' es" using t by (simp add: c'_def tidy_def fresh_def counts_def)
  moreover have "hit_finish c a = Some (KES_ERROR_IO, None, c')"
    using e f rb(2) body_of_sel [OF e(2)]
    by (simp add: hit_finish_def failed_def unlock_entry_def upd_def end_lookup_def lock_cache_def unlock_cache_def c'_def)
  ultimately show thesis using that [of c'] by (simp add: walking_def c'_def)
qed

lemma hit_serves:
  assumes h: "holds c (at a (\<lambda>_. b\<lparr>e_lock := True\<rparr>) es)" and t: "tidy c es" and b: "map_of es a = Some b" and f: "\<not> failed b"
    and now: "now = fst (get_timestamp c)"
  obtains c' where "hit_finish c a = Some (KES_SUCCESS, e_data b, c')" "walking None c' ((a, hit_body now b) # drop_at a es)"
    "core c' = (core (stats (\<lambda>s. s\<lparr>cs_hits := cs_hits s + 1\<rparr>) (c\<lparr>m_ticks := m_ticks c + 1\<rparr>)))
        \<lparr>c_inflight_lookups := c_inflight_lookups c - 1\<rparr>"
proof -
  have d: "distinct (map fst es)" using holds_distinct [OF h] by simp
  obtain us vs where sp: "es = us @ (a, b) # vs" "a \<notin> fst ` set us" "a \<notin> fst ` set vs" "at a (\<lambda>b. b) es = us @ (a, b) # vs"
    by (rule split_at [OF d b])
  have upd: "at a (\<lambda>_. y) (us @ (a, z) # vs) = us @ (a, y) # vs" for y z
    using sp(2,3) at_other [of a us] at_other [of a vs] by (simp add: at_def)
  obtain e where e: "m_heap c a = Some e" "extent_body.truncate e = b\<lparr>e_lock := True\<rparr>"
    using entry_of [OF h, of a] b by (auto simp: map_of_at)
  have rb: "resting b" "\<not> c_cache_lock c" using t map_of_SomeD [OF b] by (auto simp: tidy_def)
  have nw: "get_timestamp c = (now, c\<lparr>m_ticks := m_ticks c + 1\<rparr>)"
    using now by (auto simp: get_timestamp_def split: prod.splits)
  define e1 where "e1 = e\<lparr>e_ref_count := e_ref_count e + 1, e_access_time := now, e_access_count := e_access_count e + 1, e_lock := False\<rparr>"
  define c1 where "c1 = c\<lparr>m_ticks := m_ticks c + 1, m_heap := (m_heap c)(a \<mapsto> e1), c_cache_lock := True\<rparr>"
  have "extent_body.truncate e1 = hit_body now b"
    using e(2) rb(1) body_of_sel [OF e(2)] by (simp add: e1_def hit_body_def resting_def)
  then have h1: "holds c1 (us @ (a, hit_body now b) # vs)"
    using holds_upd' [OF h e(1), of e1 c1] by (simp add: c1_def e1_def sp(1) upd)
  obtain c2 where c2: "lru_touch c1 a = Some c2" "holds c2 ((a, hit_body now b) # us @ vs)" "core c2 = core c1"
    by (rule lru_touch_holds [OF h1 refl])
  define c' where "c' = (stats (\<lambda>s. s\<lparr>cs_hits := cs_hits s + 1\<rparr>) c2)\<lparr>c_inflight_lookups := c_inflight_lookups c - 1, c_cache_lock := False\<rparr>"
  have l2: "c_cache_lock c2" "c_inflight_lookups c2 = c_inflight_lookups c"
    using core_eqD(14,15) [OF c2(3)] by (simp_all add: c1_def)
  have run: "hit_finish c a = Some (KES_SUCCESS, e_data b, c')"
    using e f rb(2) nw c2(1) l2 body_of_sel [OF e(2)]
    by (simp add: hit_finish_def failed_def upd_def unlock_entry_def lock_cache_def unlock_cache_def)
       (simp add: c1_def e1_def c'_def stats_def)
  have cr: "core c' = (core (stats (\<lambda>s. s\<lparr>cs_hits := cs_hits s + 1\<rparr>) (c\<lparr>m_ticks := m_ticks c + 1\<rparr>)))\<lparr>c_inflight_lookups := c_inflight_lookups c - 1\<rparr>"
    using c2(3) rb(2) core_eqD(9) [OF c2(3)] by (simp add: c'_def c1_def stats_def)
  have "tidy c ((a, hit_body now b) # us @ vs)"
  proof -
    have "tidy c (at a (\<lambda>_. hit_body now b) es)"
      by (rule tidy_at [OF t d b]) (use t rb in \<open>simp_all add: sp(1) upd hit_body_def resting_def pinned_def tidy_def counts_def\<close>)
    then show ?thesis using tidy_front by (simp add: sp(1) upd)
  qed
  then have "tidy c' ((a, hit_body now b) # us @ vs)"
    using core_eqD(1,2,8,9) [OF c2(3)] by (simp add: c'_def stats_def c1_def tidy_def fresh_def counts_def)
  then have "walking None c' ((a, hit_body now b) # drop_at a es)"
    using c2(2) sp(1-3) drop_at_split [of a us vs b] by (simp add: walking_def c'_def)
  then show thesis using that run cr by blast
qed

text \<open>From the pinned entry to the locked one, with the retry of a failed load.\<close>

lemma retry_step:
  assumes e: "m_heap c a = Some e" "extent_body.truncate e = b\<lparr>e_lock := True\<rparr>" and ok: "read_ok c" "\<not> c_cache_lock c"
    and p: "e_data b = Some p" "m_bufs c p = Some buf" and at: "attach c i b = (b1, k)"
  shows "(if e_state e AND KES_EXTENT_ERROR \<noteq> 0 \<and> e_state e AND KES_EXTENT_DIRTY = 0 then retry_load c i a else Some c) =
    Some (k\<lparr>m_heap := (m_heap c)(a \<mapsto> e\<lparr>e_state := e_state b1\<rparr>)\<rparr>)"
proof -
  note sel = body_of_sel [OF e(2), simplified]
  show ?thesis
  proof (cases "failed b \<and> \<not> dirty b")
    case True
    have "retry_load c i a = Some ((retry_core (load_result c i b) b c)\<lparr>m_heap := (m_heap c)(a \<mapsto> e\<lparr>e_state :=
      e_state (retry_body (fst (load_result c i b)) b)\<rparr>)\<rparr>)"
      by (rule retry_load_eq [OF e(1) sel(1) _ p(2) ok p(1) sel(3)]) (use sel(2) p(1) in simp)
    then show ?thesis using True at sel(4) by (auto simp: attach_def failed_def dirty_def)
  next
    case False
    then have "b1 = b" "k = c" using at by (auto simp: attach_def)
    moreover have "e\<lparr>e_state := e_state b\<rparr> = e" by (simp flip: sel(4))
    moreover have "\<not> (e_state e AND KES_EXTENT_ERROR \<noteq> 0 \<and> e_state e AND KES_EXTENT_DIRTY = 0)"
      using False sel(4) by (auto simp: failed_def dirty_def)
    ultimately show ?thesis using heap_idem [OF e(1)] by (simp only: if_False)
  qed
qed

lemma attach_tidy:
  assumes t: "tidy c es" and d: "distinct (map fst es)" and b: "map_of es a = Some b" and r: "read_ok c" and at: "attach c i b = (b1, k)"
  shows "tidy k (at a (\<lambda>_. b1) es)"
proof -
  note as = attach_sel [OF at]
  have rb: "resting b" using t map_of_SomeD [OF b] by (auto simp: tidy_def)
  obtain us vs where sp: "es = us @ (a, b) # vs" "a \<notin> fst ` set us" "a \<notin> fst ` set vs" "at a (\<lambda>b. b) es = us @ (a, b) # vs"
    by (rule split_at [OF d b])
  obtain p buf where p: "e_data b = Some p" "m_bufs c p = Some buf" "length buf = asize b"
    using t by (auto simp: sp(1) tidy_def bufs_ok_def)
  have len: "unat (e_data_size b) \<le> length buf" using asize_pos [OF rb] p(3) by simp
  show ?thesis
  proof (rule tidy_at [OF t d b])
    have "pinned b1 = pinned b" using as(5) by (simp add: pinned_def)
    then have "count pinned (at a (\<lambda>_. b1) es) = count pinned es"
      using sp(2,3) at_other [of a us] at_other [of a vs] by (simp add: sp(1) at_def)
    then show "unat (cs_entries_pinned (c_stats k)) = count pinned (at a (\<lambda>_. b1) es)"
      using t as(11) by (simp add: tidy_def counts_def)
  qed (use t rb as attach_length [OF at p(2) r p(1) len] in \<open>simp_all add: tidy_def\<close>)
qed

lemma hit_attach:
  assumes h: "holds c (pinat (Some a) es)" and t: "tidy c es" and r: "read_ok c" and b: "map_of es a = Some b"
    and at: "attach c i b = (b1, k1)"
  obtains c' where "get_extent_hit c i a = hit_finish c' a" "holds c' (at a (\<lambda>_. b1\<lparr>e_lock := True\<rparr>) es)"
    "tidy c' (at a (\<lambda>_. b1) es)" "core c' = core k1"
proof -
  have h0: "holds c (pinat None (pinat (Some a) es))" using h by simp
  obtain c1 c2 where c2: "lock_entry c a = Some c1" "unpin_lookup c1 a = Some c2"
    "holds c2 (at a (\<lambda>_. b\<lparr>e_lock := True\<rparr>) es)" "core c2 = core c"
    by (rule start_visit [OF h0 _ t b refl]) simp_all
  have d: "distinct (map fst es)" using holds_distinct [OF h] by simp
  obtain e where e: "m_heap c2 a = Some e" "extent_body.truncate e = b\<lparr>e_lock := True\<rparr>"
    using entry_of [OF c2(3), of a] b by (auto simp: map_of_at)
  have t2: "tidy c2 es" using t tidy_cong [OF c2(4)] by simp
  have rb: "resting b" "\<not> c_cache_lock c2" using t2 map_of_SomeD [OF b] by (auto simp: tidy_def)
  obtain p buf where p: "e_data b = Some p" "m_bufs c2 p = Some buf"
    using t2 map_of_SomeD [OF b] by (auto simp: tidy_def bufs_ok_def)
  have r2: "read_ok c2" using r core_eqD(17) [OF c2(4)] by (simp add: read_ok_def)
  define k where "k = snd (attach c2 i b)"
  have at2: "attach c2 i b = (b1, k)" and ck: "core k = core k1"
    using at attach_core [of c2 i b] attach_core [of c i b] c2(4) by (simp_all add: k_def prod_eq_iff)
  note as = attach_sel [OF at2]
  define c' where "c' = k\<lparr>m_heap := (m_heap c2)(a \<mapsto> e\<lparr>e_state := e_state b1\<rparr>)\<rparr>"
  have tr: "extent_body.truncate (e\<lparr>e_state := e_state b1\<rparr>) = b1\<lparr>e_lock := True\<rparr>"
    using e(2) at2 by (auto simp: attach_def retry_body_def split: if_splits)
  have "wait_loaded c2 a = Some c2"
    using e(1) body_of_sel(4) [OF e(2)] rb(1) by (simp add: wait_loaded_def resting_def)
  then have "get_extent_hit c i a = hit_finish c' a"
    using c2(1,2) e(1) retry_step [OF e r2 rb(2) p at2]
    by (simp add: get_extent_hit_def hit_finish_def failed_def c'_def)
  moreover have "holds c' (at a (\<lambda>_. b1\<lparr>e_lock := True\<rparr>) es)"
    using holds_upd' [OF c2(3) e(1), of "e\<lparr>e_state := e_state b1\<rparr>" c'] tr as by (simp add: c'_def comp_def)
  moreover have "core c' = core k" by (simp add: c'_def)
  moreover from this have "tidy c' (at a (\<lambda>_. b1) es)"
    using attach_tidy [OF t2 d b r2 at2] tidy_cong [of c' k] by simp
  ultimately show thesis using that [of c'] ck by simp
qed

lemma get_extent_hit_eq:
  assumes h: "holds c (pinat (Some a) es)" and t: "tidy c es" and r: "read_ok c" and b: "map_of es a = Some b"
    and at: "attach c i b = (b1, k1)"
  obtains c' es' where
    "get_extent_hit c i a = Some (if failed b1 then (KES_ERROR_IO, None, c') else (KES_SUCCESS, e_data b, c'))"
    "walking None c' es'"
    "es' = (if failed b1 then at a (\<lambda>_. b1) es else (a, hit_body (fst (get_timestamp c)) b1) # drop_at a es)"
    "core c' = (core (if failed b1 then k1 else stats (\<lambda>s. s\<lparr>cs_hits := cs_hits s + 1\<rparr>) (k1\<lparr>m_ticks := m_ticks c + 1\<rparr>)))
        \<lparr>c_inflight_lookups := c_inflight_lookups c - 1\<rparr>"
proof -
  obtain c2 where c2: "get_extent_hit c i a = hit_finish c2 a" "holds c2 (at a (\<lambda>_. b1\<lparr>e_lock := True\<rparr>) es)"
    "tidy c2 (at a (\<lambda>_. b1) es)" "core c2 = core k1" by (rule hit_attach [OF assms])
  note as = attach_sel [OF at]
  have h2: "holds c2 (at a (\<lambda>_. b1\<lparr>e_lock := True\<rparr>) (at a (\<lambda>_. b1) es))" using c2(2) by (simp add: comp_def)
  have b2: "map_of (at a (\<lambda>_. b1) es) a = Some b1" using b by (simp add: map_of_at)
  have eq: "fst (get_timestamp c2) = fst (get_timestamp c)" "m_ticks c2 = m_ticks c" "c_inflight_lookups c2 = c_inflight_lookups c"
    using core_eqD(6,7,15) [OF c2(4)] as(15-17) by (simp_all add: get_timestamp_def split: prod.splits)
  show thesis
  proof (cases "failed b1")
    case True
    from hit_fails [OF h2 c2(3) b2 True] obtain c' where "hit_finish c2 a = Some (KES_ERROR_IO, None, c')"
      "walking None c' (at a (\<lambda>_. b1) es)" "core c' = (core c2)\<lparr>c_inflight_lookups := c_inflight_lookups c2 - 1\<rparr>" .
    then show thesis using that [of c' "at a (\<lambda>_. b1) es"] True c2(1,4) eq by simp
  next
    case False
    from hit_serves [OF h2 c2(3) b2 False refl] obtain c' where c': "hit_finish c2 a = Some (KES_SUCCESS, e_data b1, c')"
      "walking None c' ((a, hit_body (fst (get_timestamp c2)) b1) # drop_at a (at a (\<lambda>_. b1) es))"
      "core c' = (core (stats (\<lambda>s. s\<lparr>cs_hits := cs_hits s + 1\<rparr>) (c2\<lparr>m_ticks := m_ticks c2 + 1\<rparr>)))
        \<lparr>c_inflight_lookups := c_inflight_lookups c2 - 1\<rparr>" .
    then show thesis
      using that [of c' "(a, hit_body (fst (get_timestamp c)) b1) # drop_at a es"] False c2(1,4) eq as(2) core_eqD(9) [OF c2(4)]
      by (simp add: stats_def drop_at_at)
  qed
qed

end
