(* ===== verification/Kes_Cache_Miss.thy ===== *)
theory Kes_Cache_Miss
  imports Kes_Cache_Get
begin

text \<open>
  The miss path of \<open>kes_cache_get_extent\<close>: what the traversals keep of the entries, the insertion of the
  new entry within the limits, its load, and \<open>kes_cache_get_extent\<close> as a whole.
\<close>

section \<open>What the traversals keep\<close>

type_synonym 'd view = "(addr \<times> extent_body) list \<times> 'd kes_cache"

definition sound :: "'d view \<Rightarrow> bool" where
  "sound s \<longleftrightarrow> distinct (map fst (fst s)) \<and> bufs_ok (m_bufs (snd s)) (fst s) \<and> (\<forall>(a, b) \<in> set (fst s). resting b)"

definition alike :: "extent_body \<Rightarrow> extent_body \<Rightarrow> bool" where
  "alike b b' \<longleftrightarrow> b\<lparr>e_state := 0\<rparr> = b'\<lparr>e_state := 0\<rparr>"

lemma alikeD:
  assumes "alike b b'"
  shows "e_id b' = e_id b" "e_data b' = e_data b" "e_data_size b' = e_data_size b" "e_ref_count b' = e_ref_count b"
    "e_pin_count b' = e_pin_count b" "busy b' = busy b" "asize b' = asize b"
proof -
  have "f (b\<lparr>e_state := 0\<rparr>) = f (b'\<lparr>e_state := 0\<rparr>)" for f :: "extent_body \<Rightarrow> 'x" using assms by (simp add: alike_def)
  from this [of e_id] this [of e_data] this [of e_data_size] this [of e_ref_count] this [of e_pin_count]
  show "e_id b' = e_id b" "e_data b' = e_data b" "e_data_size b' = e_data_size b" "e_ref_count b' = e_ref_count b"
    "e_pin_count b' = e_pin_count b" "busy b' = busy b" "asize b' = asize b" by (simp_all add: busy_def asize_def)
qed

lemma alike_refl [simp]: "alike b b" and alike_flush [simp]: "alike b (flush_body r b)"
  by (auto simp: alike_def flush_body_def split: option.splits)

text \<open>Entries are only removed, never those in use, and only the state bits of the others change;
  their buffers stay.\<close>

definition thinned :: "'d view \<Rightarrow> 'd view \<Rightarrow> bool" where
  "thinned s s' \<longleftrightarrow>
     (\<forall>a b'. map_of (fst s') a = Some b' \<longrightarrow> (\<exists>b. map_of (fst s) a = Some b \<and> alike b b' \<and>
        m_bufs (snd s') (the (e_data b')) = m_bufs (snd s) (the (e_data b')))) \<and>
     (\<forall>a b. map_of (fst s) a = Some b \<longrightarrow> busy b \<longrightarrow> (\<exists>b'. map_of (fst s') a = Some b'))"

lemma thinned_refl [simp]: "thinned s s"
  by (auto simp: thinned_def)

lemma thinned_trans:
  assumes 1: "thinned s s1" and 2: "thinned s1 s2"
  shows "thinned s s2"
  unfolding thinned_def
proof (intro conjI allI impI)
  fix a b2
  assume "map_of (fst s2) a = Some b2"
  then obtain b1 where b1: "map_of (fst s1) a = Some b1" "alike b1 b2"
    "m_bufs (snd s2) (the (e_data b2)) = m_bufs (snd s1) (the (e_data b2))" using 2 unfolding thinned_def by blast
  obtain b where "map_of (fst s) a = Some b" "alike b b1"
    "m_bufs (snd s1) (the (e_data b1)) = m_bufs (snd s) (the (e_data b1))" using b1(1) 1 unfolding thinned_def by blast
  then show "\<exists>b. map_of (fst s) a = Some b \<and> alike b b2 \<and> m_bufs (snd s2) (the (e_data b2)) = m_bufs (snd s) (the (e_data b2))"
    using b1 alikeD(2) [OF b1(2)] by (auto simp: alike_def)
next
  fix a b
  assume b: "map_of (fst s) a = Some b" "busy b"
  then obtain b1 where b1: "map_of (fst s1) a = Some b1" using 1 unfolding thinned_def by blast
  then have "alike b b1" using 1 b(1) unfolding thinned_def by fastforce
  then show "\<exists>b'. map_of (fst s2) a = Some b'" using 2 b1 b(2) alikeD(6) unfolding thinned_def by blast
qed

lemma thinnedD:
  assumes "thinned (es, c) (es', c')" "map_of es' a = Some b'"
  obtains b where "map_of es a = Some b" "alike b b'" "m_bufs c' (the (e_data b')) = m_bufs c (the (e_data b'))"
  using assms unfolding thinned_def by fastforce

lemma thinned_bufs: "m_bufs c = m_bufs c' \<Longrightarrow> thinned s (es, c) = thinned s (es, c')"
  by (simp add: thinned_def)

lemma sound_bufs: "m_bufs c = m_bufs c' \<Longrightarrow> sound (es, c) = sound (es, c')"
  by (simp add: sound_def)

lemma map_of_drop_at: "map_of (drop_at a es) x = (if x = a then None else map_of es x)"
  by (induction es) (auto simp: drop_at_def)

lemma sound_buffer:
  assumes "sound (es, c)" "map_of es a = Some b"
  obtains p buf where "e_data b = Some p" "m_bufs c p = Some buf" "length buf = asize b" "resting b"
  using assms map_of_SomeD [OF assms(2)] by (fastforce simp: sound_def bufs_ok_def)

lemma sound_other:
  assumes s: "sound (es, c)" and a: "map_of es a = Some b" "map_of es x = Some y" "x \<noteq> a"
  shows "e_data y \<noteq> e_data b"
proof -
  have "distinct (map (\<lambda>(a, b). e_data b) es)" using s by (simp add: sound_def bufs_ok_def)
  then show ?thesis using map_of_SomeD [OF a(1)] map_of_SomeD [OF a(2)] a(3)
    unfolding distinct_map inj_on_def by fastforce
qed

lemma visit_sound:
  assumes s: "sound (es, c)" and v: "visit a (es, c) = s'"
  shows "sound s'" "thinned (es, c) s'"
proof -
  have "sound s' \<and> thinned (es, c) s'"
  proof (cases "map_of es a")
    case None
    then show ?thesis using s v by (auto simp: visit_def)
  next
    case (Some b)
    define r where "r = write_back c b"
    have d: "distinct (map fst es)" using s by (simp add: sound_def)
    obtain us vs where sp: "es = us @ (a, b) # vs" "a \<notin> fst ` set us" "a \<notin> fst ` set vs" "at a (\<lambda>b. b) es = us @ (a, b) # vs"
      by (rule split_at [OF d Some])
    show ?thesis
    proof (cases "evictable (flush_body r b) False")
      case True
      then have s': "s' = (us @ vs, evict_core (flush_body r b) (flush_core r b c))"
        using v Some sp(1-3) drop_at_split [of a us vs b] by (simp add: visit_def r_def Let_def)
      have "bufs_ok ((m_bufs c)(the (e_data b) := None)) (us @ vs)"
        by (rule bufs_ok_remove [of _ _ a]) (use s sp(1) in \<open>simp add: sound_def\<close>)
      then have so: "sound s'" using s sp(1) by (auto simp: s' sound_def evict_core_def stats_def)
      have nb: "\<not> busy b" using True by (simp add: evictable_def busy_def)
      obtain p where p: "e_data b = Some p" by (rule sound_buffer [OF s Some])
      have "m_bufs (snd s') (the (e_data y)) = m_bufs c (the (e_data y))" if y: "map_of es x = Some y" "x \<noteq> a" for x y
      proof -
        obtain q where "e_data y = Some q" by (rule sound_buffer [OF s y(1)])
        then show ?thesis using sound_other [OF s Some y] p by (simp add: s' evict_core_def stats_def)
      qed
      moreover have "map_of (fst s') x = (if x = a then None else map_of es x)" for x
        using map_of_drop_at [of a es x] drop_at_split [OF sp(2,3), of b] sp(1) by (simp add: s')
      ultimately have "thinned (es, c) s'" using Some nb by (simp add: thinned_def)
      then show ?thesis using so by blast
    next
      case False
      then have s': "s' = (at a (\<lambda>_. flush_body r b) es, flush_core r b c)"
        using v Some by (simp add: visit_def r_def Let_def)
      have "bufs_ok (m_bufs c) (at a (\<lambda>_. flush_body r b) es)"
        by (rule bufs_ok_at [where g = "\<lambda>_. flush_body r b", OF _ d Some]) (use s in \<open>simp_all add: sound_def asize_def\<close>)
      moreover have "resting b" using sound_buffer [OF s Some] by blast
      ultimately have "sound s'"
        using s resting_flush [of b r] by (auto simp: s' sound_def dest!: set_at)
      moreover have "thinned (es, c) s'" using Some by (auto simp: thinned_def s' map_of_at)
      ultimately show ?thesis ..
    qed
  qed
  then show "sound s'" "thinned (es, c) s'" by simp_all
qed

text \<open>Properties that a single visit keeps are kept by the traversals.\<close>

lemma fold_visit_inv: "(\<And>a s. P s \<Longrightarrow> P (visit a s)) \<Longrightarrow> P s \<Longrightarrow> P (fold visit as s)"
  by (induction as arbitrary: s) auto

lemma room_walk_inv:
  assumes "\<And>a s. P s \<Longrightarrow> P (visit a s)" "\<And>es c. P (es, c) \<Longrightarrow> P (es, stats (\<lambda>s. s\<lparr>cs_evictions := cs_evictions s + 1\<rparr>) c)" "P s"
  shows "P (snd (room_walk needed as s))"
  using assms(3)
proof (induction as arbitrary: s)
  case (Cons a as)
  obtain fits s' where v: "room_visit needed a s = (fits, s')" by (cases "room_visit needed a s")
  have "P (visit a s)" using assms(1) Cons.prems by blast
  then have "P s'" using v assms(2) by (cases "visit a s") (auto simp: room_visit_def Let_def split: if_splits)
  then show ?case using Cons.IH v by simp
qed simp

lemma sound_thin_inv:
  assumes "sound s"
  shows "sound (fold visit as s)" "thinned s (fold visit as s)"
    "sound (snd (room_walk needed as s))" "thinned s (snd (room_walk needed as s))"
proof -
  let ?P = "\<lambda>s'. sound s' \<and> thinned s s'"
  have 1: "?P (visit a s')" if "?P s'" for a s'
    using that visit_sound [of "fst s'" "snd s'" a] thinned_trans [of s s'] by simp
  have 2: "?P (es, stats f c)" if "?P (es, c)" for es c f
    using that sound_bufs [of "stats f c" c] thinned_bufs [of "stats f c" c] by (simp add: stats_def)
  show "sound (fold visit as s)" "thinned s (fold visit as s)" using fold_visit_inv [of ?P, OF 1] assms by simp_all
  show "sound (snd (room_walk needed as s))" "thinned s (snd (room_walk needed as s))"
    using room_walk_inv [of ?P, OF 1 2] assms by simp_all
qed

lemma tidy_sound: "tidy c es \<Longrightarrow> distinct (map fst es) \<Longrightarrow> sound (es, c)"
  by (simp add: sound_def tidy_def)

lemma thinned_slot_None:
  assumes "thinned (es, c) (es', c')" "distinct (map fst es')" "slot es i = None"
  shows "slot es' i = None"
proof (rule ccontr)
  assume "slot es' i \<noteq> None"
  then obtain a b' where ab: "slot es' i = Some (a, b')" by (cases "slot es' i") auto
  have "map_of es' a = Some b'" by (rule slot_map_of [OF assms(2) ab])
  then obtain b where "map_of es a = Some b" "alike b b'" by (rule thinnedD [OF assms(1)])
  then show False using slot_NoneD [OF assms(3) map_of_SomeD] slot_SomeD [OF ab] alikeD(1) by metis
qed

section \<open>Inserting an entry\<close>

text \<open>The entry a miss creates, and what becomes of it when its load ends.\<close>

definition new_body :: "u64 \<Rightarrow> kes_extent_id \<Rightarrow> addr \<Rightarrow> extent_body" where
  "new_body now i p = \<lparr>e_id = i, e_data = Some p, e_state = KES_EXTENT_LOADING, e_ref_count = 1, e_pin_count = 0,
     e_access_time = now, e_access_count = 0, e_data_size = extent_data_size i, e_lookup_pins = 0,
     e_cond_waiters = 0, e_lock = False\<rparr>"

definition loaded_body :: "int \<Rightarrow> extent_body \<Rightarrow> extent_body" where
  "loaded_body result b = (if result = KES_SUCCESS then b\<lparr>e_state := KES_EXTENT_CLEAN\<rparr>
     else b\<lparr>e_state := KES_EXTENT_ERROR, e_ref_count := 0\<rparr>)"

definition publish_core :: "extent_body \<Rightarrow> 'd kes_cache \<Rightarrow> 'd kes_cache" where
  "publish_core b c = (stats (\<lambda>s. s\<lparr>cs_misses := cs_misses s + 1, cs_entries_cached := cs_entries_cached s + 1,
      cs_memory_used := cs_memory_used s + KES_ALIGN (e_data_size b) KES_CACHE_ALIGNMENT\<rparr>) c)
      \<lparr>c_inflight_lookups := c_inflight_lookups c - 1\<rparr>"

lemma publish_core_core [simp]: "core (publish_core b c) = publish_core b (core c)"
  by (simp add: publish_core_def)

lemma publish_core_sel [simp]:
  "m_bufs (publish_core b c) = m_bufs c" "m_next (publish_core b c) = m_next c" "m_dev (publish_core b c) = m_dev c"
  "c_config (publish_core b c) = c_config c" "c_cache_lock (publish_core b c) = c_cache_lock c"
  "c_read_extent (publish_core b c) = c_read_extent c" "c_write_extent (publish_core b c) = c_write_extent c"
  "c_bg_threads (publish_core b c) = c_bg_threads c" "c_destroying (publish_core b c) = c_destroying c"
  "m_heap (publish_core b c) = m_heap c" "m_sched (publish_core b c) = m_sched c"
  by (simp_all add: publish_core_def stats_def)

definition load_code :: "int \<Rightarrow> int" where
  "load_code result = (if result = KES_SUCCESS \<or> result = KES_ERROR_INVALID then result else KES_ERROR_IO)"

lemma publish_and_load_eq:
  assumes l: "lru c (map fst es)" "chains c (insert a (fst ` set es))" "buckets_free c"
    and b: "bodies c = (map_of es)(a \<mapsto> b)" and a: "a \<notin> fst ` set es"
    and st: "e_data b = Some p" "m_bufs c p = Some buf" "\<not> e_lock b" "e_ref_count b = 1"
    and ok: "\<not> c_cache_lock c" "read_ok c"
    and r: "r = load_result (publish_core b c) i b"
  obtains c' where
    "publish_and_load c i a = Some (load_code (fst r), if fst r = KES_SUCCESS then Some p else None, c')"
    "holds c' ((a, loaded_body (fst r) b) # es)" "core c' = core (retry_core r b (publish_core b c))"
proof -
  define c1 where "c1 = stats (\<lambda>s. s\<lparr>cs_misses := cs_misses s + 1\<rparr>) (c\<lparr>c_cache_lock := True\<rparr>)"
  have "lru c1 xs = lru c xs" "chains c1 S = chains c S" "bodies c1 = bodies c" "buckets_free c1 = buckets_free c" for xs S
    by (rule lru_frame, simp_all add: c1_def stats_def) (rule chains_frame, simp_all, rule bodies_frame, simp_all add: buckets_free_def)
  then obtain c2 where c2: "lru_add_head c1 a = Some c2" "holds c2 ((a, b) # es)" "core c2 = core c1"
    using lru_publish [of c1 es a b] l b a by auto
  obtain e where e: "m_heap c2 a = Some e" "extent_body.truncate e = b" using entry_of [OF c2(2), of a b] by auto
  have sel: "e_lock e = e_lock b" "e_data e = e_data b" "e_data_size e = e_data_size b" "e_ref_count e = e_ref_count b"
    using e(2) by auto
  define c4 where "c4 = (stats (\<lambda>s. s\<lparr>cs_entries_cached := cs_entries_cached s + 1,
        cs_memory_used := cs_memory_used s + KES_ALIGN (e_data_size b) KES_CACHE_ALIGNMENT\<rparr>) c2)
      \<lparr>c_inflight_lookups := c_inflight_lookups c - 1, c_cache_lock := False\<rparr>"
  have lk: "c_cache_lock c2" "c_inflight_lookups c2 = c_inflight_lookups c" using core_eqD(14,15) [OF c2(3)] by (simp_all add: c1_def stats_def)
  have cr4: "core c4 = core (publish_core b c)"
    using c2(3) core_eqD(9) [OF c2(3)] ok(1) by (simp add: c4_def publish_core_def c1_def stats_def)
  have h4: "holds c4 ((a, b) # es)" using c2(2) by (simp add: c4_def)
  have e4: "m_heap c4 a = Some e" using e(1) by (simp add: c4_def stats_def)
  have lr: "load_result c4 i b = r" using load_result_core [of c4 i b] load_result_core [of "publish_core b c" i b] cr4 r by simp
  have b4: "m_bufs c4 p = Some buf" "read_ok c4" using st(2) ok(2) core_eqD(1,17) [OF cr4] by (simp_all add: read_ok_def)
  have ld: "load_data c4 i a = Some (fst r, load_core r b c4)"
    using load_data_eq [OF e4 _ b4 st(1) sel(3), of i] sel(2) st(1) lr by simp
  define e7 where "e7 = e\<lparr>e_state := e_state (loaded_body (fst r) b), e_ref_count := e_ref_count (loaded_body (fst r) b)\<rparr>"
  define c' where "c' = (retry_core r b c4)\<lparr>m_heap := (m_heap c4)(a \<mapsto> e7)\<rparr>"
  have e71: "e\<lparr>e_state := x, e_ref_count := 1\<rparr> = e\<lparr>e_state := x\<rparr>" for x using sel(4) st(4) by (cases e) simp
  have run: "publish_and_load c i a = Some (load_code (fst r), if fst r = KES_SUCCESS then Some p else None, c')"
  proof (cases "fst r = KES_SUCCESS")
    case True
    then show ?thesis
      using ok(1) c2(1) lk e sel st ld
      by (simp add: publish_and_load_def lock_cache_def unlock_cache_def c1_def [symmetric] c4_def [symmetric] load_code_def)
         (cases r, simp add: lock_entry_def unlock_entry_def upd_def add_bytes_read_def lock_cache_def unlock_cache_def c'_def e7_def
          loaded_body_def retry_core_def add_read_def load_core_def stats_def e4 c4_def e71)
  next
    case False
    then show ?thesis
      using ok(1) c2(1) lk e sel st ld
      by (simp add: publish_and_load_def lock_cache_def unlock_cache_def c1_def [symmetric] c4_def [symmetric] load_code_def)
         (cases r, simp add: lock_entry_def unlock_entry_def upd_def c'_def e7_def
          loaded_body_def retry_core_def load_core_def stats_def e4 c4_def)
  qed
  have tr: "extent_body.truncate e7 = loaded_body (fst r) b"
    using e(2) st(4) by (auto simp: e7_def loaded_body_def)
  have "holds c' (at a (\<lambda>_. extent_body.truncate e7) ((a, b) # es))"
    by (rule holds_upd' [OF h4 e4]) (simp_all add: c'_def e7_def)
  moreover have "at a (\<lambda>_. loaded_body (fst r) b) ((a, b) # es) = (a, loaded_body (fst r) b) # es"
    using a at_other [of a es] by (simp add: at_def)
  ultimately have "holds c' ((a, loaded_body (fst r) b) # es)" unfolding tr by simp
  moreover have "core c' = core (retry_core r b (publish_core b c))" using cr4 by (simp add: c'_def)
  ultimately show thesis using that run by blast
qed

lemma bufs_ok_insert:
  assumes "bufs_ok m es" "e_data b = Some p" "m p = None" "m' p = Some buf" "length buf = asize b"
    "\<And>q. q \<noteq> p \<Longrightarrow> map_option length (m' q) = map_option length (m q)"
  shows "bufs_ok m' ((a, b) # es)"
proof -
  have data: "\<exists>q buf. e_data y = Some q \<and> m q = Some buf \<and> length buf = asize y" if "(x, y) \<in> set es" for x y
    using assms(1) that unfolding bufs_ok_def by blast
  have ne: "e_data y \<noteq> Some p" if "(x, y) \<in> set es" for x y using data [OF that] assms(3) by auto
  have "\<exists>q buf. e_data y = Some q \<and> m' q = Some buf \<and> length buf = asize y" if xy: "(x, y) \<in> set es" for x y
  proof -
    obtain q buf where q: "e_data y = Some q" "m q = Some buf" "length buf = asize y" using data [OF xy] by blast
    then show ?thesis using assms(6) [of q] ne [OF xy] by auto
  qed
  moreover have "\<exists>(x, y) \<in> set ((a, b) # es). e_data y = Some q" if "m' q \<noteq> None" for q
  proof (cases "q = p")
    case False
    then have "m q \<noteq> None" using assms(6) [of q] that by (cases "m q") auto
    then show ?thesis using assms(1) unfolding bufs_ok_def by fastforce
  qed (use assms(2) in auto)
  moreover have "distinct (map (\<lambda>(a, b). e_data b) ((a, b) # es))"
    using assms(1,2) ne by (auto simp: bufs_ok_def)
  ultimately show ?thesis using assms(2,4,5) unfolding bufs_ok_def by auto
qed

lemma tidy_insert:
  assumes t: "tidy c es" and room: "room_for c (KES_ALIGN (e_data_size b) 64)" and cfg: "config_ok (c_config c)"
    and b: "resting b" "slot es (e_id b) = None" "e_data b = Some p" "\<not> pinned b"
    and f: "m_next c \<le> p" "a < m_next c'" "p < m_next c'" "m_next c \<le> m_next c'"
    and c': "m_bufs c' p = Some buf" "length buf = asize b" "\<And>q. q \<noteq> p \<Longrightarrow> map_option length (m_bufs c' q) = map_option length (m_bufs c q)"
      "c_config c' = c_config c" "\<not> c_cache_lock c'" "cs_entries_cached (c_stats c') = cs_entries_cached (c_stats c) + 1"
      "cs_memory_used (c_stats c') = cs_memory_used (c_stats c) + KES_ALIGN (e_data_size b) 64"
      "cs_entries_pinned (c_stats c') = cs_entries_pinned (c_stats c)"
  shows "tidy c' ((a, b) # es)"
proof -
  let ?s = "c_stats c"
  have cnt: "unat (cs_entries_cached ?s) = length es" "unat (cs_memory_used ?s) = mem es"
      "unat (cs_entries_pinned ?s) = count pinned es" "length es \<le> unat (cc_max_entries (c_config c))" "mem es \<le> unat (cc_max_memory (c_config c))"
    using t by (simp_all add: tidy_def counts_def within_def)
  have n1: "unat (cs_entries_cached ?s + 1) = length es + 1" using cnt(1,4) cfg by (subst unat_plus_one) (simp_all add: config_ok_def)
  have n2: "unat (cs_memory_used ?s + KES_ALIGN (e_data_size b) 64) = mem es + asize b"
    using cnt(2,5) cfg asize_pos [OF b(1)] by (subst unat_add_no_overflow) (simp_all add: config_ok_def asize_def)
  have "counts c' ((a, b) # es)" using cnt(3) n1 n2 c'(6-8) b(4) by (simp add: counts_def)
  moreover have "within (c_config c') ((a, b) # es)"
    using room n1 n2 c'(4) by (simp add: within_def room_for_def word_le_nat_alt)
  moreover have "keyed ((a, b) # es)"
    using t slot_NoneD [OF b(2)] by (force simp: tidy_def keyed_def)
  moreover have none: "m_bufs c p = None" using t f(1) by (force simp: tidy_def fresh_def)
  have "bufs_ok (m_bufs c') ((a, b) # es)"
    by (rule bufs_ok_insert [where m = "m_bufs c" and m' = "m_bufs c'", OF _ b(3) none c'(1-3)]) (use t in \<open>simp add: tidy_def\<close>)
  moreover have "fresh c' ((a, b) # es)"
  proof -
    have fr: "fresh c es" using t by (simp add: tidy_def)
    have "q < m_next c'" if "m_bufs c' q \<noteq> None" for q
    proof (cases "q = p")
      case False
      then have "m_bufs c q \<noteq> None" using c'(3) [of q] that by (cases "m_bufs c q") auto
      then show ?thesis using fr f(4) by (fastforce simp: fresh_def)
    qed (use f in simp)
    then show ?thesis using fr f by (fastforce simp: fresh_def)
  qed
  ultimately show ?thesis using t b(1) c'(5) by (simp add: tidy_def)
qed

section \<open>The miss path\<close>

definition room_step :: "u64 \<Rightarrow> 'd view \<Rightarrow> bool \<times> 'd view" where
  "room_step needed s = (if room_for (snd s) needed then (True, s) else room_walk needed (rev (map fst (fst s))) s)"

definition end_core :: "'d kes_cache \<Rightarrow> 'd kes_cache" where
  "end_core c = c\<lparr>c_inflight_lookups := c_inflight_lookups c - 1\<rparr>"

definition miss :: "kes_extent_id \<Rightarrow> 'd view \<Rightarrow> (int \<times> addr option) \<times> 'd view" where
  "miss i s = (let (fits, es, c1) = room_step (KES_ALIGN (extent_data_size i) KES_CACHE_ALIGNMENT) s; (f1, c2) = may_fail c1 in
     if \<not> fits then ((KES_ERROR_BUSY, None), es, end_core c1)
     else if f1 then ((KES_ERROR_NOMEM, None), es, end_core c2)
     else let a = m_next c2; now = fst (get_timestamp c2);
              (f2, c3) = may_fail (c2\<lparr>m_next := a + 1, m_ticks := m_ticks c2 + 1\<rparr>) in
     if f2 then ((KES_ERROR_NOMEM, None), es, end_core c3)
     else let p = m_next c3; b = new_body now i p;
              c4 = c3\<lparr>m_bufs := (m_bufs c3)(p \<mapsto> map (m_junk c3 p) [0..<asize b]), m_next := p + 1\<rparr>;
              c5 = publish_core b c4; r = load_result c5 i b in
     ((load_code (fst r), if fst r = KES_SUCCESS then Some p else None), (a, loaded_body (fst r) b) # es, retry_core r b c5))"

lemma may_fail_core: "may_fail (core c) = (fst (may_fail c), core (snd (may_fail c)))"
  by (auto simp: may_fail_def split: list.splits)

lemma may_fail_upd:
  assumes "may_fail c = (f, c')"
  obtains x where "c' = c\<lparr>m_sched := x\<rparr>"
  using assms that [of "m_sched c'"] by (auto simp: may_fail_def split: list.splits)

lemma core_mach [simp]: "m_ticks (core c) = m_ticks c" "m_junk (core c) = m_junk c" "m_clock (core c) = m_clock c"
  by (simp_all add: core_def)

lemma may_fail_heap: "may_fail (c\<lparr>m_heap := h\<rparr>) = (fst (may_fail c), (snd (may_fail c))\<lparr>m_heap := h\<rparr>)"
  by (auto simp: may_fail_def split: list.splits)

lemma end_lookup_eq: "\<not> c_cache_lock c \<Longrightarrow> end_lookup c = Some (end_core c)"
  by (simp add: end_lookup_def lock_cache_def unlock_cache_def end_core_def)

lemma end_core_core [simp]: "core (end_core c) = end_core (core c)"
  by (simp add: end_core_def)

lemma walking_cong:
  assumes "walking n c es" "m_heap c' = m_heap c" "c_buckets c' = c_buckets c" "c_mru_head c' = c_mru_head c"
    "c_lru_tail c' = c_lru_tail c" "c_bucket_count c' = c_bucket_count c" "c_bucket_mask c' = c_bucket_mask c"
    "m_bufs c' = m_bufs c" "m_next c \<le> m_next c'" "c_stats c' = c_stats c" "c_config c' = c_config c" "c_cache_lock c' = c_cache_lock c"
  shows "walking n c' es"
proof -
  have "fresh c' es" using assms(1,8,9) by (fastforce simp: walking_def tidy_def fresh_def)
  then show ?thesis using assms holds_frame [of c' c] by (simp add: walking_def tidy_def counts_def)
qed

lemma room_step_eq:
  assumes w: "walking None c es" and nd: "needed = KES_ALIGN sz KES_CACHE_ALIGNMENT"
  obtains fits c' es' where "make_room_for_new_entry c sz = Some (fits, c')" "walking None c' es'"
    "room_step needed (es, core c) = (fits, es', core c')" "steady c c'" "fits \<longrightarrow> room_for c' needed"
    "thinned (es, core c) (es', core c')"
proof -
  obtain fits c' es' where r: "make_room_for_new_entry c sz = Some (fits, c')" "walking None c' es'"
    "(if room_for c needed then (True, es, core c) else room_walk needed (rev (map fst es)) (es, core c)) = (fits, es', core c')"
    by (rule make_room_eq [OF w nd])
  have s: "sound (es, core c)" using w walking_distinct [OF w] tidy_sound by (simp add: walking_def sound_def tidy_def)
  have "steady (core c) (core c') \<and> (fits \<longrightarrow> room_for (core c') needed) \<and> thinned (es, core c) (es', core c')"
  proof (cases "room_for c needed")
    case True
    then have "fits" "es' = es" "core c = core c'" using r(3) by simp_all
    then show ?thesis using True by (metis room_for_core steady_refl thinned_refl)
  next
    case False
    then have f: "room_walk needed (rev (map fst es)) (es, core c) = (fits, es', core c')" using r(3) by simp
    then show ?thesis using room_walk_facts [OF f] sound_thin_inv(4) [OF s, of needed "rev (map fst es)"] by simp
  qed
  moreover have "room_step needed (es, core c) = (fits, es', core c')"
    unfolding room_step_def fst_conv snd_conv room_for_core by (rule r(3))
  ultimately show thesis using that [OF r(1,2)] steady_core [of c c'] by simp
qed


text \<open>The entry made for a miss goes into the hash table.\<close>

lemma miss_insert:
  assumes h: "holds c1 es1" "distinct (map fst es1)" "keyed es1" and a: "a \<notin> fst ` set es1" and i: "slot es1 (e_id e) = None"
    and fl: "m_heap c6 = (m_heap c1)(a \<mapsto> e)" "c_buckets c6 = c_buckets c1" "c_mru_head c6 = c_mru_head c1" "c_lru_tail c6 = c_lru_tail c1"
      "c_bucket_count c6 = c_bucket_count c1" "c_bucket_mask c6 = c_bucket_mask c1"
  obtains c7 where "hash_find_or_insert c6 a = Some (None, c7)" "lru c7 (map fst es1)" "chains c7 (insert a (fst ` set es1))"
    "buckets_free c7" "bodies c7 = (map_of es1)(a \<mapsto> extent_body.truncate e)" "core c7 = core c6"
proof -
  define d1 where "d1 = c1\<lparr>m_heap := (m_heap c1)(a := Some e)\<rparr>"
  have fl1: "m_heap c6 = m_heap d1" "c_buckets c6 = c_buckets d1" "c_mru_head c6 = c_mru_head d1" "c_lru_tail c6 = c_lru_tail d1"
    "c_bucket_count c6 = c_bucket_count d1" "c_bucket_mask c6 = c_bucket_mask d1"
    using fl by (simp_all add: d1_def)
  have bd: "bodies c6 = (map_of es1)(a \<mapsto> extent_body.truncate e)" using h(1) fl(1) by (auto simp: bodies_def holds_def fun_eq_iff)
  have bdm: "bodies c6 x = Some y" if "(x, y) \<in> set es1" for x y using that a bd h(2) by (auto simp: image_iff)
  have "lru d1 (map fst es1)" "chains d1 (fst ` set es1)" "buckets_free d1"
    using h(1) a lru_drop [of a "map fst es1" c1 "Some e"] chains_drop [OF a, of c1 "Some e"]
    by (simp_all add: holds_def d1_def buckets_free_def)
  then have "keeps c6 es1"
    using bdm lru_frame [OF fl1(1,3,4)] chains_frame [OF fl1(1,6,5)] fl1(2) by (auto simp: keeps_def buckets_free_def)
  moreover have "m_heap c6 a = Some e" by (simp add: fl(1))
  ultimately show thesis using that hash_insert_holds [of c6 es1 a e] a i h(3) bd by metis
qed

text \<open>With a loaded or failed new entry in front the numbers still agree.\<close>

lemma miss_tidy:
  assumes t: "tidy c1 es1" and i: "slot es1 i = None" "id_ok i" and ok: "read_ok c1" "config_ok (c_config c1)"
    and room: "room_for c1 (KES_ALIGN (extent_data_size i) KES_CACHE_ALIGNMENT)"
    and b: "b = new_body now i (m_next c1 + 1)" and r: "r = load_result (publish_core b d4) i b"
    and d4: "m_bufs d4 = (m_bufs c1)(m_next c1 + 1 \<mapsto> map junk [0..<asize b])" "m_next d4 = m_next c1 + 2" "c_stats d4 = c_stats c1"
      "c_config d4 = c_config c1" "c_read_extent d4 = c_read_extent c1" "c_cache_lock d4 = c_cache_lock c1"
  shows "tidy (retry_core r b (publish_core b d4)) ((m_next c1, loaded_body (fst r) b) # es1)"
proof -
  let ?b = "loaded_body (fst r) b" and ?k = "publish_core b d4" and ?p = "m_next c1 + 1"
  have rb: "resting ?b" "e_data_size ?b = extent_data_size i" "e_data ?b = Some ?p" "e_id ?b = i" "\<not> pinned ?b" "asize ?b = asize b"
    using i(2) by (simp_all add: loaded_body_def b new_body_def resting_def pinned_def asize_def)
  have len: "map_option length (m_bufs (load_core r b ?k) q) = map_option length (m_bufs ?k q)" for q
    unfolding r
    by (rule load_length [of _ ?p "map junk [0..<asize b]"])
       (use d4 ok(1) rb asize_pos [OF rb(1)] in
         \<open>simp_all add: read_ok_def b new_body_def loaded_body_def asize_def split: if_splits\<close>)
  obtain buf where buf: "m_bufs (load_core r b ?k) ?p = Some buf" "length buf = asize b"
    using len [of ?p] by (auto simp: d4(1))
  show ?thesis
  proof (rule tidy_insert [OF t _ _ rb(1) _ rb(3,5)])
    show "m_bufs (retry_core r b ?k) ?p = Some buf" using buf(1) by simp
    show "map_option length (m_bufs (retry_core r b ?k) q) = map_option length (m_bufs c1 q)" if "q \<noteq> ?p" for q
      using len [of q] that by (simp add: d4(1))
  qed (use room ok(2) i rb buf(2) d4 t in
      \<open>simp_all add: publish_core_def stats_def b new_body_def tidy_def\<close>)
qed

lemma miss_loads:
  assumes i: "slot es1 i = None" "id_ok i" and ok: "read_ok c" "config_ok (c_config c)"
  defines "needed \<equiv> KES_ALIGN (extent_data_size i) KES_CACHE_ALIGNMENT"
  assumes c1: "make_room_for_new_entry c (extent_data_size i) = Some (True, c1)" "walking None c1 es1"
      "room_step needed (es, core c) = (True, es1, core c1)" "steady c c1" "room_for c1 needed"
    and f1: "may_fail c1 = (False, c2)" "may_fail (core c1) = (False, core c2)"
    and d2: "d2 = c2\<lparr>m_next := m_next c2 + 1, m_ticks := m_ticks c2 + 1\<rparr>" and f2: "may_fail d2 = (False, d3)"
  obtains c' es' res where "get_extent_miss c i = Some (Inl res, c')" "walking None c' es'" "miss i (es, core c) = (res, es', core c')"
proof -
  obtain x where x: "c2 = c1\<lparr>m_sched := x\<rparr>" by (rule may_fail_upd [OF f1(1)])
  obtain y where y: "d3 = d2\<lparr>m_sched := y\<rparr>" by (rule may_fail_upd [OF f2])
  define a p now where "a = m_next c1" and "p = a + 1" and "now = fst (get_timestamp c2)"
  define b where "b = new_body now i p"
  define d4 where "d4 = d3\<lparr>m_bufs := (m_bufs d3)(p \<mapsto> map (m_junk d3 p) [0..<asize b]), m_next := p + 1\<rparr>"
  define e where "e = extent_body.extend b \<lparr>e_hash_next = None, e_hash_prev = None, e_list_next = None, e_list_prev = None\<rparr>"
  define c6 where "c6 = d4\<lparr>m_heap := (m_heap c1)(a \<mapsto> e)\<rparr>"
  have h1: "holds c1 es1" "tidy c1 es1" "distinct (map fst es1)" "\<not> c_cache_lock c1" "keyed es1"
    using c1(2) walking_distinct [OF c1(2)] by (simp_all add: walking_def tidy_def)
  have a: "a \<notin> fst ` set es1" using h1(2) by (auto simp: tidy_def fresh_def a_def)
  have e: "extent_body.truncate e = b" "e_id e = i" by (simp_all add: e_def b_def new_body_def extent_body.defs)
  have b: "e_data b = Some p" "\<not> e_lock b" "e_ref_count b = 1" "asize b = unat needed"
    by (simp_all add: b_def new_body_def asize_def needed_def)
  have d4: "m_bufs d4 = (m_bufs c1)(p \<mapsto> map (m_junk d3 p) [0..<asize b])" "m_next d4 = a + 2" "c_stats d4 = c_stats c1"
      "c_config d4 = c_config c1" "c_read_extent d4 = c_read_extent c1" "c_cache_lock d4 = c_cache_lock c1" "m_next d3 = p" "a = m_next c2"
    by (simp_all add: d4_def y d2 x a_def p_def)
  have ok1: "read_ok c1" "config_ok (c_config c1)" using ok c1(4) by (simp_all add: read_ok_def steady_def)
  obtain c7 where c7: "hash_find_or_insert c6 a = Some (None, c7)" "lru c7 (map fst es1)" "chains c7 (insert a (fst ` set es1))"
    "buckets_free c7" "bodies c7 = (map_of es1)(a \<mapsto> b)" "core c7 = core c6"
    by (rule miss_insert [OF h1(1,3,5) a, of e c6]) (use i(1) e in \<open>simp_all add: c6_def d4_def y d2 x\<close>)
  have c67: "core c7 = core d4" using c7(6) by (simp add: c6_def)
  define r where "r = load_result (publish_core b c7) i b"
  have ok7: "\<not> c_cache_lock c7" "read_ok c7" "m_bufs c7 p = Some (map (m_junk d3 p) [0..<asize b])"
    using core_eqD(1,14,17) [OF c67] h1(4) ok1(1) d4 by (simp_all add: read_ok_def)
  obtain c' where c': "publish_and_load c7 i a = Some (load_code (fst r), if fst r = KES_SUCCESS then Some p else None, c')"
    "holds c' ((a, loaded_body (fst r) b) # es1)" "core c' = core (retry_core r b (publish_core b c7))"
    using publish_and_load_eq [OF c7(2-4) _ a b(1) ok7(3) b(2,3) ok7(1,2) r_def] c7(5) by metis
  have lr: "load_result (publish_core b d4) i b = r" "core c' = core (retry_core r b (publish_core b d4))"
    using load_result_core [of "publish_core b d4" i b] load_result_core [of "publish_core b c7" i b] c67 c'(3)
    by (simp_all add: r_def)
  have run: "get_extent_miss c i = Some (Inl (load_code (fst r), if fst r = KES_SUCCESS then Some p else None), c')"
  proof -
    have ini: "init_extent_entry i (c2\<lparr>m_next := a + 1\<rparr>) = (e\<lparr>e_data := None, e_state := 0, e_ref_count := 0\<rparr>, d2)"
      by (simp add: init_extent_entry_def get_timestamp_def now_def d2 e_def b_def new_body_def extent_body.defs d4(8) split: prod.splits)
    have al: "extent_alloc_data (d2\<lparr>m_heap := h\<rparr>) (extent_data_size i) = (Some p, d4\<lparr>m_heap := h\<rparr>)" for h
      using f2 b(4) d4(7) by (simp add: extent_alloc_data_def may_fail_heap d4_def needed_def)
    have up: "upd (d4\<lparr>m_heap := h(a \<mapsto> e\<lparr>e_data := None\<rparr>)\<rparr>) a (e_data_update (\<lambda>_. Some p)) = Some (d4\<lparr>m_heap := h(a \<mapsto> e)\<rparr>)" for h
      by (simp add: upd_def e_def b_def new_body_def extent_body.defs)
    have nw: "e\<lparr>e_data := None, e_state := KES_EXTENT_LOADING, e_ref_count := 1\<rparr> = e\<lparr>e_data := None\<rparr>" "e_data_size e = extent_data_size i"
      "m_heap d2 = m_heap c1" by (simp_all add: e_def b_def new_body_def extent_body.defs d2 x)
    show ?thesis
      using c1(1) f1(1) ini al up [of "m_heap c1"] c7(1) c'(1) by (simp add: get_extent_miss_def d4(8) [symmetric] nw c6_def)
  qed
  have "tidy (retry_core r b (publish_core b d4)) ((a, loaded_body (fst r) b) # es1)"
    unfolding a_def
    by (rule miss_tidy [OF h1(2) i ok1 _ _ lr(1) [symmetric]]) (use c1(5) d4 in \<open>simp_all add: needed_def b_def p_def a_def\<close>)
  then have "walking None c' ((a, loaded_body (fst r) b) # es1)"
    using c'(2) lr(2) tidy_cong [of c' "retry_core r b (publish_core b d4)"] by (simp add: walking_def)
  moreover have "miss i (es, core c) = ((load_code (fst r), if fst r = KES_SUCCESS then Some p else None), (a, loaded_body (fst r) b) # es1, core c')"
  proof -
    have nc: "fst (get_timestamp (core c2)) = now" by (simp add: now_def get_timestamp_def core_def split: prod.splits)
    have cf2: "may_fail ((core c2)\<lparr>m_next := m_next c2 + 1, m_ticks := m_ticks (core c2) + 1\<rparr>) = (False, core d3)"
      using may_fail_core [of d2] f2 by (simp add: d2)
    have d: "core d4 = (core d3)\<lparr>m_bufs := (m_bufs d3)(p \<mapsto> map (m_junk d3 p) [0..<asize b]), m_next := p + 1\<rparr>"
      by (simp add: d4_def)
    have l4: "load_result (publish_core b (core d4)) i b = r" using lr(1) load_result_core [of "publish_core b d4" i b] by simp
    have k4: "core c' = retry_core r b (publish_core b (core d4))" using lr(2) by simp
    show ?thesis
      using c1(3) f1(2) cf2 nc d4(7,8) l4 k4 by (simp add: miss_def needed_def Let_def p_def b_def d)
  qed
  ultimately show thesis using that run by blast
qed

text \<open>No memory for the data: the new entry is given back.\<close>

lemma miss_nomem:
  fixes i :: kes_extent_id
  defines "needed \<equiv> KES_ALIGN (extent_data_size i) KES_CACHE_ALIGNMENT"
  assumes c1: "make_room_for_new_entry c (extent_data_size i) = Some (True, c1)" "walking None c1 es1"
      "room_step needed (es, core c) = (True, es1, core c1)"
    and f1: "may_fail c1 = (False, c2)" "may_fail (core c1) = (False, core c2)"
    and d2: "d2 = c2\<lparr>m_next := m_next c2 + 1, m_ticks := m_ticks c2 + 1\<rparr>" and f2: "may_fail d2 = (True, d3)"
  shows "get_extent_miss c i = Some (Inl (KES_ERROR_NOMEM, None), end_core d3)" "walking None (end_core d3) es1"
    "miss i (es, core c) = ((KES_ERROR_NOMEM, None), es1, core (end_core d3))"
proof -
  obtain x where x: "c2 = c1\<lparr>m_sched := x\<rparr>" by (rule may_fail_upd [OF f1(1)])
  obtain y where y: "d3 = d2\<lparr>m_sched := y\<rparr>" by (rule may_fail_upd [OF f2])
  define a now where "a = m_next c2" and "now = fst (get_timestamp c2)"
  have h1: "holds c1 es1" "tidy c1 es1" "\<not> c_cache_lock c1" using c1(2) by (simp_all add: walking_def tidy_def)
  have "a \<notin> fst ` set es1" using h1(2) by (auto simp: tidy_def fresh_def a_def x)
  then have "m_heap d3 a = None" "\<not> c_cache_lock d3" using no_entry_of [OF h1(1)] h1(3) by (simp_all add: y d2 x)
  moreover have "m_heap d2 = m_heap d3" "m_heap c2 = m_heap d3" by (simp_all add: y d2)
  moreover have "get_timestamp (c2\<lparr>m_next := a + 1\<rparr>) = (now, d2)" by (simp add: get_timestamp_def now_def d2 a_def split: prod.splits)
  moreover from calculation have "d3\<lparr>m_heap := (m_heap d3)(a := None)\<rparr> = d3" by (simp add: fun_upd_idem)
  ultimately show "get_extent_miss c i = Some (Inl (KES_ERROR_NOMEM, None), end_core d3)"
    using c1(1) f1(1) f2 end_lookup_eq [of d3]
    by (simp add: get_extent_miss_def a_def [symmetric] init_extent_entry_def extent_alloc_data_def may_fail_heap free_entry_def)
  show "walking None (end_core d3) es1" by (rule walking_cong [OF c1(2)]) (simp_all add: end_core_def y d2 x)
  have "fst (get_timestamp (core c2)) = now" by (simp add: now_def get_timestamp_def core_def split: prod.splits)
  moreover have "may_fail ((core c2)\<lparr>m_next := m_next c2 + 1, m_ticks := m_ticks (core c2) + 1\<rparr>) = (True, core d3)"
    using may_fail_core [of d2] f2 by (simp add: d2)
  ultimately show "miss i (es, core c) = ((KES_ERROR_NOMEM, None), es1, core (end_core d3))"
    using c1(3) f1(2) by (simp add: miss_def needed_def Let_def)
qed

lemma miss_eq:
  assumes w: "walking None c es" and i: "slot es i = None" "id_ok i" and ok: "read_ok c" "config_ok (c_config c)"
  obtains c' es' res where "get_extent_miss c i = Some (Inl res, c')" "walking None c' es'" "miss i (es, core c) = (res, es', core c')"
proof -
  define needed where "needed = KES_ALIGN (extent_data_size i) KES_CACHE_ALIGNMENT"
  obtain fits c1 es1 where c1: "make_room_for_new_entry c (extent_data_size i) = Some (fits, c1)" "walking None c1 es1"
    "room_step needed (es, core c) = (fits, es1, core c1)" "steady c c1" "fits \<longrightarrow> room_for c1 needed"
    "thinned (es, core c) (es1, core c1)" by (rule room_step_eq [OF w needed_def])
  have i1: "slot es1 i = None" by (rule thinned_slot_None [OF c1(6) walking_distinct [OF c1(2)] i(1)])
  obtain f1 c2 where f1: "may_fail c1 = (f1, c2)" by fastforce
  have cf1: "may_fail (core c1) = (f1, core c2)" using may_fail_core [of c1] f1 by simp
  show thesis
  proof (cases "fits \<and> \<not> f1")
    case False
    obtain x where x: "c2 = c1\<lparr>m_sched := x\<rparr>" by (rule may_fail_upd [OF f1])
    define k where "k = (if fits then c2 else c1)"
    have "\<not> c_cache_lock k" using x c1(2) by (simp add: k_def walking_def tidy_def)
    then have "get_extent_miss c i = Some (Inl (if fits then KES_ERROR_NOMEM else KES_ERROR_BUSY, None), end_core k)"
      using False c1(1) f1 end_lookup_eq [of k] by (auto simp: get_extent_miss_def k_def)
    moreover have "walking None (end_core k) es1"
      by (rule walking_cong [OF c1(2)]) (use x in \<open>simp_all add: k_def end_core_def\<close>)
    moreover have "miss i (es, core c) = ((if fits then KES_ERROR_NOMEM else KES_ERROR_BUSY, None), es1, core (end_core k))"
      using False c1(3) cf1 by (auto simp: miss_def needed_def k_def)
    ultimately show thesis using that by blast
  next
    case True
    then have c1': "make_room_for_new_entry c (extent_data_size i) = Some (True, c1)"
      "room_step needed (es, core c) = (True, es1, core c1)" "room_for c1 needed" "may_fail c1 = (False, c2)" "may_fail (core c1) = (False, core c2)"
      using c1(1,3,5) f1 cf1 by simp_all
    obtain f2 d3 where f2: "may_fail (c2\<lparr>m_next := m_next c2 + 1, m_ticks := m_ticks c2 + 1\<rparr>) = (f2, d3)" by fastforce
    show thesis
    proof (cases f2)
      case True
      then have f2': "may_fail (c2\<lparr>m_next := m_next c2 + 1, m_ticks := m_ticks c2 + 1\<rparr>) = (True, d3)" using f2 by simp
      show thesis by (rule that [OF miss_nomem [OF c1'(1) c1(2) c1'(2) [unfolded needed_def] c1'(4,5) refl f2']])
    next
      case False
      have f2': "may_fail (c2\<lparr>m_next := m_next c2 + 1, m_ticks := m_ticks c2 + 1\<rparr>) = (False, d3)" using f2 False by simp
      show thesis
        by (rule miss_loads [OF i1 i(2) ok c1'(1) c1(2) c1'(2) [unfolded needed_def] c1(4) c1'(3) [unfolded needed_def] c1'(4,5) refl f2'])
           (rule that)
    qed
  qed
qed

section \<open>\<open>kes_cache_get_extent\<close>\<close>

definition hit :: "kes_extent_id \<Rightarrow> addr \<Rightarrow> extent_body \<Rightarrow> 'd view \<Rightarrow> (int \<times> addr option) \<times> 'd view" where
  "hit i a b s = (case s of (es, c) \<Rightarrow> let (b1, k) = attach c i b in
     if failed b1 then ((KES_ERROR_IO, None), at a (\<lambda>_. b1) es, end_core k)
     else ((KES_SUCCESS, e_data b), (a, hit_body (fst (get_timestamp c)) b1) # drop_at a es,
       end_core (stats (\<lambda>s. s\<lparr>cs_hits := cs_hits s + 1\<rparr>) (k\<lparr>m_ticks := m_ticks c + 1\<rparr>))))"

definition get_step :: "kes_extent_id \<Rightarrow> 'd view \<Rightarrow> (int \<times> addr option) \<times> 'd view" where
  "get_step i s = (case s of (es, c) \<Rightarrow> let s1 = (es, c\<lparr>c_inflight_lookups := c_inflight_lookups c + 1\<rparr>) in
     (case slot es i of None \<Rightarrow> miss i s1 | Some (a, b) \<Rightarrow> hit i a b s1))"

text \<open>What a lookup leaves alone, the number of lookups in flight apart.\<close>

definition calm :: "'d kes_cache \<Rightarrow> 'd kes_cache \<Rightarrow> bool" where
  "calm c c' \<longleftrightarrow> c_config c' = c_config c \<and> c_read_extent c' = c_read_extent c \<and> c_write_extent c' = c_write_extent c \<and>
     c_bg_threads c' = c_bg_threads c \<and> c_shutdown c' = c_shutdown c \<and> c_destroying c' = c_destroying c"

lemma calm_refl [simp]: "calm c c" and calm_trans: "calm c c1 \<Longrightarrow> calm c1 c2 \<Longrightarrow> calm c c2"
  by (auto simp: calm_def)

lemma steady_calm: "steady c c' \<Longrightarrow> calm c c'"
  by (simp add: steady_def calm_def)

lemma calm_simps [simp]:
  "calm c (end_core c1) = calm c c1" "calm c (publish_core b c1) = calm c c1" "calm c (load_core r b c1) = calm c c1"
  "calm c (retry_core r b c1) = calm c c1" "calm c (c1\<lparr>m_ticks := x1\<rparr>) = calm c c1" "calm c (c1\<lparr>m_next := x2\<rparr>) = calm c c1"
  "calm c (c1\<lparr>m_bufs := x3\<rparr>) = calm c c1" "calm c (c1\<lparr>m_sched := x4\<rparr>) = calm c c1" "calm c (stats f c1) = calm c c1"
  "calm c (c1\<lparr>c_inflight_lookups := x5\<rparr>) = calm c c1" "calm c (core c1) = calm c c1" "calm (core c) c1 = calm c c1"
  by (auto simp: calm_def end_core_def publish_core_def stats_def retry_core_def add_read_def)

lemma inflight_simps [simp]:
  "c_inflight_lookups (end_core c) = c_inflight_lookups c - 1" "c_inflight_lookups (publish_core b c) = c_inflight_lookups c - 1"
  "c_inflight_lookups (stats f c) = c_inflight_lookups c"
  by (simp_all add: end_core_def publish_core_def stats_def)

lemma attach_calm: "attach c i b = (b1, k) \<Longrightarrow> calm c k"
  by (auto simp: attach_def split: if_splits)

lemma room_step_steady: "room_step needed (es, c) = (fits, es', c') \<Longrightarrow> steady c c'"
  using room_walk_facts by (fastforce simp: room_step_def split: if_splits)

lemma miss_calm:
  assumes "miss i (es, c) = (res, es', c')"
  shows "calm c c'" "c_inflight_lookups c' = c_inflight_lookups c - 1"
proof -
  obtain fits es1 c1 where 1: "room_step (KES_ALIGN (extent_data_size i) KES_CACHE_ALIGNMENT) (es, c) = (fits, es1, c1)"
    by (cases "room_step (KES_ALIGN (extent_data_size i) KES_CACHE_ALIGNMENT) (es, c)") auto
  note s = room_step_steady [OF 1]
  obtain f1 c2 where 2: "may_fail c1 = (f1, c2)" by fastforce
  obtain f2 c3 where 3: "may_fail (c2\<lparr>m_next := m_next c2 + 1, m_ticks := m_ticks c2 + 1\<rparr>) = (f2, c3)" by fastforce
  obtain x y where c: "c2 = c1\<lparr>m_sched := x\<rparr>" "c3 = c2\<lparr>m_next := m_next c2 + 1, m_ticks := m_ticks c2 + 1\<rparr>\<lparr>m_sched := y\<rparr>"
    using may_fail_upd [OF 2] may_fail_upd [OF 3] by metis
  have "calm c c1" "c_inflight_lookups c1 = c_inflight_lookups c" using s steady_calm by (simp_all add: steady_def calm_def)
  then show "calm c c'" "c_inflight_lookups c' = c_inflight_lookups c - 1"
    using assms 1 2 3 c by (auto simp: miss_def Let_def split: if_splits)
qed

lemma hit_calm:
  assumes "hit i a b (es, c) = (res, es', c')"
  shows "calm c c'" "c_inflight_lookups c' = c_inflight_lookups c - 1"
proof -
  obtain b1 k where k: "attach c i b = (b1, k)" by fastforce
  note a = attach_calm [OF k] attach_sel(15) [OF k]
  then show "calm c c'" "c_inflight_lookups c' = c_inflight_lookups c - 1"
    using assms k by (auto simp: hit_def Let_def split: if_splits)
qed

lemma get_step_calm:
  assumes "get_step i (es, c) = (res, es', c')"
  shows "calm c c'" "c_inflight_lookups c' = c_inflight_lookups c"
proof -
  have "calm (c\<lparr>c_inflight_lookups := c_inflight_lookups c + 1\<rparr>) c' \<and>
      c_inflight_lookups c' = c_inflight_lookups (c\<lparr>c_inflight_lookups := c_inflight_lookups c + 1\<rparr>) - 1"
  proof (cases "slot es i")
    case None
    then have m: "miss i (es, c\<lparr>c_inflight_lookups := c_inflight_lookups c + 1\<rparr>) = (res, es', c')" using assms by (simp add: get_step_def)
    show ?thesis using miss_calm [OF m] by simp
  next
    case (Some z)
    then have m: "hit i (fst z) (snd z) (es, c\<lparr>c_inflight_lookups := c_inflight_lookups c + 1\<rparr>) = (res, es', c')"
      using assms by (simp add: get_step_def split: prod.splits)
    show ?thesis using hit_calm [OF m] by simp
  qed
  then show "calm c c'" "c_inflight_lookups c' = c_inflight_lookups c" by (simp_all add: calm_def)
qed

lemma id_ok_guard:
  "id_ok i \<longleftrightarrow> \<not> (\<not> KES_IS_POWER_OF_2 (id_block_size i) \<or> id_block_size i < KES_MIN_BLOCK_SIZE \<or>
     id_block_size i > KES_MAX_BLOCK_SIZE) \<and> id_block_count i \<noteq> 0"
  by (auto simp: id_ok_def not_less)

lemma get_eq:
  assumes ok: "cache_ok c es" and i: "id_ok i"
  obtains c' es' result buf where
    "kes_cache_get_extent (Some c) (Some i) (Some q) = Some (result, Some c', Some buf)" "cache_ok c' es'"
    "get_step i (es, core c) = ((result, buf), es', core c')"
proof -
  note k = cache_okD [OF ok]
  define c2 where "c2 = c\<lparr>c_inflight_lookups := c_inflight_lookups c + 1\<rparr>"
  have w2: "walking None c2 es" by (rule walking_cong [OF k(6)]) (simp_all add: c2_def)
  have h2: "holds c2 es" "tidy c2 es" "keyed es" "\<not> c_cache_lock c2" using w2 k(3) by (simp_all add: walking_def tidy_def)
  have r2: "read_ok c2" "config_ok (c_config c2)" using k by (simp_all add: c2_def read_ok_def)
  note hf = hash_find_eq [OF h2(1,3), of i]
  have pre: "kes_cache_get_extent (Some c) (Some i) (Some q) = (do {
           (entry, c3) \<leftarrow> hash_find c2 i;
           (r, c4) \<leftarrow> (case entry of None \<Rightarrow> get_extent_miss c3 i | Some a \<Rightarrow> Some (Inr a, c3));
           (case r of
              Inl (result, buf) \<Rightarrow> Some (result, Some c4, Some buf)
            | Inr a \<Rightarrow> do {
                (result, buf, c5) \<leftarrow> get_extent_hit c4 i a;
                Some (result, Some c5, Some buf) }) })"
    using i k(5,8) unfolding id_ok_guard
    by (simp add: kes_cache_get_extent_def lock_cache_def unlock_cache_def c2_def)
  have c2c: "core c2 = (core c)\<lparr>c_inflight_lookups := c_inflight_lookups (core c) + 1\<rparr>" by (simp add: c2_def)
  have fin: "cache_ok c' es'" if "walking None c' es'" "get_step i (es, core c) = (res, es', core c')" for c' es' res
    using that(1) get_step_calm [OF that(2)] k by (simp add: cache_ok_def calm_def read_ok_def threads_ok_def)
  show thesis
  proof (cases "slot es i")
    case None
    obtain c' es' res where m: "get_extent_miss c2 i = Some (Inl res, c')" "walking None c' es'" "miss i (es, core c2) = (res, es', core c')"
      by (rule miss_eq [OF w2 None i r2])
    obtain result buf where res: "res = (result, buf)" by (cases res)
    have "get_step i (es, core c) = (res, es', core c')" using None m(3) c2c by (simp add: get_step_def)
    then show thesis using that [of result c' buf es'] pre hf None m(1,2) res fin by simp
  next
    case (Some z)
    obtain a b where z: "z = (a, b)" by (cases z)
    have b: "map_of es a = Some b" by (rule slot_map_of [OF k(4) Some [unfolded z]])
    have "a \<in> fst ` set es" using b by (metis map_of_eq_None_iff option.simps(3))
    then obtain c3 where c3: "pin_lookup c2 a = Some c3" "holds c3 (pinat (Some a) es)" "core c3 = core c2"
      by (rule pin_lookup_holds [OF h2(1)])
    have find: "hash_find c2 i = Some (Some a, c3)"
      using hf Some z c3(1) by (auto simp: pin_lookup_def upd_def split: option.splits)
    have t3: "tidy c3 es" "read_ok c3" using h2(2) tidy_cong [OF c3(3)] r2(1) core_eqD(17) [OF c3(3)] by (simp_all add: read_ok_def)
    obtain b1 k1 where at: "attach c3 i b = (b1, k1)" by fastforce
    obtain c' es' where g:
      "get_extent_hit c3 i a = Some (if failed b1 then (KES_ERROR_IO, None, c') else (KES_SUCCESS, e_data b, c'))"
      "walking None c' es'"
      "es' = (if failed b1 then at a (\<lambda>_. b1) es else (a, hit_body (fst (get_timestamp c3)) b1) # drop_at a es)"
      "core c' = (core (if failed b1 then k1 else stats (\<lambda>s. s\<lparr>cs_hits := cs_hits s + 1\<rparr>) (k1\<lparr>m_ticks := m_ticks c3 + 1\<rparr>)))
          \<lparr>c_inflight_lookups := c_inflight_lookups c3 - 1\<rparr>"
      by (rule get_extent_hit_eq [OF c3(2) t3 b at])
    have ac: "attach (core c2) i b = (b1, core k1)" using attach_core [of c3 i b] at c3(3) by simp
    have ts: "fst (get_timestamp (core c2)) = fst (get_timestamp c3)" "m_ticks c3 = m_ticks c"
      using core_eqD(6,7) [OF c3(3)] by (simp_all add: get_timestamp_def c2_def split: prod.splits)
    have ifl: "c_inflight_lookups k1 = c_inflight_lookups c3" using attach_sel(15) [OF at] .
    have "get_step i (es, core c) = (if failed b1 then (KES_ERROR_IO, None) else (KES_SUCCESS, e_data b), es', core c')"
      using Some z ac ts ifl g(3,4) c2c by (simp add: get_step_def hit_def end_core_def stats_def)
    then show thesis
      using that [of "if failed b1 then KES_ERROR_IO else KES_SUCCESS" c' "if failed b1 then None else e_data b" es']
        pre find g(1,2) fin by (cases "failed b1") simp_all
  qed
qed

end
