(* ===== verification/Kes_Cache_Life.thy ===== *)
theory Kes_Cache_Life
  imports Kes_Cache_Miss
begin

text \<open>
  The life of a cache: creation establishes the invariant, starting and stopping the background
  threads and their wake-ups keep it, and destruction frees everything unless an entry is in use.
\<close>

section \<open>Creation and small operations\<close>

lemma holds_empty:
  assumes "m_heap c = (\<lambda>_. None)" "c_buckets c = (\<lambda>_. \<lparr>b_head = None, b_lock = False\<rparr>)" "c_mru_head c = None" "c_lru_tail c = None"
    "c_bucket_count c = 1024" "c_bucket_mask c = 1023"
  shows "holds c []"
proof -
  have "chain_at c b [] \<and> set [] = {a \<in> fst ` set ([] :: (addr \<times> extent_body) list). home c a = Some b}" for b
    using assms by (simp add: chain_at_def)
  then show ?thesis using assms
    by (auto simp: holds_def lru_def chains_def bodies_def buckets_free_def fun_eq_iff)
qed

lemma create_ok:
  assumes "kes_cache_create (Some cfg) m = Inr c" "m_heap m = (\<lambda>_. None)" "m_bufs m = (\<lambda>_. None)" "config_ok cfg"
  shows "cache_ok c []" "c_config c = cfg" "c_stats c = zero_cache_stats" "m_dev c = m_dev m" "c_read_extent c = None"
    "c_write_extent c = None"
proof -
  obtain f1 m1 where 1: "may_fail m = (f1, m1)" by fastforce
  obtain f2 m2 where 2: "may_fail m1 = (f2, m2)" by fastforce
  have mm: "m_heap m2 = m_heap m" "m_bufs m2 = m_bufs m" "m_dev m2 = m_dev m"
    using 1 2 by (auto simp: may_fail_def split: list.splits)
  have c: "c = mach.extend m2
       \<lparr>c_config = cfg, c_stats = zero_cache_stats,
        c_buckets = (\<lambda>_. \<lparr>b_head = None, b_lock = False\<rparr>),
        c_bucket_count = KES_CACHE_DEFAULT_BUCKETS, c_bucket_mask = KES_CACHE_DEFAULT_BUCKETS - 1,
        c_mru_head = None, c_lru_tail = None, c_bg_threads = None, c_shutdown = False,
        c_cache_lock = False, c_inflight_lookups = 0, c_destroying = False,
        c_read_extent = None, c_write_extent = None, c_sync_device = None\<rparr>"
    using assms(1) 1 2 by (simp add: kes_cache_create_def Let_def split: if_splits)
  have sel: "m_heap c = m_heap m2" "m_bufs c = m_bufs m2" "m_dev c = m_dev m2" by (simp_all add: c mach.defs)
  have "holds c []" by (rule holds_empty) (use sel mm assms(2) in \<open>simp_all add: c mach.defs\<close>)
  moreover have "tidy c []" using sel mm assms(3)
    by (auto simp: tidy_def keyed_def bufs_ok_def fresh_def counts_def within_def c mach.defs zero_cache_stats_def)
  ultimately show "cache_ok c []" using assms(4)
    by (simp add: cache_ok_def walking_def read_ok_def threads_ok_def c mach.defs)
  show "c_config c = cfg" "c_stats c = zero_cache_stats" "m_dev c = m_dev m" "c_read_extent c = None" "c_write_extent c = None"
    using sel mm by (simp_all add: c mach.defs)
qed

lemma cache_ok_cong:
  assumes "cache_ok c es" "m_heap c' = m_heap c" "c_buckets c' = c_buckets c" "c_mru_head c' = c_mru_head c"
    "c_lru_tail c' = c_lru_tail c" "c_bucket_count c' = c_bucket_count c" "c_bucket_mask c' = c_bucket_mask c"
    "\<And>p. map_option length (m_bufs c' p) = map_option length (m_bufs c p)" "m_next c' = m_next c"
    "cs_entries_cached (c_stats c') = cs_entries_cached (c_stats c)" "cs_memory_used (c_stats c') = cs_memory_used (c_stats c)"
    "cs_entries_pinned (c_stats c') = cs_entries_pinned (c_stats c)" "c_config c' = c_config c" "\<not> c_cache_lock c'"
    "c_inflight_lookups c' = 0" "\<not> c_destroying c'" "read_ok c'" "threads_ok c'"
  shows "cache_ok c' es"
proof -
  note k = cache_okD [OF assms(1)]
  have none: "m_bufs c' p = None \<longleftrightarrow> m_bufs c p = None" for p
    using assms(8) [of p] by (cases "m_bufs c p"; cases "m_bufs c' p") auto
  have "bufs_ok (m_bufs c') es"
  proof -
    have b: "bufs_ok (m_bufs c) es" using k(2) by (simp add: tidy_def)
    have "\<exists>p buf. e_data y = Some p \<and> m_bufs c' p = Some buf \<and> length buf = asize y" if xy: "(x, y) \<in> set es" for x y
    proof -
      obtain p buf where "e_data y = Some p" "m_bufs c p = Some buf" "length buf = asize y"
        using b xy unfolding bufs_ok_def by blast
      then show ?thesis using assms(8) [of p] by auto
    qed
    then show ?thesis using b none unfolding bufs_ok_def by auto
  qed
  moreover have "fresh c' es" using k(2) none assms(9) by (auto simp: tidy_def fresh_def)
  ultimately show ?thesis
    using k assms holds_frame [of c' c es] by (simp add: cache_ok_def walking_def tidy_def counts_def)
qed

lemma get_stats_eq:
  assumes "cache_ok c es"
  shows "kes_cache_get_stats (Some c) True = Some (KES_SUCCESS, Some c, Some (c_stats c))"
  using cache_okD(5) [OF assms] by (simp add: kes_cache_get_stats_def lock_cache_def unlock_cache_def)

definition cleared :: "kes_cache_stats \<Rightarrow> kes_cache_stats" where
  "cleared s = s\<lparr>cs_hits := 0, cs_misses := 0, cs_evictions := 0, cs_flushes := 0, cs_bytes_read := 0, cs_bytes_written := 0\<rparr>"

lemma reset_stats_eq:
  assumes ok: "cache_ok c es"
  shows "kes_cache_reset_stats (Some c) = Some (KES_SUCCESS, Some (stats cleared c))" "cache_ok (stats cleared c) es"
proof -
  show "kes_cache_reset_stats (Some c) = Some (KES_SUCCESS, Some (stats cleared c))"
    using cache_okD(5) [OF ok] by (simp add: kes_cache_reset_stats_def lock_cache_def unlock_cache_def stats_def cleared_def)
  show "cache_ok (stats cleared c) es"
    by (rule cache_ok_cong [OF ok]) (use cache_okD [OF ok] in \<open>simp_all add: stats_def cleared_def read_ok_def threads_ok_def\<close>)
qed

lemma set_io_ok:
  assumes ok: "cache_ok c es" and rd: "\<And>f d i buf n. rd = Some f \<Longrightarrow> length (fst (snd (f d i buf n))) \<le> unat n"
  obtains c' where "kes_cache_set_io_callbacks (Some c) rd wr sy = (KES_SUCCESS, Some c')" "cache_ok c' es"
    "c' = c\<lparr>c_read_extent := rd, c_write_extent := wr, c_sync_device := sy\<rparr>"
proof -
  let ?c = "c\<lparr>c_read_extent := rd, c_write_extent := wr, c_sync_device := sy\<rparr>"
  have "cache_ok ?c es"
    by (rule cache_ok_cong [OF ok]) (use cache_okD [OF ok] rd in \<open>simp_all add: read_ok_def threads_ok_def\<close>)
  then show thesis using that [of ?c] by (simp add: kes_cache_set_io_callbacks_def)
qed

section \<open>The background threads\<close>

lemma join_threads_ok:
  "i + k \<le> length ts \<Longrightarrow> \<forall>j \<ge> i. j < i + k \<longrightarrow> ts ! j \<Longrightarrow> \<exists>ts'. join_threads ts i k = Some ts'"
proof (induction k arbitrary: ts i)
  case (Suc k)
  have "\<exists>ts'. join_threads (ts[i := False]) (i + 1) k = Some ts'"
    by (rule Suc.IH) (use Suc.prems in \<open>auto simp: nth_list_update\<close>)
  then show ?case using Suc.prems by auto
qed simp

lemma stop_eq:
  assumes ok: "cache_ok c es" and c': "c' = c\<lparr>c_shutdown := True, c_bg_threads := None\<rparr>"
  shows "kes_cache_stop (Some c) = Some (KES_SUCCESS, Some c')" "cache_ok c' es"
proof -
  note k = cache_okD [OF ok]
  show "kes_cache_stop (Some c) = Some (KES_SUCCESS, Some c')"
  proof (cases "c_bg_threads c")
    case None
    then have "c\<lparr>c_shutdown := True\<rparr> = c'" using c' by (cases c) simp
    moreover have "c_bg_threads c' = None" "\<not> c_cache_lock c'" using c' k(5) by simp_all
    ultimately show ?thesis using k(5) by (simp add: kes_cache_stop_def lock_cache_def unlock_cache_def)
  next
    case (Some ts)
    then have "ts = replicate (nat (cc_background_threads (c_config c))) True" using k(11) by (simp add: threads_ok_def)
    then obtain ts' where "join_threads ts 0 (nat (cc_background_threads (c_config c))) = Some ts'"
      using join_threads_ok [of 0 "nat (cc_background_threads (c_config c))" ts] by auto
    then show ?thesis using Some k(5) c' by (simp add: kes_cache_stop_def lock_cache_def unlock_cache_def)
  qed
  show "cache_ok c' es"
    by (rule cache_ok_cong [OF ok]) (use k c' in \<open>simp_all add: read_ok_def threads_ok_def\<close>)
qed

lemma start_threads_eq:
  "\<not> c_cache_lock c \<Longrightarrow> \<exists>x. start_threads c (replicate i True @ replicate k False) i k =
     (if \<exists>j < k. j < length (m_sched c) \<and> m_sched c ! j
      then Some (KES_ERROR_INVALID, c\<lparr>m_sched := x, c_shutdown := False, c_bg_threads := None\<rparr>)
      else Some (KES_SUCCESS, c\<lparr>m_sched := x, c_bg_threads := Some (replicate (i + k) True)\<rparr>))"
proof (induction k arbitrary: c i)
  case 0
  have "c\<lparr>c_bg_threads := t\<rparr> = c\<lparr>m_sched := m_sched c, c_bg_threads := t\<rparr>" for t by (cases c) simp
  then show ?case by (intro exI [of _ "m_sched c"]) simp
next
  case (Suc k)
  let ?ts = "replicate i True @ replicate (Suc k) False"
  have upd: "?ts[i := True] = replicate (Suc i) True @ replicate k False"
    by (simp add: list_update_append replicate_app_Cons_same)
  obtain ts' where j: "join_threads ?ts 0 i = Some ts'" using join_threads_ok [of 0 i ?ts] by (auto simp: nth_append)
  show ?case
  proof (cases "m_sched c")
    case Nil
    then have "\<exists>x. start_threads c (replicate (Suc i) True @ replicate k False) (Suc i) k =
        Some (KES_SUCCESS, c\<lparr>m_sched := x, c_bg_threads := Some (replicate (Suc i + k) True)\<rparr>)"
      using Suc.IH [OF Suc.prems, of "Suc i"] by simp
    then show ?thesis using Nil upd by (simp add: may_fail_def)
  next
    case (Cons f fs)
    show ?thesis
    proof (cases f)
      case True
      then have "\<exists>j < Suc k. j < length (m_sched c) \<and> m_sched c ! j" using Cons by auto
      moreover have "start_threads c ?ts i (Suc k) =
          Some (KES_ERROR_INVALID, c\<lparr>m_sched := fs, c_shutdown := False, c_bg_threads := None\<rparr>)"
        using Cons True j Suc.prems by (cases c) (simp add: may_fail_def lock_cache_def unlock_cache_def)
      ultimately show ?thesis by auto
    next
      case False
      have ex: "(\<exists>j < Suc k. j < length (m_sched c) \<and> m_sched c ! j) \<longleftrightarrow> (\<exists>j < k. j < length fs \<and> fs ! j)"
        using Cons False by (simp add: Ex_less_Suc2)
      from Suc.IH [of "c\<lparr>m_sched := fs\<rparr>" "Suc i"] show ?thesis
        using Cons False Suc.prems upd ex by (auto simp: may_fail_def)
    qed
  qed
qed

definition start_code :: "'d kes_cache \<Rightarrow> int" where
  "start_code c = (let n = nat (cc_background_threads (c_config c)) in
     if cc_background_threads (c_config c) \<le> 0 then KES_ERROR_INVALID
     else if c_bg_threads c \<noteq> None then KES_ERROR_EXISTS
     else if m_sched c \<noteq> [] \<and> hd (m_sched c) then KES_ERROR_NOMEM
     else if \<exists>j < n. j < length (tl (m_sched c)) \<and> tl (m_sched c) ! j then KES_ERROR_INVALID
     else KES_SUCCESS)"

lemma start_eq:
  assumes ok: "cache_ok c es"
  obtains c' where "kes_cache_start (Some c) = Some (start_code c, Some c')" "cache_ok c' es"
    "start_code c = KES_SUCCESS \<Longrightarrow> c_bg_threads c' = Some (replicate (nat (cc_background_threads (c_config c))) True) \<and> \<not> c_shutdown c'"
    "start_code c \<noteq> KES_SUCCESS \<Longrightarrow> c_bg_threads c' = c_bg_threads c" "calm (c'\<lparr>c_bg_threads := c_bg_threads c, c_shutdown := c_shutdown c\<rparr>) c"
    "m_bufs c' = m_bufs c" "m_dev c' = m_dev c"
proof -
  note k = cache_okD [OF ok]
  have same: "cache_ok (c\<lparr>m_sched := x, c_shutdown := y, c_bg_threads := t\<rparr>) es"
    if "\<And>ts. t = Some ts \<Longrightarrow> ts = replicate (nat (cc_background_threads (c_config c))) True" for x y t
    by (rule cache_ok_cong [OF ok]) (use k that in \<open>simp_all add: read_ok_def threads_ok_def\<close>)
  consider "cc_background_threads (c_config c) \<le> 0" | "0 < cc_background_threads (c_config c)" "c_bg_threads c \<noteq> None"
    | "0 < cc_background_threads (c_config c)" "c_bg_threads c = None" by linarith
  then show thesis
  proof cases
    case 3
    define n where "n = nat (cc_background_threads (c_config c))"
    obtain f c1 where f: "may_fail c = (f, c1)" by fastforce
    obtain x where x: "c1 = c\<lparr>m_sched := x\<rparr>" by (rule may_fail_upd [OF f])
    have "(f \<longleftrightarrow> m_sched c \<noteq> [] \<and> hd (m_sched c)) \<and> m_sched c1 = tl (m_sched c)"
      using f by (auto simp: may_fail_def split: list.splits)
    then have fx: "f \<longleftrightarrow> m_sched c \<noteq> [] \<and> hd (m_sched c)" "x = tl (m_sched c)" by (simp_all add: x)
    show thesis
    proof (cases f)
      case True
      have "c1 = c\<lparr>m_sched := x, c_shutdown := c_shutdown c, c_bg_threads := None\<rparr>" using x 3 by (cases c) simp
      then have "cache_ok c1 es" using same [of None "c_shutdown c" x] by simp
      moreover have "kes_cache_start (Some c) = Some (KES_ERROR_NOMEM, Some c1)" using 3 f True by (simp add: kes_cache_start_def)
      moreover have "start_code c = KES_ERROR_NOMEM" using 3 fx True by (simp add: start_code_def)
      ultimately show thesis using that [of c1] x 3 by (simp add: calm_def)
    next
      case False
      define d where "d = c\<lparr>m_sched := x, c_shutdown := False\<rparr>"
      define bad where "bad = (\<exists>j < n. j < length x \<and> x ! j)"
      have md: "m_sched d = x" by (simp add: d_def)
      obtain y where y: "start_threads d (replicate 0 True @ replicate n False) 0 n =
         (if bad then Some (KES_ERROR_INVALID, d\<lparr>m_sched := y, c_shutdown := False, c_bg_threads := None\<rparr>)
          else Some (KES_SUCCESS, d\<lparr>m_sched := y, c_bg_threads := Some (replicate (0 + n) True)\<rparr>))"
        using start_threads_eq [of d 0 n, unfolded md, folded bad_def] k(5) by (auto simp: d_def)
      define c' where "c' = c\<lparr>m_sched := y, c_shutdown := False, c_bg_threads := (if bad then None else Some (replicate n True))\<rparr>"
      have code: "start_code c = (if bad then KES_ERROR_INVALID else KES_SUCCESS)"
        using 3 fx False by (auto simp: start_code_def bad_def n_def Let_def)
      have "kes_cache_start (Some c) = Some (start_code c, Some c')"
        using 3 f False y code by (cases bad) (simp_all add: kes_cache_start_def x d_def c'_def n_def)
      moreover have "cache_ok c' es" unfolding c'_def by (rule same) (auto simp: n_def split: if_splits)
      ultimately show thesis using that [of c'] 3 code by (auto simp: c'_def n_def calm_def split: if_splits)
    qed
  next
    case 1
    then show thesis using that [of c] ok by (simp add: kes_cache_start_def start_code_def)
  next
    case 2
    then show thesis using that [of c] ok by (simp add: kes_cache_start_def start_code_def)
  qed
qed

text \<open>A wake-up of a background thread, which holds \<open>cache_lock\<close> before and after.\<close>

lemma bg_wakeup_eq:
  assumes ok: "cache_ok c es"
  obtains c' es' where "bg_wakeup (c\<lparr>c_cache_lock := True\<rparr>) = Some (\<not> c_shutdown c, c'\<lparr>c_cache_lock := \<not> c_shutdown c\<rparr>)"
    "cache_ok c' es'" "(if c_shutdown c then (es, core c) else fold visit (map fst es) (es, core c)) = (es', core c')"
proof (cases "c_shutdown c")
  case True
  then show thesis using that [of c es] ok cache_okD(5) [OF ok] by (simp add: bg_wakeup_def unlock_cache_def)
next
  case False
  obtain c' es' where s: "kes_cache_sync (Some c) = Some (KES_SUCCESS, Some c')" "cache_ok c' es'"
    "fold visit (map fst es) (es, core c) = (es', core c')" by (rule sync_eq [OF ok])
  have "cache_sweep c = Some c'" using s(1) by (auto simp: kes_cache_sync_def split: Option.bind_splits)
  moreover have "\<not> c_cache_lock c'" by (rule cache_okD(5) [OF s(2)])
  ultimately have "bg_wakeup (c\<lparr>c_cache_lock := True\<rparr>) = Some (True, c'\<lparr>c_cache_lock := True\<rparr>)"
    using False cache_okD(5) [OF ok] by (simp add: bg_wakeup_def unlock_cache_def lock_cache_def)
  then show thesis using that s False by simp
qed

text \<open>A background thread among threads that keep the cache in order: it always comes back to its wait, and it ends as soon as
  a wait ends with \<open>shutdown\<close> set.\<close>

definition in_order :: "('d kes_cache \<Rightarrow> 'd kes_cache option) \<Rightarrow> bool" where
  "in_order g \<longleftrightarrow> (\<forall>c es. cache_ok c es \<longrightarrow> (\<exists>c' es'. g c = Some c' \<and> cache_ok c' es'))"

definition shuts_down :: "('d kes_cache \<Rightarrow> 'd kes_cache option) \<Rightarrow> bool" where
  "shuts_down g \<longleftrightarrow> (\<forall>c c'. g c = Some c' \<longrightarrow> c_shutdown c')"

lemma bg_loop_eq:
  assumes "cache_ok c es" "\<forall>w \<in> set ws. \<forall>d. in_order (snd w d)"
  shows "\<exists>c' es'. cache_bg_loop ws (c\<lparr>c_cache_lock := True\<rparr>) = Some (c_shutdown c', c'\<lparr>c_cache_lock := \<not> c_shutdown c'\<rparr>) \<and>
    cache_ok c' es' \<and> (ws \<noteq> [] \<and> (\<forall>d. shuts_down (snd (last ws) d)) \<longrightarrow> c_shutdown c')"
  using assms
proof (induction ws arbitrary: c es)
  case Nil
  then show ?case using cache_okD(5) [OF Nil(1)]
    by (intro exI [of _ c] exI [of _ es]) (simp add: cache_bg_loop.simps unlock_cache_def)
next
  case (Cons w ws)
  obtain now others where w: "w = (now, others)" by fastforce
  show ?case
  proof (cases "c_shutdown c")
    case True
    then show ?thesis using Cons(2) by (intro exI [of _ c] exI [of _ es]) (simp add: cache_bg_loop.simps unlock_cache_def)
  next
    case False
    define d where "d = bg_deadline now (cc_sync_interval_ms (c_config c))"
    have nl: "c\<lparr>c_cache_lock := False\<rparr> = c" using cache_okD(5) [OF Cons(2)] by (cases c) simp
    have "in_order (others d)" using bspec [OF Cons(3), of w] by (simp only: w list.set_intros snd_conv)
    then obtain c2 es2 where o: "others d c = Some c2" "cache_ok c2 es2" using Cons(2) unfolding in_order_def by blast
    obtain c3 es3 where b: "bg_wakeup (c2\<lparr>c_cache_lock := True\<rparr>) = Some (\<not> c_shutdown c2, c3\<lparr>c_cache_lock := \<not> c_shutdown c2\<rparr>)"
      "cache_ok c3 es3" "(if c_shutdown c2 then (es2, core c2) else fold visit (map fst es2) (es2, core c2)) = (es3, core c3)"
      by (rule bg_wakeup_eq [OF o(2)])
    have run: "cache_bg_loop (w # ws) (c\<lparr>c_cache_lock := True\<rparr>) =
        (if c_shutdown c2 then Some (True, c3\<lparr>c_cache_lock := False\<rparr>) else cache_bg_loop ws (c3\<lparr>c_cache_lock := True\<rparr>))"
      using False nl o(1) b(1) cache_okD(5) [OF o(2)]
      by (subst cache_bg_loop.simps) (simp add: w unlock_cache_def lock_cache_def d_def)
    show ?thesis
    proof (cases "c_shutdown c2")
      case True
      then have "c_shutdown c3" using b(3) core_eqD(13) [of c2 c3] by simp
      then show ?thesis using run True b(2) by (intro exI [of _ c3] exI [of _ es3]) simp
    next
      case on: False
      have rest: "\<forall>w \<in> set ws. \<forall>d. in_order (snd w d)" using Cons(3) by simp
      have "ws \<noteq> []" if "\<forall>d. shuts_down (snd (last (w # ws)) d)"
        using spec [OF that, of d] o(1) on by (cases ws) (simp_all add: w shuts_down_def)
      then show ?thesis using Cons.IH [OF b(2) rest] run on by fastforce
    qed
  qed
qed

lemma bg_thread_eq:
  assumes "cache_ok c es" "\<forall>w \<in> set ws. \<forall>d. in_order (snd w d)"
  shows "\<exists>c' es'. cache_bg_thread_func ws c = Some (c_shutdown c', c'\<lparr>c_cache_lock := \<not> c_shutdown c'\<rparr>) \<and>
    cache_ok c' es' \<and> (ws \<noteq> [] \<and> (\<forall>d. shuts_down (snd (last ws) d)) \<longrightarrow> c_shutdown c')"
  using bg_loop_eq [OF assms] cache_okD(5) [OF assms(1)] by (simp add: cache_bg_thread_func_def lock_cache_def)

section \<open>Destruction\<close>

fun drain :: "(addr \<times> extent_body) list \<Rightarrow> 'd kes_cache \<Rightarrow> 'd kes_cache" where
  "drain [] c = c"
| "drain ((a, b) # es) c = drain es (if busy b then c else evict_core b c)"

lemma drain_destroying: "drain es (c\<lparr>c_destroying := x\<rparr>) = (drain es c)\<lparr>c_destroying := x\<rparr>"
proof -
  have "evict_core b (c\<lparr>c_destroying := x\<rparr>) = (evict_core b c)\<lparr>c_destroying := x\<rparr>" for b and c :: "'a kes_cache"
    by (cases c) (simp add: evict_core_def stats_def)
  then show ?thesis by (induction es c rule: drain.induct) auto
qed

lemma drain_mach:
  assumes "mach.truncate c = mach.truncate c'"
  shows "mach.truncate (drain es c) = mach.truncate (drain es c')"
  using assms
proof (induction es arbitrary: c c')
  case (Cons x es)
  obtain a b where x: "x = (a, b)" by (cases x)
  have "mach.truncate (evict_core b c) = mach.truncate (evict_core b c')"
    using Cons.prems unfolding mach.truncate_def by (simp add: evict_core_def stats_def)
  then have "mach.truncate (drain es (evict_core b c)) = mach.truncate (drain es (evict_core b c'))" by (rule Cons.IH)
  then show ?case using Cons.IH [OF Cons.prems] x by simp
qed simp

lemma core_life [simp]:
  "core (c\<lparr>c_shutdown := x1\<rparr>) = (core c)\<lparr>c_shutdown := x1\<rparr>" "core (c\<lparr>c_bg_threads := x2\<rparr>) = (core c)\<lparr>c_bg_threads := x2\<rparr>"
  "core (c\<lparr>c_read_extent := x3\<rparr>) = (core c)\<lparr>c_read_extent := x3\<rparr>" "core (c\<lparr>c_write_extent := x4\<rparr>) = (core c)\<lparr>c_write_extent := x4\<rparr>"
  "core (c\<lparr>c_sync_device := x5\<rparr>) = (core c)\<lparr>c_sync_device := x5\<rparr>"
  by (simp_all add: core_def)

lemma fold_discard_eq:
  assumes "distinct (map fst (us @ ws))" "\<forall>(a, b) \<in> set ws. resting b"
  shows "fold discard (map fst ws) (us @ ws, c) = (us @ filter (\<lambda>(a, b). busy b) ws, drain ws c)"
  using assms
proof (induction ws arbitrary: us c)
  case (Cons x ws)
  obtain a b where x: "x = (a, b)" by (cases x)
  have m: "map_of (us @ x # ws) a = Some b" using map_of_is_SomeI [of "us @ x # ws" a b] Cons.prems(1) x by simp
  have ev: "evictable b True \<longleftrightarrow> \<not> busy b" using evictable_discard Cons.prems(2) x by simp
  have na: "a \<notin> fst ` set us" "a \<notin> fst ` set ws" using Cons.prems(1) x by (force simp: image_iff)+
  show ?case
  proof (cases "busy b")
    case True
    then show ?thesis using Cons.IH [of "us @ [x]" c] Cons.prems m ev x by (simp add: discard_def)
  next
    case False
    then show ?thesis using Cons.IH [of us "evict_core b c"] Cons.prems m ev x drop_at_split [OF na, of b] by (simp add: discard_def)
  qed
qed simp

text \<open>The drain: the entries that nobody uses leave the cache, the others decide how the call ends.\<close>

lemma destroy_drains:
  assumes ok: "cache_ok c es" and c1: "c1 = c\<lparr>c_shutdown := True, c_bg_threads := None\<rparr>" and es': "es' = filter (\<lambda>(a, b). busy b) es"
  obtains c' where "kes_cache_destroy (Some c) = (if es' \<noteq> [] then Some (KES_ERROR_BUSY, Some (Inr (c'\<lparr>c_destroying := False\<rparr>)))
      else Some (KES_SUCCESS, Some (Inl (mach.truncate c'))))"
    "walking None c' es'" "core c' = drain es ((core c1)\<lparr>c_destroying := True\<rparr>)" "steady (c1\<lparr>c_destroying := True\<rparr>) c'"
    "c_inflight_lookups c' = 0"
proof -
  note st = stop_eq [OF ok c1] and k = cache_okD [OF ok]
  note k1 = cache_okD [OF st(2)]
  define c3 where "c3 = c1\<lparr>c_cache_lock := True, c_destroying := True\<rparr>"
  have hd: "c_mru_head c3 = first (map fst es) None" using k1(1) by (simp add: holds_def lru_def c3_def)
  have h3: "holds c3 es" using k1(1) by (simp add: c3_def)
  have mem: "y \<in> fst ` set es" if "first (map fst es) None = Some y" for y using first_SomeD [OF that] by simp
  obtain c4 where c4: "pin_next c3 (first (map fst es) None) = Some c4" "holds c4 (pinat (first (map fst es) None) es)" "core c4 = core c3"
    by (rule pin_next_holds [OF h3 mem])
  define c5 where "c5 = c4\<lparr>c_cache_lock := False\<rparr>"
  have l4: "c_cache_lock c4" using core_eqD(14) [OF c4(3)] by (simp add: c3_def)
  have cr5: "core c5 = (core c1)\<lparr>c_destroying := True\<rparr>" using c4(3) k1(5) by (simp add: c5_def c3_def)
  have t5: "tidy c5 es" using k1(2) core_eqD(1,2,8,9) [of c5 "c1\<lparr>c_destroying := True\<rparr>"] cr5
    by (simp add: tidy_def fresh_def counts_def c5_def)
  have "walking (first (map fst es) None) c5 es" using c4(2) t5 by (simp add: walking_def c5_def)
  from destroy_loop_eq [OF this, of "[]"] obtain c6 es'' where
    c6: "destroy_loop c5 (first (map fst es) None) = Some c6" "walking None c6 es''"
    "fold discard (map fst es) (es, core c5) = (es'', core c6)" by auto
  have r: "\<forall>(a, b) \<in> set es. resting b" using k(2) by (simp add: tidy_def)
  have eq: "es'' = es'" "core c6 = drain es (core c5)"
    using c6(3) fold_discard_eq [of "[]" es "core c5"] r k(4) by (simp_all add: es')
  have s6: "steady c5 c6" by (rule steady_core [OF fold_discard_steady [OF c6(3)]])
  have f6: "c_inflight_lookups c6 = 0" "\<not> c_cache_lock c6" "c_mru_head c6 = first (map fst es') None"
    using s6 core_eqD(15) [of c5 "c1\<lparr>c_destroying := True\<rparr>"] cr5 k1(7) c6(2) eq(1)
    by (simp_all add: steady_def walking_def tidy_def holds_def lru_def)
  have "kes_cache_destroy (Some c) = (if es' \<noteq> [] then Some (KES_ERROR_BUSY, Some (Inr (c6\<lparr>c_destroying := False\<rparr>)))
      else Some (KES_SUCCESS, Some (Inl (mach.truncate c6))))"
    using st(1) k1(5,7) c4(1) l4 c6(1) f6 hd
    by (cases es') (auto simp: kes_cache_destroy_def lock_cache_def unlock_cache_def c3_def c5_def first_def)
  moreover have "steady (c1\<lparr>c_destroying := True\<rparr>) c6"
    by (rule steady_core) (use fold_discard_steady [OF c6(3)] cr5 in simp)
  ultimately show thesis using that [of c6] c6(2) eq cr5 f6(1) by simp
qed

lemma drain_dev: "m_dev (drain es c) = m_dev c"
  by (induction es c rule: drain.induct) auto

lemma destroy_eq:
  assumes ok: "cache_ok c es"
  obtains (busy) c' where "\<exists>(a, b) \<in> set es. busy b" "kes_cache_destroy (Some c) = Some (KES_ERROR_BUSY, Some (Inr c'))"
      "cache_ok c' (filter (\<lambda>(a, b). busy b) es)" "core c' = drain es ((core c)\<lparr>c_shutdown := True, c_bg_threads := None\<rparr>)"
  | (gone) m where "\<forall>(a, b) \<in> set es. \<not> busy b" "kes_cache_destroy (Some c) = Some (KES_SUCCESS, Some (Inl m))"
      "m_heap m = (\<lambda>_. None)" "m_bufs m = (\<lambda>_. None)" "m_dev m = m_dev c" "m = mach.truncate (drain es (core c))"
proof -
  define c1 where "c1 = c\<lparr>c_shutdown := True, c_bg_threads := None\<rparr>"
  define es' where "es' = filter (\<lambda>(a, b). busy b) es"
  note st = stop_eq [OF ok c1_def]
  note k1 = cache_okD [OF st(2)]
  obtain c6 where pre: "kes_cache_destroy (Some c) = (if es' \<noteq> [] then Some (KES_ERROR_BUSY, Some (Inr (c6\<lparr>c_destroying := False\<rparr>)))
      else Some (KES_SUCCESS, Some (Inl (mach.truncate c6))))"
    and c6: "walking None c6 es'" "core c6 = drain es ((core c1)\<lparr>c_destroying := True\<rparr>)" "steady (c1\<lparr>c_destroying := True\<rparr>) c6"
      "c_inflight_lookups c6 = 0" by (rule destroy_drains [OF ok c1_def es'_def])
  show thesis
  proof (cases "es' = []")
    case True
    then have "\<forall>(a, b) \<in> set es. \<not> busy b" by (auto simp: es'_def filter_empty_conv)
    moreover have h6: "holds c6 []" "tidy c6 []" using c6(1) True by (simp_all add: walking_def)
    have "m_heap c6 = (\<lambda>_. None)" using no_entry_of [OF h6(1)] by auto
    moreover have "m_bufs c6 = (\<lambda>_. None)" using h6(2) by (auto simp: tidy_def bufs_ok_def)
    moreover have "m_dev c6 = m_dev c"
      using arg_cong [OF c6(2), of m_dev] by (simp add: drain_dev c1_def)
    moreover have "mach.truncate c6 = mach.truncate (drain es (core c))"
    proof -
      have "mach.truncate c6 = mach.truncate (core c6)" using \<open>m_heap c6 = (\<lambda>_. None)\<close> by (simp add: mach.truncate_def core_def)
      also have "core c6 = (drain es ((core c)\<lparr>c_shutdown := True, c_bg_threads := None\<rparr>))\<lparr>c_destroying := True\<rparr>"
        using c6(2) by (simp add: drain_destroying c1_def)
      also have "mach.truncate (\<dots>) = mach.truncate (drain es ((core c)\<lparr>c_shutdown := True, c_bg_threads := None\<rparr>))"
        by (simp add: mach.truncate_def)
      also have "\<dots> = mach.truncate (drain es (core c))" by (rule drain_mach) (simp_all add: mach.truncate_def)
      finally show ?thesis .
    qed
    ultimately show thesis using gone [of "mach.truncate c6"] pre True by (simp add: mach.truncate_def)
  next
    case False
    then have "\<exists>(a, b) \<in> set es. busy b" by (auto simp: es'_def filter_empty_conv)
    moreover have "core (c6\<lparr>c_destroying := False\<rparr>) = drain es ((core c1)\<lparr>c_destroying := False\<rparr>)"
      by (simp add: c6(2) flip: drain_destroying)
    moreover have "(core c1)\<lparr>c_destroying := False\<rparr> = (core c)\<lparr>c_shutdown := True, c_bg_threads := None\<rparr>"
      using cache_okD(8) [OF ok] by (cases c) (simp add: core_def c1_def)
    moreover have "walking None (c6\<lparr>c_destroying := False\<rparr>) es'" by (rule walking_cong [OF c6(1)]) simp_all
    then have "cache_ok (c6\<lparr>c_destroying := False\<rparr>) es'"
      using c6(3,4) k1(9-11) by (simp add: cache_ok_def steady_def read_ok_def threads_ok_def)
    ultimately show thesis using busy [of "c6\<lparr>c_destroying := False\<rparr>"] pre False by (simp add: es'_def)
  qed
qed

end
