(* ===== verification/Kes_Machine.thy ===== *)
theory Kes_Machine
  imports Kes_Prelude
begin

text \<open>
  Machines that execute sequences of calls, concrete ones that may get stuck (\<open>None\<close>) and abstract
  ones that may not, and the simulation of the one by the other. A call answers and either leaves a
  state behind or ends the life of the machine (\<open>Inl\<close>).
\<close>

fun runs :: "('x \<Rightarrow> 'c \<Rightarrow> ('r \<times> ('m + 'c)) option) \<Rightarrow> 'x list \<Rightarrow> 'c \<Rightarrow> ('r list \<times> ('m + 'c)) option" where
  "runs step [] c = Some ([], Inr c)"
| "runs step (x # xs) c = (case step x c of None \<Rightarrow> None
     | Some (r, Inl m) \<Rightarrow> Some ([r], Inl m)
     | Some (r, Inr c1) \<Rightarrow> (case runs step xs c1 of None \<Rightarrow> None | Some (rs, s) \<Rightarrow> Some (r # rs, s)))"

fun total_runs :: "('x \<Rightarrow> 'a \<Rightarrow> 'r \<times> ('m + 'a)) \<Rightarrow> 'x list \<Rightarrow> 'a \<Rightarrow> 'r list \<times> ('m + 'a)" where
  "total_runs step [] s = ([], Inr s)"
| "total_runs step (x # xs) s = (case step x s of (r, Inl m) \<Rightarrow> ([r], Inl m)
     | (r, Inr s1) \<Rightarrow> (case total_runs step xs s1 of (rs, t) \<Rightarrow> (r # rs, t)))"

text \<open>A simulation that may use up a budget of calls.\<close>

locale simulation =
  fixes cstep :: "'x \<Rightarrow> 'c \<Rightarrow> ('r \<times> ('m + 'c)) option"
    and astep :: "'x \<Rightarrow> 'a \<Rightarrow> 'r \<times> ('m + 'a)"
    and related :: "nat \<Rightarrow> 'c \<Rightarrow> 'a \<Rightarrow> bool"
    and final :: "'m \<Rightarrow> bool"
    and admitted :: "'x \<Rightarrow> bool"
    and budget :: nat
  assumes simulates: "related n c s \<Longrightarrow> n < budget \<Longrightarrow> admitted x \<Longrightarrow>
    (\<exists>r m. cstep x c = Some (r, Inl m) \<and> astep x s = (r, Inl m) \<and> final m) \<or>
    (\<exists>r c' s'. cstep x c = Some (r, Inr c') \<and> astep x s = (r, Inr s') \<and> related (Suc n) c' s')"
begin

lemma runs_simulated:
  assumes "related n c s" "n + length xs \<le> budget" "\<forall>x \<in> set xs. admitted x"
  obtains (final) rs m where "runs cstep xs c = Some (rs, Inl m)" "total_runs astep xs s = (rs, Inl m)" "final m"
  | (going) rs c' s' where "runs cstep xs c = Some (rs, Inr c')" "total_runs astep xs s = (rs, Inr s')" "related (n + length xs) c' s'"
  using assms
proof (induction xs arbitrary: n c s thesis)
  case Nil
  then show ?case by simp
next
  case (Cons x xs)
  have n: "n < budget" "admitted x" "Suc n + length xs \<le> budget" "\<forall>x \<in> set xs. admitted x" using Cons.prems(4,5) by simp_all
  consider r m where "cstep x c = Some (r, Inl m)" "astep x s = (r, Inl m)" "final m"
    | r c' s' where "cstep x c = Some (r, Inr c')" "astep x s = (r, Inr s')" "related (Suc n) c' s'"
    using simulates [OF Cons.prems(3) n(1,2)] by blast
  then show ?case
  proof cases
    case (1 r m)
    then show ?thesis using Cons.prems(1) [of "[r]" m] by simp
  next
    case (2 r c1 s1)
    show ?thesis
    proof (rule Cons.IH [OF _ _ 2(3) n(3,4)])
      fix rs m
      assume "runs cstep xs c1 = Some (rs, Inl m)" "total_runs astep xs s1 = (rs, Inl m)" "final m"
      then show ?thesis using 2 Cons.prems(1) [of "r # rs" m] by simp
    next
      fix rs c' s'
      assume "runs cstep xs c1 = Some (rs, Inr c')" "total_runs astep xs s1 = (rs, Inr s')" "related (Suc n + length xs) c' s'"
      then show ?thesis using 2 Cons.prems(2) [of "r # rs" c' s'] by simp
    qed
  qed
qed

end

end
