(* ===== verification/Kes_Cache_World.thy ===== *)
theory Kes_Cache_World
  imports Kes_Cache_Life Kes_Machine
begin

text \<open>
  Clients of the cache: sequences of calls of its functions, of writes into buffers a client holds
  and of wake-ups of the background threads. The abstract machine works on the list of entries,
  most recently used first, without pointers, locks and pins; the code refines it for every
  sequence of calls.
\<close>

section \<open>Calls\<close>

datatype 'd call =
    Get kes_extent_id
  | Put kes_extent_id
  | Mark_Dirty kes_extent_id
  | Modify kes_extent_id nat "u8 list"
  | Pin kes_extent_id
  | Unpin kes_extent_id
  | Flush kes_extent_id
  | Invalidate kes_extent_id
  | Sync
  | Reset_Stats
  | Set_Io "'d read_cb option" "'d write_cb option" "'d sync_cb option"
  | Start
  | Stop
  | Wakeup
  | Destroy

text \<open>A client that holds a reference on an extent marks it dirty and writes \<open>bs\<close> into its buffer from
  offset \<open>off\<close> on, inside the extent; without a reference it has no pointer to write through.\<close>

definition patch :: "nat \<Rightarrow> u8 list \<Rightarrow> u8 list \<Rightarrow> u8 list" where
  "patch off bs buf = take off buf @ overlay bs (drop off buf)"

definition modify_held :: "'d kes_cache \<Rightarrow> kes_extent_id \<Rightarrow> nat \<Rightarrow> u8 list \<Rightarrow> (int \<times> 'd kes_cache option) option" where
  "modify_held c i off bs = do {
     entry \<leftarrow> chain_find (m_heap c) i (b_head (c_buckets c (unat (bucket_idx c i))));
     (case entry of None \<Rightarrow> Some (KES_ERROR_NOTFOUND, Some c)
      | Some a \<Rightarrow> do {
          e \<leftarrow> m_heap c a;
          if e_ref_count e = 0 \<or> off + length bs > unat (e_data_size e) then Some (KES_ERROR_INVALID, Some c)
          else do {
            (r, cache1) \<leftarrow> kes_cache_mark_dirty (Some c) (Some i);
            c1 \<leftarrow> cache1;
            p \<leftarrow> e_data e;
            buf \<leftarrow> m_bufs c1 p;
            Some (r, Some (c1\<lparr>m_bufs := (m_bufs c1)(p \<mapsto> patch off bs buf)\<rparr>)) } }) }"

text \<open>One wake-up of a background thread, if there are any: it runs with \<open>cache_lock\<close> held and gives the
  lock back when it waits again.\<close>

definition wakeup :: "'d kes_cache \<Rightarrow> (int \<times> 'd kes_cache option) option" where
  "wakeup c = (if c_bg_threads c = None then Some (KES_SUCCESS, Some c) else do {
     (goes_on, c1) \<leftarrow> bg_wakeup (c\<lparr>c_cache_lock := True\<rparr>);
     Some (KES_SUCCESS, Some (c1\<lparr>c_cache_lock := False\<rparr>)) })"

definition plain :: "(int \<times> 'd kes_cache option) option \<Rightarrow> ((int \<times> addr option) \<times> ('d mach + 'd kes_cache)) option" where
  "plain x = (case x of Some (r, Some c) \<Rightarrow> Some ((r, None), Inr c) | _ \<Rightarrow> None)"

text \<open>What a call answers (a code and, for \<open>Get\<close>, the buffer) and the cache after it, or the memory when
  the cache is gone; \<open>None\<close> is undefined behaviour or a deadlock.\<close>

fun exec :: "'d call \<Rightarrow> 'd kes_cache \<Rightarrow> ((int \<times> addr option) \<times> ('d mach + 'd kes_cache)) option" where
  "exec (Get i) c = (case kes_cache_get_extent (Some c) (Some i) (Some None) of
     Some (r, Some c1, Some buf) \<Rightarrow> Some ((r, buf), Inr c1) | _ \<Rightarrow> None)"
| "exec (Put i) c = plain (kes_cache_put_extent (Some c) (Some i))"
| "exec (Mark_Dirty i) c = plain (kes_cache_mark_dirty (Some c) (Some i))"
| "exec (Modify i off bs) c = plain (modify_held c i off bs)"
| "exec (Pin i) c = plain (kes_cache_pin_extent (Some c) (Some i))"
| "exec (Unpin i) c = plain (kes_cache_unpin_extent (Some c) (Some i))"
| "exec (Flush i) c = plain (kes_cache_flush_extent (Some c) (Some i))"
| "exec (Invalidate i) c = plain (kes_cache_invalidate (Some c) (Some i))"
| "exec Sync c = plain (kes_cache_sync (Some c))"
| "exec Reset_Stats c = plain (kes_cache_reset_stats (Some c))"
| "exec (Set_Io rd wr sy) c = plain (Some (kes_cache_set_io_callbacks (Some c) rd wr sy))"
| "exec Start c = plain (kes_cache_start (Some c))"
| "exec Stop c = plain (kes_cache_stop (Some c))"
| "exec Wakeup c = plain (wakeup c)"
| "exec Destroy c = (case kes_cache_destroy (Some c) of
     Some (r, Some s) \<Rightarrow> Some ((r, None), s) | _ \<Rightarrow> None)"

definition run :: "'d call list \<Rightarrow> 'd kes_cache \<Rightarrow> ((int \<times> addr option) list \<times> ('d mach + 'd kes_cache)) option" where
  "run = runs exec"

section \<open>The abstract machine\<close>

definition on_slot :: "kes_extent_id \<Rightarrow> 'd view \<Rightarrow> (addr \<Rightarrow> extent_body \<Rightarrow> int \<times> 'd view) \<Rightarrow> (int \<times> addr option) \<times> ('d mach + 'd view)" where
  "on_slot i s f = (case slot (fst s) i of None \<Rightarrow> ((KES_ERROR_NOTFOUND, None), Inr s)
     | Some (a, b) \<Rightarrow> (case f a b of (r, s1) \<Rightarrow> ((r, None), Inr s1)))"

definition bump :: "bool \<Rightarrow> (kes_cache_stats \<Rightarrow> kes_cache_stats) \<Rightarrow> 'd kes_cache \<Rightarrow> 'd kes_cache" where
  "bump p f c = (if p then stats f c else c)"

definition mark_view :: "addr \<Rightarrow> extent_body \<Rightarrow> 'd view \<Rightarrow> 'd view" where
  "mark_view a b s = (case s of (es, c) \<Rightarrow> (if dirty b then es else at a dirty_body es,
     bump (\<not> dirty b) (\<lambda>s. s\<lparr>cs_entries_dirty := cs_entries_dirty s + 1\<rparr>) c))"

fun vstep :: "'d call \<Rightarrow> 'd view \<Rightarrow> (int \<times> addr option) \<times> ('d mach + 'd view)" where
  "vstep (Get i) s = (if id_ok i then (case get_step i s of (r, s1) \<Rightarrow> (r, Inr s1)) else ((KES_ERROR_INVALID, None), Inr s))"
| "vstep (Put i) s = on_slot i s (\<lambda>a b. (KES_SUCCESS, at a put_body (fst s), snd s))"
| "vstep (Mark_Dirty i) s = on_slot i s (\<lambda>a b. (KES_SUCCESS, mark_view a b s))"
| "vstep (Modify i off bs) s = on_slot i s (\<lambda>a b.
     if e_ref_count b = 0 \<or> off + length bs > unat (e_data_size b) then (KES_ERROR_INVALID, s)
     else case mark_view a b s of (es, c) \<Rightarrow> (KES_SUCCESS, es,
       c\<lparr>m_bufs := (m_bufs c)(the (e_data b) \<mapsto> patch off bs (the (m_bufs c (the (e_data b)))))\<rparr>))"
| "vstep (Pin i) s = on_slot i s (\<lambda>a b. (KES_SUCCESS, at a pin_body (fst s),
     bump (\<not> pinned b) (\<lambda>s. s\<lparr>cs_entries_pinned := cs_entries_pinned s + 1\<rparr>) (snd s)))"
| "vstep (Unpin i) s = on_slot i s (\<lambda>a b. (KES_SUCCESS, at a unpin_body (fst s),
     bump (e_pin_count b = 1) (\<lambda>s. s\<lparr>cs_entries_pinned := cs_entries_pinned s - 1\<rparr>) (snd s)))"
| "vstep (Flush i) s = on_slot i s (\<lambda>a b. (flush_code (snd s) i b,
     at a (\<lambda>_. flush_body (flush_back (snd s) i b) b) (fst s), flush_core (flush_back (snd s) i b) b (snd s)))"
| "vstep (Invalidate i) s = on_slot i s (\<lambda>a b. if busy b then (KES_ERROR_BUSY, s)
     else (KES_SUCCESS, drop_at a (fst s),
       bump (dirty b) (\<lambda>s. s\<lparr>cs_entries_dirty := cs_entries_dirty s - 1\<rparr>) (evict_core b (snd s))))"
| "vstep Sync s = ((KES_SUCCESS, None), Inr (fold visit (map fst (fst s)) s))"
| "vstep Reset_Stats s = ((KES_SUCCESS, None), Inr (fst s, stats cleared (snd s)))"
| "vstep (Set_Io rd wr sy) s = ((KES_SUCCESS, None),
     Inr (fst s, (snd s)\<lparr>c_read_extent := rd, c_write_extent := wr, c_sync_device := sy\<rparr>))"
| "vstep Start s = (case kes_cache_start (Some (snd s)) of Some (r, Some c) \<Rightarrow> ((r, None), Inr (fst s, c))
     | _ \<Rightarrow> ((KES_ERROR_INVALID, None), Inr s))"
| "vstep Stop s = ((KES_SUCCESS, None), Inr (fst s, (snd s)\<lparr>c_shutdown := True, c_bg_threads := None\<rparr>))"
| "vstep Wakeup s = ((KES_SUCCESS, None),
     Inr (if c_bg_threads (snd s) = None \<or> c_shutdown (snd s) then s else fold visit (map fst (fst s)) s))"
| "vstep Destroy s = (let es = filter (\<lambda>(a, b). busy b) (fst s) in
     if es = [] then ((KES_SUCCESS, None), Inl (mach.truncate (drain (fst s) (snd s))))
     else ((KES_ERROR_BUSY, None), Inr (es, drain (fst s) ((snd s)\<lparr>c_shutdown := True, c_bg_threads := None\<rparr>))))"

text \<open>The relation between the code's state and the abstract state.\<close>

definition refines :: "((int \<times> addr option) \<times> ('d mach + 'd kes_cache)) option \<Rightarrow>
    (int \<times> addr option) \<times> ('d mach + 'd view) \<Rightarrow> bool" where
  "refines x y \<longleftrightarrow> (case x of None \<Rightarrow> False
     | Some (r, Inl m) \<Rightarrow> y = (r, Inl m) \<and> m_heap m = (\<lambda>_. None) \<and> m_bufs m = (\<lambda>_. None)
     | Some (r, Inr c) \<Rightarrow> (\<exists>es. cache_ok c es \<and> y = (r, Inr (es, core c))))"

definition bounded :: "nat \<Rightarrow> (addr \<times> extent_body) list \<Rightarrow> bool" where
  "bounded n es \<longleftrightarrow> (\<forall>(a, b) \<in> set es. unat (e_pin_count b) \<le> n \<and> unat (e_ref_count b) \<le> n)"

text \<open>A read callback must not write beyond the size it is given.\<close>

fun call_ok :: "'d call \<Rightarrow> bool" where
  "call_ok (Set_Io rd wr sy) = (\<forall>f d i buf n. rd = Some f \<longrightarrow> length (fst (snd (f d i buf n))) \<le> unat n)"
| "call_ok _ = True"

lemma refinesI: "cache_ok c es \<Longrightarrow> y = (r, Inr (es, core c)) \<Longrightarrow> refines (Some (r, Inr c)) y"
  by (auto simp: refines_def)

section \<open>The code refines the abstract machine\<close>

lemma plainI: "x = Some (r, Some c) \<Longrightarrow> plain x = Some ((r, None), Inr c)"
  by (simp add: plain_def)

lemma length_patch: "off + length bs \<le> length buf \<Longrightarrow> length (patch off bs buf) = length buf"
  by (simp add: patch_def length_overlay)

lemma get_refines:
  assumes ok: "cache_ok c es"
  shows "refines (exec (Get i) c) (vstep (Get i) (es, core c))"
proof (cases "id_ok i")
  case True
  obtain c' es' result buf where
    "kes_cache_get_extent (Some c) (Some i) (Some None) = Some (result, Some c', Some buf)" "cache_ok c' es'"
    "get_step i (es, core c) = ((result, buf), es', core c')" by (rule get_eq [OF ok True])
  then show ?thesis using True by (auto simp: refines_def)
next
  case False
  then have "kes_cache_get_extent (Some c) (Some i) (Some None) = Some (KES_ERROR_INVALID, Some c, Some None)"
    unfolding id_ok_guard by (auto simp: kes_cache_get_extent_def)
  then show ?thesis using False ok by (auto simp: refines_def)
qed

lemma put_refines:
  assumes ok: "cache_ok c es"
  shows "refines (exec (Put i) c) (vstep (Put i) (es, core c))"
proof -
  obtain c' where c': "kes_cache_put_extent (Some c) (Some i) = Some (if slot es i = None then KES_ERROR_NOTFOUND else KES_SUCCESS, Some c')"
    "cache_ok c' (case slot es i of None \<Rightarrow> es | Some (a, b) \<Rightarrow> at a put_body es)" "core c' = core c" by (rule put_eq [OF ok])
  show ?thesis unfolding exec.simps plainI [OF c'(1)]
    by (rule refinesI [OF c'(2)]) (simp add: on_slot_def c'(3) split: option.splits)
qed

lemma mark_refines:
  assumes ok: "cache_ok c es"
  shows "refines (exec (Mark_Dirty i) c) (vstep (Mark_Dirty i) (es, core c))"
proof -
  obtain c' where c': "kes_cache_mark_dirty (Some c) (Some i) = Some (if slot es i = None then KES_ERROR_NOTFOUND else KES_SUCCESS, Some c')"
    "cache_ok c' (case slot es i of Some (a, b) \<Rightarrow> if dirty b then es else at a dirty_body es | _ \<Rightarrow> es)"
    "core c' = (case slot es i of Some (a, b) \<Rightarrow>
        if dirty b then core c else stats (\<lambda>s. s\<lparr>cs_entries_dirty := cs_entries_dirty s + 1\<rparr>) (core c) | _ \<Rightarrow> core c)"
    by (rule mark_dirty_eq [OF ok])
  show ?thesis unfolding exec.simps plainI [OF c'(1)]
    by (rule refinesI [OF c'(2)]) (simp add: on_slot_def mark_view_def bump_def c'(3) split: option.splits)
qed

lemma modify_refines:
  assumes ok: "cache_ok c es"
  shows "refines (exec (Modify i off bs) c) (vstep (Modify i off bs) (es, core c))"
proof -
  note k = cache_okD [OF ok]
  have look: "chain_find (m_heap c) i (b_head (c_buckets c (unat (bucket_idx c i)))) = Some (map_option fst (slot es i))"
    by (rule chain_lookup [OF holds_keeps [OF k(1)] k(3)])
  show ?thesis
  proof (cases "slot es i")
    case None
    then show ?thesis using look ok by (auto simp: modify_held_def plain_def refines_def on_slot_def)
  next
    case (Some z)
    obtain a b where z: "z = (a, b)" by (cases z)
    obtain e p buf where e: "m_heap c a = Some e" "extent_body.truncate e = b" "resting b" "e_data b = Some p" "m_bufs c p = Some buf"
      "length buf = asize b" "e_data e = Some p" by (rule slot_entry [OF ok Some [unfolded z]])
    have sel: "e_ref_count e = e_ref_count b" "e_data_size e = e_data_size b" using e(2) by auto
    show ?thesis
    proof (cases "e_ref_count b = 0 \<or> off + length bs > unat (e_data_size b)")
      case True
      then show ?thesis using look Some z e sel ok by (auto simp: modify_held_def plain_def refines_def on_slot_def)
    next
      case False
      obtain c' where c': "kes_cache_mark_dirty (Some c) (Some i) = Some (if slot es i = None then KES_ERROR_NOTFOUND else KES_SUCCESS, Some c')"
        "cache_ok c' (case slot es i of Some (a, b) \<Rightarrow> if dirty b then es else at a dirty_body es | _ \<Rightarrow> es)"
        "core c' = (case slot es i of Some (a, b) \<Rightarrow>
            if dirty b then core c else stats (\<lambda>s. s\<lparr>cs_entries_dirty := cs_entries_dirty s + 1\<rparr>) (core c) | _ \<Rightarrow> core c)"
        by (rule mark_dirty_eq [OF ok])
      have mv: "mark_view a b (es, core c) = (if dirty b then es else at a dirty_body es, core c')"
        using c'(3) Some z by (simp add: mark_view_def bump_def)
      have "m_bufs (core c') = m_bufs c" unfolding c'(3) using Some z by (simp add: stats_def)
      then have bf: "m_bufs c' = m_bufs c" by simp
      let ?c = "c'\<lparr>m_bufs := (m_bufs c')(p \<mapsto> patch off bs buf)\<rparr>"
      have ex: "exec (Modify i off bs) c = Some ((KES_SUCCESS, None), Inr ?c)"
        using look Some z False e sel c'(1) bf by (simp add: modify_held_def plain_def)
      have len: "length (patch off bs buf) = length buf" by (rule length_patch) (use False asize_pos [OF e(3)] e(6) in simp)
      have "cache_ok ?c (if dirty b then es else at a dirty_body es)"
        by (rule cache_ok_cong) (use c'(2) Some z bf e(5) len cache_okD [OF c'(2)] in \<open>simp_all add: read_ok_def threads_ok_def\<close>)
      then show ?thesis unfolding ex
        by (rule refinesI) (use Some z False mv e(4,5) bf in \<open>simp add: on_slot_def\<close>)
    qed
  qed
qed

lemma pin_refines:
  assumes ok: "cache_ok c es" and n: "bounded n es" "n < 2 ^ 32 - 1"
  shows "refines (exec (Pin i) c) (vstep (Pin i) (es, core c))"
proof -
  have max: "unat (e_pin_count b) < 2 ^ 32 - 1" if "slot es i = Some (a, b)" for a b
    using slot_SomeD [OF that] n by (auto simp: bounded_def)
  obtain c' where c': "kes_cache_pin_extent (Some c) (Some i) = Some (if slot es i = None then KES_ERROR_NOTFOUND else KES_SUCCESS, Some c')"
    "cache_ok c' (case slot es i of Some (a, b) \<Rightarrow> at a pin_body es | _ \<Rightarrow> es)"
    "core c' = (case slot es i of Some (a, b) \<Rightarrow>
        if pinned b then core c else stats (\<lambda>s. s\<lparr>cs_entries_pinned := cs_entries_pinned s + 1\<rparr>) (core c) | _ \<Rightarrow> core c)"
    by (rule pin_eq [OF ok max])
  show ?thesis unfolding exec.simps plainI [OF c'(1)]
    by (rule refinesI [OF c'(2)]) (simp add: on_slot_def bump_def c'(3) split: option.splits)
qed

lemma unpin_refines:
  assumes ok: "cache_ok c es"
  shows "refines (exec (Unpin i) c) (vstep (Unpin i) (es, core c))"
proof -
  obtain c' where c': "kes_cache_unpin_extent (Some c) (Some i) = Some (if slot es i = None then KES_ERROR_NOTFOUND else KES_SUCCESS, Some c')"
    "cache_ok c' (case slot es i of Some (a, b) \<Rightarrow> at a unpin_body es | _ \<Rightarrow> es)"
    "core c' = (case slot es i of Some (a, b) \<Rightarrow>
        if e_pin_count b = 1 then stats (\<lambda>s. s\<lparr>cs_entries_pinned := cs_entries_pinned s - 1\<rparr>) (core c) else core c | _ \<Rightarrow> core c)"
    by (rule unpin_eq [OF ok])
  show ?thesis unfolding exec.simps plainI [OF c'(1)]
    by (rule refinesI [OF c'(2)]) (simp add: on_slot_def bump_def c'(3) split: option.splits)
qed

lemma flush_code_core [simp]: "flush_code (core c) i b = flush_code c i b" "flush_back (core c) i b = flush_back c i b"
  by (simp_all add: flush_code_def flush_back_def)

lemma flush_refines:
  assumes ok: "cache_ok c es"
  shows "refines (exec (Flush i) c) (vstep (Flush i) (es, core c))"
proof -
  obtain c' where c': "kes_cache_flush_extent (Some c) (Some i) = Some (case slot es i of None \<Rightarrow> KES_ERROR_NOTFOUND | Some (a, b) \<Rightarrow> flush_code c i b, Some c')"
    "cache_ok c' (case slot es i of Some (a, b) \<Rightarrow> at a (\<lambda>_. flush_body (flush_back c i b) b) es | _ \<Rightarrow> es)"
    "core c' = (case slot es i of Some (a, b) \<Rightarrow> flush_core (flush_back c i b) b (core c) | _ \<Rightarrow> core c)" by (rule flush_eq [OF ok])
  show ?thesis unfolding exec.simps plainI [OF c'(1)]
    by (rule refinesI [OF c'(2)]) (simp add: on_slot_def c'(3) split: option.splits)
qed

lemma invalidate_refines:
  assumes ok: "cache_ok c es"
  shows "refines (exec (Invalidate i) c) (vstep (Invalidate i) (es, core c))"
proof -
  obtain c' where c': "kes_cache_invalidate (Some c) (Some i) = Some (case slot es i of None \<Rightarrow> KES_ERROR_NOTFOUND
       | Some (a, b) \<Rightarrow> if busy b then KES_ERROR_BUSY else KES_SUCCESS, Some c')"
    "cache_ok c' (case slot es i of Some (a, b) \<Rightarrow> if busy b then es else drop_at a es | _ \<Rightarrow> es)"
    "core c' = (case slot es i of Some (a, b) \<Rightarrow> if busy b then core c
        else if dirty b then stats (\<lambda>s. s\<lparr>cs_entries_dirty := cs_entries_dirty s - 1\<rparr>) (evict_core b (core c))
        else evict_core b (core c) | _ \<Rightarrow> core c)" by (rule invalidate_eq [OF ok])
  show ?thesis unfolding exec.simps plainI [OF c'(1)]
    by (rule refinesI [OF c'(2)]) (simp add: on_slot_def bump_def c'(3) split: option.splits)
qed

lemma sync_refines:
  assumes ok: "cache_ok c es"
  shows "refines (exec Sync c) (vstep Sync (es, core c))"
proof -
  obtain c' es' where c': "kes_cache_sync (Some c) = Some (KES_SUCCESS, Some c')" "cache_ok c' es'"
    "fold visit (map fst es) (es, core c) = (es', core c')" by (rule sync_eq [OF ok])
  show ?thesis unfolding exec.simps plainI [OF c'(1)] by (rule refinesI [OF c'(2)]) (simp add: c'(3))
qed

lemma start_threads_core:
  "start_threads (core c) ts i k = map_option (\<lambda>(r, c'). (r, core c')) (start_threads c ts i k)"
proof (induction k arbitrary: c ts i)
  case (Suc k)
  obtain f c1 where f: "may_fail c = (f, c1)" by fastforce
  then have fc: "may_fail (core c) = (f, core c1)" using may_fail_core [of c] by simp
  show ?case
  proof (cases f)
    case True
    then show ?thesis using f fc
      by (cases "join_threads ts 0 i"; cases "c_cache_lock c1") (simp_all add: lock_cache_def unlock_cache_def)
  next
    case False
    then show ?thesis using f fc Suc.IH by simp
  qed
qed simp

lemma start_core: "kes_cache_start (Some (core c)) = map_option (\<lambda>(r, s). (r, map_option core s)) (kes_cache_start (Some c))"
proof -
  obtain f c1 where f: "may_fail c = (f, c1)" by fastforce
  then have fc: "may_fail (core c) = (f, core c1)" using may_fail_core [of c] by simp
  let ?n = "nat (cc_background_threads (c_config c))"
  have "start_threads ((core c1)\<lparr>c_shutdown := False\<rparr>) (replicate ?n False) 0 ?n =
      map_option (\<lambda>(r, c'). (r, core c')) (start_threads (c1\<lparr>c_shutdown := False\<rparr>) (replicate ?n False) 0 ?n)"
    using start_threads_core [of "c1\<lparr>c_shutdown := False\<rparr>"] by simp
  then show ?thesis using f fc
    by (cases "start_threads (c1\<lparr>c_shutdown := False\<rparr>) (replicate ?n False) 0 ?n") (auto simp: kes_cache_start_def Let_def)
qed

lemma start_refines:
  assumes ok: "cache_ok c es"
  shows "refines (exec Start c) (vstep Start (es, core c))"
proof -
  obtain c' where c': "kes_cache_start (Some c) = Some (start_code c, Some c')" "cache_ok c' es" by (rule start_eq [OF ok])
  show ?thesis unfolding exec.simps plainI [OF c'(1)] by (rule refinesI [OF c'(2)]) (simp add: start_core c'(1))
qed

lemma wakeup_refines:
  assumes ok: "cache_ok c es"
  shows "refines (exec Wakeup c) (vstep Wakeup (es, core c))"
proof (cases "c_bg_threads c")
  case None
  then show ?thesis using ok by (auto simp: wakeup_def plain_def refines_def)
next
  case (Some ts)
  obtain c' es' where c': "bg_wakeup (c\<lparr>c_cache_lock := True\<rparr>) = Some (\<not> c_shutdown c, c'\<lparr>c_cache_lock := \<not> c_shutdown c\<rparr>)"
    "cache_ok c' es'" "(if c_shutdown c then (es, core c) else fold visit (map fst es) (es, core c)) = (es', core c')"
    by (rule bg_wakeup_eq [OF ok])
  have w: "wakeup c = Some (KES_SUCCESS, Some c')" using Some c'(1) cache_okD(5) [OF c'(2)] by (simp add: wakeup_def)
  show ?thesis unfolding exec.simps plainI [OF w] by (rule refinesI [OF c'(2)]) (use c'(3) Some in \<open>auto split: if_splits\<close>)
qed

lemma destroy_refines:
  assumes ok: "cache_ok c es"
  shows "refines (exec Destroy c) (vstep Destroy (es, core c))"
  using ok
proof (cases rule: destroy_eq)
  case (busy c')
  have "filter (\<lambda>(a, b). busy b) es \<noteq> []" using busy(1) by (auto simp: filter_empty_conv)
  then show ?thesis using busy(2-4) by (auto simp: refines_def Let_def)
next
  case (gone m)
  have "filter (\<lambda>(a, b). busy b) es = []" using gone(1) by (auto simp: filter_empty_conv)
  then show ?thesis using gone(2-6) by (simp add: refines_def Let_def)
qed

lemma exec_refines:
  assumes ok: "cache_ok c es" and x: "call_ok x" and n: "bounded n es" "n < 2 ^ 32 - 1"
  shows "refines (exec x c) (vstep x (es, core c))"
proof (cases x)
  case Reset_Stats
  then show ?thesis unfolding Reset_Stats exec.simps plainI [OF reset_stats_eq(1) [OF ok]]
    by (intro refinesI [OF reset_stats_eq(2) [OF ok]]) simp
next
  case (Set_Io rd wr sy)
  obtain c' where c': "kes_cache_set_io_callbacks (Some c) rd wr sy = (KES_SUCCESS, Some c')" "cache_ok c' es"
    "c' = c\<lparr>c_read_extent := rd, c_write_extent := wr, c_sync_device := sy\<rparr>"
    by (rule set_io_ok [OF ok, where rd = rd and wr = wr and sy = sy]) (use x Set_Io in auto)
  then show ?thesis using Set_Io by (auto simp: plain_def refines_def)
next
  case Stop
  show ?thesis unfolding Stop exec.simps plainI [OF stop_eq(1) [OF ok refl]]
    by (rule refinesI [OF stop_eq(2) [OF ok refl]]) simp
qed (use get_refines [OF ok] put_refines [OF ok] mark_refines [OF ok] modify_refines [OF ok] pin_refines [OF ok n]
      unpin_refines [OF ok] flush_refines [OF ok] invalidate_refines [OF ok] sync_refines [OF ok] start_refines [OF ok]
      wakeup_refines [OF ok] destroy_refines [OF ok] in \<open>simp_all only:\<close>)

section \<open>Reference and pin counts grow by one at a time\<close>

lemma unat_minus_one_le: "(w :: u32) > 0 \<Longrightarrow> unat (w - 1) \<le> unat w"
  by (subst unat_diff_le) (auto simp: word_le_nat_alt word_less_nat_alt)

lemma boundedD: "bounded n es \<Longrightarrow> (a, b) \<in> set es \<Longrightarrow> unat (e_pin_count b) \<le> n \<and> unat (e_ref_count b) \<le> n"
  by (auto simp: bounded_def)

lemma bounded_mono: "bounded n es \<Longrightarrow> n \<le> m \<Longrightarrow> bounded m es"
  by (fastforce simp: bounded_def)

lemma bounded_at:
  assumes "bounded n es" "n \<le> m" "\<And>b. unat (e_pin_count b) \<le> n \<Longrightarrow> unat (e_ref_count b) \<le> n \<Longrightarrow>
    unat (e_pin_count (g b)) \<le> m \<and> unat (e_ref_count (g b)) \<le> m"
  shows "bounded m (at a g es)"
  using assms boundedD [OF assms(1)] unfolding bounded_def by (fastforce dest!: set_at)

lemma bounded_drop: "bounded n es \<Longrightarrow> bounded n (drop_at a es)"
  by (auto simp: bounded_def drop_at_def)

lemma bounded_thinned:
  assumes t: "thinned s s'" and d: "sound s'" and n: "bounded n (fst s)"
  shows "bounded n (fst s')"
proof -
  have "unat (e_pin_count b') \<le> n \<and> unat (e_ref_count b') \<le> n" if ab: "(a, b') \<in> set (fst s')" for a b'
  proof -
    have "map_of (fst s') a = Some b'" using d ab by (simp add: sound_def)
    then obtain b where b: "map_of (fst s) a = Some b" "alike b b'" using t unfolding thinned_def by blast
    show ?thesis using boundedD [OF n map_of_SomeD [OF b(1)]] alikeD(4,5) [OF b(2)] by simp
  qed
  then show ?thesis by (auto simp: bounded_def)
qed

lemma room_step_thin:
  assumes "sound s" "room_step needed s = (fits, s')"
  shows "sound s'" "thinned s s'"
  using assms sound_thin_inv(3,4) [OF assms(1), of needed "rev (map fst (fst s))"] by (auto simp: room_step_def split: if_splits)

text \<open>The entries after a miss: those the eviction left, and the new one in front.\<close>

lemma miss_entries:
  assumes "miss i s = (res, s')" "room_step (KES_ALIGN (extent_data_size i) KES_CACHE_ALIGNMENT) s = (fits, s1)"
  obtains "fst s' = fst s1" | a p now r where "fst s' = (a, loaded_body r (new_body now i p)) # fst s1"
proof -
  obtain es1 c1 where s1: "s1 = (es1, c1)" by (cases s1)
  obtain f1 c2 where 2: "may_fail c1 = (f1, c2)" by fastforce
  obtain f2 c3 where 3: "may_fail (c2\<lparr>m_next := m_next c2 + 1, m_ticks := m_ticks c2 + 1\<rparr>) = (f2, c3)" by fastforce
  show thesis using assms 2 3 s1 that by (auto simp: miss_def Let_def split: if_splits)
qed

lemma get_step_bounded:
  assumes s: "sound s" and n: "bounded n (fst s)" "n < 2 ^ 32 - 1" and g: "get_step i s = (res, s')"
  shows "bounded (n + 1) (fst s')"
proof -
  obtain es c where es: "s = (es, c)" by (cases s)
  define s1 where "s1 = (es, c\<lparr>c_inflight_lookups := c_inflight_lookups c + 1\<rparr>)"
  have s1: "sound s1" "bounded n (fst s1)" using s n(1) es sound_bufs [of "c\<lparr>c_inflight_lookups := c_inflight_lookups c + 1\<rparr>" c]
    by (simp_all add: s1_def)
  show ?thesis
  proof (cases "slot es i")
    case None
    then have m: "miss i s1 = (res, s')" using g es by (simp add: get_step_def s1_def Let_def)
    obtain fits t where t: "room_step (KES_ALIGN (extent_data_size i) KES_CACHE_ALIGNMENT) s1 = (fits, t)"
      by (cases "room_step (KES_ALIGN (extent_data_size i) KES_CACHE_ALIGNMENT) s1")
    have bt: "bounded n (fst t)" using bounded_thinned [OF _ _ s1(2)] room_step_thin [OF s1(1) t] by blast
    from m t show ?thesis
    proof (rule miss_entries)
      assume "fst s' = fst t"
      then show ?thesis using bounded_mono [OF bt, of "n + 1"] by simp
    next
      fix a p now r
      assume "fst s' = (a, loaded_body r (new_body now i p)) # fst t"
      moreover have "unat (e_pin_count (loaded_body r (new_body now i p))) = 0" "unat (e_ref_count (loaded_body r (new_body now i p))) \<le> 1"
        by (simp_all add: loaded_body_def new_body_def)
      ultimately show ?thesis using bounded_mono [OF bt, of "n + 1"] by (simp add: bounded_def)
    qed
  next
    case (Some z)
    obtain a b where z: "z = (a, b)" by (cases z)
    have ab: "unat (e_pin_count b) \<le> n" "unat (e_ref_count b) \<le> n"
      using boundedD [OF n(1), of a b] slot_SomeD [OF Some [unfolded z]] es by auto
    have h: "hit i a b s1 = (res, s')" using g es Some z by (simp add: get_step_def s1_def Let_def)
    obtain b1 k where k: "attach (snd s1) i b = (b1, k)" by fastforce
    have b1: "e_pin_count b1 = e_pin_count b" "e_ref_count b1 = e_ref_count b" using attach_sel [OF k] by simp_all
    have "unat (e_ref_count b + 1) = unat (e_ref_count b) + 1" using ab n(2) by (subst unat_plus_one) simp_all
    then have hb: "unat (e_pin_count (hit_body now b1)) \<le> n + 1" "unat (e_ref_count (hit_body now b1)) \<le> n + 1" for now
      using ab b1 by (simp_all add: hit_body_def)
    have "bounded (n + 1) (at a (\<lambda>_. b1) es)" by (rule bounded_at [where g = "\<lambda>_. b1" and n = n]) (use n(1) es ab b1 in simp_all)
    moreover have "bounded (n + 1) ((a, hit_body now b1) # drop_at a es)" for now
      using hb bounded_mono [OF bounded_drop [OF n(1)], of "n + 1" a] es by (simp add: bounded_def)
    ultimately show ?thesis using h k by (auto simp: hit_def s1_def Let_def split: if_splits)
  qed
qed

lemma vstep_bounded:
  assumes s: "sound s" and n: "bounded n (fst s)" "n < 2 ^ 32 - 1" and v: "vstep x s = (r, Inr s')"
  shows "bounded (n + 1) (fst s')"
proof -
  have m: "bounded (n + 1) (fst s)" using bounded_mono [OF n(1)] by simp
  have fv: "bounded (n + 1) (fst (fold visit as s))" for as
    using bounded_thinned [OF _ _ m] sound_thin_inv(1,2) [OF s] by blast
  have at: "bounded (n + 1) (at a g (fst s))"
    if "\<And>b. unat (e_pin_count b) \<le> n \<Longrightarrow> unat (e_ref_count b) \<le> n \<Longrightarrow> unat (e_pin_count (g b)) \<le> n + 1 \<and> unat (e_ref_count (g b)) \<le> n + 1" for a g
    by (rule bounded_at [where g = g, OF n(1) _ that]) simp_all
  show ?thesis
  proof (cases x)
    case (Get i)
    then show ?thesis using v m get_step_bounded [OF s n] by (auto split: if_splits prod.splits)
  next
    case (Put i)
    have "unat (e_pin_count (put_body b)) = unat (e_pin_count b) \<and> unat (e_ref_count (put_body b)) \<le> unat (e_ref_count b)" for b
      by (auto simp: put_body_def unat_minus_one_le)
    note le = this
    have "bounded (n + 1) (at a put_body (fst s))" for a
    proof (rule at)
      show "unat (e_pin_count (put_body b)) \<le> n + 1 \<and> unat (e_ref_count (put_body b)) \<le> n + 1"
        if "unat (e_pin_count b) \<le> n" "unat (e_ref_count b) \<le> n" for b using that le [of b] by simp
    qed
    then show ?thesis using v m Put by (auto simp: on_slot_def split: option.splits)
  next
    case (Mark_Dirty i)
    then show ?thesis using v m at [of dirty_body]
      by (auto simp: on_slot_def mark_view_def dirty_body_def split: option.splits prod.splits if_splits)
  next
    case (Modify i off bs)
    then show ?thesis using v m at [of dirty_body]
      by (auto simp: on_slot_def mark_view_def dirty_body_def split: option.splits prod.splits if_splits)
  next
    case (Pin i)
    have "unat (e_pin_count (pin_body b)) \<le> n + 1 \<and> unat (e_ref_count (pin_body b)) \<le> n + 1"
      if "unat (e_pin_count b) \<le> n" "unat (e_ref_count b) \<le> n" for b
      using that n(2) unat_plus_one [of "e_pin_count b"] by (simp add: pin_body_def)
    then show ?thesis using v m Pin at [of pin_body] by (auto simp: on_slot_def split: option.splits)
  next
    case (Unpin i)
    have "unat (e_pin_count (unpin_body b)) \<le> unat (e_pin_count b) \<and> unat (e_ref_count (unpin_body b)) = unat (e_ref_count b)" for b
      by (auto simp: unpin_body_def unat_minus_one_le)
    note le = this
    have "bounded (n + 1) (at a unpin_body (fst s))" for a
    proof (rule at)
      show "unat (e_pin_count (unpin_body b)) \<le> n + 1 \<and> unat (e_ref_count (unpin_body b)) \<le> n + 1"
        if "unat (e_pin_count b) \<le> n" "unat (e_ref_count b) \<le> n" for b using that le [of b] by simp
    qed
    then show ?thesis using v m Unpin by (auto simp: on_slot_def split: option.splits)
  next
    case (Flush i)
    have "bounded (n + 1) (at a (\<lambda>_. flush_body (flush_back (snd s) i b) b) (fst s))"
      if "slot (fst s) i = Some (a, b)" for a b
      by (rule bounded_at [where g = "\<lambda>_. flush_body (flush_back (snd s) i b) b", OF n(1)]) (use boundedD [OF n(1)] slot_SomeD [OF that] in fastforce)+
    then show ?thesis using v m Flush by (auto simp: on_slot_def split: option.splits)
  next
    case (Invalidate i)
    then show ?thesis using v m bounded_drop [OF m] by (auto simp: on_slot_def split: option.splits if_splits)
  next
    case Destroy
    then show ?thesis using v m by (auto simp: bounded_def Let_def split: if_splits)
  qed (use v m fv in \<open>auto split: option.splits prod.splits if_splits\<close>)
qed

section \<open>Sequences of calls\<close>

definition vrun :: "'d call list \<Rightarrow> 'd view \<Rightarrow> (int \<times> addr option) list \<times> ('d mach + 'd view)" where
  "vrun = total_runs vstep"

lemma cache_ok_sound: "cache_ok c es \<Longrightarrow> sound (es, core c)"
  using cache_okD(2,4) [of c es] by (simp add: sound_def tidy_def)

definition simulated :: "nat \<Rightarrow> 'd kes_cache \<Rightarrow> 'd view \<Rightarrow> bool" where
  "simulated n c s \<longleftrightarrow> cache_ok c (fst s) \<and> bounded n (fst s) \<and> snd s = core c"

definition freed :: "'d mach \<Rightarrow> bool" where
  "freed m \<longleftrightarrow> m_heap m = (\<lambda>_. None) \<and> m_bufs m = (\<lambda>_. None)"

lemma exec_simulates:
  assumes r: "simulated n c s" and n: "n < 2 ^ 32 - 1" and x: "call_ok x"
  shows "(\<exists>r m. exec x c = Some (r, Inl m) \<and> vstep x s = (r, Inl m) \<and> freed m) \<or>
    (\<exists>r c' s'. exec x c = Some (r, Inr c') \<and> vstep x s = (r, Inr s') \<and> simulated (Suc n) c' s')"
proof -
  have k: "cache_ok c (fst s)" "bounded n (fst s)" "s = (fst s, core c)" using r by (simp_all add: simulated_def prod_eq_iff)
  have ref: "refines (exec x c) (vstep x s)" using exec_refines [OF k(1) x k(2) n] k(3) by simp
  obtain q t where e: "exec x c = Some (q, t)" using ref by (cases "exec x c") (auto simp: refines_def)
  show ?thesis
  proof (cases t)
    case (Inl m)
    then show ?thesis using e ref by (simp add: refines_def freed_def)
  next
    case (Inr c1)
    then obtain es1 where es1: "cache_ok c1 es1" "vstep x s = (q, Inr (es1, core c1))" using e ref by (auto simp: refines_def)
    have "sound s" using cache_ok_sound [OF k(1)] k(3) by simp
    then have "bounded (Suc n) es1" using vstep_bounded [OF _ k(2) n es1(2)] by simp
    then show ?thesis using e Inr es1 by (simp add: simulated_def)
  qed
qed

interpretation cm: simulation exec vstep simulated freed call_ok "2 ^ 32 - 1"
  by unfold_locales (rule exec_simulates)

lemma run_refines:
  assumes "cache_ok c es" "bounded n es" "n + length xs \<le> 2 ^ 32 - 1" "\<forall>x \<in> set xs. call_ok x"
  obtains (gone) rs m where "run xs c = Some (rs, Inl m)" "vrun xs (es, core c) = (rs, Inl m)" "m_heap m = (\<lambda>_. None)" "m_bufs m = (\<lambda>_. None)"
  | (alive) rs c' es' where "run xs c = Some (rs, Inr c')" "vrun xs (es, core c) = (rs, Inr (es', core c'))" "cache_ok c' es'"
proof -
  have "simulated n c (es, core c)" using assms(1,2) by (simp add: simulated_def)
  then show thesis using assms(3,4)
    by (rule cm.runs_simulated) (use gone alive in \<open>auto simp: run_def vrun_def freed_def simulated_def\<close>)
qed

end
