(* ===== verification/Kes_Cache_Store.thy ===== *)
theory Kes_Cache_Store
  imports Kes_Cache_World
begin

text \<open>
  The cache as a transparent store: what the extents contain from a client's point of view, the
  buffer of a loaded entry and the device otherwise, changes only by the writes of clients.
  Evictions, write-backs, loads and retries do not change it, and a successful lookup hands out a
  buffer with exactly that content.
\<close>

section \<open>The device behind the callbacks\<close>

type_synonym extent_key = "u64 \<times> u32 \<times> u32"

text \<open>What the cache relies on: \<open>content d\<close> is what the device \<open>d\<close> stores for each extent. A read leaves the
  device alone, and a successful one delivers the whole extent. A write changes no other extent, and
  a successful one stores the bytes given.\<close>

definition reads :: "('d \<Rightarrow> extent_key \<Rightarrow> u8 list) \<Rightarrow> 'd read_cb \<Rightarrow> bool" where
  "reads content f \<longleftrightarrow> (\<forall>d i buf n r bs d'. f d i buf n = (r, bs, d') \<longrightarrow> content d' = content d \<and> length bs \<le> unat n \<and>
     (r = KES_SUCCESS \<longrightarrow> n = extent_data_size i \<longrightarrow> bs = content d (key i) \<and> length bs = unat n))"

definition writes :: "('d \<Rightarrow> extent_key \<Rightarrow> u8 list) \<Rightarrow> 'd write_cb \<Rightarrow> bool" where
  "writes content g \<longleftrightarrow> (\<forall>d i bs n r d'. g d i bs n = (r, d') \<longrightarrow> (\<forall>k. k \<noteq> key i \<longrightarrow> content d' k = content d k) \<and>
     (r = KES_SUCCESS \<longrightarrow> content d' (key i) = bs))"

definition backing :: "('d \<Rightarrow> extent_key \<Rightarrow> u8 list) \<Rightarrow> 'd kes_cache \<Rightarrow> bool" where
  "backing content c \<longleftrightarrow> (\<forall>f. c_read_extent c = Some f \<longrightarrow> reads content f) \<and> (\<forall>g. c_write_extent c = Some g \<longrightarrow> writes content g)"

lemma writesD:
  assumes "writes content g" "g d i bs n = (r, d')"
  shows "k \<noteq> key i \<Longrightarrow> content d' k = content d k" "r = KES_SUCCESS \<Longrightarrow> content d' (key i) = bs"
  using assms unfolding writes_def by blast+

lemma readsD:
  assumes "reads content f" "f d i buf n = (r, bs, d')"
  shows "content d' = content d" "length bs \<le> unat n" "r = KES_SUCCESS \<Longrightarrow> n = extent_data_size i \<Longrightarrow> bs = content d (key i)"
    "r = KES_SUCCESS \<Longrightarrow> n = extent_data_size i \<Longrightarrow> length bs = unat n"
  using assms unfolding reads_def by blast+

section \<open>The content of the store\<close>

definition entry_for :: "(addr \<times> extent_body) list \<Rightarrow> extent_key \<Rightarrow> (addr \<times> extent_body) option" where
  "entry_for es k = find (\<lambda>(a, b). key (e_id b) = k) es"

definition bytes :: "'d kes_cache \<Rightarrow> extent_body \<Rightarrow> u8 list" where
  "bytes c b = take (unat (e_data_size b)) (the (m_bufs c (the (e_data b))))"

text \<open>An entry whose load failed and that was not written since has no content of its own.\<close>

definition loaded :: "extent_body \<Rightarrow> bool" where
  "loaded b \<longleftrightarrow> dirty b \<or> \<not> failed b"

definition seen :: "('d \<Rightarrow> extent_key \<Rightarrow> u8 list) \<Rightarrow> 'd view \<Rightarrow> extent_key \<Rightarrow> u8 list" where
  "seen content s k = (case entry_for (fst s) k of Some (a, b) \<Rightarrow> if loaded b then bytes (snd s) b else content (m_dev (snd s)) k
     | None \<Rightarrow> content (m_dev (snd s)) k)"

definition in_step :: "('d \<Rightarrow> extent_key \<Rightarrow> u8 list) \<Rightarrow> 'd kes_cache \<Rightarrow> extent_body \<Rightarrow> bool" where
  "in_step content c b \<longleftrightarrow> (\<not> dirty b \<and> \<not> failed b \<longrightarrow> bytes c b = content (m_dev c) (key (e_id b))) \<and>
     (\<not> loaded b \<longrightarrow> e_ref_count b = 0)"

definition coherent :: "('d \<Rightarrow> extent_key \<Rightarrow> u8 list) \<Rightarrow> 'd view \<Rightarrow> bool" where
  "coherent content s \<longleftrightarrow> sound s \<and> keyed (fst s) \<and> backing content (snd s) \<and> (\<forall>(a, b) \<in> set (fst s). in_step content (snd s) b)"

lemma seen_eq: "seen content (es, c) k = (case entry_for es k of Some (a, b) \<Rightarrow> if loaded b then bytes c b else content (m_dev c) k
     | None \<Rightarrow> content (m_dev c) k)"
  by (auto simp: seen_def split: option.splits)

lemma find_append: "find P (xs @ ys) = (case find P xs of None \<Rightarrow> find P ys | Some x \<Rightarrow> Some x)"
  by (induction xs) auto

lemma entry_for_slot: "slot es i = entry_for es (key i)"
  by (simp add: slot_def entry_for_def kes_extent_equal_key)

lemma entry_for_Some:
  assumes "keyed es"
  shows "entry_for es k = Some (a, b) \<longleftrightarrow> (a, b) \<in> set es \<and> key (e_id b) = k"
proof
  assume "entry_for es k = Some (a, b)"
  then show "(a, b) \<in> set es \<and> key (e_id b) = k" unfolding entry_for_def by (drule_tac find_SomeD) simp
next
  assume "(a, b) \<in> set es \<and> key (e_id b) = k"
  then show "entry_for es k = Some (a, b)" unfolding entry_for_def
    by (intro find_unique) (auto dest: keyed_unique [OF assms])
qed

lemma entry_for_None: "entry_for es k = None \<longleftrightarrow> (\<forall>(a, b) \<in> set es. key (e_id b) \<noteq> k)"
  by (auto simp: entry_for_def find_None_iff)

lemma coherentD:
  assumes "coherent content (es, c)"
  shows "sound (es, c)" "distinct (map fst es)" "keyed es" "backing content c" "(a, b) \<in> set es \<Longrightarrow> in_step content c b"
  using assms by (auto simp: coherent_def sound_def)

text \<open>Changing one entry in place, and the rest of the state so that the other extents see no difference.\<close>

lemma bytes_cong: "e_data b' = e_data b \<Longrightarrow> e_data_size b' = e_data_size b \<Longrightarrow> m_bufs c' (the (e_data b)) = m_bufs c (the (e_data b)) \<Longrightarrow>
   bytes c' b' = bytes c b"
  by (simp add: bytes_def)

lemma coherent_at:
  assumes s: "coherent content (es, c)" and a: "map_of es a = Some b"
    and b': "e_id b' = e_id b" "e_data b' = e_data b" "e_data_size b' = e_data_size b" "resting b'" "in_step content c' b'"
    and c': "\<And>p. map_option length (m_bufs c' p) = map_option length (m_bufs c p)" "\<And>p. p \<noteq> the (e_data b) \<Longrightarrow> m_bufs c' p = m_bufs c p"
      "backing content c'" "\<And>k. k \<noteq> key (e_id b) \<Longrightarrow> content (m_dev c') k = content (m_dev c) k"
  shows "coherent content (at a (\<lambda>_. b') es, c')"
    "k \<noteq> key (e_id b) \<Longrightarrow> seen content (at a (\<lambda>_. b') es, c') k = seen content (es, c) k"
    "seen content (at a (\<lambda>_. b') es, c') (key (e_id b)) = (if loaded b' then bytes c' b' else content (m_dev c') (key (e_id b)))"
proof -
  note d = coherentD [OF s]
  obtain us vs where sp: "es = us @ (a, b) # vs" "a \<notin> fst ` set us" "a \<notin> fst ` set vs" "at a (\<lambda>_. b') es = us @ (a, b') # vs"
    by (rule split_at [OF d(2) a])
  have ky: "keyed (us @ (a, b') # vs)" using d(3) b'(1) by (simp add: sp(1) keyed_def)
  have other: "m_bufs c' (the (e_data y)) = m_bufs c (the (e_data y))" "key (e_id y) \<noteq> key (e_id b)" if xy: "(x, y) \<in> set us \<union> set vs" for x y
  proof -
    have mem: "(x, y) \<in> set es" "x \<noteq> a" using xy sp(1-3) by force+
    have m: "map_of es x = Some y" using mem(1) d(2) by simp
    obtain p q where "e_data b = Some p" "e_data y = Some q" using sound_buffer [OF d(1) a] sound_buffer [OF d(1) m] by metis
    then show "m_bufs c' (the (e_data y)) = m_bufs c (the (e_data y))" using sound_other [OF d(1) a m mem(2)] c'(2) by simp
    show "key (e_id y) \<noteq> key (e_id b)" using keyed_unique [OF d(3) mem(1) map_of_SomeD [OF a]] mem(2) by blast
  qed
  have "bufs_ok (m_bufs c') (at a (\<lambda>_. b') es)"
    by (rule bufs_ok_at [where g = "\<lambda>_. b'" and m = "m_bufs c", OF _ d(2) a b'(2) _ c'(1)])
       (use d(1) b'(3) in \<open>simp_all add: sound_def asize_def\<close>)
  then have "sound (at a (\<lambda>_. b') es, c')" using d(1) b'(4) unfolding sound_def fst_conv snd_conv sp(4) by (simp add: sp(1))
  moreover have "in_step content c' y" if xy: "(x, y) \<in> set (us @ (a, b') # vs)" for x y
  proof (cases "(x, y) \<in> set us \<union> set vs")
    case True
    then have "in_step content c y" using d(5) sp(1) by auto
    then show ?thesis using other [OF True] c'(4) bytes_cong [of y y c' c] by (simp add: in_step_def)
  next
    case False
    then show ?thesis using xy b'(5) by auto
  qed
  ultimately show "coherent content (at a (\<lambda>_. b') es, c')" using ky c'(3) by (auto simp: coherent_def sp(4))
  have "(a, b') \<in> set (us @ (a, b') # vs)" by simp
  then have "entry_for (us @ (a, b') # vs) (key (e_id b)) = Some (a, b')" using entry_for_Some [OF ky] b'(1) by simp
  then show "seen content (at a (\<lambda>_. b') es, c') (key (e_id b)) = (if loaded b' then bytes c' b' else content (m_dev c') (key (e_id b)))"
    by (simp add: seen_eq sp(4))
  assume k: "k \<noteq> key (e_id b)"
  have "entry_for (us @ (a, b') # vs) k = entry_for es k"
    using k b'(1) by (auto simp: entry_for_def sp(1) find_append split: option.splits)
  moreover have "bytes c' y = bytes c y" if "entry_for es k = Some (x, y)" for x y
  proof -
    have "(x, y) \<in> set us \<union> set vs" using that k entry_for_Some [OF d(3)] sp(1) by auto
    then show ?thesis using other(1) bytes_cong by metis
  qed
  ultimately show "seen content (at a (\<lambda>_. b') es, c') k = seen content (es, c) k"
    using c'(4) [OF k] by (auto simp: seen_eq sp(4) split: option.splits)
qed

text \<open>Dropping a clean entry.\<close>

lemma coherent_drop:
  assumes s: "coherent content (es, c)" and a: "map_of es a = Some b" and b: "\<not> dirty b"
  shows "coherent content (drop_at a es, evict_core b c)" "seen content (drop_at a es, evict_core b c) = seen content (es, c)"
proof -
  note d = coherentD [OF s]
  obtain us vs where sp: "es = us @ (a, b) # vs" "a \<notin> fst ` set us" "a \<notin> fst ` set vs" "at a (\<lambda>b. b) es = us @ (a, b) # vs"
    by (rule split_at [OF d(2) a])
  let ?c = "evict_core b c"
  have dr: "drop_at a es = us @ vs" using sp(1-3) drop_at_split [of a us vs b] by simp
  have ky: "keyed (us @ vs)" using d(3) by (auto simp: sp(1) keyed_def)
  have same: "bytes ?c y = bytes c y" "key (e_id y) \<noteq> key (e_id b)" if xy: "(x, y) \<in> set (us @ vs)" for x y
  proof -
    have mem: "(x, y) \<in> set es" "x \<noteq> a" using xy sp(1-3) by force+
    have m: "map_of es x = Some y" using mem(1) d(2) by simp
    obtain p q where "e_data b = Some p" "e_data y = Some q" using sound_buffer [OF d(1) a] sound_buffer [OF d(1) m] by metis
    then show "bytes ?c y = bytes c y" using sound_other [OF d(1) a m mem(2)] by (simp add: bytes_def evict_core_def stats_def)
    show "key (e_id y) \<noteq> key (e_id b)" using keyed_unique [OF d(3) mem(1) map_of_SomeD [OF a]] mem(2) by blast
  qed
  have "bufs_ok ((m_bufs c)(the (e_data b) := None)) (us @ vs)"
    by (rule bufs_ok_remove [of _ _ a]) (use d(1) sp(1) in \<open>simp add: sound_def\<close>)
  then have "sound (us @ vs, ?c)" using d(1) by (auto simp: sound_def sp(1) evict_core_def stats_def)
  moreover have "in_step content ?c y" if xy: "(x, y) \<in> set (us @ vs)" for x y
  proof -
    have "in_step content c y" using xy d(5) by (auto simp: sp(1))
    then show ?thesis using same(1) [OF xy] by (simp add: in_step_def)
  qed
  ultimately show "coherent content (drop_at a es, ?c)"
    using ky d(4) by (auto simp: coherent_def dr backing_def)
  have "seen content (us @ vs, ?c) k = seen content (es, c) k" for k
  proof (cases "k = key (e_id b)")
    case True
    have "in_step content c b" using d(5) map_of_SomeD [OF a] by blast
    then have "failed b \<or> bytes c b = content (m_dev c) k" using b True by (auto simp: in_step_def)
    moreover have "entry_for es k = Some (a, b)" using entry_for_Some [OF d(3)] map_of_SomeD [OF a] True by simp
    moreover have "entry_for (us @ vs) k = None" using same(2) True by (auto simp: entry_for_None)
    ultimately show ?thesis using b by (auto simp: seen_eq loaded_def)
  next
    case False
    then have "entry_for es k = entry_for (us @ vs) k" by (auto simp: entry_for_def sp(1) find_append split: option.splits)
    moreover have "bytes ?c y = bytes c y" if "entry_for (us @ vs) k = Some (x, y)" for x y
      using that entry_for_Some [OF ky] same(1) by blast
    ultimately show ?thesis by (auto simp: seen_eq split: option.splits)
  qed
  then show "seen content (drop_at a es, ?c) = seen content (es, c)" by (auto simp: dr)
qed

text \<open>Writing an entry back, under the id \<open>i\<close> of the same extent.\<close>

lemma bytes_flush [simp]: "bytes (flush_core r b0 c) b = bytes c b" "bytes c (flush_body r b) = bytes c b"
  by (simp_all add: bytes_def)

lemma flush_back_effect:
  assumes "backing content c" "key i = key (e_id b)" "flush_back c i b = Some (r, d)"
  shows "dirty b" "k \<noteq> key (e_id b) \<Longrightarrow> content d k = content (m_dev c) k" "r = KES_SUCCESS \<Longrightarrow> content d (key (e_id b)) = bytes c b"
proof -
  obtain g where g: "c_write_extent c = Some g" "dirty b" "g (m_dev c) i (bytes c b) (e_data_size b) = (r, d)"
    using assms(3) by (auto simp: flush_back_def bytes_def split: if_splits)
  have "writes content g" using assms(1) g(1) by (simp add: backing_def)
  note w = writesD [OF this g(3)]
  show "dirty b" "k \<noteq> key (e_id b) \<Longrightarrow> content d k = content (m_dev c) k" "r = KES_SUCCESS \<Longrightarrow> content d (key (e_id b)) = bytes c b"
    using g(2) w(1) [of k] w(2) assms(2) by simp_all
qed

lemma dirty_flush: "flush_back c i b = Some (r, d) \<Longrightarrow> dirty (flush_body (flush_back c i b) b) \<longleftrightarrow> r \<noteq> KES_SUCCESS"
    "flush_back c i b = Some (r, d) \<Longrightarrow> failed (flush_body (flush_back c i b) b) \<longleftrightarrow> r \<noteq> KES_SUCCESS"
  by (auto simp: flush_body_def dirty_def failed_def flush_back_def split: if_splits)

lemma coherent_flush:
  assumes s: "coherent content (es, c)" and a: "map_of es a = Some b" and i: "key i = key (e_id b)" and r: "r = flush_back c i b"
  shows "coherent content (at a (\<lambda>_. flush_body r b) es, flush_core r b c)"
    "seen content (at a (\<lambda>_. flush_body r b) es, flush_core r b c) = seen content (es, c)"
proof -
  note d = coherentD [OF s]
  have ab: "(a, b) \<in> set es" by (rule map_of_SomeD [OF a])
  have rb: "resting b" using sound_buffer [OF d(1) a] by blast
  have st: "in_step content c b" by (rule d(5) [OF ab])
  have "coherent content (at a (\<lambda>_. flush_body r b) es, flush_core r b c) \<and>
    seen content (at a (\<lambda>_. flush_body r b) es, flush_core r b c) = seen content (es, c)"
  proof (cases r)
    case None
    have "at a (\<lambda>_. b) es = es" by (rule at_same [OF d(2) a]) simp
    then show ?thesis using None s by (simp add: flush_body_def flush_core_def)
  next
    case (Some z)
    obtain res dv where z: "z = (res, dv)" by (cases z)
    note fe = flush_back_effect [OF d(4) i, of res dv]
    have f: "flush_back c i b = Some (res, dv)" using Some z r by simp
    have dev: "m_dev (flush_core r b c) = dv" using Some z by (simp add: flush_core_def stats_def)
    have di: "dirty (flush_body r b) \<longleftrightarrow> res \<noteq> KES_SUCCESS" "failed (flush_body r b) \<longleftrightarrow> res \<noteq> KES_SUCCESS"
      using dirty_flush [OF f] r by simp_all
    have in': "in_step content (flush_core r b c) (flush_body r b)"
      using di fe(3) [OF f] dev by (auto simp: in_step_def loaded_def)
    note ca = coherent_at [where b' = "flush_body r b" and c' = "flush_core r b c", OF s a _ _ _ resting_flush [OF rb] in']
    have bk: "backing content (flush_core r b c)" using d(4) by (simp add: backing_def)
    have co: "coherent content (at a (\<lambda>_. flush_body r b) es, flush_core r b c)"
      by (rule ca(1)) (use fe(2) [OF f] dev bk in simp_all)
    have "seen content (at a (\<lambda>_. flush_body r b) es, flush_core r b c) k = seen content (es, c) k" for k
    proof (cases "k = key (e_id b)")
      case True
      have "seen content (at a (\<lambda>_. flush_body r b) es, flush_core r b c) k =
          (if loaded (flush_body r b) then bytes (flush_core r b c) (flush_body r b) else content (m_dev (flush_core r b c)) k)"
        unfolding True by (rule ca(3)) (use fe(2) [OF f] dev bk in simp_all)
      moreover have "entry_for es k = Some (a, b)" using entry_for_Some [OF d(3)] ab True by simp
      moreover have "loaded b" "loaded (flush_body r b)" using fe(1) [OF f] di by (simp_all add: loaded_def)
      ultimately show ?thesis by (simp add: seen_eq)
    next
      case False
      then show ?thesis by (intro ca(2)) (use fe(2) [OF f] dev bk in simp_all)
    qed
    then show ?thesis using co by blast
  qed
  then show "coherent content (at a (\<lambda>_. flush_body r b) es, flush_core r b c)"
    "seen content (at a (\<lambda>_. flush_body r b) es, flush_core r b c) = seen content (es, c)" by simp_all
qed

lemma write_back_flush: "write_back c b = flush_back c (e_id b) b"
  by (simp add: write_back_def flush_back_def)

lemma coherent_visit:
  assumes s: "coherent content s"
  shows "coherent content (visit a s)" "seen content (visit a s) = seen content s"
proof -
  obtain es c where es: "s = (es, c)" by (cases s)
  have "coherent content (visit a s) \<and> seen content (visit a s) = seen content s"
  proof (cases "map_of es a")
    case None
    then show ?thesis using s es by (simp add: visit_def)
  next
    case (Some b)
    define r where "r = write_back c b"
    note cf = coherent_flush [OF s [unfolded es] Some refl, of r] 
    have f: "coherent content (at a (\<lambda>_. flush_body r b) es, flush_core r b c)"
      "seen content (at a (\<lambda>_. flush_body r b) es, flush_core r b c) = seen content s"
      using cf es by (simp_all add: r_def write_back_flush)
    show ?thesis
    proof (cases "evictable (flush_body r b) False")
      case True
      have m: "map_of (at a (\<lambda>_. flush_body r b) es) a = Some (flush_body r b)" using Some by (simp add: map_of_at)
      have cl: "\<not> dirty (flush_body r b)" using True by (auto simp: evictable_def dirty_def)
      have "drop_at a (at a (\<lambda>_. flush_body r b) es) = drop_at a es" by (rule drop_at_at)
      then show ?thesis using coherent_drop [OF f(1) m cl] f(2) True Some es by (simp add: visit_def r_def Let_def)
    next
      case False
      then show ?thesis using f Some es by (simp add: visit_def r_def Let_def)
    qed
  qed
  then show "coherent content (visit a s)" "seen content (visit a s) = seen content s" by simp_all
qed

lemma coherent_rest:
  "m_bufs c' = m_bufs c \<Longrightarrow> m_dev c' = m_dev c \<Longrightarrow> c_read_extent c' = c_read_extent c \<Longrightarrow> c_write_extent c' = c_write_extent c \<Longrightarrow>
   coherent content (es, c') = coherent content (es, c)"
  "m_bufs c' = m_bufs c \<Longrightarrow> m_dev c' = m_dev c \<Longrightarrow> seen content (es, c') = seen content (es, c)"
  by (simp_all add: coherent_def sound_def backing_def in_step_def bytes_def)
     (rule ext, auto simp: seen_eq bytes_def split: option.splits)

lemma coherent_walks:
  assumes "coherent content s"
  shows "coherent content (fold visit as s)" "seen content (fold visit as s) = seen content s"
    "coherent content (snd (room_step needed s))" "seen content (snd (room_step needed s)) = seen content s"
proof -
  let ?P = "\<lambda>s'. coherent content s' \<and> seen content s' = seen content s"
  have 1: "?P (visit a s')" if "?P s'" for a s' using that coherent_visit by metis
  have 2: "?P (es, stats f c)" if "?P (es, c)" for es c f
    using that coherent_rest [of "stats f c" c] by (simp add: stats_def)
  show "coherent content (fold visit as s)" "seen content (fold visit as s) = seen content s"
    using fold_visit_inv [of ?P, OF 1] assms by simp_all
  show "coherent content (snd (room_step needed s))" "seen content (snd (room_step needed s)) = seen content s"
    using room_walk_inv [of ?P, OF 1 2] assms by (simp_all add: room_step_def)
qed

section \<open>Loading\<close>

lemma extent_data_size_key: "key i = key j \<Longrightarrow> extent_data_size i = extent_data_size j"
  by (simp add: key_def extent_data_size_def)

lemma load_effect:
  assumes "backing content c" "e_data_size b = extent_data_size i" "load_result c i b = (res, bs, d)"
  shows "content d = content (m_dev c)" "length bs \<le> unat (e_data_size b)"
    "res = KES_SUCCESS \<Longrightarrow> bs = content (m_dev c) (key i)" "res = KES_SUCCESS \<Longrightarrow> length bs = unat (e_data_size b)"
proof -
  have "content d = content (m_dev c) \<and> length bs \<le> unat (e_data_size b) \<and>
      (res = KES_SUCCESS \<longrightarrow> bs = content (m_dev c) (key i) \<and> length bs = unat (e_data_size b))"
  proof (cases "c_read_extent c")
    case None
    then show ?thesis using assms(3) by (auto simp: load_result_def)
  next
    case (Some f)
    have rd: "reads content f" using assms(1) Some by (simp add: backing_def)
    have f: "f (m_dev c) i (take (unat (e_data_size b)) (the (m_bufs c (the (e_data b))))) (e_data_size b) = (res, bs, d)"
      using assms(3) Some by (simp add: load_result_def)
    show ?thesis using readsD [OF rd f] assms(2) by blast
  qed
  then show "content d = content (m_dev c)" "length bs \<le> unat (e_data_size b)"
    "res = KES_SUCCESS \<Longrightarrow> bs = content (m_dev c) (key i)" "res = KES_SUCCESS \<Longrightarrow> length bs = unat (e_data_size b)" by blast+
qed

lemma load_bytes:
  assumes "m_bufs c (the (e_data b)) = Some buf" "unat (e_data_size b) \<le> length buf" "length bs = unat (e_data_size b)"
    "e_data b' = e_data b" "e_data_size b' = e_data_size b" "m_bufs c' = m_bufs (load_core (res, bs, d) b c)"
  shows "bytes c' b' = bs"
  using assms by (simp add: bytes_def load_core_def overlay_def)

lemma retry_core_dev [simp]: "m_dev (retry_core (res, bs, d) b c) = d"
  by (simp add: retry_core_def add_read_def stats_def load_core_def)

lemma load_core_bufs: "m_bufs (load_core (res, bs, d) b c) = (m_bufs c)(the (e_data b) \<mapsto> overlay bs (the (m_bufs c (the (e_data b)))))"
  by (simp add: load_core_def)

lemma entry_for_perm:
  assumes "keyed es" "keyed es'" "set es = set es'"
  shows "entry_for es k = entry_for es' k"
proof (cases "entry_for es k")
  case None
  then have "entry_for es' k = None" using assms(3) by (simp add: entry_for_None)
  then show ?thesis using None by simp
next
  case (Some z)
  obtain a b where z: "z = (a, b)" by (cases z)
  then have "entry_for es' k = Some (a, b)" using Some entry_for_Some [OF assms(1)] entry_for_Some [OF assms(2)] assms(3) by simp
  then show ?thesis using Some z by simp
qed

lemma coherent_front:
  assumes s: "coherent content (us @ x # vs, c)"
  shows "coherent content (x # us @ vs, c)" "seen content (x # us @ vs, c) = seen content (us @ x # vs, c)"
proof -
  obtain a b where x: "x = (a, b)" by (cases x)
  have st: "set (x # us @ vs) = set (us @ x # vs)" by auto
  have ky: "keyed (us @ x # vs)" "keyed (x # us @ vs)" using s by (auto simp: coherent_def keyed_def)
  have "bufs_ok (m_bufs c) (x # us @ vs)"
  proof -
    have b: "bufs_ok (m_bufs c) (us @ x # vs)" using s by (simp add: coherent_def sound_def)
    then have "distinct (map (\<lambda>(a, b). e_data b) (x # us @ vs))" by (auto simp: bufs_ok_def)
    then show ?thesis using b unfolding bufs_ok_def st by blast
  qed
  then have "sound (x # us @ vs, c)" using s unfolding coherent_def sound_def fst_conv snd_conv st by auto
  then show "coherent content (x # us @ vs, c)" using s ky unfolding coherent_def fst_conv snd_conv st by blast
  show "seen content (x # us @ vs, c) = seen content (us @ x # vs, c)"
    by (rule ext) (simp add: seen_eq entry_for_perm [OF ky(2,1) st])
qed

text \<open>The retry of a failed load.\<close>

lemma coherent_attach:
  assumes s: "coherent content (es, c)" and a: "map_of es a = Some b" and i: "key i = key (e_id b)" and at: "attach c i b = (b1, k)"
  shows "coherent content (at a (\<lambda>_. b1) es, k)" "seen content (at a (\<lambda>_. b1) es, k) = seen content (es, c)"
proof -
  note d = coherentD [OF s]
  obtain p buf where p: "e_data b = Some p" "m_bufs c p = Some buf" "length buf = asize b" "resting b" by (rule sound_buffer [OF d(1) a])
  have sz: "e_data_size b = extent_data_size i" using p(4) extent_data_size_key [OF i] by (simp add: resting_def)
  have le: "unat (e_data_size b) \<le> length buf" using asize_pos [OF p(4)] p(3) by simp
  have ab: "(a, b) \<in> set es" by (rule map_of_SomeD [OF a])
  have "coherent content (at a (\<lambda>_. b1) es, k) \<and> seen content (at a (\<lambda>_. b1) es, k) = seen content (es, c)"
  proof (cases "failed b \<and> \<not> dirty b")
    case False
    then have "b1 = b" "k = c" using at by (auto simp: attach_def)
    moreover have "at a (\<lambda>_. b) es = es" by (rule at_same [OF d(2) a]) simp
    ultimately show ?thesis using s by simp
  next
    case True
    obtain res bs dv where r: "load_result c i b = (res, bs, dv)" by (cases "load_result c i b") auto
    note le' = load_effect [OF d(4) sz r]
    have b1: "b1 = retry_body res b" "k = retry_core (res, bs, dv) b c" using at True r by (simp_all add: attach_def)
    have kb: "m_bufs k = m_bufs (load_core (res, bs, dv) b c)" by (simp add: b1)
    have dv: "m_dev k = dv" by (simp add: b1)
    have len: "map_option length (m_bufs k q) = map_option length (m_bufs c q)" for q
      using le'(2) le p(1,2) by (simp add: kb load_core_bufs length_overlay)
    have byt: "bytes k b1 = content (m_dev c) (key (e_id b))" if "res = KES_SUCCESS"
    proof -
      have "bytes k b1 = bs" by (rule load_bytes [OF _ le _ _ _ kb]) (use le'(4) [OF that] p(1,2) in \<open>simp_all add: b1(1) retry_body_def\<close>)
      then show ?thesis using le'(3) [OF that] i by simp
    qed
    have st: "dirty b1 = False" "failed b1 \<longleftrightarrow> res \<noteq> KES_SUCCESS" by (simp_all add: b1 retry_body_def dirty_def failed_def)
    have "e_ref_count b = 0" using d(5) [OF ab] True by (simp add: in_step_def loaded_def)
    then have in': "in_step content k b1" using byt st le'(1) dv by (auto simp: in_step_def loaded_def b1 retry_body_def)
    have rb: "resting b1" using p(4) by (simp add: b1 retry_body_def resting_def)
    have eq: "e_id b1 = e_id b" "e_data b1 = e_data b" "e_data_size b1 = e_data_size b" by (simp_all add: b1 retry_body_def)
    have bk: "backing content k" using d(4) by (simp add: b1 backing_def)
    have oth: "q \<noteq> the (e_data b) \<Longrightarrow> m_bufs k q = m_bufs c q" "content (m_dev k) = content (m_dev c)" for q
      using p(1) le'(1) dv by (simp_all add: kb load_core_bufs)
    note ca = coherent_at [OF s a eq rb in' len oth(1) bk]
    have "seen content (at a (\<lambda>_. b1) es, k) j = seen content (es, c) j" for j
    proof (cases "j = key (e_id b)")
      case True
      have "entry_for es j = Some (a, b)" using entry_for_Some [OF d(3)] ab True by simp
      then show ?thesis using ca(3) oth(2) byt st True \<open>failed b \<and> \<not> dirty b\<close> by (simp add: seen_eq loaded_def)
    next
      case False
      then show ?thesis using ca(2) oth(2) by simp
    qed
    then show ?thesis using ca(1) oth(2) by auto
  qed
  then show "coherent content (at a (\<lambda>_. b1) es, k)" "seen content (at a (\<lambda>_. b1) es, k) = seen content (es, c)" by simp_all
qed

lemma coherent_hit:
  assumes s: "coherent content (es, c)" and a: "map_of es a = Some b" and i: "key i = key (e_id b)"
    and h: "hit i a b (es, c) = ((r, q), es', c')"
  shows "coherent content (es', c')" "seen content (es', c') = seen content (es, c)"
    "r = KES_SUCCESS \<Longrightarrow> q = e_data b \<and> bytes c' b = seen content (es, c) (key i)"
proof -
  obtain b1 k where k: "attach c i b = (b1, k)" by fastforce
  note ca = coherent_attach [OF s a i k] and d = coherentD [OF s]
  note sel = attach_sel [OF k]
  obtain us vs where sp: "es = us @ (a, b) # vs" "a \<notin> fst ` set us" "a \<notin> fst ` set vs" "at a (\<lambda>_. b1) es = us @ (a, b1) # vs"
    by (rule split_at [OF d(2) a])
  have "coherent content (es', c') \<and> seen content (es', c') = seen content (es, c) \<and>
    (r = KES_SUCCESS \<longrightarrow> q = e_data b \<and> bytes c' b = seen content (es, c) (key i))"
  proof (cases "failed b1")
    case True
    then have "es' = at a (\<lambda>_. b1) es" "c' = end_core k" "r = KES_ERROR_IO" using h k by (auto simp: hit_def)
    then show ?thesis using ca coherent_rest [of c' k] by (simp add: end_core_def)
  next
    case False
    define now where "now = fst (get_timestamp c)"
    define y where "y = hit_body now b1"
    have es': "es' = (a, y) # us @ vs" "r = KES_SUCCESS" "q = e_data b"
      "c' = end_core (stats (\<lambda>s. s\<lparr>cs_hits := cs_hits s + 1\<rparr>) (k\<lparr>m_ticks := m_ticks c + 1\<rparr>))"
      using h k False sp(1-3) drop_at_split [of a us vs b] by (auto simp: hit_def y_def now_def)
    have co: "coherent content (us @ (a, b1) # vs, k)" "seen content (us @ (a, b1) # vs, k) = seen content (es, c)"
      using ca by (simp_all add: sp(4))
    have m: "map_of (us @ (a, b1) # vs) a = Some b1"
      using map_of_is_SomeI [OF coherentD(2) [OF co(1)], of a b1] by simp
    have "resting b" using sound_buffer [OF d(1) a] by blast
    then have "resting b1" by (rule sel(25))
    then have ry: "resting y" by (simp add: y_def hit_body_def resting_def)
    have yb: "e_id y = e_id b1" "e_data y = e_data b1" "e_data_size y = e_data_size b1" "dirty y = dirty b1" "failed y = failed b1"
      by (simp_all add: y_def hit_body_def dirty_def failed_def)
    have byt: "bytes k y = bytes k b1" using yb by (simp add: bytes_def)
    have "in_step content k b1" using coherentD(5) [OF co(1), of a b1] by simp
    then have iy: "in_step content k y" using yb False byt by (simp add: in_step_def loaded_def)
    note cy = coherent_at [OF co(1) m yb(1-3) ry iy refl refl coherentD(4) [OF co(1)] refl]
    have aty: "at a (\<lambda>_. y) (us @ (a, b1) # vs) = us @ (a, y) # vs" using sp(2,3) at_other [of a us] at_other [of a vs] by (simp add: at_def)
    have ly: "loaded b1" "loaded y" using False yb by (simp_all add: loaded_def)
    have eb: "entry_for (us @ (a, b1) # vs) (key (e_id b1)) = Some (a, b1)"
      using entry_for_Some [OF coherentD(3) [OF co(1)]] by simp
    have "seen content (us @ (a, y) # vs, k) j = seen content (us @ (a, b1) # vs, k) j" for j
      using cy(2) [of j] cy(3) aty ly byt eb by (cases "j = key (e_id b1)") (simp_all add: seen_eq)
    then have im: "seen content (us @ (a, y) # vs, k) = seen content (es, c)" using co(2) by auto
    have fr: "coherent content ((a, y) # us @ vs, k)" "seen content ((a, y) # us @ vs, k) = seen content (es, c)"
      using coherent_front [of content us "(a, y)" vs k] cy(1) aty im by simp_all
    have rest: "m_bufs c' = m_bufs k" "m_dev c' = m_dev k" "c_read_extent c' = c_read_extent k" "c_write_extent c' = c_write_extent k"
      by (simp_all add: es'(4) end_core_def stats_def)
    have "bytes c' b = bytes k b1" using sel(2,3) rest(1) by (simp add: bytes_def)
    also have "\<dots> = seen content (es, c) (key i)" using co(2) eb ly(1) i sel(1) by (simp add: seen_eq flip: co(2))
    finally show ?thesis using fr coherent_rest(1) [OF rest] coherent_rest(2) [OF rest(1,2)] es' by simp
  qed
  then show "coherent content (es', c')" "seen content (es', c') = seen content (es, c)"
    "r = KES_SUCCESS \<Longrightarrow> q = e_data b \<and> bytes c' b = seen content (es, c) (key i)" by simp_all
qed

lemma coherent_new:
  assumes s: "coherent content (es, c)" and a: "a \<notin> fst ` set es" and p: "m_bufs c p = None"
    and b: "resting b" "e_data b = Some p" "slot es (e_id b) = None" "in_step content c' b"
      "loaded b \<Longrightarrow> bytes c' b = content (m_dev c) (key (e_id b))"
    and c': "m_bufs c' = (m_bufs c)(p \<mapsto> buf)" "length buf = asize b" "backing content c'" "content (m_dev c') = content (m_dev c)"
  shows "coherent content ((a, b) # es, c')" "seen content ((a, b) # es, c') = seen content (es, c)"
proof -
  note d = coherentD [OF s]
  have nk: "key (e_id y) \<noteq> key (e_id b)" if "(x, y) \<in> set es" for x y by (rule slot_NoneD [OF b(3) that])
  then have ky: "keyed ((a, b) # es)" using d(3) by (force simp: keyed_def)
  have same: "bytes c' y = bytes c y" if xy: "(x, y) \<in> set es" for x y
  proof -
    obtain q buf where "e_data y = Some q" "m_bufs c q = Some buf" using d(1) xy by (fastforce simp: sound_def bufs_ok_def)
    then show ?thesis using p c'(1) by (auto simp: bytes_def)
  qed
  have "bufs_ok (m_bufs c') ((a, b) # es)"
    by (rule bufs_ok_insert [where m = "m_bufs c" and m' = "m_bufs c'", OF _ b(2) p])
       (use d(1) c'(1,2) in \<open>simp_all add: sound_def\<close>)
  then have "sound ((a, b) # es, c')" using d(1) a b(1) by (simp add: sound_def)
  moreover have "in_step content c' y" if xy: "(x, y) \<in> set es" for x y
    using d(5) [OF xy] same [OF xy] c'(4) by (simp add: in_step_def)
  ultimately show "coherent content ((a, b) # es, c')" using ky c'(3) b(4) unfolding coherent_def by auto
  show "seen content ((a, b) # es, c') = seen content (es, c)"
  proof
    fix k
    show "seen content ((a, b) # es, c') k = seen content (es, c) k"
    proof (cases "k = key (e_id b)")
      case True
      then have "entry_for es k = None" "entry_for ((a, b) # es) k = Some (a, b)" using nk by (auto simp: entry_for_None) (simp add: entry_for_def)
      then show ?thesis using b(5) c'(4) True by (simp add: seen_eq)
    next
      case False
      then have "entry_for ((a, b) # es) k = entry_for es k" by (simp add: entry_for_def)
      moreover have "bytes c' y = bytes c y" if "entry_for es k = Some (x, y)" for x y
        using that entry_for_Some [OF d(3)] same by blast
      ultimately show ?thesis using c'(4) by (auto simp: seen_eq split: option.splits)
    qed
  qed
qed

lemma fresh_walk:
  assumes "fresh c es" "room_step needed (es, c) = (fits, es', c')"
  shows "fresh c' es'" "m_next c' = m_next c"
proof -
  let ?P = "\<lambda>s :: 'a view. fresh (snd s) (fst s)"
  have 1: "?P (visit a s)" if P: "?P s" for a s
  proof -
    obtain es c where s: "s = (es, c)" by (cases s)
    show ?thesis
    proof (cases "map_of es a")
      case (Some b)
      then show ?thesis using P
        by (auto simp: s visit_def Let_def fresh_def drop_at_def evict_core_def stats_def flush_core_def split: option.splits dest!: set_at)
    qed (use P in \<open>simp add: s visit_def\<close>)
  qed
  have 2: "?P (es, stats f c)" if "?P (es, c)" for es c f using that by (simp add: fresh_def stats_def)
  show "fresh c' es'"
    using assms room_walk_inv [of ?P, OF 1 2, of "(es, c)" needed "rev (map fst es)"] by (auto simp: room_step_def split: if_splits)
  show "m_next c' = m_next c" using room_step_steady [OF assms(2)] by (simp add: steady_def)
qed

lemma coherent_miss:
  assumes s: "coherent content (es, c)" and f: "fresh c es" and i: "slot es i = None" "id_ok i"
    and m: "miss i (es, c) = ((r, q), es', c')"
  shows "coherent content (es', c')" "seen content (es', c') = seen content (es, c)"
    "r = KES_SUCCESS \<Longrightarrow> \<exists>p. q = Some p \<and> take (unat (extent_data_size i)) (the (m_bufs c' p)) = seen content (es, c) (key i)"
proof -
  obtain fits es1 c1 where 1: "room_step (KES_ALIGN (extent_data_size i) KES_CACHE_ALIGNMENT) (es, c) = (fits, es1, c1)"
    by (cases "room_step (KES_ALIGN (extent_data_size i) KES_CACHE_ALIGNMENT) (es, c)") auto
  have co: "coherent content (es1, c1)" "seen content (es1, c1) = seen content (es, c)"
    using coherent_walks(3,4) [OF s, of "KES_ALIGN (extent_data_size i) KES_CACHE_ALIGNMENT"] 1 by simp_all
  have f1: "fresh c1 es1" by (rule fresh_walk [OF f 1])
  have th: "thinned (es, c) (es1, c1)" by (rule room_step_thin(2) [OF coherentD(1) [OF s] 1])
  have i1: "slot es1 i = None" by (rule thinned_slot_None [OF th coherentD(2) [OF co(1)] i(1)])
  obtain f1' c2 where 2: "may_fail c1 = (f1', c2)" by fastforce
  obtain f2 c3 where 3: "may_fail (c2\<lparr>m_next := m_next c2 + 1, m_ticks := m_ticks c2 + 1\<rparr>) = (f2, c3)" by fastforce
  obtain x where x: "c2 = c1\<lparr>m_sched := x\<rparr>" by (rule may_fail_upd [OF 2])
  obtain y where y: "c3 = c2\<lparr>m_next := m_next c2 + 1, m_ticks := m_ticks c2 + 1\<rparr>\<lparr>m_sched := y\<rparr>" by (rule may_fail_upd [OF 3])
  have same: "coherent content (es1, k) \<and> seen content (es1, k) = seen content (es, c)"
    if "m_bufs k = m_bufs c1" "m_dev k = m_dev c1" "c_read_extent k = c_read_extent c1" "c_write_extent k = c_write_extent c1" for k
    using co coherent_rest(1) [OF that] coherent_rest(2) [OF that(1,2)] by simp
  have "coherent content (es', c') \<and> seen content (es', c') = seen content (es, c) \<and>
    (r = KES_SUCCESS \<longrightarrow> (\<exists>p. q = Some p \<and> take (unat (extent_data_size i)) (the (m_bufs c' p)) = seen content (es, c) (key i)))"
  proof (cases "fits \<and> \<not> f1' \<and> \<not> f2")
    case False
    then have "es' = es1 \<and> r \<noteq> KES_SUCCESS \<and> (c' = end_core c1 \<or> c' = end_core c2 \<or> c' = end_core c3)"
      using m 1 2 3 by (auto simp: miss_def Let_def split: if_splits)
    then show ?thesis using same [of c'] by (auto simp: end_core_def x y)
  next
    case True
    define a where "a = m_next c2"
    define p where "p = m_next c3"
    define b where "b = new_body (fst (get_timestamp c2)) i p"
    define c4 where "c4 = c3\<lparr>m_bufs := (m_bufs c3)(p \<mapsto> map (m_junk c3 p) [0..<asize b]), m_next := p + 1\<rparr>"
    obtain res bs d where ld: "load_result (publish_core b c4) i b = (res, bs, d)" by (cases "load_result (publish_core b c4) i b") auto
    have out: "es' = (a, loaded_body res b) # es1" "c' = retry_core (res, bs, d) b (publish_core b c4)" "r = load_code res"
      "q = (if res = KES_SUCCESS then Some p else None)"
      using m 1 2 3 True ld unfolding a_def p_def b_def c4_def by (simp_all add: miss_def Let_def)
    have b: "e_data b = Some p" "e_id b = i" "e_data_size b = extent_data_size i" by (simp_all add: b_def new_body_def)
    let ?b = "loaded_body res b"
    have lb: "e_data ?b = Some p" "e_id ?b = i" "e_data_size ?b = extent_data_size i" "asize ?b = asize b" "resting ?b"
      "dirty ?b = False" "failed ?b \<longleftrightarrow> res \<noteq> KES_SUCCESS" "res \<noteq> KES_SUCCESS \<Longrightarrow> e_ref_count ?b = 0"
      using i(2) by (simp_all add: loaded_body_def b_def new_body_def asize_def resting_def dirty_def failed_def)
    have bk: "backing content (publish_core b c4)" using coherentD(4) [OF co(1)] by (simp add: backing_def c4_def x y)
    note le = load_effect [OF bk b(3) ld]
    have dev: "m_dev (publish_core b c4) = m_dev c1" by (simp add: c4_def x y)
    have ap: "a \<notin> fst ` set es1" "m_bufs c1 p = None"
      using f1 by (auto simp: fresh_def a_def p_def x y)
    define buf where "buf = overlay bs (map (m_junk c3 p) [0..<asize b])"
    have mb: "m_bufs c' = (m_bufs c1)(p \<mapsto> buf)" using b(1) by (simp add: out(2) load_core_bufs buf_def c4_def x y)
    have szl: "unat (e_data_size b) \<le> asize b" using asize_pos [OF lb(5)] lb(3,4) b(3) by simp
    have len: "length buf = asize ?b" using le(2) szl lb(4) by (simp add: buf_def length_overlay)
    have dv: "content (m_dev c') = content (m_dev c1)" using le(1) dev by (simp add: out(2))
    have byt: "bytes c' ?b = content (m_dev c1) (key i)" if ok: "res = KES_SUCCESS"
    proof -
      have "bytes c' ?b = bs" using le(4) [OF ok] szl lb(1,3) b(3) by (simp add: bytes_def mb buf_def overlay_def)
      then show ?thesis using le(3) [OF ok] dev by simp
    qed
    have ins: "in_step content c' ?b" using lb byt dv by (auto simp: in_step_def loaded_def)
    have bk': "backing content c'" using bk by (simp add: out(2) backing_def)
    have slot': "slot es1 (e_id ?b) = None" using i1 lb(2) by simp
    have byt': "loaded ?b \<Longrightarrow> bytes c' ?b = content (m_dev c1) (key (e_id ?b))" using byt lb(2,6,7) by (simp add: loaded_def)
    note cn = coherent_new [OF co(1) ap lb(5,1) slot' ins byt' mb len bk' dv]
    have "take (unat (extent_data_size i)) (the (m_bufs c' p)) = seen content (es, c) (key i)" if ok: "res = KES_SUCCESS"
    proof -
      have "take (unat (extent_data_size i)) (the (m_bufs c' p)) = bytes c' ?b" using lb(1,3) by (simp add: bytes_def)
      also have "\<dots> = seen content (es1, c1) (key i)" using byt [OF ok] i1 entry_for_slot [of es1 i] by (simp add: seen_eq)
      finally show ?thesis using co(2) by simp
    qed
    moreover have "r = KES_SUCCESS \<longleftrightarrow> res = KES_SUCCESS" using out(3) by (auto simp: load_code_def)
    ultimately show ?thesis using cn co(2) out(1,4) by auto
  qed
  then show "coherent content (es', c')" "seen content (es', c') = seen content (es, c)"
    "r = KES_SUCCESS \<Longrightarrow> \<exists>p. q = Some p \<and> take (unat (extent_data_size i)) (the (m_bufs c' p)) = seen content (es, c) (key i)" by simp_all
qed

section \<open>Sequences of calls\<close>

lemma coherent_get:
  assumes s: "coherent content (es, c)" and f: "fresh c es" and i: "id_ok i" and g: "get_step i (es, c) = ((r, q), es', c')"
  shows "coherent content (es', c')" "seen content (es', c') = seen content (es, c)"
    "r = KES_SUCCESS \<Longrightarrow> \<exists>p. q = Some p \<and> take (unat (extent_data_size i)) (the (m_bufs c' p)) = seen content (es, c) (key i)"
proof -
  let ?c = "c\<lparr>c_inflight_lookups := c_inflight_lookups c + 1\<rparr>"
  have s1: "coherent content (es, ?c)" "seen content (es, ?c) = seen content (es, c)" "fresh ?c es"
    using s f coherent_rest [of ?c c] by (simp_all add: fresh_def)
  have "coherent content (es', c') \<and> seen content (es', c') = seen content (es, c) \<and>
    (r = KES_SUCCESS \<longrightarrow> (\<exists>p. q = Some p \<and> take (unat (extent_data_size i)) (the (m_bufs c' p)) = seen content (es, c) (key i)))"
  proof (cases "slot es i")
    case None
    then have m: "miss i (es, ?c) = ((r, q), es', c')" using g by (simp add: get_step_def Let_def)
    show ?thesis using coherent_miss [OF s1(1,3) None i m] s1(2) by simp
  next
    case (Some z)
    obtain a b where z: "z = (a, b)" by (cases z)
    have h: "hit i a b (es, ?c) = ((r, q), es', c')" using g Some z by (simp add: get_step_def Let_def)
    have a: "map_of es a = Some b" by (rule slot_map_of [OF coherentD(2) [OF s] Some [unfolded z]])
    have k: "key i = key (e_id b)" using slot_SomeD [OF Some [unfolded z]] by simp
    obtain p where p: "e_data b = Some p" "resting b" by (rule sound_buffer [OF coherentD(1) [OF s] a])
    have "e_data_size b = extent_data_size i" using p(2) extent_data_size_key [OF k] by (simp add: resting_def)
    then show ?thesis using coherent_hit [OF s1(1) a k h] s1(2) p(1) by (auto simp: bytes_def)
  qed
  then show "coherent content (es', c')" "seen content (es', c') = seen content (es, c)"
    "r = KES_SUCCESS \<Longrightarrow> \<exists>p. q = Some p \<and> take (unat (extent_data_size i)) (the (m_bufs c' p)) = seen content (es, c) (key i)" by simp_all
qed

text \<open>Changing the counts and flags of an entry that has no effect on its content.\<close>

lemma coherent_flags:
  assumes s: "coherent content (es, c)" and a: "map_of es a = Some b"
    and g: "e_id (g b) = e_id b" "e_data (g b) = e_data b" "e_data_size (g b) = e_data_size b" "resting (g b)"
      "dirty (g b) = dirty b" "failed (g b) = failed b" "e_ref_count b = 0 \<Longrightarrow> e_ref_count (g b) = 0"
    and c': "m_bufs c' = m_bufs c" "m_dev c' = m_dev c" "c_read_extent c' = c_read_extent c" "c_write_extent c' = c_write_extent c"
  shows "coherent content (at a g es, c') \<and> seen content (at a g es, c') = seen content (es, c)"
proof -
  note d = coherentD [OF s]
  have ab: "(a, b) \<in> set es" by (rule map_of_SomeD [OF a])
  have byt: "bytes c' (g b) = bytes c b" using g c' by (simp add: bytes_def)
  have ins: "in_step content c' (g b)" using d(5) [OF ab] g byt c' by (auto simp: in_step_def loaded_def)
  have bk: "backing content c'" using d(4) c' by (simp add: backing_def)
  have len: "map_option length (m_bufs c' p) = map_option length (m_bufs c p)" "m_bufs c' p = m_bufs c p" for p using c' by simp_all
  have dv: "content (m_dev c') k = content (m_dev c) k" for k using c' by simp
  note ca = coherent_at [OF s a g(1-4) ins len(1) len(2) bk dv]
  have eq: "at a (\<lambda>_. g b) es = at a g es"
    by (rule split_at [OF d(2) a, of g]) (use at_other in \<open>auto simp: at_def\<close>)
  have "entry_for es (key (e_id b)) = Some (a, b)" using entry_for_Some [OF d(3)] ab by simp
  then have "seen content (at a (\<lambda>_. g b) es, c') k = seen content (es, c) k" for k
    using ca(2) [of k] ca(3) g byt c' by (cases "k = key (e_id b)") (simp_all add: seen_eq loaded_def)
  then show ?thesis using ca(1) eq by auto
qed

text \<open>What a client may not do if it is to find again what it wrote, given the entry that each extent has in the
  cache at that time (\<open>look\<close>): mark an extent dirty that it does not hold and whose load failed, invalidate an
  extent with changes that are not written back, change the callbacks, or destroy the cache.\<close>

fun careful :: "'d call \<Rightarrow> (kes_extent_id \<Rightarrow> extent_body option) \<Rightarrow> bool" where
  "careful (Mark_Dirty i) look = (case look i of None \<Rightarrow> True | Some b \<Rightarrow> loaded b \<or> e_ref_count b \<noteq> 0)"
| "careful (Invalidate i) look = (case look i of None \<Rightarrow> True | Some b \<Rightarrow> busy b \<or> \<not> dirty b)"
| "careful (Set_Io rd wr sy) look = False"
| "careful Destroy look = False"
| "careful _ look = True"

definition cached_entry :: "'d kes_cache \<Rightarrow> kes_extent_id \<Rightarrow> extent_body option" where
  "cached_entry c i = (case chain_find (m_heap c) i (b_head (c_buckets c (unat (bucket_idx c i)))) of
     Some (Some a) \<Rightarrow> map_option extent_body.truncate (m_heap c a) | _ \<Rightarrow> None)"

text \<open>The same along a sequence of calls, each judged in the state in which it is made.\<close>

fun careful_run :: "'d call list \<Rightarrow> 'd kes_cache \<Rightarrow> bool" where
  "careful_run [] c = True"
| "careful_run (x # xs) c = (careful x (cached_entry c) \<and>
     (case exec x c of Some (r, Inr c1) \<Rightarrow> careful_run xs c1 | _ \<Rightarrow> True))"

lemma cached_entry_slot:
  assumes ok: "cache_ok c es"
  shows "cached_entry c i = map_option snd (slot es i)"
proof -
  note k = cache_okD [OF ok]
  have look: "chain_find (m_heap c) i (b_head (c_buckets c (unat (bucket_idx c i)))) = Some (map_option fst (slot es i))"
    by (rule chain_lookup [OF holds_keeps [OF k(1)] k(3)])
  show ?thesis
  proof (cases "slot es i")
    case None
    then show ?thesis using look by (simp add: cached_entry_def)
  next
    case (Some z)
    obtain a b where z: "z = (a, b)" by (cases z)
    obtain e where "m_heap c a = Some e" "extent_body.truncate e = b" by (rule slot_entry [OF ok Some [unfolded z]])
    then show ?thesis using look Some z by (simp add: cached_entry_def)
  qed
qed

text \<open>Lookups, releases, writes into buffers held, pins, flushes, syncs, statistics and threads need no care.\<close>

fun harmless :: "'d call \<Rightarrow> bool" where
  "harmless (Mark_Dirty i) = False"
| "harmless (Invalidate i) = False"
| "harmless (Set_Io rd wr sy) = False"
| "harmless Destroy = False"
| "harmless _ = True"

lemma harmless_careful: "harmless x \<Longrightarrow> careful x look"
  by (cases x) simp_all

lemma harmless_run: "\<forall>x \<in> set xs. harmless x \<Longrightarrow> careful_run xs c"
  by (induction xs arbitrary: c) (auto simp: harmless_careful split: option.splits sum.splits)

text \<open>What the calls do to the store: only a successful \<open>Modify\<close> changes it.\<close>

fun effect :: "'d call \<Rightarrow> int \<times> addr option \<Rightarrow> (extent_key \<Rightarrow> u8 list) \<Rightarrow> extent_key \<Rightarrow> u8 list" where
  "effect (Modify i off bs) r st = (if fst r = KES_SUCCESS then st(key i := patch off bs (st (key i))) else st)"
| "effect x r st = st"

fun replay :: "'d call list \<Rightarrow> (int \<times> addr option) list \<Rightarrow> (extent_key \<Rightarrow> u8 list) \<Rightarrow> extent_key \<Rightarrow> u8 list" where
  "replay (x # xs) (r # rs) st = replay xs rs (effect x r st)"
| "replay _ _ st = st"

lemma patch_take: "off + length bs \<le> n \<Longrightarrow> n \<le> length buf \<Longrightarrow> take n (patch off bs buf) = patch off bs (take n buf)"
  by (simp add: patch_def overlay_def drop_take min_absorb1 min_absorb2 diff_diff_add add.commute)

lemma coherent_modify:
  assumes s: "coherent content (es, c)" and a: "map_of es a = Some b" and ok: "loaded b" "off + length bs \<le> unat (e_data_size b)"
    and v: "mark_view a b (es, c) = (es1, c1)"
    and c': "c' = c1\<lparr>m_bufs := (m_bufs c1)(the (e_data b) \<mapsto> patch off bs (the (m_bufs c1 (the (e_data b)))))\<rparr>"
  shows "coherent content (es1, c')"
    "seen content (es1, c') = (seen content (es, c))(key (e_id b) := patch off bs (seen content (es, c) (key (e_id b))))"
proof -
  note d = coherentD [OF s]
  obtain p buf where p: "e_data b = Some p" "m_bufs c p = Some buf" "length buf = asize b" "resting b" by (rule sound_buffer [OF d(1) a])
  have ab: "(a, b) \<in> set es" by (rule map_of_SomeD [OF a])
  have le: "unat (e_data_size b) \<le> length buf" using asize_pos [OF p(4)] p(3) by simp
  define b' where "b' = (if dirty b then b else dirty_body b)"
  have es1: "es1 = at a (\<lambda>_. b') es"
  proof (cases "dirty b")
    case True
    then show ?thesis using v at_same [OF d(2) a, of "\<lambda>_. b"] by (simp add: mark_view_def b'_def)
  next
    case False
    obtain us vs where "es = us @ (a, b) # vs" "a \<notin> fst ` set us" "a \<notin> fst ` set vs" "at a dirty_body es = us @ (a, dirty_body b) # vs"
      by (rule split_at [OF d(2) a])
    then show ?thesis using v False at_other [of a us] at_other [of a vs] by (simp add: mark_view_def b'_def at_def)
  qed
  have c1: "m_bufs c1 = m_bufs c" "m_dev c1 = m_dev c" "c_read_extent c1 = c_read_extent c" "c_write_extent c1 = c_write_extent c"
    using v by (auto simp: mark_view_def bump_def stats_def split: if_splits)
  have b': "e_id b' = e_id b" "e_data b' = e_data b" "e_data_size b' = e_data_size b" "resting b'" "dirty b'"
    using p(4) by (auto simp: b'_def dirty_body_def resting_def dirty_def)
  have mb: "m_bufs c' = (m_bufs c)(p \<mapsto> patch off bs buf)" using p(1,2) c1 by (simp add: c')
  have byt: "bytes c' b' = patch off bs (bytes c b)" using b' p(1,2) mb patch_take [OF ok(2) le] by (simp add: bytes_def)
  have ins: "in_step content c' b'" using b'(5) by (simp add: in_step_def loaded_def)
  have bk: "backing content c'" using d(4) c1 by (simp add: backing_def c')
  have len: "map_option length (m_bufs c' q) = map_option length (m_bufs c q)" for q
    using length_patch [of off bs buf] ok(2) le p(2) by (simp add: mb)
  have oth: "q \<noteq> the (e_data b) \<Longrightarrow> m_bufs c' q = m_bufs c q" "content (m_dev c') k = content (m_dev c) k" for q k
    using mb p(1) c1(2) by (simp_all add: c')
  note ca = coherent_at [OF s a b'(1-4) ins len oth(1) bk oth(2)]
  show "coherent content (es1, c')" using ca(1) by (simp add: es1)
  have "entry_for es (key (e_id b)) = Some (a, b)" using entry_for_Some [OF d(3)] ab by simp
  then have "seen content (es, c) (key (e_id b)) = bytes c b" using ok(1) by (simp add: seen_eq)
  moreover have "loaded b'" using b'(5) by (simp add: loaded_def)
  ultimately show "seen content (es1, c') = (seen content (es, c))(key (e_id b) := patch off bs (seen content (es, c) (key (e_id b))))"
    using ca(2,3) byt by (auto simp: es1)
qed

lemma referenced_loaded: "coherent content (es, c) \<Longrightarrow> map_of es a = Some b \<Longrightarrow> e_ref_count b \<noteq> 0 \<Longrightarrow> loaded b"
  using coherentD(5) [of content es c a b] by (auto simp: in_step_def dest: map_of_SomeD)

lemma slot_eq_key:
  assumes "keyed es" "map_of es a = Some b" "key (e_id b) = key i"
  shows "slot es i = Some (a, b)"
  using entry_for_Some [OF assms(1)] map_of_SomeD [OF assms(2)] assms(3) by (simp add: entry_for_slot)

text \<open>Marking a loaded entry dirty is writing nothing into it.\<close>

lemma coherent_mark:
  assumes s: "coherent content (es, c)" and a: "map_of es a = Some b" and ld: "loaded b"
  shows "coherent content (mark_view a b (es, c))" "seen content (mark_view a b (es, c)) = seen content (es, c)"
proof -
  obtain es1 c1 where v: "mark_view a b (es, c) = (es1, c1)" by fastforce
  obtain p buf where p: "e_data b = Some p" "m_bufs c p = Some buf" by (rule sound_buffer [OF coherentD(1) [OF s] a])
  have "m_bufs c1 = m_bufs c" using v by (auto simp: mark_view_def bump_def stats_def split: if_splits)
  then have "(m_bufs c1)(p \<mapsto> patch 0 [] (the (m_bufs c1 p))) = m_bufs c1" using p(2) by (simp add: patch_def overlay_def fun_upd_idem)
  then have "c1\<lparr>m_bufs := (m_bufs c1)(the (e_data b) \<mapsto> patch 0 [] (the (m_bufs c1 (the (e_data b)))))\<rparr> = c1" using p(1) by simp
  then have "coherent content (es1, c1)"
    "seen content (es1, c1) = (seen content (es, c))(key (e_id b) := patch 0 [] (seen content (es, c) (key (e_id b))))"
    using coherent_modify [OF s a ld _ v refl, of 0 "[]"] by simp_all
  then show "coherent content (mark_view a b (es, c))" "seen content (mark_view a b (es, c)) = seen content (es, c)"
    using v by (simp_all add: patch_def overlay_def fun_upd_idem)
qed

lemma put_flags: "e_id (put_body b) = e_id b" "e_data (put_body b) = e_data b" "e_data_size (put_body b) = e_data_size b"
    "resting b \<Longrightarrow> resting (put_body b)" "dirty (put_body b) = dirty b" "failed (put_body b) = failed b"
    "e_ref_count b = 0 \<Longrightarrow> e_ref_count (put_body b) = 0"
  by (simp_all add: put_body_def resting_def dirty_def failed_def)

lemma pin_flags: "e_id (pin_body b) = e_id b" "e_data (pin_body b) = e_data b" "e_data_size (pin_body b) = e_data_size b"
    "resting b \<Longrightarrow> resting (pin_body b)" "dirty (pin_body b) = dirty b" "failed (pin_body b) = failed b"
    "e_ref_count b = 0 \<Longrightarrow> e_ref_count (pin_body b) = 0"
  by (simp_all add: pin_body_def resting_def dirty_def failed_def)

lemma unpin_flags: "e_id (unpin_body b) = e_id b" "e_data (unpin_body b) = e_data b" "e_data_size (unpin_body b) = e_data_size b"
    "resting b \<Longrightarrow> resting (unpin_body b)" "dirty (unpin_body b) = dirty b" "failed (unpin_body b) = failed b"
    "e_ref_count b = 0 \<Longrightarrow> e_ref_count (unpin_body b) = 0"
  by (simp_all add: unpin_body_def resting_def dirty_def failed_def)

lemma on_slot_coherent:
  assumes s: "coherent content s" and v: "on_slot i s f = (r, Inr s')"
    and f: "\<And>a b. map_of (fst s) a = Some b \<Longrightarrow> key (e_id b) = key i \<Longrightarrow> resting b \<Longrightarrow>
      coherent content (snd (f a b)) \<and> seen content (snd (f a b)) = E (fst (f a b)) (seen content s)"
    and e: "\<And>st. E KES_ERROR_NOTFOUND st = st"
  shows "coherent content s' \<and> seen content s' = E (fst r) (seen content s)"
proof (cases "slot (fst s) i")
  case None
  then show ?thesis using v s e by (auto simp: on_slot_def)
next
  case (Some z)
  obtain a b where z: "z = (a, b)" by (cases z)
  have s2: "coherent content (fst s, snd s)" using s by simp
  have m: "map_of (fst s) a = Some b" by (rule slot_map_of [OF coherentD(2) [OF s2] Some [unfolded z]])
  have "resting b" using sound_buffer [OF coherentD(1) [OF s2] m] by blast
  then show ?thesis using f [OF m] slot_SomeD [OF Some [unfolded z]] v Some z by (auto simp: on_slot_def split: prod.splits)
qed

lemma start_rest:
  assumes "kes_cache_start (Some c) = Some (r, Some c')"
  shows "m_bufs c' = m_bufs c \<and> m_dev c' = m_dev c \<and> c_read_extent c' = c_read_extent c \<and> c_write_extent c' = c_write_extent c \<and>
    c_stats c' = c_stats c \<and> c_config c' = c_config c"
proof -
  have st: "m_bufs d' = m_bufs d \<and> m_dev d' = m_dev d \<and> c_read_extent d' = c_read_extent d \<and> c_write_extent d' = c_write_extent d \<and>
      c_stats d' = c_stats d \<and> c_config d' = c_config d"
    if "start_threads d ts i k = Some (q, d')" for d d' :: "'a kes_cache" and ts i k q
    using that
  proof (induction k arbitrary: d ts i)
    case (Suc k)
    obtain f d1 where f: "may_fail d = (f, d1)" by fastforce
    obtain x where x: "d1 = d\<lparr>m_sched := x\<rparr>" by (rule may_fail_upd [OF f])
    show ?case
    proof (cases f)
      case True
      then show ?thesis using Suc.prems f x by (auto simp: lock_cache_def unlock_cache_def split: Option.bind_splits if_splits)
    next
      case False
      then have "start_threads d1 (ts[i := True]) (i + 1) k = Some (q, d')" using Suc.prems f by simp
      from Suc.IH [OF this] show ?thesis by (simp add: x)
    qed
  qed auto
  obtain f c1 where f: "may_fail c = (f, c1)" by fastforce
  obtain x where x: "c1 = c\<lparr>m_sched := x\<rparr>" by (rule may_fail_upd [OF f])
  show ?thesis using assms f x st
    by (fastforce simp: kes_cache_start_def Let_def split: if_splits Option.bind_splits)
qed

lemma vstep_coherent:
  assumes s: "coherent content s" and f: "fresh (snd s) (fst s)" and x: "careful x (\<lambda>i. map_option snd (slot (fst s) i))"
    and v: "vstep x s = (r, Inr s')"
  shows "coherent content s' \<and> seen content s' = effect x r (seen content s)"
proof -
  have s2: "coherent content (fst s, snd s)" using s by simp
  note fl = coherent_flags [OF s2]
  note vis = coherent_walks(1,2) [OF s]
  have rest: "coherent content (fst s, c') \<and> seen content (fst s, c') = seen content s"
    if "m_bufs c' = m_bufs (snd s)" "m_dev c' = m_dev (snd s)" "c_read_extent c' = c_read_extent (snd s)" "c_write_extent c' = c_write_extent (snd s)" for c'
    using s2 coherent_rest(1) [OF that, of content "fst s"] coherent_rest(2) [OF that(1,2), of content "fst s"] by simp
  show ?thesis
  proof (cases x)
    case (Get i)
    show ?thesis
    proof (cases "id_ok i")
      case True
      obtain q t where q: "get_step i s = (q, t)" by (cases "get_step i s")
      then have "get_step i (fst s, snd s) = ((fst q, snd q), fst t, snd t)" by simp
      from coherent_get(1,2) [OF s2 f True this] show ?thesis using v Get True q by simp
    qed (use v Get s in auto)
  next
    case (Put i)
    have "coherent content s' \<and> seen content s' = (\<lambda>_ st. st) (fst r) (seen content s)"
    proof (rule on_slot_coherent [OF s])
      show "on_slot i s (\<lambda>a b. (KES_SUCCESS, at a put_body (fst s), snd s)) = (r, Inr s')" using v Put by simp
    qed (use fl [where g = put_body] put_flags in auto)
    then show ?thesis using Put by simp
  next
    case (Pin i)
    have "coherent content s' \<and> seen content s' = (\<lambda>_ st. st) (fst r) (seen content s)"
    proof (rule on_slot_coherent [OF s])
      show "on_slot i s (\<lambda>a b. (KES_SUCCESS, at a pin_body (fst s),
         bump (\<not> pinned b) (\<lambda>s. s\<lparr>cs_entries_pinned := cs_entries_pinned s + 1\<rparr>) (snd s))) = (r, Inr s')" using v Pin by simp
    qed (use fl [where g = pin_body] pin_flags in \<open>auto simp: bump_def stats_def\<close>)
    then show ?thesis using Pin by simp
  next
    case (Unpin i)
    have "coherent content s' \<and> seen content s' = (\<lambda>_ st. st) (fst r) (seen content s)"
    proof (rule on_slot_coherent [OF s])
      show "on_slot i s (\<lambda>a b. (KES_SUCCESS, at a unpin_body (fst s),
         bump (e_pin_count b = 1) (\<lambda>s. s\<lparr>cs_entries_pinned := cs_entries_pinned s - 1\<rparr>) (snd s))) = (r, Inr s')" using v Unpin by simp
    qed (use fl [where g = unpin_body] unpin_flags in \<open>auto simp: bump_def stats_def\<close>)
    then show ?thesis using Unpin by simp
  next
    case (Flush i)
    have "coherent content s' \<and> seen content s' = (\<lambda>_ st. st) (fst r) (seen content s)"
    proof (rule on_slot_coherent [OF s])
      show "on_slot i s (\<lambda>a b. (flush_code (snd s) i b, at a (\<lambda>_. flush_body (flush_back (snd s) i b) b) (fst s),
         flush_core (flush_back (snd s) i b) b (snd s))) = (r, Inr s')" using v Flush by simp
    qed (use coherent_flush [OF s2 _ _ refl] in auto)
    then show ?thesis using Flush by simp
  next
    case (Modify i off bs)
    let ?f = "\<lambda>a b. if e_ref_count b = 0 \<or> off + length bs > unat (e_data_size b) then (KES_ERROR_INVALID, s)
      else case mark_view a b s of (es, c) \<Rightarrow> (KES_SUCCESS, es,
        c\<lparr>m_bufs := (m_bufs c)(the (e_data b) \<mapsto> patch off bs (the (m_bufs c (the (e_data b)))))\<rparr>)"
    have "coherent content s' \<and> seen content s' = (\<lambda>q st. effect x (q, None) st) (fst r) (seen content s)"
    proof (rule on_slot_coherent [OF s])
      show "on_slot i s ?f = (r, Inr s')"
        using v Modify by simp
      fix a b
      assume a: "map_of (fst s) a = Some b" and k: "key (e_id b) = key i"
      obtain es1 c1 where mv: "mark_view a b (fst s, snd s) = (es1, c1)" by fastforce
      show "coherent content (snd (?f a b)) \<and> seen content (snd (?f a b)) = effect x (fst (?f a b), None) (seen content s)"
        using coherent_modify [OF s2 a referenced_loaded [OF s2 a] _ mv refl, of off bs] s mv k Modify by auto
    qed (use Modify in simp)
    then show ?thesis using Modify by simp
  next
    case (Mark_Dirty i)
    have "coherent content s' \<and> seen content s' = (\<lambda>_ st. st) (fst r) (seen content s)"
    proof (rule on_slot_coherent [OF s])
      show "on_slot i s (\<lambda>a b. (KES_SUCCESS, mark_view a b s)) = (r, Inr s')" using v Mark_Dirty by simp
      fix a b
      assume a: "map_of (fst s) a = Some b" and k: "key (e_id b) = key i"
      have "loaded b \<or> e_ref_count b \<noteq> 0" using x Mark_Dirty slot_eq_key [OF coherentD(3) [OF s2] a k] by simp
      then have "loaded b" using referenced_loaded [OF s2 a] by blast
      then show "coherent content (snd (KES_SUCCESS, mark_view a b s)) \<and>
          seen content (snd (KES_SUCCESS, mark_view a b s)) = seen content s"
        using coherent_mark [OF s2 a] by simp
    qed simp
    then show ?thesis using Mark_Dirty by simp
  next
    case (Invalidate i)
    let ?f = "\<lambda>a b. if busy b then (KES_ERROR_BUSY, s) else (KES_SUCCESS, drop_at a (fst s),
       bump (dirty b) (\<lambda>s. s\<lparr>cs_entries_dirty := cs_entries_dirty s - 1\<rparr>) (evict_core b (snd s)))"
    have "coherent content s' \<and> seen content s' = (\<lambda>_ st. st) (fst r) (seen content s)"
    proof (rule on_slot_coherent [OF s])
      show "on_slot i s ?f = (r, Inr s')" using v Invalidate by simp
      fix a b
      assume a: "map_of (fst s) a = Some b" and k: "key (e_id b) = key i"
      have "busy b \<or> \<not> dirty b" using x Invalidate slot_eq_key [OF coherentD(3) [OF s2] a k] by simp
      then show "coherent content (snd (?f a b)) \<and> seen content (snd (?f a b)) = seen content s"
        using coherent_drop [OF s2 a] s by (auto simp: bump_def)
    qed simp
    then show ?thesis using Invalidate by simp
  next
    case Start
    obtain q c' where q: "kes_cache_start (Some (snd s)) = Some (q, Some c') \<or> s' = s" 
      using v Start by (auto split: option.splits prod.splits)
    then show ?thesis using v Start s rest start_rest [of "snd s"] by (auto split: option.splits prod.splits)
  qed (use v x s rest [of "stats cleared (snd s)"] rest [of "(snd s)\<lparr>c_shutdown := True, c_bg_threads := None\<rparr>"] vis
       in \<open>auto simp: stats_def split: if_splits\<close>)
qed

section \<open>The configuration and the callbacks\<close>

text \<open>No call changes the configuration, and careful calls leave the write callback as it is.\<close>

lemma vstep_frame:
  assumes v: "vstep x s = (r, Inr s')"
  shows "c_config (snd s') = c_config (snd s) \<and> (careful x look \<longrightarrow> c_write_extent (snd s') = c_write_extent (snd s))"
proof -
  have fv: "c_config (snd (fold visit as s)) = c_config (snd s) \<and> c_write_extent (snd (fold visit as s)) = c_write_extent (snd s)" for as
    using fold_visit_steady [of as "fst s" "snd s"] by (cases "fold visit as s") (auto simp: steady_def)
  have dr: "c_config (drain es c) = c_config c" for es and c :: "'a kes_cache" by (induction es c rule: drain.induct) auto
  have gs: "c_config (snd t) = c_config (snd s) \<and> c_write_extent (snd t) = c_write_extent (snd s)" if "get_step i s = (q, t)" for i q t
    using get_step_calm(1) [of i "fst s" "snd s" q "fst t" "snd t"] that by (simp add: calm_def)
  show ?thesis
  proof (cases x)
    case (Get i)
    then show ?thesis using v gs by (auto split: if_splits prod.splits)
  next
    case (Modify i off bs)
    then show ?thesis using v by (auto simp: on_slot_def mark_view_def bump_def stats_def split: option.splits if_splits prod.splits)
  next
    case (Mark_Dirty i)
    then show ?thesis using v by (auto simp: on_slot_def mark_view_def bump_def stats_def split: option.splits prod.splits if_splits)
  next
    case Start
    then show ?thesis using v start_rest [of "snd s"] by (auto split: option.splits prod.splits)
  qed (use v fv dr in \<open>auto simp: on_slot_def bump_def stats_def Let_def split: option.splits if_splits\<close>)
qed

section \<open>Sequences of calls\<close>

lemma run_coherent:
  assumes "cache_ok c es" "bounded n es" "n + length xs \<le> 2 ^ 32 - 1" "coherent content (es, core c)" "careful_run xs c"
  obtains rs c' es' where "run xs c = Some (rs, Inr c')" "cache_ok c' es'" "bounded (n + length xs) es'" "coherent content (es', core c')"
    "seen content (es', core c') = replay xs rs (seen content (es, core c))" "c_write_extent c' = c_write_extent c"
  using assms
proof (induction xs arbitrary: c es n thesis)
  case Nil
  then show ?case by (simp add: run_def)
next
  case (Cons x xs)
  have "cached_entry c = (\<lambda>i. map_option snd (slot es i))" using cached_entry_slot [OF Cons.prems(2)] by blast
  then have x: "careful x (\<lambda>i. map_option snd (slot es i))" using Cons.prems(6) by simp
  have ok: "call_ok x" using x by (cases x; simp)
  have n: "n < 2 ^ 32 - 1" "n + 1 + length xs \<le> 2 ^ 32 - 1" using Cons.prems(4) by simp_all
  have r: "refines (exec x c) (vstep x (es, core c))" by (rule exec_refines [OF Cons.prems(2) ok Cons.prems(3) n(1)])
  obtain q s where e: "exec x c = Some (q, s)" using r by (cases "exec x c") (auto simp: refines_def)
  have alive: "\<exists>r s1. vstep x s0 = (r, Inr s1)" for s0 using x
    by (cases x) (auto simp: on_slot_def split: option.splits prod.splits if_splits)
  obtain c1 where s: "s = Inr c1" using r e alive [of "(es, core c)"] by (cases s) (auto simp: refines_def)
  then obtain es1 where es1: "cache_ok c1 es1" "vstep x (es, core c) = (q, Inr (es1, core c1))"
    using e r by (auto simp: refines_def)
  have b1: "bounded (n + 1) es1" using vstep_bounded [OF cache_ok_sound [OF Cons.prems(2)] _ n(1) es1(2)] Cons.prems(3) by simp
  have "fresh (core c) es" using cache_okD(2) [OF Cons.prems(2)] by (simp add: tidy_def fresh_def)
  then have co: "coherent content (es1, core c1)" "seen content (es1, core c1) = effect x q (seen content (es, core c))"
    using vstep_coherent [OF Cons.prems(5) _ _ es1(2)] x by simp_all
  have w: "c_write_extent c1 = c_write_extent c" using vstep_frame [OF es1(2)] x by simp
  have ks: "careful_run xs c1" using Cons.prems(6) e s by simp
  show ?case
  proof (rule Cons.IH [OF _ es1(1) b1 n(2) co(1) ks])
    fix rs c' es'
    assume "run xs c1 = Some (rs, Inr c')" "cache_ok c' es'" "bounded (n + 1 + length xs) es'" "coherent content (es', core c')"
      "seen content (es', core c') = replay xs rs (seen content (es1, core c1))" "c_write_extent c' = c_write_extent c1"
    then show ?thesis using Cons.prems(1) [of "q # rs" c' es'] e s co(2) w by (simp add: run_def)
  qed
qed

end
