(* ===== verification/Kes_Cache_Laws.thy ===== *)
theory Kes_Cache_Laws
  imports Kes_Cache_Store
begin

text \<open>
  Laws of the abstract machine that the contract of the cache rests on: the configuration never
  changes, entries in use survive every call with their buffers, evictions go from the least
  recently used end, a sweep with a working device leaves no dirty entry, and the counter of dirty
  entries is exact as long as nobody tries to destroy the cache.
\<close>

section \<open>Lists of visited entries\<close>

text \<open>One visit in the middle of the list.\<close>

lemma visit_split:
  assumes d: "distinct (map fst (us @ (a, b) # vs))"
  obtains ys where "visit a (us @ (a, b) # vs, c) = (us @ ys @ vs, snd (visit a (us @ (a, b) # vs, c)))"
    "ys = (if evictable (flush_body (write_back c b) b) False then [] else [(a, flush_body (write_back c b) b)])"
proof -
  have n: "a \<notin> fst ` set us" "a \<notin> fst ` set vs" using d by (force simp: image_iff)+
  have m: "map_of (us @ (a, b) # vs) a = Some b" using map_of_is_SomeI [OF d, of a b] by simp
  have at: "at a (\<lambda>_. y) (us @ (a, b) # vs) = us @ (a, y) # vs" for y using n at_other [of a us] at_other [of a vs] by (simp add: at_def)
  show thesis using that [OF _ refl] m at drop_at_split [OF n] by (simp add: visit_def Let_def)
qed

section \<open>The order of evictions\<close>

text \<open>What a visit makes of an entry: a dirty one is written to the device \<open>d\<close>, with the bytes of its buffer, and is
  clean after that, or in the error state as well.\<close>

definition settle_one :: "'d write_cb option \<Rightarrow> (addr \<Rightarrow> u8 list option) \<Rightarrow> 'd \<Rightarrow> extent_body \<Rightarrow> extent_body \<times> 'd" where
  "settle_one wr m d b = (case wr of None \<Rightarrow> (b, d) | Some g \<Rightarrow> if \<not> dirty b then (b, d)
     else case g d (e_id b) (take (unat (e_data_size b)) (the (m (the (e_data b))))) (e_data_size b) of (r, d1) \<Rightarrow>
       (b\<lparr>e_state := (if r = KES_SUCCESS then clean_state (e_state b) else e_state b OR KES_EXTENT_ERROR)\<rparr>, d1))"

text \<open>Visits of a list of entries, one after the other.\<close>

fun settle :: "'d write_cb option \<Rightarrow> (addr \<Rightarrow> u8 list option) \<Rightarrow> 'd \<Rightarrow> (addr \<times> extent_body) list \<Rightarrow> (addr \<times> extent_body) list \<times> 'd" where
  "settle wr m d [] = ([], d)"
| "settle wr m d ((a, b) # es) = (case settle_one wr m d b of (b1, d1) \<Rightarrow>
     case settle wr m d1 es of (es2, d2) \<Rightarrow> ((a, b1) # es2, d2))"

text \<open>The entries that stay of the ones visited, from the least recently used (last) one on: those referenced,
  pinned, still dirty or in the error state. And whether a list of entries leaves room for \<open>n\<close> bytes more.\<close>

definition stuck :: "extent_body \<Rightarrow> bool" where
  "stuck b \<longleftrightarrow> busy b \<or> dirty b \<or> failed b"

definition leftover :: "'d write_cb option \<Rightarrow> (addr \<Rightarrow> u8 list option) \<Rightarrow> 'd \<Rightarrow> (addr \<times> extent_body) list \<Rightarrow> (addr \<times> extent_body) list" where
  "leftover wr m d es = rev (filter (\<lambda>(a, b). stuck b) (fst (settle wr m d (rev es))))"

definition spare :: "kes_cache_config \<Rightarrow> (addr \<times> extent_body) list \<Rightarrow> nat \<Rightarrow> bool" where
  "spare cfg es n \<longleftrightarrow> length es + 1 \<le> unat (cc_max_entries cfg) \<and> mem es + n \<le> unat (cc_max_memory cfg)"

lemma settle_one_visit:
  "settle_one (c_write_extent c) (m_bufs c) (m_dev c) b = (flush_body (write_back c b) b, m_dev (flush_core (write_back c b) b c))"
  by (auto simp: settle_one_def write_back_def flush_body_def flush_core_def stats_def split: option.splits prod.splits)

lemma leftover_Nil [simp]: "leftover wr m d [] = []"
  by (simp add: leftover_def)

lemma leftover_snoc: "settle_one wr m d b = (b1, d1) \<Longrightarrow>
   leftover wr m d (es @ [(a, b)]) = leftover wr m d1 es @ (if stuck b1 then [(a, b1)] else [])"
  by (simp add: leftover_def split: prod.splits)

lemma settle_snoc: "settle_one wr m d b = (b1, d1) \<Longrightarrow> snd (settle wr m d (rev (es @ [(a, b)]))) = snd (settle wr m d1 (rev es))"
  by (simp split: prod.splits)

lemma settle_one_cong: "m (the (e_data b)) = m' (the (e_data b)) \<Longrightarrow> settle_one wr m d b = settle_one wr m' d b"
  by (cases wr) (simp_all add: settle_one_def)

lemma room_for_spare:
  assumes t: "tidy c es" and cfg: "config_ok (c_config c)" and n: "unat needed < 2 ^ 62"
  shows "room_for c needed \<longleftrightarrow> spare (c_config c) es (unat needed)"
proof -
  let ?s = "c_stats c"
  have cnt: "unat (cs_entries_cached ?s) = length es" "unat (cs_memory_used ?s) = mem es"
      "length es \<le> unat (cc_max_entries (c_config c))" "mem es \<le> unat (cc_max_memory (c_config c))"
    using t by (simp_all add: tidy_def counts_def within_def)
  have "unat (cs_entries_cached ?s + 1) = length es + 1" using cnt(1,3) cfg by (subst unat_plus_one) (simp_all add: config_ok_def)
  moreover have "unat (cs_memory_used ?s + needed) = mem es + unat needed"
    using cnt(2,4) cfg n by (subst unat_add_no_overflow) (simp_all add: config_ok_def)
  ultimately show ?thesis by (simp add: room_for_def spare_def word_le_nat_alt)
qed

lemma evictable_stuck: "resting b \<Longrightarrow> evictable b False \<longleftrightarrow> \<not> stuck b"
  by (auto simp: evictable_def stuck_def busy_def dirty_def failed_def resting_def)

text \<open>One visit in the middle of the list.\<close>

lemma visit_middle:
  assumes t: "tidy c (us @ (a, b) # vs)" and d: "distinct (map fst (us @ (a, b) # vs))"
  obtains ys c1 b1 d1 where "visit a (us @ (a, b) # vs, c) = (us @ ys @ vs, c1)" "tidy c1 (us @ ys @ vs)" "steady c c1"
    "settle_one (c_write_extent c) (m_bufs c) (m_dev c) b = (b1, d1)" "m_dev c1 = d1" "ys = (if stuck b1 then [(a, b1)] else [])"
    "\<forall>q. q \<noteq> the (e_data b) \<longrightarrow> m_bufs c1 q = m_bufs c q" "asize b1 = asize b"
proof -
  let ?r = "write_back c b" and ?es = "us @ (a, b) # vs"
  define b1 where "b1 = flush_body ?r b"
  define c0 where "c0 = flush_core ?r b c"
  have n: "a \<notin> fst ` set us" "a \<notin> fst ` set vs" using d by (force simp: image_iff)+
  have m: "map_of ?es a = Some b" using map_of_is_SomeI [OF d, of a b] by simp
  have at: "at a (\<lambda>_. y) ?es = us @ (a, y) # vs" for y using n at_other [of a us] at_other [of a vs] by (simp add: at_def)
  have rb: "resting b" using t by (simp add: tidy_def)
  have b1: "alike b b1" "resting b1" using rb by (simp_all add: b1_def resting_flush)
  have k: "m_bufs c0 = m_bufs c" "m_next c0 = m_next c" "c_config c0 = c_config c" "c_cache_lock c0 = c_cache_lock c"
    "cs_entries_cached (c_stats c0) = cs_entries_cached (c_stats c)" "cs_memory_used (c_stats c0) = cs_memory_used (c_stats c)"
    "cs_entries_pinned (c_stats c0) = cs_entries_pinned (c_stats c)"
    by (auto simp: c0_def flush_core_def stats_def split: option.splits)
  have pin: "pinned b1 = pinned b" using alikeD(5) [OF b1(1)] by (simp add: pinned_def)
  have "tidy c0 (at a (\<lambda>_. b1) ?es)"
  proof (rule tidy_at [OF t d m])
    show "unat (cs_entries_pinned (c_stats c0)) = count pinned (at a (\<lambda>_. b1) ?es)"
      using t k(7) count_at [OF d m, of pinned "\<lambda>_. b1"] pin by (simp add: tidy_def counts_def split: if_splits)
  qed (use b1 alikeD(1,2) [OF b1(1)] k t in \<open>simp_all add: tidy_def\<close>)
  then have t0: "tidy c0 (us @ (a, b1) # vs)" by (simp add: at)
  define ys where "ys = (if stuck b1 then [(a, b1)] else [])"
  define c1 where "c1 = (if stuck b1 then c0 else evict_core b1 c0)"
  have v: "visit a (?es, c) = (us @ ys @ vs, c1)"
    using m at drop_at_split [OF n] evictable_stuck [OF b1(2)]
    by (simp add: visit_def Let_def ys_def c1_def flip: b1_def c0_def)
  have "tidy c1 (us @ ys @ vs)"
    using t0 tidy_remove [OF t0] by (auto simp: ys_def c1_def stuck_def busy_def pinned_def)
  moreover have "m_dev c1 = m_dev c0" "\<forall>q. q \<noteq> the (e_data b) \<longrightarrow> m_bufs c1 q = m_bufs c q"
    using alikeD(2) [OF b1(1)] k(1) by (simp_all add: c1_def evict_core_def stats_def)
  ultimately show thesis
    using that [OF v _ visit_steady [OF v] settle_one_visit] alikeD(7) [OF b1(1)] by (simp add: ys_def b1_def c0_def)
qed

text \<open>The walk of \<open>make_room_for_new_entry\<close>: the entries \<open>es2\<close> at the least recently used end are visited, the
  others are left alone; it ends as soon as there is room, and goes on as long as there is none.\<close>

lemma room_walk_order:
  assumes "tidy c (es @ ts)" "distinct (map fst (es @ ts))" "config_ok (c_config c)" "unat needed < 2 ^ 62"
    "room_walk needed (rev (map fst es)) (es @ ts, c) = (fits, es', c')" "\<not> spare (c_config c) (es @ ts) (unat needed)"
    "\<forall>(a, b) \<in> set es. m_bufs c (the (e_data b)) = m (the (e_data b))"
  obtains es1 es2 where "es = es1 @ es2" "es' = es1 @ leftover (c_write_extent c) m (m_dev c) es2 @ ts"
    "fits \<longleftrightarrow> spare (c_config c) es' (unat needed)" "fits \<or> es1 = []"
    "\<And>us vs. es2 = us @ vs \<Longrightarrow> us \<noteq> [] \<Longrightarrow> \<not> spare (c_config c) (es1 @ us @ leftover (c_write_extent c) m (m_dev c) vs @ ts) (unat needed)"
    "m_dev c' = snd (settle (c_write_extent c) m (m_dev c) (rev es2))"
  using assms
proof (induction es arbitrary: ts c thesis rule: rev_induct)
  case Nil
  then show ?case by simp
next
  case (snoc x es)
  obtain a b where x: "x = (a, b)" by (cases x)
  let ?wr = "c_write_extent c" and ?cfg = "c_config c" and ?n = "unat needed"
  have t: "tidy c (es @ (a, b) # ts)" and d: "distinct (map fst (es @ (a, b) # ts))" using snoc.prems(2,3) x by simp_all
  obtain ys c1 b1 d1 where v: "visit a (es @ (a, b) # ts, c) = (es @ ys @ ts, c1)" "tidy c1 (es @ ys @ ts)" "steady c c1"
    "settle_one ?wr (m_bufs c) (m_dev c) b = (b1, d1)" "m_dev c1 = d1" "ys = (if stuck b1 then [(a, b1)] else [])"
    "\<forall>q. q \<noteq> the (e_data b) \<longrightarrow> m_bufs c1 q = m_bufs c q" "asize b1 = asize b" by (rule visit_middle [OF t d])
  have "m_bufs c (the (e_data b)) = m (the (e_data b))" using snoc.prems(8) x by simp
  from settle_one_cong [of "m_bufs c" b m ?wr "m_dev c", OF this] have so: "settle_one ?wr m (m_dev c) b = (b1, d1)" using v(4) by simp
  have n: "a \<notin> fst ` set es" "a \<notin> fst ` set ts" using d by (force simp: image_iff)+
  define c2 where "c2 = (if stuck b1 then c1 else stats (\<lambda>s. s\<lparr>cs_evictions := cs_evictions s + 1\<rparr>) c1)"
  have k2: "m_bufs c2 = m_bufs c1" "m_dev c2 = d1" "c_write_extent c2 = ?wr" "c_config c2 = ?cfg"
    using v(3,5) by (simp_all add: c2_def stats_def steady_def)
  have t2: "tidy c2 (es @ ys @ ts)" using v(2) by (simp add: c2_def tidy_stats)
  have room: "room_for c2 needed \<longleftrightarrow> spare ?cfg (es @ ys @ ts) ?n"
    using room_for_spare [OF t2 _ snoc.prems(5)] snoc.prems(4) k2(4) by simp
  have nosp: "\<not> spare ?cfg (es @ (a, b) # ts) ?n" using snoc.prems(7) x by simp
  have "map_of (es @ ys @ ts) a = None \<longleftrightarrow> \<not> stuck b1" using n v(6) by (auto simp: map_of_eq_None_iff)
  moreover have "stuck b1 \<Longrightarrow> \<not> spare ?cfg (es @ ys @ ts) ?n" using nosp v(6,8) by (simp add: spare_def)
  ultimately have r: "room_visit needed a (es @ (a, b) # ts, c) = (spare ?cfg (es @ ys @ ts) ?n, es @ ys @ ts, c2)"
    using room unfolding room_visit_def v(1) by (auto simp: c2_def Let_def)
  show ?case
  proof (cases "spare ?cfg (es @ ys @ ts) ?n")
    case True
    then have out: "fits" "es' = es @ ys @ ts" "c' = c2" using snoc.prems(6) r x by simp_all
    show ?thesis
    proof (rule snoc.prems(1) [of es "[x]"])
      show "\<not> spare ?cfg (es @ us @ leftover ?wr m (m_dev c) vs @ ts) ?n" if u: "[x] = us @ vs" "us \<noteq> []" for us vs
      proof -
        have "us = [x]" "vs = []" using u by (cases us; simp)+
        then show ?thesis using nosp x by simp
      qed
    qed (use out True x k2 v(6) so leftover_snoc [OF so, of "[]" a] in simp_all)
  next
    case False
    have w: "room_walk needed (rev (map fst es)) (es @ ys @ ts, c2) = (fits, es', c')" using snoc.prems(6) r False x by simp
    have dd: "distinct (map fst (es @ ys @ ts))" using d v(6) by auto
    have "distinct (map (\<lambda>(a, b). e_data b) (es @ (a, b) # ts))" using t by (simp add: tidy_def bufs_ok_def)
    moreover have "\<exists>p. e_data y = Some p" if "(z, y) \<in> set (es @ (a, b) # ts)" for z y
      using t that unfolding tidy_def bufs_ok_def by blast
    ultimately have ne: "the (e_data y) \<noteq> the (e_data b)" if "(z, y) \<in> set es" for z y
      using that by (auto simp: image_iff split: prod.splits) (metis (no_types, lifting) Un_iff insert_iff option.sel)
    have bm: "\<forall>(z, y) \<in> set es. m_bufs c2 (the (e_data y)) = m (the (e_data y))"
      using snoc.prems(8) v(7) ne k2(1) by fastforce
    note sel = k2(2-4)
    show ?thesis
    proof (rule snoc.IH [OF _ t2 dd _ snoc.prems(5) w _ bm], unfold sel)
      fix es1 es2
      assume i: "es = es1 @ es2" "es' = es1 @ leftover ?wr m d1 es2 @ ys @ ts" "fits \<longleftrightarrow> spare ?cfg es' ?n" "fits \<or> es1 = []"
        "\<And>us vs. es2 = us @ vs \<Longrightarrow> us \<noteq> [] \<Longrightarrow> \<not> spare ?cfg (es1 @ us @ leftover ?wr m d1 vs @ ys @ ts) ?n"
        "m_dev c' = snd (settle ?wr m d1 (rev es2))"
      have lo: "leftover ?wr m (m_dev c) (vs @ [x]) = leftover ?wr m d1 vs @ ys" for vs using leftover_snoc [OF so] v(6) x by simp
      have "\<not> spare ?cfg (es1 @ us @ leftover ?wr m (m_dev c) vs @ ts) ?n" if u: "es2 @ [x] = us @ vs" "us \<noteq> []" for us vs
      proof (cases vs rule: rev_cases)
        case Nil
        then show ?thesis using u nosp i(1) x by auto
      next
        case (snoc ws z)
        then show ?thesis using u i(5) [of us ws] lo [of ws] by simp
      qed
      then show ?thesis
        by (intro snoc.prems(1) [of es1 "es2 @ [x]"]) (use i lo settle_snoc [OF so] x in simp_all)
    qed (use snoc.prems(4) False in simp_all)
  qed
qed

section \<open>Sweeping with a working device\<close>

lemma sweep_working:
  assumes w: "c_write_extent c = Some g" "\<And>d i bs n. fst (g d i bs n) = KES_SUCCESS"
    and "distinct (map fst (us @ ws))" "fold visit (map fst ws) (us @ ws, c) = (es', c')"
  shows "\<exists>ws'. es' = us @ ws' \<and> (\<forall>(a, b') \<in> set ws'. \<not> dirty b' \<and> \<not> evictable b' False \<and> (\<exists>b. (a, b) \<in> set ws \<and> alike b b'))"
  using assms
proof (induction ws arbitrary: us c)
  case Nil
  then show ?case by auto
next
  case (Cons x ws)
  obtain a b where x: "x = (a, b)" by (cases x)
  have d: "distinct (map fst (us @ (a, b) # ws))" using Cons.prems(3) x by simp
  let ?b = "flush_body (write_back c b) b"
  obtain ys where v: "visit a (us @ (a, b) # ws, c) = (us @ ys @ ws, snd (visit a (us @ (a, b) # ws, c)))"
    "ys = (if evictable ?b False then [] else [(a, ?b)])" by (rule visit_split [OF d])
  define c1 where "c1 = snd (visit a (us @ (a, b) # ws, c))"
  have v1: "visit a (us @ (a, b) # ws, c) = ((us @ ys) @ ws, c1)" using v(1) by (simp add: c1_def)
  have "steady c c1" by (rule visit_steady [OF v1])
  then have w1: "c_write_extent c1 = Some g" using Cons.prems(1) by (simp add: steady_def)
  have nd: "\<not> dirty ?b"
  proof (cases "dirty b")
    case True
    obtain dv where "write_back c b = Some (KES_SUCCESS, dv)"
      using True Cons.prems(1,2) by (fastforce simp: write_back_def prod_eq_iff)
    then show ?thesis by (simp add: flush_body_def dirty_def)
  qed (simp add: write_back_def flush_body_def)
  have d1: "distinct (map fst ((us @ ys) @ ws))" using d v(2) by auto
  have "fold visit (map fst ws) ((us @ ys) @ ws, c1) = (es', c')" using Cons.prems(4) v1 x by simp
  from Cons.IH [OF w1 Cons.prems(2) d1 this] obtain ws' where
    ws': "es' = (us @ ys) @ ws'" "\<forall>(a, b') \<in> set ws'. \<not> dirty b' \<and> \<not> evictable b' False \<and> (\<exists>b. (a, b) \<in> set ws \<and> alike b b')" by blast
  have "\<forall>(a', b') \<in> set ys. \<not> dirty b' \<and> \<not> evictable b' False \<and> (\<exists>y. (a', y) \<in> set (x # ws) \<and> alike y b')"
    using v(2) nd x by auto
  then show ?case using ws' by (intro exI [of _ "ys @ ws'"]) auto
qed

section \<open>The counter of dirty entries\<close>

definition dirty_exact :: "'d view \<Rightarrow> bool" where
  "dirty_exact s \<longleftrightarrow> distinct (map fst (fst s)) \<and> cs_entries_dirty (c_stats (snd s)) = of_nat (count dirty (fst s))"

lemma count_drop_at:
  assumes "distinct (map fst es)" "map_of es a = Some b"
  shows "count P es = (if P b then 1 else 0) + count P (drop_at a es)"
proof -
  obtain us vs where "es = us @ (a, b) # vs" "a \<notin> fst ` set us" "a \<notin> fst ` set vs" "at a (\<lambda>b. b) es = us @ (a, b) # vs"
    by (rule split_at [OF assms])
  then show ?thesis by (simp add: drop_at_split)
qed

lemma distinct_drop_at: "distinct (map fst es) \<Longrightarrow> distinct (map fst (drop_at a es))"
  by (induction es) (auto simp: drop_at_def)

lemma dirty_exact_flush:
  assumes s: "dirty_exact (es, c)" and a: "map_of es a = Some b" and r: "r = flush_back c i b"
  shows "dirty_exact (at a (\<lambda>_. flush_body r b) es, flush_core r b c)"
proof (cases r)
  case None
  have "at a (\<lambda>_. b) es = es" by (rule at_same [OF _ a]) (use s in \<open>simp_all add: dirty_exact_def\<close>)
  then show ?thesis using None s by (simp add: flush_body_def flush_core_def)
next
  case (Some z)
  obtain res d where z: "z = (res, d)" by (cases z)
  have f: "flush_back c i b = Some (res, d)" using Some z r by simp
  have db: "dirty b" using f by (auto simp: flush_back_def split: if_splits)
  have di: "dirty (flush_body r b) \<longleftrightarrow> res \<noteq> KES_SUCCESS" using dirty_flush(1) [OF f] r by simp
  note ca = count_at [of es a b dirty "\<lambda>_. flush_body r b"]
  have d: "distinct (map fst es)" "cs_entries_dirty (c_stats c) = of_nat (count dirty es)" using s by (simp_all add: dirty_exact_def)
  show ?thesis
  proof (cases "res = KES_SUCCESS")
    case True
    then have "count dirty es = count dirty (at a (\<lambda>_. flush_body r b) es) + 1" using ca [OF d(1) a] db di by simp
    then show ?thesis using d True Some z by (simp add: dirty_exact_def flush_core_def stats_def)
  next
    case False
    then have "count dirty es = count dirty (at a (\<lambda>_. flush_body r b) es)" using ca [OF d(1) a] db di by simp
    then show ?thesis using d False Some z by (simp add: dirty_exact_def flush_core_def stats_def)
  qed
qed

lemma dirty_exact_drop:
  assumes s: "dirty_exact (es, c)" and a: "map_of es a = Some b"
  shows "dirty_exact (drop_at a es, bump (dirty b) (\<lambda>s. s\<lparr>cs_entries_dirty := cs_entries_dirty s - 1\<rparr>) (evict_core b c))"
  using s count_drop_at [of es a b dirty, OF _ a] distinct_drop_at [of es a]
  by (auto simp: dirty_exact_def bump_def evict_core_def stats_def)

lemma dirty_exact_at:
  assumes s: "dirty_exact (es, c)" and a: "map_of es a = Some b" and g: "dirty (g b) = dirty b"
    and c: "cs_entries_dirty (c_stats c') = cs_entries_dirty (c_stats c)"
  shows "dirty_exact (at a g es, c')"
  using s count_at [of es a b dirty g] a g c by (auto simp: dirty_exact_def split: if_splits)

lemma dirty_exact_visit:
  assumes s: "dirty_exact s"
  shows "dirty_exact (visit a s)"
proof -
  obtain es c where es: "s = (es, c)" by (cases s)
  show ?thesis
  proof (cases "map_of es a")
    case None
    then show ?thesis using s es by (simp add: visit_def)
  next
    case (Some b)
    define r where "r = write_back c b"
    have f: "dirty_exact (at a (\<lambda>_. flush_body r b) es, flush_core r b c)"
      by (rule dirty_exact_flush [OF s [unfolded es] Some]) (simp add: r_def write_back_flush)
    show ?thesis
    proof (cases "evictable (flush_body r b) False")
      case True
      have m: "map_of (at a (\<lambda>_. flush_body r b) es) a = Some (flush_body r b)" using Some by (simp add: map_of_at)
      have "\<not> dirty (flush_body r b)" using True by (auto simp: evictable_def dirty_def)
      moreover have "drop_at a (at a (\<lambda>_. flush_body r b) es) = drop_at a es" by (rule drop_at_at)
      ultimately show ?thesis using dirty_exact_drop [OF f m] True Some es by (simp add: visit_def r_def Let_def bump_def)
    next
      case False
      then show ?thesis using f Some es by (simp add: visit_def r_def Let_def)
    qed
  qed
qed

lemma dirty_exact_rest: "cs_entries_dirty (c_stats c') = cs_entries_dirty (c_stats c) \<Longrightarrow> dirty_exact (es, c') = dirty_exact (es, c)"
  by (simp add: dirty_exact_def)

lemma dirty_exact_fold: "dirty_exact s \<Longrightarrow> dirty_exact (fold visit as s)"
  by (rule fold_visit_inv [of dirty_exact]) (rule dirty_exact_visit)

lemma dirty_exact_room:
  assumes "dirty_exact s" "room_step needed s = (fits, s')"
  shows "dirty_exact s'"
proof -
  have "dirty_exact (snd (room_walk needed as t))" if "dirty_exact t" for as t
    by (rule room_walk_inv [of dirty_exact, OF dirty_exact_visit _ that]) (simp_all add: dirty_exact_def stats_def)
  from this [OF assms(1), of "rev (map fst (fst s))"] show ?thesis using assms by (auto simp: room_step_def split: if_splits)
qed

section \<open>What a miss changes\<close>

lemma miss_frame:
  assumes "miss i (es, c) = (res, es', c')"
  obtains fits es1 c1 where "room_step (KES_ALIGN (extent_data_size i) KES_CACHE_ALIGNMENT) (es, c) = (fits, es1, c1)"
      "es' = es1" "m_bufs c' = m_bufs c1" "cs_entries_dirty (c_stats c') = cs_entries_dirty (c_stats c1)"
  | a b p buf fits es1 c1 where "room_step (KES_ALIGN (extent_data_size i) KES_CACHE_ALIGNMENT) (es, c) = (fits, es1, c1)"
      "es' = (a, b) # es1" "m_bufs c' = (m_bufs c1)(p \<mapsto> buf)" "m_next c1 \<le> a" "m_next c1 \<le> p" "\<not> dirty b" "e_data b = Some p"
      "cs_entries_dirty (c_stats c') = cs_entries_dirty (c_stats c1)"
proof -
  obtain fits es1 c1 where 1: "room_step (KES_ALIGN (extent_data_size i) KES_CACHE_ALIGNMENT) (es, c) = (fits, es1, c1)"
    by (cases "room_step (KES_ALIGN (extent_data_size i) KES_CACHE_ALIGNMENT) (es, c)") auto
  obtain f1 c2 where 2: "may_fail c1 = (f1, c2)" by fastforce
  obtain f2 c3 where 3: "may_fail (c2\<lparr>m_next := m_next c2 + 1, m_ticks := m_ticks c2 + 1\<rparr>) = (f2, c3)" by fastforce
  obtain x where x: "c2 = c1\<lparr>m_sched := x\<rparr>" by (rule may_fail_upd [OF 2])
  obtain y where y: "c3 = c2\<lparr>m_next := m_next c2 + 1, m_ticks := m_ticks c2 + 1\<rparr>\<lparr>m_sched := y\<rparr>" by (rule may_fail_upd [OF 3])
  show thesis
  proof (cases "fits \<and> \<not> f1 \<and> \<not> f2")
    case False
    then have "es' = es1 \<and> (c' = end_core c1 \<or> c' = end_core c2 \<or> c' = end_core c3)"
      using assms 1 2 3 by (auto simp: miss_def Let_def split: if_splits)
    then show thesis using that(1) [OF 1] by (auto simp: end_core_def x y)
  next
    case True
    define p where "p = m_next c3"
    define b where "b = new_body (fst (get_timestamp c2)) i p"
    define c4 where "c4 = c3\<lparr>m_bufs := (m_bufs c3)(p \<mapsto> map (m_junk c3 p) [0..<asize b]), m_next := p + 1\<rparr>"
    obtain r bs d where ld: "load_result (publish_core b c4) i b = (r, bs, d)" by (cases "load_result (publish_core b c4) i b") auto
    have out: "es' = (m_next c2, loaded_body r b) # es1" "c' = retry_core (r, bs, d) b (publish_core b c4)"
      using assms 1 2 3 True ld unfolding p_def b_def c4_def by (simp_all add: miss_def Let_def)
    have "m_bufs c' = (m_bufs c1)(p \<mapsto> overlay bs (map (m_junk c3 p) [0..<asize b]))"
      by (simp add: out(2) load_core_bufs c4_def x y b_def new_body_def)
    moreover have "cs_entries_dirty (c_stats c') = cs_entries_dirty (c_stats c1)"
      by (simp add: out(2) retry_core_def add_read_def stats_def publish_core_def c4_def x y)
    moreover have "\<not> dirty (loaded_body r b)" "e_data (loaded_body r b) = Some p"
      by (simp_all add: loaded_body_def dirty_def b_def new_body_def)
    ultimately show thesis using that(2) [OF 1 out(1)] by (simp add: p_def x y)
  qed
qed

lemma attach_dirty:
  assumes "attach c i b = (b1, k)"
  shows "dirty b1 = dirty b" "cs_entries_dirty (c_stats k) = cs_entries_dirty (c_stats c)"
  using assms by (auto simp: attach_def retry_body_def dirty_def retry_core_def add_read_def stats_def split: if_splits)

lemma dirty_exact_get:
  assumes s: "dirty_exact (es, c)" and f: "fresh c es" and g: "get_step i (es, c) = (res, es', c')"
  shows "dirty_exact (es', c')"
proof -
  let ?c = "c\<lparr>c_inflight_lookups := c_inflight_lookups c + 1\<rparr>"
  have s1: "dirty_exact (es, ?c)" "fresh ?c es" using s f by (simp_all add: dirty_exact_def fresh_def)
  show ?thesis
  proof (cases "slot es i")
    case None
    then have "miss i (es, ?c) = (res, es', c')" using g by (simp add: get_step_def Let_def)
    then show ?thesis
    proof (cases rule: miss_frame)
      case (1 fits es1 c1)
      then show ?thesis using dirty_exact_room [OF s1(1) 1(1)] by (simp add: dirty_exact_def)
    next
      case (2 a b p buf fits es1 c1)
      have "a \<notin> fst ` set es1" using fresh_walk(1) [OF s1(2) 2(1)] 2(4) by (auto simp: fresh_def)
      then show ?thesis using dirty_exact_room [OF s1(1) 2(1)] 2(2,6,8) by (simp add: dirty_exact_def)
    qed
  next
    case (Some z)
    obtain a b where z: "z = (a, b)" by (cases z)
    have h: "hit i a b (es, ?c) = (res, es', c')" using g Some z by (simp add: get_step_def Let_def)
    have d: "distinct (map fst es)" using s by (simp add: dirty_exact_def)
    have a: "map_of es a = Some b" by (rule slot_map_of [OF d Some [unfolded z]])
    obtain b1 k where k: "attach ?c i b = (b1, k)" by fastforce
    note ad = attach_dirty [OF k]
    show ?thesis
    proof (cases "failed b1")
      case True
      then have "es' = at a (\<lambda>_. b1) es" "c' = end_core k" using h k by (auto simp: hit_def)
      then show ?thesis using dirty_exact_at [OF s a, of "\<lambda>_. b1" c'] ad by (simp add: end_core_def)
    next
      case False
      then have "es' = (a, hit_body (fst (get_timestamp ?c)) b1) # drop_at a es"
        "cs_entries_dirty (c_stats c') = cs_entries_dirty (c_stats c)"
        using h k ad(2) by (auto simp: hit_def end_core_def stats_def)
      moreover have "dirty (hit_body now b1) = dirty b" for now using ad(1) by (simp add: hit_body_def dirty_def)
      moreover have "a \<notin> fst ` set (drop_at a es)" by (auto simp: drop_at_def)
      ultimately show ?thesis using s count_drop_at [OF d a, of dirty] distinct_drop_at [OF d, of a]
        by (auto simp: dirty_exact_def split: if_splits)
    qed
  qed
qed

lemma on_slot_inv:
  assumes "on_slot i s f = (r, Inr s')" "P s" "\<And>a b. slot (fst s) i = Some (a, b) \<Longrightarrow> P (snd (f a b))"
  shows "P s'"
  using assms by (auto simp: on_slot_def split: option.splits prod.splits)

lemma dirty_exact_mark:
  assumes s: "dirty_exact s" and a: "map_of (fst s) a = Some b"
  shows "dirty_exact (mark_view a b s)"
proof (cases "dirty b")
  case True
  then show ?thesis using s by (cases s) (simp add: mark_view_def bump_def)
next
  case False
  have "dirty (dirty_body b)" by (simp add: dirty_body_def dirty_def)
  then show ?thesis using False s a count_at [of "fst s" a b dirty dirty_body]
    by (cases s) (simp add: mark_view_def bump_def dirty_exact_def stats_def)
qed

lemma dirty_exact_slot:
  assumes "dirty_exact s" "slot (fst s) i = Some (a, b)" "\<And>b. dirty (g b) = dirty b"
    "cs_entries_dirty (c_stats c') = cs_entries_dirty (c_stats (snd s))"
  shows "dirty_exact (at a g (fst s), c')"
proof -
  have "map_of (fst s) a = Some b" by (rule slot_map_of [OF _ assms(2)]) (use assms(1) in \<open>simp add: dirty_exact_def\<close>)
  then show ?thesis using dirty_exact_at [of "fst s" "snd s" a b g c'] assms by simp
qed

lemma vstep_dirty:
  assumes s: "dirty_exact s" and f: "fresh (snd s) (fst s)" and x: "x \<noteq> Destroy" and v: "vstep x s = (r, Inr s')"
  shows "dirty_exact s'"
proof -
  have s2: "dirty_exact (fst s, snd s)" using s by simp
  have d: "distinct (map fst (fst s))" using s by (simp add: dirty_exact_def)
  note slot = slot_map_of [OF d]
  show ?thesis
  proof (cases x)
    case (Get i)
    obtain q t where q: "get_step i s = (q, t)" by (cases "get_step i s")
    then have "get_step i (fst s, snd s) = (q, fst t, snd t)" by simp
    from dirty_exact_get [OF s2 f this] show ?thesis using v Get q s by (auto split: if_splits)
  next
    case (Put i)
    then have o: "on_slot i s (\<lambda>a b. (KES_SUCCESS, at a put_body (fst s), snd s)) = (r, Inr s')" using v by simp
    show ?thesis by (rule on_slot_inv [OF o, of dirty_exact]) (use s in \<open>auto intro!: dirty_exact_slot [OF s] simp: put_flags\<close>)
  next
    case (Mark_Dirty i)
    then have o: "on_slot i s (\<lambda>a b. (KES_SUCCESS, mark_view a b s)) = (r, Inr s')" using v by simp
    show ?thesis by (rule on_slot_inv [OF o, of dirty_exact]) (use s slot dirty_exact_mark [OF s] in auto)
  next
    case (Modify i off bs)
    show ?thesis
    proof (cases "slot (fst s) i")
      case None
      then show ?thesis using v Modify s by (auto simp: on_slot_def)
    next
      case (Some z)
      obtain a b where z: "z = (a, b)" by (cases z)
      obtain es1 c1 where m: "mark_view a b s = (es1, c1)" by (cases "mark_view a b s")
      then have "dirty_exact (es1, c1)" using dirty_exact_mark [OF s slot [OF Some [unfolded z]]] by simp
      then show ?thesis using v Modify Some z m s by (auto simp: on_slot_def dirty_exact_def split: if_splits)
    qed
  next
    case (Pin i)
    then have o: "on_slot i s (\<lambda>a b. (KES_SUCCESS, at a pin_body (fst s),
         bump (\<not> pinned b) (\<lambda>s. s\<lparr>cs_entries_pinned := cs_entries_pinned s + 1\<rparr>) (snd s))) = (r, Inr s')" using v by simp
    show ?thesis by (rule on_slot_inv [OF o, of dirty_exact])
      (use s in \<open>auto intro!: dirty_exact_slot [OF s] simp: pin_flags bump_def stats_def\<close>)
  next
    case (Unpin i)
    then have o: "on_slot i s (\<lambda>a b. (KES_SUCCESS, at a unpin_body (fst s),
         bump (e_pin_count b = 1) (\<lambda>s. s\<lparr>cs_entries_pinned := cs_entries_pinned s - 1\<rparr>) (snd s))) = (r, Inr s')" using v by simp
    show ?thesis by (rule on_slot_inv [OF o, of dirty_exact])
      (use s in \<open>auto intro!: dirty_exact_slot [OF s] simp: unpin_flags bump_def stats_def\<close>)
  next
    case (Flush i)
    then have o: "on_slot i s (\<lambda>a b. (flush_code (snd s) i b, at a (\<lambda>_. flush_body (flush_back (snd s) i b) b) (fst s),
         flush_core (flush_back (snd s) i b) b (snd s))) = (r, Inr s')" using v by simp
    show ?thesis by (rule on_slot_inv [OF o, of dirty_exact]) (use s slot dirty_exact_flush [OF s2] in auto)
  next
    case (Invalidate i)
    then have o: "on_slot i s (\<lambda>a b. if busy b then (KES_ERROR_BUSY, s) else (KES_SUCCESS, drop_at a (fst s),
       bump (dirty b) (\<lambda>s. s\<lparr>cs_entries_dirty := cs_entries_dirty s - 1\<rparr>) (evict_core b (snd s)))) = (r, Inr s')" using v by simp
    show ?thesis by (rule on_slot_inv [OF o, of dirty_exact]) (use s slot dirty_exact_drop [OF s2] in auto)
  next
    case Start
    then show ?thesis using v s start_rest [of "snd s"] by (auto simp: dirty_exact_def split: option.splits prod.splits)
  qed (use v x s dirty_exact_fold [OF s] in \<open>auto simp: dirty_exact_def stats_def cleared_def split: if_splits\<close>)
qed

lemma dirty_exact_unat:
  assumes ok: "cache_ok c es" and d: "dirty_exact (es, core c)"
  shows "unat (cs_entries_dirty (c_stats c)) = count dirty es"
proof -
  have "length es < 2 ^ 32 - 1" by (rule length_bound [OF ok])
  then have "count dirty es < 2 ^ 32" using count_le_length [of dirty es] by simp
  then have "unat (of_nat (count dirty es) :: u32) = count dirty es" by (simp add: unat_of_nat take_bit_nat_eq_self)
  then show ?thesis using d by (simp add: dirty_exact_def)
qed

section \<open>Invariants of sequences of calls\<close>

text \<open>What every step of the abstract machine keeps holds after every sequence of calls of the code.\<close>

definition stable :: "('d call \<Rightarrow> bool) \<Rightarrow> ('d view \<Rightarrow> bool) \<Rightarrow> bool" where
  "stable Q P \<longleftrightarrow> (\<forall>x s r s'. Q x \<longrightarrow> P s \<longrightarrow> sound s \<longrightarrow> fresh (snd s) (fst s) \<longrightarrow> vstep x s = (r, Inr s') \<longrightarrow> P s')"

lemma invariant_simulation:
  assumes step: "stable Q P"
  shows "simulation exec vstep (\<lambda>n c s. simulated n c s \<and> P s) freed (\<lambda>x. call_ok x \<and> Q x) (2 ^ 32 - 1)"
proof unfold_locales
  fix n c s x
  assume h: "simulated n c s \<and> P s" "n < 2 ^ 32 - 1" "call_ok x \<and> Q x"
  have k: "cache_ok c (fst s)" "s = (fst s, core c)" using h(1) by (simp_all add: simulated_def prod_eq_iff)
  have so: "sound s" using cache_ok_sound [OF k(1)] k(2) by simp
  have "fresh (core c) (fst s)" using cache_okD(2) [OF k(1)] by (simp add: tidy_def fresh_def)
  moreover have "snd s = core c" using k(2) by (metis snd_conv)
  ultimately have fr: "fresh (snd s) (fst s)" by simp
  show "(\<exists>r m. exec x c = Some (r, Inl m) \<and> vstep x s = (r, Inl m) \<and> freed m) \<or>
    (\<exists>r c' s'. exec x c = Some (r, Inr c') \<and> vstep x s = (r, Inr s') \<and> simulated (Suc n) c' s' \<and> P s')"
    using exec_simulates [of n c s x] h step so fr unfolding stable_def by blast
qed

lemma run_inv:
  assumes "cache_ok c es" "bounded n es" "n + length xs \<le> 2 ^ 32 - 1" "\<forall>x \<in> set xs. call_ok x \<and> Q x" "P (es, core c)" "stable Q P"
  obtains (gone) rs m where "run xs c = Some (rs, Inl m)" "freed m"
  | (alive) rs c' es' where "run xs c = Some (rs, Inr c')" "cache_ok c' es'" "bounded (n + length xs) es'" "P (es', core c')"
proof -
  have sim: "simulated n c (es, core c) \<and> P (es, core c)" using assms(1,2,5) by (simp add: simulated_def)
  show thesis using invariant_simulation [OF assms(6)] sim assms(3,4)
  proof (rule simulation.runs_simulated)
    fix rs c' s'
    assume "runs exec xs c = Some (rs, Inr c')" "simulated (n + length xs) c' s' \<and> P s'"
    then show thesis using alive [of rs c' "fst s'"] by (cases s') (simp add: run_def simulated_def)
  qed (use gone in \<open>simp_all add: run_def\<close>)
qed

end
