(* ===== verification/Kes_Cache_Held.thy ===== *)
theory Kes_Cache_Held
  imports Kes_Cache_Laws
begin

text \<open>
  Entries in use: an entry with a reference or a pin survives every call at the same address and with
  the same buffer, so that the pointers clients hold stay valid, and nobody but the client of that
  extent, or the retry of a load that failed, changes the bytes in the buffer.
\<close>

text \<open>The calls that may change the bytes of the entry \<open>b\<close>.\<close>

fun touches :: "'d call \<Rightarrow> extent_body \<Rightarrow> bool" where
  "touches (Modify i off bs) b = (key i = key (e_id b))"
| "touches (Get i) b = (key i = key (e_id b) \<and> \<not> loaded b)"
| "touches x b = False"

definition stays :: "bool \<Rightarrow> addr \<Rightarrow> extent_body \<Rightarrow> 'd view \<Rightarrow> 'd view \<Rightarrow> bool" where
  "stays ro a b s s' \<longleftrightarrow> (\<exists>b'. map_of (fst s') a = Some b' \<and> e_id b' = e_id b \<and> e_data b' = e_data b \<and> e_data_size b' = e_data_size b \<and>
     (ro \<longrightarrow> m_bufs (snd s') (the (e_data b)) = m_bufs (snd s) (the (e_data b))))"

lemma stays_refl: "map_of (fst s) a = Some b \<Longrightarrow> m_bufs c' = m_bufs (snd s) \<Longrightarrow> stays ro a b s (fst s, c')"
  by (simp add: stays_def)

lemma stays_thinned:
  assumes "thinned s s'" "map_of (fst s) a = Some b" "busy b"
  shows "stays ro a b s s'"
proof -
  obtain b' where b': "map_of (fst s') a = Some b'" using assms unfolding thinned_def by blast
  then have "alike b b'" "m_bufs (snd s') (the (e_data b')) = m_bufs (snd s) (the (e_data b'))"
    using assms(1,2) unfolding thinned_def by fastforce+
  then show ?thesis using b' alikeD(1-3) [of b b'] by (auto simp: stays_def)
qed

lemma stays_at:
  assumes "map_of (fst s) a = Some b" "m_bufs c' = m_bufs (snd s)" "map_of (fst s) x = Some y"
    "e_id (g y) = e_id y" "e_data (g y) = e_data y" "e_data_size (g y) = e_data_size y"
  shows "stays ro a b s (at x g (fst s), c')"
  using assms by (auto simp: stays_def map_of_at)

lemma drain_bufs: "(\<And>x y. (x, y) \<in> set es \<Longrightarrow> \<not> busy y \<Longrightarrow> the (e_data y) \<noteq> p) \<Longrightarrow> m_bufs (drain es c) p = m_bufs c p"
proof (induction es c rule: drain.induct)
  case (2 a b es c)
  have "m_bufs (drain es (if busy b then c else evict_core b c)) p = m_bufs (if busy b then c else evict_core b c) p"
    by (rule "2.IH") (use "2.prems" in auto)
  moreover have "m_bufs (if busy b then c else evict_core b c) p = m_bufs c p"
    using "2.prems" [of a b] by (auto simp: evict_core_def stats_def)
  ultimately show ?case by simp
qed simp

lemma stays_drain:
  assumes s: "sound (es, c)" and a: "map_of es a = Some b" "busy b" and c1: "m_bufs c1 = m_bufs c"
  shows "stays ro a b (es, c) (filter (\<lambda>(a, b). busy b) es, drain es c1)"
proof -
  have d: "distinct (map fst es)" using s by (simp add: sound_def)
  have "(a, b) \<in> set (filter (\<lambda>(a, b). busy b) es)" using map_of_SomeD [OF a(1)] a(2) by simp
  moreover have "distinct (map fst (filter (\<lambda>(a, b). busy b) es))" using d by (simp add: distinct_map_filter)
  ultimately have "map_of (filter (\<lambda>(a, b). busy b) es) a = Some b" by simp
  moreover have "m_bufs (drain es c1) (the (e_data b)) = m_bufs c (the (e_data b))" unfolding c1 [symmetric]
  proof (rule drain_bufs)
    fix x y
    assume xy: "(x, y) \<in> set es" "\<not> busy y"
    have m: "map_of es x = Some y" using xy(1) d by simp
    have "x \<noteq> a" using m a xy(2) by auto
    moreover obtain p where "e_data b = Some p" by (rule sound_buffer [OF s a(1)])
    moreover obtain q where "e_data y = Some q" by (rule sound_buffer [OF s m])
    ultimately show "the (e_data y) \<noteq> the (e_data b)" using sound_other [OF s a(1) m] by auto
  qed
  ultimately show ?thesis by (simp add: stays_def)
qed

lemma stays_miss:
  assumes s: "sound (es, c)" and f: "fresh c es" and a: "map_of es a = Some b" "busy b" and m: "miss i (es, c) = (res, es', c')"
  shows "stays ro a b (es, c) (es', c')"
  using m
proof (cases rule: miss_frame)
  case (1 fits es1 c1)
  have "stays ro a b (es, c) (es1, c1)" by (rule stays_thinned) (use room_step_thin(2) [OF s 1(1)] a in simp_all)
  then show ?thesis using 1(2,3) by (simp add: stays_def)
next
  case (2 x y p buf fits es1 c1)
  have st: "stays ro a b (es, c) (es1, c1)" by (rule stays_thinned) (use room_step_thin(2) [OF s 2(1)] a in simp_all)
  obtain q buf where q: "e_data b = Some q" "m_bufs c q = Some buf" by (rule sound_buffer [OF s a(1)])
  have "a < m_next c" "q < m_next c" using f map_of_SomeD [OF a(1)] q(2) by (auto simp: fresh_def)
  then have "a \<noteq> x" "q \<noteq> p" using fresh_walk(2) [OF f 2(1)] 2(4,5) by auto
  then show ?thesis using st 2(2,3) q(1) by (auto simp: stays_def)
qed

lemma stays_hit:
  assumes s: "sound (es, c)" and a: "map_of es a = Some b" and x: "map_of es x = Some y" and h: "hit i x y (es, c) = (res, es', c')"
    and ro: "ro \<Longrightarrow> x = a \<Longrightarrow> loaded b"
  shows "stays ro a b (es, c) (es', c')"
proof -
  obtain y1 k where k: "attach c i y = (y1, k)" by fastforce
  note sel = attach_sel(1-3) [OF k]
  obtain q where q: "e_data b = Some q" by (rule sound_buffer [OF s a])
  obtain p where p: "e_data y = Some p" by (rule sound_buffer [OF s x])
  have kb: "m_bufs k q = m_bufs c q" if ro
  proof (cases "failed y \<and> \<not> dirty y")
    case True
    then have "x \<noteq> a" using ro [OF that] x a by (auto simp: loaded_def)
    then have "q \<noteq> p" using sound_other [OF s a x] p q by auto
    moreover obtain r bs d where "load_result c i y = (r, bs, d)" by (cases "load_result c i y") auto
    ultimately show ?thesis using k True p by (auto simp: attach_def load_core_bufs)
  qed (use k in \<open>auto simp: attach_def split: if_splits\<close>)
  show ?thesis
  proof (cases "failed y1")
    case True
    then have "es' = at x (\<lambda>_. y1) es" "c' = end_core k" using h k by (simp_all add: hit_def)
    then show ?thesis using a x sel kb q by (auto simp: stays_def map_of_at end_core_def)
  next
    case False
    then have "es' = (x, hit_body (fst (get_timestamp c)) y1) # drop_at x es" "m_bufs c' = m_bufs k"
      using h k by (auto simp: hit_def end_core_def stats_def)
    then show ?thesis using a x sel kb q by (auto simp: stays_def map_of_drop_at hit_body_def)
  qed
qed

lemma stays_get:
  assumes s: "sound s" and f: "fresh (snd s) (fst s)" and a: "map_of (fst s) a = Some b" "busy b" and g: "get_step i s = (res, s')"
    and ro: "ro \<Longrightarrow> key i = key (e_id b) \<Longrightarrow> loaded b"
  shows "stays ro a b s s'"
proof -
  obtain es c where es: "s = (es, c)" by (cases s)
  obtain es' c' where es': "s' = (es', c')" by (cases s')
  let ?c = "c\<lparr>c_inflight_lookups := c_inflight_lookups c + 1\<rparr>"
  have s1: "sound (es, ?c)" "fresh ?c es" "map_of es a = Some b"
    using s f a(1) sound_bufs [of ?c c es] es by (simp_all add: fresh_def)
  have d: "distinct (map fst es)" using s es by (simp add: sound_def)
  have "stays ro a b (es, ?c) (es', c')"
  proof (cases "slot es i")
    case None
    then have m: "miss i (es, ?c) = (res, es', c')" using g es es' by (simp add: get_step_def Let_def)
    show ?thesis by (rule stays_miss [OF s1 a(2) m])
  next
    case (Some z)
    obtain x y where z: "z = (x, y)" by (cases z)
    have h: "hit i x y (es, ?c) = (res, es', c')" using g es es' Some z by (simp add: get_step_def Let_def)
    have x: "map_of es x = Some y" by (rule slot_map_of [OF d Some [unfolded z]])
    show ?thesis by (rule stays_hit [OF s1(1,3) x h ro]) (use x s1(3) slot_SomeD [OF Some [unfolded z]] in auto)
  qed
  then show ?thesis by (simp add: stays_def es es')
qed

lemma stays_modify:
  assumes s: "sound s" and a: "map_of (fst s) a = Some b" and v: "vstep (Modify i off bs) s = (r, Inr s')"
  shows "stays (key i \<noteq> key (e_id b)) a b s s'"
proof (cases "slot (fst s) i")
  case None
  then show ?thesis using v stays_refl [OF a, of "snd s"] by (simp add: on_slot_def)
next
  case (Some z)
  obtain x y where z: "z = (x, y)" by (cases z)
  have s2: "sound (fst s, snd s)" using s by simp
  have m: "map_of (fst s) x = Some y" by (rule slot_map_of [OF _ Some [unfolded z]]) (use s in \<open>simp add: sound_def\<close>)
  obtain p where p: "e_data b = Some p" by (rule sound_buffer [OF s2 a])
  obtain q where q: "e_data y = Some q" by (rule sound_buffer [OF s2 m])
  have ne: "p \<noteq> q" if "key i \<noteq> key (e_id b)"
  proof -
    have "x \<noteq> a" using that m a slot_SomeD [OF Some [unfolded z]] by auto
    then show ?thesis using sound_other [OF s2 a m] p q by auto
  qed
  show ?thesis
  proof (cases "e_ref_count y = 0 \<or> off + length bs > unat (e_data_size y)")
    case True
    then show ?thesis using v Some z stays_refl [OF a, of "snd s"] by (auto simp: on_slot_def)
  next
    case False
    then have "fst s' = fst s \<or> fst s' = at x dirty_body (fst s)"
      "m_bufs (snd s') = (m_bufs (snd s))(q \<mapsto> patch off bs (the (m_bufs (snd s) q)))"
      using v Some z q by (auto simp: on_slot_def mark_view_def bump_def stats_def split: prod.splits if_splits)
    then show ?thesis using a m p ne by (auto simp: stays_def map_of_at dirty_body_def)
  qed
qed

lemma stays_invalidate:
  assumes s: "sound s" and a: "map_of (fst s) a = Some b" "busy b" and v: "vstep (Invalidate i) s = (r, Inr s')"
  shows "stays ro a b s s'"
proof (cases "slot (fst s) i")
  case None
  then show ?thesis using v stays_refl [OF a(1), of "snd s"] by (simp add: on_slot_def)
next
  case (Some z)
  obtain x y where z: "z = (x, y)" by (cases z)
  have s2: "sound (fst s, snd s)" using s by simp
  have m: "map_of (fst s) x = Some y" by (rule slot_map_of [OF _ Some [unfolded z]]) (use s in \<open>simp add: sound_def\<close>)
  obtain p where p: "e_data b = Some p" by (rule sound_buffer [OF s2 a(1)])
  obtain q where q: "e_data y = Some q" by (rule sound_buffer [OF s2 m])
  show ?thesis
  proof (cases "busy y")
    case True
    then show ?thesis using v Some z stays_refl [OF a(1), of "snd s"] by (simp add: on_slot_def)
  next
    case False
    then have ne: "x \<noteq> a" using m a by auto
    then have "p \<noteq> q" using sound_other [OF s2 a(1) m] p q by auto
    moreover have "fst s' = drop_at x (fst s)" "m_bufs (snd s') = (m_bufs (snd s))(q := None)"
      using v Some z q False by (auto simp: on_slot_def bump_def evict_core_def stats_def)
    ultimately show ?thesis using ne a(1) p by (simp add: stays_def map_of_drop_at)
  qed
qed

lemma stays_step:
  assumes s: "sound s" and f: "fresh (snd s) (fst s)" and a: "map_of (fst s) a = Some b" "busy b" and v: "vstep x s = (r, Inr s')"
  shows "stays (\<not> touches x b) a b s s'"
proof -
  have s2: "sound (fst s, snd s)" using s by simp
  have d: "distinct (map fst (fst s))" using s by (simp add: sound_def)
  note slot = slot_map_of [OF d]
  have refl: "stays ro a b s s" for ro using stays_refl [OF a(1), of "snd s" ro] by simp
  note at = stays_at [OF a(1) _ slot] and thin = stays_thinned [OF sound_thin_inv(2) [OF s] a]
  show ?thesis
  proof (cases x)
    case (Get i)
    obtain q t where q: "get_step i s = (q, t)" by (cases "get_step i s")
    show ?thesis using v Get q refl stays_get [OF s f a q, of "\<not> touches x b"] by (auto split: if_splits)
  next
    case (Put i)
    then have o: "on_slot i s (\<lambda>a b. (KES_SUCCESS, at a put_body (fst s), snd s)) = (r, Inr s')" using v by simp
    show ?thesis by (rule on_slot_inv [OF o, of "stays (\<not> touches x b) a b s"]) (auto intro!: refl at simp: put_flags)
  next
    case (Mark_Dirty i)
    then show ?thesis using v refl stays_refl [OF a(1)] at [of _ i _ _ dirty_body]
      by (auto simp: on_slot_def mark_view_def dirty_body_def bump_def stats_def split: option.splits prod.splits if_splits)
  next
    case (Modify i off bs)
    show ?thesis using stays_modify [OF s a(1), of i off bs] v Modify by simp
  next
    case (Pin i)
    then have o: "on_slot i s (\<lambda>a b. (KES_SUCCESS, at a pin_body (fst s),
         bump (\<not> pinned b) (\<lambda>s. s\<lparr>cs_entries_pinned := cs_entries_pinned s + 1\<rparr>) (snd s))) = (r, Inr s')" using v by simp
    show ?thesis by (rule on_slot_inv [OF o, of "stays (\<not> touches x b) a b s"])
      (auto intro!: refl at simp: pin_flags bump_def stats_def)
  next
    case (Unpin i)
    then have o: "on_slot i s (\<lambda>a b. (KES_SUCCESS, at a unpin_body (fst s),
         bump (e_pin_count b = 1) (\<lambda>s. s\<lparr>cs_entries_pinned := cs_entries_pinned s - 1\<rparr>) (snd s))) = (r, Inr s')" using v by simp
    show ?thesis by (rule on_slot_inv [OF o, of "stays (\<not> touches x b) a b s"])
      (auto intro!: refl at simp: unpin_flags bump_def stats_def)
  next
    case (Flush i)
    then have o: "on_slot i s (\<lambda>a b. (flush_code (snd s) i b, at a (\<lambda>_. flush_body (flush_back (snd s) i b) b) (fst s),
         flush_core (flush_back (snd s) i b) b (snd s))) = (r, Inr s')" using v by simp
    have fb: "m_bufs (flush_core q y c) = m_bufs c" for q y and c :: "'a kes_cache" by (auto simp: flush_core_def stats_def split: option.splits)
    have "stays (\<not> touches x b) a b s (at x1 (\<lambda>_. flush_body q y) (fst s), flush_core q y (snd s))" if "slot (fst s) i = Some (x1, y)" for x1 y q
      by (rule stays_at [OF a(1) fb slot [OF that]]) (simp_all add: alikeD [OF alike_flush])
    then show ?thesis by (intro on_slot_inv [OF o, of "stays (\<not> touches x b) a b s"] refl) simp
  next
    case (Invalidate i)
    show ?thesis using stays_invalidate [OF s a, of i] v Invalidate by simp
  next
    case Start
    then show ?thesis using v refl stays_refl [OF a(1)] start_rest [of "snd s"] by (auto split: option.splits prod.splits)
  next
    case Destroy
    then show ?thesis using v stays_drain [OF s2 a(1,2), of "(snd s)\<lparr>c_shutdown := True, c_bg_threads := None\<rparr>"]
      by (auto simp: Let_def split: if_splits)
  qed (use v thin refl stays_refl [OF a(1)] in \<open>auto simp: stats_def split: if_splits\<close>)
qed

end
