(* ===== verification/Kes_Cache_Contract.thy ===== *)
theory Kes_Cache_Contract
  imports Kes_Cache_Held
begin

text \<open>
  The contract of the extent cache: what its functions promise to their callers, over every sequence
  of calls and call by call. \<open>cache_ok c es\<close> says that the pointers of \<open>c\<close> represent the entries \<open>es\<close>, most
  recently used first, and that nothing is locked, pinned, leaked or dangling between two calls;
  the first theorem establishes it for every cache a client can have.
\<close>

section \<open>A sample cache\<close>

text \<open>A memory with nothing in it, a device that stores 4096 bytes for every extent, and callbacks that
  copy them.\<close>

type_synonym ram = "extent_key \<Rightarrow> u8 list"

definition ram_read :: "ram read_cb" where
  "ram_read d i buf n = (if length (d (key i)) = unat n then (KES_SUCCESS, d (key i), d) else (KES_ERROR_IO, [], d))"

definition ram_write :: "ram write_cb" where
  "ram_write d i bs n = (KES_SUCCESS, d(key i := bs))"

definition sample_mach :: "ram mach" where
  "sample_mach = \<lparr>m_heap = \<lambda>_. None, m_bufs = \<lambda>_. None, m_next = 0, m_junk = \<lambda>_ _. 0,
     m_dev = \<lambda>_. replicate 4096 7, m_clock = \<lambda>_. (0, 0), m_ticks = 0, m_sched = []\<rparr>"

definition sample_cfg :: kes_cache_config where
  "sample_cfg = kes_cache_get_default_config True"

definition sample_id :: kes_extent_id where
  "sample_id = \<lparr>id_start_block = 8, id_block_count = 1, id_block_size = 4096, id_reserved = 0\<rparr>"

definition sample_cache :: "ram kes_cache" where
  "sample_cache = (case kes_cache_create (Some sample_cfg) sample_mach of Inr c \<Rightarrow> c)"

definition sample_io :: "ram call" where
  "sample_io = Set_Io (Some ram_read) (Some ram_write) None"

lemma sample_create:
  "kes_cache_create (Some sample_cfg) sample_mach = Inr sample_cache" "m_heap sample_mach = (\<lambda>_. None)" "m_bufs sample_mach = (\<lambda>_. None)"
  by (simp_all add: sample_cache_def kes_cache_create_def sample_cfg_def kes_cache_get_default_config_def sample_mach_def may_fail_def Let_def)

lemma sample_config: "config_ok sample_cfg"
  by (simp add: config_ok_def sample_cfg_def kes_cache_get_default_config_def)

lemma sample_id_ok: "id_ok sample_id"
  by (simp add: id_ok_def sample_id_def KES_IS_POWER_OF_2_def)

lemma ram_io: "reads (\<lambda>d. d) ram_read" "writes (\<lambda>d. d) ram_write" "fst (ram_write d i bs n) = KES_SUCCESS"
  by (simp_all add: reads_def writes_def ram_read_def ram_write_def)

lemma sample_io_ok: "call_ok sample_io"
  by (simp add: sample_io_def ram_read_def)

section \<open>Sequences of calls\<close>

lemma bounded_Nil: "bounded n []"
  by (simp add: bounded_def)

lemma dom_bufs:
  assumes "cache_ok c es"
  shows "dom (m_heap c) = fst ` set es" "dom (m_bufs c) = (\<lambda>(a, b). the (e_data b)) ` set es"
proof -
  note k = cache_okD [OF assms]
  have "dom (m_heap c) = dom (bodies c)" by (auto simp: bodies_def)
  then show "dom (m_heap c) = fst ` set es" using k(1) by (simp add: holds_def dom_map_of_conv_image_fst)
  have b: "bufs_ok (m_bufs c) es" using k(2) by (simp add: tidy_def)
  show "dom (m_bufs c) = (\<lambda>(a, b). the (e_data b)) ` set es"
  proof (intro equalityI subsetI)
    fix p
    assume "p \<in> dom (m_bufs c)"
    then obtain a y where "(a, y) \<in> set es" "e_data y = Some p" using b unfolding bufs_ok_def by blast
    then show "p \<in> (\<lambda>(a, b). the (e_data b)) ` set es" by force
  next
    fix p
    assume "p \<in> (\<lambda>(a, b). the (e_data b)) ` set es"
    then obtain a y where "(a, y) \<in> set es" "p = the (e_data y)" by auto
    moreover then obtain q buf where "e_data y = Some q" "m_bufs c q = Some buf" using b unfolding bufs_ok_def by blast
    ultimately show "p \<in> dom (m_bufs c)" by auto
  qed
qed

text \<open>
  C2. Safety of every client: create a cache with limits for which the sums of the code do not wrap
  and make any sequence of fewer than 2^32 calls (lookups, releases, writes into buffers, pins,
  flushes, invalidations, syncs, statistics, callbacks, starts, stops, wake-ups of background threads, destruction), with
  any allocation and any thread creation failing and the callbacks failing as they like. Every call returns:
  no dangling pointer, no double free, no lock taken twice or left behind, no endless walk. In the
  end either the cache was destroyed and all its entries and buffers are freed, or its lists represent a list
  of entries, exactly these and their buffers are allocated, the configured limits are respected, and the statistics are exact on the number
  of entries, the memory they use and the number of pinned ones. The number of dirty entries is exact too if \<open>kes_cache_destroy\<close> was never
  called; a destruction that is refused discards dirty entries without counting them down.
\<close>

theorem cache_calls_safe:
  assumes "kes_cache_create (Some cfg) m = Inr c" "m_heap m = (\<lambda>_. None)" "m_bufs m = (\<lambda>_. None)" "config_ok cfg"
    and "length xs \<le> 2 ^ 32 - 1" "\<forall>x \<in> set xs. call_ok x"
  shows "\<exists>rs t. run xs c = Some (rs, t) \<and> (case t of
      Inl m' \<Rightarrow> m_heap m' = (\<lambda>_. None) \<and> m_bufs m' = (\<lambda>_. None)
    | Inr c' \<Rightarrow> \<exists>es. cache_ok c' es \<and> c_config c' = cfg \<and>
        unat (cs_entries_cached (c_stats c')) = length es \<and> length es \<le> unat (cc_max_entries cfg) \<and>
        unat (cs_memory_used (c_stats c')) = mem es \<and> mem es \<le> unat (cc_max_memory cfg) \<and>
        unat (cs_entries_pinned (c_stats c')) = count pinned es \<and>
        (Destroy \<notin> set xs \<longrightarrow> unat (cs_entries_dirty (c_stats c')) = count dirty es) \<and>
        dom (m_heap c') = fst ` set es \<and> dom (m_bufs c') = (\<lambda>(a, b). the (e_data b)) ` set es)"
proof -
  note cr = create_ok [OF assms(1-4)]
  have len: "0 + length xs \<le> 2 ^ 32 - 1" using assms(5) by simp
  let ?P = "\<lambda>s :: 'a view. c_config (snd s) = cfg \<and> (Destroy \<notin> set xs \<longrightarrow> dirty_exact s)"
  have st: "stable (\<lambda>x. x \<in> set xs) ?P"
    unfolding stable_def using vstep_dirty vstep_frame by metis
  have ok: "\<forall>x \<in> set xs. call_ok x \<and> x \<in> set xs" "?P ([], core c)"
    using assms(6) cr(2,3) by (simp_all add: dirty_exact_def zero_cache_stats_def)
  from cr(1) bounded_Nil len ok st show ?thesis
  proof (cases rule: run_inv [where Q = "\<lambda>x. x \<in> set xs"])
    case (gone rs m')
    then show ?thesis by (auto simp: freed_def)
  next
    case (alive rs c' es')
    have "counts c' es'" "within (c_config c') es'" using cache_okD(2) [OF alive(2)] by (simp_all add: tidy_def)
    then show ?thesis using alive dom_bufs [OF alive(2)] dirty_exact_unat [OF alive(2)] by (auto simp: counts_def within_def)
  qed
qed

theorem cache_calls_safe_witness:
  "(\<exists>rs t. run [sample_io, Get sample_id, Modify sample_id 0 [1, 2, 3], Pin sample_id, Put sample_id] sample_cache = Some (rs, t) \<and> (case t of
      Inl m' \<Rightarrow> m_heap m' = (\<lambda>_. None) \<and> m_bufs m' = (\<lambda>_. None)
    | Inr c' \<Rightarrow> \<exists>es. cache_ok c' es \<and> c_config c' = sample_cfg \<and>
        unat (cs_entries_cached (c_stats c')) = length es \<and> length es \<le> unat (cc_max_entries sample_cfg) \<and>
        unat (cs_memory_used (c_stats c')) = mem es \<and> mem es \<le> unat (cc_max_memory sample_cfg) \<and>
        unat (cs_entries_pinned (c_stats c')) = count pinned es \<and>
        unat (cs_entries_dirty (c_stats c')) = count dirty es \<and>
        dom (m_heap c') = fst ` set es \<and> dom (m_bufs c') = (\<lambda>(a, b). the (e_data b)) ` set es)) \<and>
   (\<exists>rs t. run [sample_io, Start, Get sample_id, Wakeup, Put sample_id, Sync, Destroy] sample_cache = Some (rs, t) \<and> (case t of
      Inl m' \<Rightarrow> m_heap m' = (\<lambda>_. None) \<and> m_bufs m' = (\<lambda>_. None)
    | Inr c' \<Rightarrow> \<exists>es. cache_ok c' es \<and> unat (cs_entries_cached (c_stats c')) = length es))"
  (is "?A \<and> ?B")
proof
  note safe = cache_calls_safe [OF sample_create sample_config]
  let ?xs = "[sample_io, Get sample_id, Modify sample_id 0 [1, 2, 3], Pin sample_id, Put sample_id]"
  have nd: "(Destroy \<notin> set ?xs) = True" by (simp add: sample_io_def)
  show ?A
    using safe [of ?xs] sample_io_ok unfolding nd by (simp cong: sum.case_cong)
  let ?ys = "[sample_io, Start, Get sample_id, Wakeup, Put sample_id, Sync, Destroy]"
  have "length ?ys \<le> 2 ^ 32 - 1" "\<forall>x \<in> set ?ys. call_ok x" using sample_io_ok by simp_all
  from safe [OF this] obtain rs t where "run ?ys sample_cache = Some (rs, t)" "case t of
      Inl m' \<Rightarrow> m_heap m' = (\<lambda>_. None) \<and> m_bufs m' = (\<lambda>_. None)
    | Inr c' \<Rightarrow> \<exists>es. cache_ok c' es \<and> unat (cs_entries_cached (c_stats c')) = length es"
    by (fastforce split: sum.splits)
  then show ?B by blast
qed

text \<open>The sample cache after its callbacks are set, and with one extent looked up.\<close>

definition sample_open :: "ram kes_cache" where
  "sample_open = sample_cache\<lparr>c_read_extent := Some ram_read, c_write_extent := Some ram_write, c_sync_device := None\<rparr>"

lemma sample_open_ok: "cache_ok sample_open []"
  and sample_open_io: "exec sample_io sample_cache = Some ((KES_SUCCESS, None), Inr sample_open)"
proof -
  note cr = create_ok [OF sample_create sample_config]
  obtain c' where c': "kes_cache_set_io_callbacks (Some sample_cache) (Some ram_read) (Some ram_write) None = (KES_SUCCESS, Some c')"
    "cache_ok c' []" "c' = sample_cache\<lparr>c_read_extent := Some ram_read, c_write_extent := Some ram_write, c_sync_device := None\<rparr>"
    by (rule set_io_ok [OF cr(1), where rd = "Some ram_read" and wr = "Some ram_write" and sy = None]) (auto simp: ram_read_def)
  then show "cache_ok sample_open []" "exec sample_io sample_cache = Some ((KES_SUCCESS, None), Inr sample_open)"
    by (simp_all add: sample_open_def sample_io_def plain_def)
qed

lemma sample_open_sel:
  "c_config sample_open = sample_cfg" "c_stats sample_open = zero_cache_stats" "m_sched sample_open = []" "m_dev sample_open = (\<lambda>_. replicate 4096 7)"
  "c_read_extent sample_open = Some ram_read" "c_write_extent sample_open = Some ram_write"
  using create_ok(2,3,4) [OF sample_create sample_config]
  by (simp_all add: sample_open_def sample_mach_def sample_cache_def kes_cache_create_def sample_cfg_def kes_cache_get_default_config_def
      may_fail_def mach.defs)

lemma sample_size: "extent_data_size sample_id = 4096" "KES_ALIGN 4096 64 = 4096"
  by (simp_all add: extent_data_size_def sample_id_def KES_ALIGN_def)

lemma sample_room: "room_for sample_open (KES_ALIGN (extent_data_size sample_id) KES_CACHE_ALIGNMENT)"
  by (simp add: room_for_def sample_size sample_open_sel zero_cache_stats_def sample_cfg_def kes_cache_get_default_config_def)

lemma sample_miss:
  obtains a p now c' where "get_step sample_id ([], core sample_open) = ((KES_SUCCESS, Some p), [(a, loaded_body KES_SUCCESS (new_body now sample_id p))], c')"
proof -
  let ?c = "(core sample_open)\<lparr>c_inflight_lookups := c_inflight_lookups sample_open + 1\<rparr>"
  note sz = sample_size
  have room: "room_for ?c 4096" using sample_room sz by (simp add: room_for_def)
  have mf: "may_fail c = (False, c)" if "m_sched c = []" for c :: "ram kes_cache" using that by (simp add: may_fail_def)
  have ld: "fst (load_result c sample_id (new_body now sample_id p)) = KES_SUCCESS"
    if "c_read_extent c = Some ram_read" "m_dev c = (\<lambda>_. replicate 4096 7)" for c now p
    using that sz by (simp add: load_result_def ram_read_def new_body_def)
  show thesis using that
    by (auto simp: get_step_def slot_def miss_def sz room_step_def room mf sample_open_sel Let_def ld load_code_def)
qed

text \<open>The sample extent looked up by one client.\<close>

lemma sample_held:
  obtains c a b where "exec (Get sample_id) sample_open = Some ((KES_SUCCESS, e_data b), Inr c)" "cache_ok c [(a, b)]"
    "slot [(a, b)] sample_id = Some (a, b)" "e_ref_count b = 1" "e_pin_count b = 0" "\<not> dirty b" "\<not> failed b"
    "c_write_extent c = Some ram_write" "c_read_extent c = Some ram_read" "c_config c = sample_cfg"
proof -
  obtain c es result buf where g: "kes_cache_get_extent (Some sample_open) (Some sample_id) (Some None) = Some (result, Some c, Some buf)"
    "cache_ok c es" "get_step sample_id ([], core sample_open) = ((result, buf), es, core c)" by (rule get_eq [OF sample_open_ok sample_id_ok])
  obtain a p now c' where m: "get_step sample_id ([], core sample_open) =
      ((KES_SUCCESS, Some p), [(a, loaded_body KES_SUCCESS (new_body now sample_id p))], c')" by (rule sample_miss)
  define b where "b = loaded_body KES_SUCCESS (new_body now sample_id p)"
  have "calm (core sample_open) (core c)" by (rule get_step_calm(1) [OF g(3)])
  then have cb: "c_write_extent c = Some ram_write" "c_read_extent c = Some ram_read" "c_config c = sample_cfg"
    using sample_open_sel by (simp_all add: calm_def)
  have b: "slot [(a, b)] sample_id = Some (a, b)" "e_ref_count b = 1" "e_pin_count b = 0" "\<not> dirty b" "\<not> failed b" "e_data b = Some p"
    by (simp_all add: b_def slot_def kes_extent_equal_key loaded_body_def new_body_def dirty_def failed_def)
  have "es = [(a, b)]" "result = KES_SUCCESS" "buf = e_data b" using g(3) m b(6) by (simp_all add: b_def)
  then show thesis using that [of b c a] g(1,2) b cb by simp
qed

text \<open>
  C10. Refinement: for every sequence of calls the pointer code and the abstract machine, which works on
  the plain list of entries without pointers, locks, pins or reference to memory addresses of the
  lists, give the same answers, and the code's state represents the abstract one in the end.
\<close>

theorem cache_refines_machine:
  assumes "cache_ok c es" "bounded n es" "n + length xs \<le> 2 ^ 32 - 1" "\<forall>x \<in> set xs. call_ok x"
  shows "(\<exists>rs m. run xs c = Some (rs, Inl m) \<and> vrun xs (es, core c) = (rs, Inl m) \<and> freed m) \<or>
    (\<exists>rs c' es'. run xs c = Some (rs, Inr c') \<and> vrun xs (es, core c) = (rs, Inr (es', core c')) \<and> cache_ok c' es')"
  using assms by (cases rule: run_refines) (auto simp: freed_def)

theorem cache_refines_machine_witness:
  "let xs = [Get sample_id, Pin sample_id, Put sample_id, Destroy] in
    (\<exists>rs m. run xs sample_open = Some (rs, Inl m) \<and> vrun xs ([], core sample_open) = (rs, Inl m) \<and> freed m) \<or>
    (\<exists>rs c' es'. run xs sample_open = Some (rs, Inr c') \<and> vrun xs ([], core sample_open) = (rs, Inr (es', core c')) \<and> cache_ok c' es')"
  unfolding Let_def by (rule cache_refines_machine [OF sample_open_ok bounded_Nil [of 0]]) simp_all

section \<open>The cache is transparent\<close>

lemma seen_Nil: "seen content ([], c) = content (m_dev c)"
  by (simp add: fun_eq_iff seen_def entry_for_def)

lemma coherent_Nil: "cache_ok c [] \<Longrightarrow> backing content c \<Longrightarrow> coherent content ([], core c)"
  using cache_ok_sound [of c "[]"] by (simp add: coherent_def keyed_def backing_def)

text \<open>A new cache with its callbacks set, and then any careful calls.\<close>

lemma session_coherent:
  assumes "kes_cache_create (Some cfg) m = Inr c" "m_heap m = (\<lambda>_. None)" "m_bufs m = (\<lambda>_. None)" "config_ok cfg"
    and io: "reads content rd" "writes content wr" and xs: "length xs < 2 ^ 32 - 2"
      "careful_run xs (c\<lparr>c_read_extent := Some rd, c_write_extent := Some wr, c_sync_device := sy\<rparr>)"
  obtains rs c1 es where "run (Set_Io (Some rd) (Some wr) sy # xs) c = Some ((KES_SUCCESS, None) # rs, Inr c1)" "cache_ok c1 es"
    "bounded (length xs) es" "coherent content (es, core c1)" "seen content (es, core c1) = replay xs rs (content (m_dev m))"
    "c_write_extent c1 = Some wr"
proof -
  note cr = create_ok [OF assms(1-4)]
  have len: "length (fst (snd (rd d i buf n))) \<le> unat n" for d i buf n
    using io(1) unfolding reads_def by (metis prod.collapse)
  obtain c0 where c0: "kes_cache_set_io_callbacks (Some c) (Some rd) (Some wr) sy = (KES_SUCCESS, Some c0)" "cache_ok c0 []"
    "c0 = c\<lparr>c_read_extent := Some rd, c_write_extent := Some wr, c_sync_device := sy\<rparr>"
    by (rule set_io_ok [OF cr(1), where rd = "Some rd" and wr = "Some wr" and sy = sy]) (use len in auto)
  have "backing content c0" using io c0(3) by (simp add: backing_def)
  note co = coherent_Nil [OF c0(2) this]
  have n: "0 + length xs \<le> 2 ^ 32 - 1" using xs(1) by simp
  have xs0: "careful_run xs c0" using xs(2) c0(3) by simp
  obtain rs c1 es where r: "run xs c0 = Some (rs, Inr c1)" "cache_ok c1 es" "bounded (0 + length xs) es" "coherent content (es, core c1)"
    "seen content (es, core c1) = replay xs rs (seen content ([], core c0))" "c_write_extent c1 = c_write_extent c0"
    by (rule run_coherent [OF c0(2) bounded_Nil n co xs0])
  have "c_write_extent c1 = Some wr" using r(6) c0(3) by simp
  then show thesis using that [of rs c1 es] r c0(1,3) cr(4) by (simp add: run_def plain_def seen_Nil)
qed

text \<open>The calls of the sample session are careful: the extent is held when it is marked dirty.\<close>

lemma sample_careful:
  "careful_run [Get sample_id, Mark_Dirty sample_id, Modify sample_id 0 [1, 2, 3], Put sample_id, Sync]
     (sample_cache\<lparr>c_read_extent := Some ram_read, c_write_extent := Some ram_write, c_sync_device := None\<rparr>)"
proof -
  obtain c :: "ram kes_cache" and a b where h: "exec (Get sample_id) sample_open = Some ((KES_SUCCESS, e_data b), Inr c)" "cache_ok c [(a, b)]"
    "slot [(a, b)] sample_id = Some (a, b)" "e_ref_count b = 1" by (rule sample_held)
  have "careful (Mark_Dirty sample_id) (cached_entry c)" using cached_entry_slot [OF h(2), of sample_id] h(3,4) by simp
  moreover have "careful_run [Modify sample_id 0 [1, 2, 3], Put sample_id, Sync] k" for k :: "ram kes_cache" by (rule harmless_run) simp
  ultimately have "careful_run [Mark_Dirty sample_id, Modify sample_id 0 [1, 2, 3], Put sample_id, Sync] c"
    unfolding careful_run.simps(2) [of "Mark_Dirty sample_id"] by (simp del: careful_run.simps exec.simps split: option.split sum.split)
  then show ?thesis
    unfolding sample_open_def [symmetric] careful_run.simps(2) [of "Get sample_id"] h(1) by (simp del: careful_run.simps exec.simps)
qed

text \<open>
  C4. Transparency: set callbacks that read and write the extents of a device, and make any
  sequence of lookups, releases, markings as dirty, writes into buffers held, pins, flushes, invalidations, syncs, thread starts,
  stops and wake-ups, however the callbacks and allocations fail, provided that (\<open>careful_run\<close>) the client marks
  no extent dirty that it does not hold and whose load failed, invalidates no extent with changes that are not written back, and does not change the
  callbacks again or destroy the cache. A lookup that succeeds after them hands out a buffer with exactly
  the content the device had at first, changed by the successful writes of the clients in their
  order: evictions, write-backs, failed flushes and retried loads lose and invent nothing.
\<close>

theorem cache_transparent:
  assumes "kes_cache_create (Some cfg) m = Inr c" "m_heap m = (\<lambda>_. None)" "m_bufs m = (\<lambda>_. None)" "config_ok cfg"
    and "reads content rd" "writes content wr" "length xs < 2 ^ 32 - 2"
      "careful_run xs (c\<lparr>c_read_extent := Some rd, c_write_extent := Some wr, c_sync_device := sy\<rparr>)"
  shows "\<exists>rs c1 r q c2. run (Set_Io (Some rd) (Some wr) sy # xs) c = Some ((KES_SUCCESS, None) # rs, Inr c1) \<and>
    kes_cache_get_extent (Some c1) (Some i) (Some None) = Some (r, Some c2, Some q) \<and>
    (r = KES_SUCCESS \<longrightarrow> (\<exists>p. q = Some p \<and>
       take (unat (extent_data_size i)) (the (m_bufs c2 p)) = replay xs rs (content (m_dev m)) (key i)))"
proof -
  obtain rs c1 es where r: "run (Set_Io (Some rd) (Some wr) sy # xs) c = Some ((KES_SUCCESS, None) # rs, Inr c1)" "cache_ok c1 es"
    "bounded (length xs) es" "coherent content (es, core c1)" "seen content (es, core c1) = replay xs rs (content (m_dev m))"
    by (rule session_coherent [OF assms])
  show ?thesis
  proof (cases "id_ok i")
    case True
    obtain c2 es2 q result where g: "kes_cache_get_extent (Some c1) (Some i) (Some None) = Some (result, Some c2, Some q)"
      "get_step i (es, core c1) = ((result, q), es2, core c2)" by (rule get_eq [OF r(2) True])
    have "fresh (core c1) es" using cache_okD(2) [OF r(2)] by (simp add: tidy_def fresh_def)
    from coherent_get(3) [OF r(4) this True g(2)] show ?thesis using r(1,5) g(1) by auto
  next
    case False
    then have "kes_cache_get_extent (Some c1) (Some i) (Some None) = Some (KES_ERROR_INVALID, Some c1, Some None)"
      unfolding id_ok_guard by (auto simp: kes_cache_get_extent_def)
    then show ?thesis using r(1) by auto
  qed
qed

theorem cache_transparent_witness:
  "let xs = [Get sample_id, Mark_Dirty sample_id, Modify sample_id 0 [1, 2, 3], Put sample_id, Sync] in
    \<exists>rs c1 r q c2. run (Set_Io (Some ram_read) (Some ram_write) None # xs) sample_cache = Some ((KES_SUCCESS, None) # rs, Inr c1) \<and>
    kes_cache_get_extent (Some c1) (Some sample_id) (Some None) = Some (r, Some c2, Some q) \<and>
    (r = KES_SUCCESS \<longrightarrow> (\<exists>p. q = Some p \<and>
       take (unat (extent_data_size sample_id)) (the (m_bufs c2 p)) = replay xs rs (m_dev sample_mach) (key sample_id)))"
  unfolding Let_def by (rule cache_transparent [OF sample_create sample_config ram_io(1,2) _ sample_careful]) simp

text \<open>Without dirty entries the device itself has what clients see.\<close>

lemma seen_clean:
  assumes s: "coherent content (es, c)" and d: "\<forall>(a, b) \<in> set es. \<not> dirty b"
  shows "seen content (es, c) = content (m_dev c)"
proof
  fix k
  show "seen content (es, c) k = content (m_dev c) k"
  proof (cases "entry_for es k")
    case None
    then show ?thesis by (simp add: seen_eq)
  next
    case (Some z)
    obtain a b where z: "z = (a, b)" by (cases z)
    have b: "(a, b) \<in> set es" "key (e_id b) = k" using Some z entry_for_Some [OF coherentD(3) [OF s]] by auto
    then show ?thesis using Some z d coherentD(5) [OF s b(1)] by (auto simp: seen_eq in_step_def loaded_def)
  qed
qed

text \<open>
  C9. Durability: in such a session, with the same care of the client and a device whose writes succeed, \<open>kes_cache_sync\<close> leaves on the
  device what it had at first, changed by the successful writes of the clients in their order.
\<close>

theorem cache_sync_durable:
  assumes "kes_cache_create (Some cfg) m = Inr c" "m_heap m = (\<lambda>_. None)" "m_bufs m = (\<lambda>_. None)" "config_ok cfg"
    and "reads content rd" "writes content wr" "length xs < 2 ^ 32 - 2"
      "careful_run xs (c\<lparr>c_read_extent := Some rd, c_write_extent := Some wr, c_sync_device := sy\<rparr>)"
    and ok: "\<forall>d i bs n. fst (wr d i bs n) = KES_SUCCESS"
  shows "\<exists>rs c1 c2. run (Set_Io (Some rd) (Some wr) sy # xs) c = Some ((KES_SUCCESS, None) # rs, Inr c1) \<and>
    kes_cache_sync (Some c1) = Some (KES_SUCCESS, Some c2) \<and> content (m_dev c2) = replay xs rs (content (m_dev m))"
proof -
  obtain rs c1 es where r: "run (Set_Io (Some rd) (Some wr) sy # xs) c = Some ((KES_SUCCESS, None) # rs, Inr c1)" "cache_ok c1 es"
    "bounded (length xs) es" "coherent content (es, core c1)" "seen content (es, core c1) = replay xs rs (content (m_dev m))"
    "c_write_extent c1 = Some wr"
    by (rule session_coherent [OF assms(1-8)])
  obtain c2 es2 where c2: "kes_cache_sync (Some c1) = Some (KES_SUCCESS, Some c2)" "cache_ok c2 es2"
    "fold visit (map fst es) (es, core c1) = (es2, core c2)" by (rule sync_eq [OF r(2)])
  have "vstep Sync (es, core c1) = ((KES_SUCCESS, None), Inr (es2, core c2))" using c2(3) by simp
  moreover have "fresh (core c1) es" using cache_okD(2) [OF r(2)] by (simp add: tidy_def fresh_def)
  ultimately have co: "coherent content (es2, core c2)" "seen content (es2, core c2) = seen content (es, core c1)"
    using vstep_coherent [OF r(4), of Sync] by simp_all
  have "\<forall>(a, b) \<in> set es2. \<not> dirty b"
    using sweep_working [of "core c1" wr "[]" es es2 "core c2"] r(6) ok c2(3) cache_okD(4) [OF r(2)] by auto
  then show ?thesis using seen_clean [OF co(1)] co(2) r(1,5) c2(1) by auto
qed

theorem cache_sync_durable_witness:
  "let xs = [Get sample_id, Mark_Dirty sample_id, Modify sample_id 0 [1, 2, 3], Put sample_id, Sync] in
    \<exists>rs c1 c2. run (Set_Io (Some ram_read) (Some ram_write) None # xs) sample_cache = Some ((KES_SUCCESS, None) # rs, Inr c1) \<and>
    kes_cache_sync (Some c1) = Some (KES_SUCCESS, Some c2) \<and> m_dev c2 = replay xs rs (m_dev sample_mach)"
  unfolding Let_def by (rule cache_sync_durable [OF sample_create sample_config ram_io(1,2) _ sample_careful]) (simp_all add: ram_io(3))

section \<open>Lookups\<close>

text \<open>
  C29. The hash table is a search through the list of entries: \<open>hash_find\<close> follows the chain of the bucket of
  the id, ends, and finds the one entry with the same start block, block count and block size wherever
  it is in the list, and pins it; without such an entry it finds nothing. Nothing else changes.
\<close>

theorem hash_find_linear:
  assumes "cache_ok c es"
  shows "hash_find c i = Some (case find (\<lambda>(a, b). kes_extent_equal (e_id b) i) es of None \<Rightarrow> (None, c)
    | Some (a, b) \<Rightarrow> (Some a, c\<lparr>m_heap := (m_heap c)(a \<mapsto> (the (m_heap c a))\<lparr>e_lookup_pins := 1\<rparr>)\<rparr>))"
proof (cases "slot es i")
  case None
  then show ?thesis using hash_find_eq [OF cache_okD(1,3) [OF assms], of i] by (simp flip: slot_def)
next
  case (Some z)
  obtain a b where z: "z = (a, b)" by (cases z)
  obtain e where "m_heap c a = Some e" "extent_body.truncate e = b" "resting b" by (rule slot_entry [OF assms Some [unfolded z]])
  then have "e_lookup_pins (the (m_heap c a)) = 0" by (auto simp: resting_def)
  then show ?thesis using Some z hash_find_eq [OF cache_okD(1,3) [OF assms], of i] by (simp flip: slot_def)
qed

theorem hash_find_linear_witness:
  "\<exists>(c :: ram kes_cache) a b. cache_ok c [(a, b)] \<and>
    hash_find c sample_id = Some (case find (\<lambda>(a, b). kes_extent_equal (e_id b) sample_id) [(a, b)] of None \<Rightarrow> (None, c)
      | Some (a, b) \<Rightarrow> (Some a, c\<lparr>m_heap := (m_heap c)(a \<mapsto> (the (m_heap c a))\<lparr>e_lookup_pins := 1\<rparr>)\<rparr>))"
proof -
  obtain c :: "ram kes_cache" and a b where "cache_ok c [(a, b)]" by (rule sample_held)
  then show ?thesis using hash_find_linear [of c "[(a, b)]" sample_id] by blast
qed

text \<open>The outcome of a hit.\<close>

lemma hit_outcome:
  assumes ok: "cache_ok c es" and i: "id_ok i" and s: "slot es i = Some (a, b)" and f: "\<not> failed b"
  shows "\<exists>c' now. kes_cache_get_extent (Some c) (Some i) (Some None) = Some (KES_SUCCESS, Some c', Some (e_data b)) \<and>
    cache_ok c' ((a, b\<lparr>e_ref_count := e_ref_count b + 1, e_access_time := now, e_access_count := e_access_count b + 1\<rparr>) #
      filter (\<lambda>(x, y). x \<noteq> a) es) \<and>
    m_bufs c' = m_bufs c \<and> m_dev c' = m_dev c \<and> c_stats c' = (c_stats c)\<lparr>cs_hits := cs_hits (c_stats c) + 1\<rparr>"
proof -
  obtain c' es' result buf where g: "kes_cache_get_extent (Some c) (Some i) (Some None) = Some (result, Some c', Some buf)"
    "cache_ok c' es'" "get_step i (es, core c) = ((result, buf), es', core c')" by (rule get_eq [OF ok i])
  let ?c = "(core c)\<lparr>c_inflight_lookups := c_inflight_lookups c + 1\<rparr>"
  have "attach ?c i b = (b, ?c)" using f by (simp add: attach_def)
  then have out: "result = KES_SUCCESS" "buf = e_data b" "es' = (a, hit_body (fst (get_timestamp ?c)) b) # drop_at a es"
    "core c' = end_core (stats (\<lambda>s. s\<lparr>cs_hits := cs_hits s + 1\<rparr>) (?c\<lparr>m_ticks := m_ticks c + 1\<rparr>))"
    using g(3) s f by (simp_all add: get_step_def hit_def Let_def)
  have sel: "m_bufs (core c') = m_bufs c \<and> m_dev (core c') = m_dev c \<and>
      c_stats (core c') = (c_stats c)\<lparr>cs_hits := cs_hits (c_stats c) + 1\<rparr>"
    unfolding out(4) by (simp add: end_core_def stats_def)
  then show ?thesis using g(1,2) out(1-3) by (auto simp: hit_body_def drop_at_def)
qed

text \<open>
  C30. A lookup of an extent in the cache (and not in the error state) succeeds and hands out the
  entry's buffer: the entry gets one more reference and moves to the most recently used end, a hit is
  counted, the other entries, their order, every buffer and the device stay as they are.
\<close>

theorem get_hit:
  assumes ok: "cache_ok c es" and i: "id_ok i" and s: "slot es i = Some (a, b)" and f: "\<not> failed b"
  shows "\<exists>c' now. kes_cache_get_extent (Some c) (Some i) (Some None) = Some (KES_SUCCESS, Some c', Some (e_data b)) \<and>
    cache_ok c' ((a, b\<lparr>e_ref_count := e_ref_count b + 1, e_access_time := now, e_access_count := e_access_count b + 1\<rparr>) #
      filter (\<lambda>(x, y). x \<noteq> a) es) \<and>
    m_bufs c' = m_bufs c \<and> m_dev c' = m_dev c \<and> c_stats c' = (c_stats c)\<lparr>cs_hits := cs_hits (c_stats c) + 1\<rparr>"
  by (rule hit_outcome [OF assms])

theorem get_hit_witness:
  "\<exists>(c :: ram kes_cache) a b. cache_ok c [(a, b)] \<and> (\<exists>c' now. kes_cache_get_extent (Some c) (Some sample_id) (Some None) = Some (KES_SUCCESS, Some c', Some (e_data b)) \<and>
    cache_ok c' ((a, b\<lparr>e_ref_count := e_ref_count b + 1, e_access_time := now, e_access_count := e_access_count b + 1\<rparr>) #
      filter (\<lambda>(x, y). x \<noteq> a) [(a, b)]) \<and>
    m_bufs c' = m_bufs c \<and> m_dev c' = m_dev c \<and> c_stats c' = (c_stats c)\<lparr>cs_hits := cs_hits (c_stats c) + 1\<rparr>)"
proof -
  obtain c :: "ram kes_cache" and a b where "cache_ok c [(a, b)]" "slot [(a, b)] sample_id = Some (a, b)" "\<not> failed b" by (rule sample_held)
  then show ?thesis using get_hit [of c "[(a, b)]" sample_id a b] sample_id_ok by blast
qed

text \<open>The outcome of a miss when there is room and memory.\<close>

lemma miss_outcome:
  assumes ok: "cache_ok c es" and i: "id_ok i" and s: "slot es i = None" and rd: "c_read_extent c = Some rd"
    and room: "room_for c (KES_ALIGN (extent_data_size i) KES_CACHE_ALIGNMENT)" and mem: "m_sched c = []"
    and n: "n = unat (KES_ALIGN (extent_data_size i) KES_CACHE_ALIGNMENT)" and p: "p = m_next c + 1"
    and r: "rd (m_dev c) i (take (unat (extent_data_size i)) (map (m_junk c p) [0..<n])) (extent_data_size i) = (r, bs, d)"
  shows "\<exists>c' a b. kes_cache_get_extent (Some c) (Some i) (Some None) =
      Some (if r = KES_SUCCESS \<or> r = KES_ERROR_INVALID then r else KES_ERROR_IO, Some c', Some (if r = KES_SUCCESS then Some p else None)) \<and>
    cache_ok c' ((a, b) # es) \<and> e_id b = i \<and> e_data b = Some p \<and> e_pin_count b = 0 \<and>
    (if r = KES_SUCCESS then e_state b = KES_EXTENT_CLEAN \<and> e_ref_count b = 1 else e_state b = KES_EXTENT_ERROR \<and> e_ref_count b = 0) \<and>
    m_bufs c p = None \<and> m_bufs c' = (m_bufs c)(p \<mapsto> bs @ drop (length bs) (map (m_junk c p) [0..<n])) \<and> m_dev c' = d \<and>
    cs_misses (c_stats c') = cs_misses (c_stats c) + 1"
proof -
  obtain c' es' result buf where g: "kes_cache_get_extent (Some c) (Some i) (Some None) = Some (result, Some c', Some buf)"
    "cache_ok c' es'" "get_step i (es, core c) = ((result, buf), es', core c')" by (rule get_eq [OF ok i])
  define c2 where "c2 = (core c)\<lparr>c_inflight_lookups := c_inflight_lookups c + 1\<rparr>"
  have c2: "room_for c2 (KES_ALIGN (extent_data_size i) KES_CACHE_ALIGNMENT)" "m_sched c2 = []" "m_next c2 = m_next c"
    "m_junk c2 = m_junk c" "m_bufs c2 = m_bufs c" "m_dev c2 = m_dev c" "c_read_extent c2 = Some rd" "c_stats c2 = c_stats c"
    using room mem rd by (simp_all add: c2_def room_for_def)
  define b where "b = new_body (fst (get_timestamp c2)) i p"
  have bn: "asize b = n" "e_data_size b = extent_data_size i" "e_data b = Some p" by (simp_all add: b_def new_body_def asize_def n)
  define c5 where "c5 = publish_core b (c2\<lparr>m_next := m_next c + 1, m_ticks := m_ticks c2 + 1,
    m_bufs := (m_bufs c)(p \<mapsto> map (m_junk c p) [0..<n]), m_next := p + 1\<rparr>)"
  have ld: "load_result c5 i b = (r, bs, d)" using r bn c2 by (simp add: load_result_def c5_def)
  have m: "miss i (es, c2) = ((result, buf), es', core c')" using g(3) s by (simp add: get_step_def c2_def Let_def)
  have mf: "may_fail x = (False, x)" if "m_sched x = []" for x :: "'a kes_cache" using that by (simp add: may_fail_def)
  have out: "result = load_code r" "buf = (if r = KES_SUCCESS then Some p else None)" "es' = (m_next c, loaded_body r b) # es"
    "core c' = retry_core (r, bs, d) b c5"
    using m ld c2 bn(1) p by (auto simp: miss_def room_step_def mf Let_def c5_def b_def)
  have "m_bufs (core c') = (m_bufs c)(p \<mapsto> overlay bs (map (m_junk c p) [0..<n]))" "m_dev (core c') = d"
    "cs_misses (c_stats (core c')) = cs_misses (c_stats c) + 1"
    using bn c2 by (simp_all add: out(4) load_core_bufs c5_def retry_core_def add_read_def load_core_def stats_def publish_core_def)
  moreover have "m_bufs c p = None" using cache_okD(2) [OF ok] p by (fastforce simp: tidy_def fresh_def)
  moreover have "e_id (loaded_body r b) = i" "e_data (loaded_body r b) = Some p" "e_pin_count (loaded_body r b) = 0"
    "if r = KES_SUCCESS then e_state (loaded_body r b) = KES_EXTENT_CLEAN \<and> e_ref_count (loaded_body r b) = 1
       else e_state (loaded_body r b) = KES_EXTENT_ERROR \<and> e_ref_count (loaded_body r b) = 0"
    by (simp_all add: loaded_body_def b_def new_body_def)
  ultimately show ?thesis using g(1,2) out(1-3)
    by (intro exI [of _ c'] exI [of _ "m_next c"] exI [of _ "loaded_body r b"]) (simp add: load_code_def overlay_def)
qed

text \<open>
  C31. A lookup of an extent that is not in the cache, when there is room and memory: the entry is
  new memory, the read callback gets the buffer once and its answer decides. On success the entry
  is clean, most recently used and has one reference, and the caller gets the buffer with what the callback
  left in it. On failure the caller gets no buffer and an error (every code but INVALID becomes
  IO), and the entry stays in the error state without a reference. The other entries, their buffers
  and their order do not change, and one miss is counted.
\<close>

theorem get_miss:
  assumes ok: "cache_ok c es" and i: "id_ok i" and s: "slot es i = None" and rd: "c_read_extent c = Some rd"
    and room: "room_for c (KES_ALIGN (extent_data_size i) KES_CACHE_ALIGNMENT)" and mem: "m_sched c = []"
    and n: "n = unat (KES_ALIGN (extent_data_size i) KES_CACHE_ALIGNMENT)" and p: "p = m_next c + 1"
    and r: "rd (m_dev c) i (take (unat (extent_data_size i)) (map (m_junk c p) [0..<n])) (extent_data_size i) = (r, bs, d)"
  shows "\<exists>c' a b. kes_cache_get_extent (Some c) (Some i) (Some None) =
      Some (if r = KES_SUCCESS \<or> r = KES_ERROR_INVALID then r else KES_ERROR_IO, Some c', Some (if r = KES_SUCCESS then Some p else None)) \<and>
    cache_ok c' ((a, b) # es) \<and> e_id b = i \<and> e_data b = Some p \<and> e_pin_count b = 0 \<and>
    (if r = KES_SUCCESS then e_state b = KES_EXTENT_CLEAN \<and> e_ref_count b = 1 else e_state b = KES_EXTENT_ERROR \<and> e_ref_count b = 0) \<and>
    m_bufs c p = None \<and> m_bufs c' = (m_bufs c)(p \<mapsto> bs @ drop (length bs) (map (m_junk c p) [0..<n])) \<and> m_dev c' = d \<and>
    cs_misses (c_stats c') = cs_misses (c_stats c) + 1"
  by (rule miss_outcome [OF assms])

theorem get_miss_witness:
  "let n = unat (KES_ALIGN (extent_data_size sample_id) KES_CACHE_ALIGNMENT); p = m_next sample_open + 1; r = KES_SUCCESS; bs = replicate 4096 7 in
    \<exists>c' a b. kes_cache_get_extent (Some sample_open) (Some sample_id) (Some None) =
      Some (if r = KES_SUCCESS \<or> r = KES_ERROR_INVALID then r else KES_ERROR_IO, Some c', Some (if r = KES_SUCCESS then Some p else None)) \<and>
    cache_ok c' ((a, b) # []) \<and> e_id b = sample_id \<and> e_data b = Some p \<and> e_pin_count b = 0 \<and>
    (if r = KES_SUCCESS then e_state b = KES_EXTENT_CLEAN \<and> e_ref_count b = 1 else e_state b = KES_EXTENT_ERROR \<and> e_ref_count b = 0) \<and>
    m_bufs sample_open p = None \<and> m_bufs c' = (m_bufs sample_open)(p \<mapsto> bs @ drop (length bs) (map (m_junk sample_open p) [0..<n])) \<and>
    m_dev c' = m_dev sample_open \<and> cs_misses (c_stats c') = cs_misses (c_stats sample_open) + 1"
  unfolding Let_def
proof (rule get_miss [OF sample_open_ok sample_id_ok _ sample_open_sel(5) _ sample_open_sel(3) refl refl])
  show "room_for sample_open (KES_ALIGN (extent_data_size sample_id) KES_CACHE_ALIGNMENT)" by (rule sample_room)
  show "ram_read (m_dev sample_open) sample_id buf (extent_data_size sample_id) = (KES_SUCCESS, replicate 4096 7, m_dev sample_open)" for buf
    by (simp add: ram_read_def sample_open_sel sample_size)
qed (simp add: slot_def)

lemma at_cong:
  assumes "distinct (map fst es)" "map_of es a = Some b" "g b = h b"
  shows "at a g es = at a h es"
proof -
  obtain us vs where u: "es = us @ (a, b) # vs" "a \<notin> fst ` set us" "a \<notin> fst ` set vs" "at a g es = us @ (a, g b) # vs"
    by (rule split_at [OF assms(1,2)])
  then show ?thesis using assms(3) at_other [of a us] at_other [of a vs] by (simp add: at_def)
qed

text \<open>An extent whose load failed: the device of \<open>sample_bad\<close> answers no read.\<close>

definition bad_read :: "ram read_cb" where
  "bad_read d i buf n = (KES_ERROR_IO, [], d)"

definition sample_bad :: "ram kes_cache" where
  "sample_bad = sample_open\<lparr>c_read_extent := Some bad_read\<rparr>"

lemma sample_bad_ok: "cache_ok sample_bad []"
  by (rule cache_ok_cong [OF sample_open_ok])
     (use cache_okD [OF sample_open_ok] in \<open>simp_all add: sample_bad_def read_ok_def threads_ok_def bad_read_def\<close>)

lemma sample_bad_room: "room_for sample_bad (KES_ALIGN (extent_data_size sample_id) KES_CACHE_ALIGNMENT)"
  using sample_room by (simp add: room_for_def sample_bad_def)

lemma sample_bad_sel: "c_read_extent sample_bad = Some bad_read" "m_sched sample_bad = []"
  by (simp_all add: sample_bad_def sample_open_sel)

lemma sample_failed:
  obtains c a b where "cache_ok c [(a, b)]" "slot [(a, b)] sample_id = Some (a, b)" "failed b" "\<not> dirty b" "c_read_extent c = Some bad_read" "\<not> busy b"
proof -
  note ok = sample_bad_ok and room = sample_bad_room
  have sel: "slot [] sample_id = None" "c_read_extent sample_bad = Some bad_read" "m_sched sample_bad = []"
    using sample_bad_sel by (simp_all add: slot_def)
  have rd: "bad_read (m_dev sample_bad) sample_id buf n = (KES_ERROR_IO, [], m_dev sample_bad)" for buf n by (simp add: bad_read_def)
  obtain c a b where b: "kes_cache_get_extent (Some sample_bad) (Some sample_id) (Some None) = Some (KES_ERROR_IO, Some c, Some None)"
    "cache_ok c [(a, b)]" "e_id b = sample_id" "e_state b = KES_EXTENT_ERROR" "e_ref_count b = 0" "e_pin_count b = 0"
    using miss_outcome [OF ok sample_id_ok sel(1,2) room sel(3) refl refl rd] by auto
  obtain c1 es1 result buf where g: "kes_cache_get_extent (Some sample_bad) (Some sample_id) (Some None) = Some (result, Some c1, Some buf)"
    "get_step sample_id ([], core sample_bad) = ((result, buf), es1, core c1)" by (rule get_eq [OF ok sample_id_ok])
  have "calm (core sample_bad) (core c1)" by (rule get_step_calm(1) [OF g(2)])
  then have "c_read_extent c = Some bad_read" using g(1) b(1) sel(2) by (simp add: calm_def)
  then show thesis using that [of c a b] b by (simp add: slot_def kes_extent_equal_key failed_def dirty_def busy_def)
qed

text \<open>
  C32. A lookup of an entry in the error state. If the entry is dirty, because a write-back failed, the
  data of the client are never overwritten by a reload: the answer is an I/O error and no buffer and
  no entry changes. Otherwise its load failed and is tried again, once: on success the entry is
  clean, most recently used and referenced, and the caller gets its buffer; on failure the answer is
  an I/O error and the entry stays in the error state where it is, with the references it had.
\<close>

theorem get_failed_entry:
  assumes ok: "cache_ok c es" and i: "id_ok i" and s: "slot es i = Some (a, b)" and f: "failed b"
    and rd: "c_read_extent c = Some rd" and p: "e_data b = Some p" "m_bufs c p = Some buf"
    and r: "rd (m_dev c) i (take (unat (e_data_size b)) buf) (e_data_size b) = (r, bs, d)"
  shows "\<exists>c' now. kes_cache_get_extent (Some c) (Some i) (Some None) =
      Some (if dirty b \<or> r \<noteq> KES_SUCCESS then KES_ERROR_IO else KES_SUCCESS, Some c', Some (if dirty b \<or> r \<noteq> KES_SUCCESS then None else Some p)) \<and>
    (if dirty b then cache_ok c' es \<and> m_bufs c' = m_bufs c \<and> m_dev c' = m_dev c
     else (if r = KES_SUCCESS
        then cache_ok c' ((a, b\<lparr>e_state := KES_EXTENT_CLEAN, e_ref_count := e_ref_count b + 1, e_access_time := now,
               e_access_count := e_access_count b + 1\<rparr>) # filter (\<lambda>(x, y). x \<noteq> a) es)
        else cache_ok c' (at a (\<lambda>b. b\<lparr>e_state := KES_EXTENT_ERROR\<rparr>) es)) \<and>
       m_bufs c' = (m_bufs c)(p \<mapsto> bs @ drop (length bs) buf) \<and> m_dev c' = d)"
proof -
  obtain c' es' result q where g: "kes_cache_get_extent (Some c) (Some i) (Some None) = Some (result, Some c', Some q)"
    "cache_ok c' es'" "get_step i (es, core c) = ((result, q), es', core c')" by (rule get_eq [OF ok i])
  define c2 where "c2 = (core c)\<lparr>c_inflight_lookups := c_inflight_lookups c + 1\<rparr>"
  have h: "hit i a b (es, c2) = ((result, q), es', core c')" using g(3) s by (simp add: get_step_def c2_def Let_def)
  have ld: "load_result c2 i b = (r, bs, d)" using r rd p by (simp add: load_result_def c2_def)
  have di: "distinct (map fst es)" and m: "map_of es a = Some b" using cache_okD(4) [OF ok] slot_map_of [OF _ s] by simp_all
  show ?thesis
  proof (cases "dirty b")
    case True
    then have "attach c2 i b = (b, c2)" by (simp add: attach_def)
    then have out: "result = KES_ERROR_IO" "q = None" "es' = es" "core c' = end_core c2"
      using h f at_same [OF di m, of "\<lambda>_. b"] by (simp_all add: hit_def)
    have "m_bufs (core c') = m_bufs c \<and> m_dev (core c') = m_dev c" unfolding out(4) by (simp add: end_core_def c2_def)
    then show ?thesis using g(1,2) out(1-3) True by auto
  next
    case False
    then have at: "attach c2 i b = (retry_body r b, retry_core (r, bs, d) b c2)" using f ld by (simp add: attach_def)
    have k: "m_bufs (retry_core (r, bs, d) b c2) = (m_bufs c)(p \<mapsto> overlay bs buf)" "m_dev (retry_core (r, bs, d) b c2) = d"
      using p by (simp_all add: load_core_bufs retry_core_def add_read_def load_core_def stats_def c2_def)
    show ?thesis
    proof (cases "r = KES_SUCCESS")
      case True
      then have out: "result = KES_SUCCESS" "q = Some p" "es' = (a, hit_body (fst (get_timestamp c2)) (retry_body r b)) # drop_at a es"
        "core c' = end_core (stats (\<lambda>s. s\<lparr>cs_hits := cs_hits s + 1\<rparr>) ((retry_core (r, bs, d) b c2)\<lparr>m_ticks := m_ticks c2 + 1\<rparr>))"
        using h at p by (auto simp: hit_def retry_body_def failed_def)
      have "m_bufs (core c') = m_bufs (retry_core (r, bs, d) b c2) \<and> m_dev (core c') = m_dev (retry_core (r, bs, d) b c2)"
        unfolding out(4) by (simp add: end_core_def stats_def)
      then show ?thesis using g(1,2) out(1-3) k True False by (auto simp: hit_body_def retry_body_def drop_at_def overlay_def)
    next
      case no: False
      then have out: "result = KES_ERROR_IO" "q = None" "es' = at a (\<lambda>_. retry_body r b) es" "core c' = end_core (retry_core (r, bs, d) b c2)"
        using h at by (auto simp: hit_def retry_body_def failed_def)
      have same: "at a (\<lambda>_. retry_body r b) es = at a (\<lambda>b. b\<lparr>e_state := KES_EXTENT_ERROR\<rparr>) es"
        using no by (intro at_cong [OF di m]) (simp add: retry_body_def)
      have "m_bufs (core c') = m_bufs (retry_core (r, bs, d) b c2) \<and> m_dev (core c') = m_dev (retry_core (r, bs, d) b c2)"
        unfolding out(4) by (simp add: end_core_def)
      then show ?thesis using g(1,2) out(1-3) k no False same by (auto simp: overlay_def)
    qed
  qed
qed

theorem get_failed_entry_witness:
  "\<exists>(c :: ram kes_cache) a b r. cache_ok c [(a, b)] \<and> failed b \<and> (\<exists>c'. kes_cache_get_extent (Some c) (Some sample_id) (Some None) = Some (r, Some c', Some None) \<and>
     r = KES_ERROR_IO \<and> cache_ok c' (at a (\<lambda>b. b\<lparr>e_state := KES_EXTENT_ERROR\<rparr>) [(a, b)]))"
proof -
  obtain c a b where c: "cache_ok c [(a, b)]" "slot [(a, b)] sample_id = Some (a, b)" "failed b" "\<not> dirty b" "c_read_extent c = Some bad_read"
    by (rule sample_failed)
  obtain e p buf where e: "e_data b = Some p" "m_bufs c p = Some buf" by (rule slot_entry [OF c(1,2)])
  have rd: "bad_read (m_dev c) sample_id x n = (KES_ERROR_IO, [], m_dev c)" for x n by (simp add: bad_read_def)
  show ?thesis using get_failed_entry [OF c(1) sample_id_ok c(2,3,5) e rd] c by auto
qed

end
