(* ===== verification/Kes_Cache_Upkeep.thy ===== *)
theory Kes_Cache_Upkeep
  imports Kes_Cache_Contract
begin

text \<open>
  The contract of the extent cache, second part: which entries leave the cache and when (eviction,
  invalidation, destruction), write-back, the counter of dirty entries, and the background threads.
\<close>

section \<open>Making room\<close>

lemma room_order:
  assumes t: "tidy c es" "distinct (map fst es)" "config_ok (c_config c)" and n: "unat needed < 2 ^ 62"
    and r: "room_step needed (es, c) = (fits, es', c')"
  obtains es1 es2 where "es = es1 @ es2" "es' = es1 @ leftover (c_write_extent c) (m_bufs c) (m_dev c) es2"
    "fits \<longleftrightarrow> spare (c_config c) es' (unat needed)" "fits \<or> es1 = []"
    "\<forall>us vs. es2 = us @ vs \<longrightarrow> us \<noteq> [] \<longrightarrow> \<not> spare (c_config c) (es1 @ us @ leftover (c_write_extent c) (m_bufs c) (m_dev c) vs) (unat needed)"
    "m_dev c' = snd (settle (c_write_extent c) (m_bufs c) (m_dev c) (rev es2))"
proof (cases "room_for c needed")
  case True
  then show thesis using that [of es "[]"] r room_for_spare [OF t(1,3) n] by (simp add: room_step_def)
next
  case False
  have no: "\<not> spare (c_config c) (es @ []) (unat needed)" using False room_for_spare [OF t(1,3) n] by simp
  have w: "room_walk needed (rev (map fst es)) (es @ [], c) = (fits, es', c')" using r False by (simp add: room_step_def)
  have tt: "tidy c (es @ [])" "distinct (map fst (es @ []))" "\<forall>(a, b) \<in> set es. m_bufs c (the (e_data b)) = m_bufs c (the (e_data b))"
    using t by auto
  show thesis by (rule room_walk_order [OF tt(1,2) t(3) n w no tt(3)]) (use that in simp)
qed

lemma miss_busy:
  assumes "miss i s = ((r, q), s')" "room_step (KES_ALIGN (extent_data_size i) KES_CACHE_ALIGNMENT) s = (fits, s1)"
  shows "r = KES_ERROR_BUSY \<longleftrightarrow> \<not> fits" "\<not> fits \<Longrightarrow> fst s' = fst s1 \<and> m_dev (snd s') = m_dev (snd s1)"
proof -
  obtain es1 c1 where s1: "s1 = (es1, c1)" by (cases s1)
  obtain f1 c2 where 2: "may_fail c1 = (f1, c2)" by fastforce
  obtain f2 c3 where 3: "may_fail (c2\<lparr>m_next := m_next c2 + 1, m_ticks := m_ticks c2 + 1\<rparr>) = (f2, c3)" by fastforce
  show "r = KES_ERROR_BUSY \<longleftrightarrow> \<not> fits" "\<not> fits \<Longrightarrow> fst s' = fst s1 \<and> m_dev (snd s') = m_dev (snd s1)"
    using assms 2 3 s1 by (auto simp: miss_def Let_def load_code_def end_core_def split: if_splits)
qed

lemma aligned_size: "id_ok i \<Longrightarrow> unat (KES_ALIGN (extent_data_size i) KES_CACHE_ALIGNMENT) < 2 ^ 62"
  using extent_data_size_bounds(3) [of i] KES_ALIGN_bounds [of "extent_data_size i"] by simp

text \<open>
  C8. Eviction goes from the least recently used end and no further than needed. A lookup that misses leaves the more recently used
  entries (\<open>es1\<close>) untouched and in order and visits the least recently used ones (\<open>es2\<close>), from the last one on: a dirty one is written to
  the device, with the bytes of its buffer, and becomes clean or is marked with an error (\<open>settle\<close>). Of the visited entries exactly those stay,
  in order, that are referenced, pinned, still dirty or in the error state (\<open>leftover\<close>); at most one entry is added in front. The walk never goes on
  when there is room: before each visit (\<open>us\<close> not yet visited, \<open>vs\<close> visited) the entries that were left had no room for the new one (\<open>spare\<close>), so nothing is visited when there
  is room at first. The answer is BUSY exactly when there is no room in the end, and then all entries were visited, none was added, and the device has exactly the write-backs.
\<close>

theorem eviction_order:
  assumes ok: "cache_ok c es" and i: "id_ok i" and s: "slot es i = None" and n: "n = unat (KES_ALIGN (extent_data_size i) KES_CACHE_ALIGNMENT)"
  shows "\<exists>r c' q new es1 es2. kes_cache_get_extent (Some c) (Some i) (Some None) = Some (r, Some c', Some q) \<and>
    es = es1 @ es2 \<and> cache_ok c' (new @ es1 @ leftover (c_write_extent c) (m_bufs c) (m_dev c) es2) \<and> length new \<le> 1 \<and>
    (\<forall>us vs. es2 = us @ vs \<longrightarrow> us \<noteq> [] \<longrightarrow> \<not> spare (c_config c) (es1 @ us @ leftover (c_write_extent c) (m_bufs c) (m_dev c) vs) n) \<and>
    (r = KES_ERROR_BUSY \<longleftrightarrow> \<not> spare (c_config c) (es1 @ leftover (c_write_extent c) (m_bufs c) (m_dev c) es2) n) \<and>
    (r = KES_ERROR_BUSY \<longrightarrow> es1 = [] \<and> new = [] \<and> m_dev c' = snd (settle (c_write_extent c) (m_bufs c) (m_dev c) (rev es2)))"
proof -
  obtain c' es' r q where g: "kes_cache_get_extent (Some c) (Some i) (Some None) = Some (r, Some c', Some q)"
    "cache_ok c' es'" "get_step i (es, core c) = ((r, q), es', core c')" by (rule get_eq [OF ok i])
  define c2 where "c2 = (core c)\<lparr>c_inflight_lookups := c_inflight_lookups c + 1\<rparr>"
  let ?n = "KES_ALIGN (extent_data_size i) KES_CACHE_ALIGNMENT"
  have m: "miss i (es, c2) = ((r, q), es', core c')" using g(3) s by (simp add: get_step_def c2_def Let_def)
  obtain fits es0 c1 where t: "room_step ?n (es, c2) = (fits, es0, c1)" by (cases "room_step ?n (es, c2)") auto
  note k = cache_okD [OF ok]
  have t2: "tidy c2 es" using k(2) by (simp add: tidy_def fresh_def counts_def c2_def)
  have sel: "c_config c2 = c_config c" "c_write_extent c2 = c_write_extent c" "m_bufs c2 = m_bufs c" "m_dev c2 = m_dev c"
    by (simp_all add: c2_def)
  have cfg: "config_ok (c_config c2)" using ok sel by (simp add: cache_ok_def)
  obtain es1 es2 where o: "es = es1 @ es2" "es0 = es1 @ leftover (c_write_extent c) (m_bufs c) (m_dev c) es2"
    "fits \<longleftrightarrow> spare (c_config c) es0 n" "fits \<or> es1 = []"
    "\<forall>us vs. es2 = us @ vs \<longrightarrow> us \<noteq> [] \<longrightarrow> \<not> spare (c_config c) (es1 @ us @ leftover (c_write_extent c) (m_bufs c) (m_dev c) vs) n"
    "m_dev c1 = snd (settle (c_write_extent c) (m_bufs c) (m_dev c) (rev es2))"
    using room_order [OF t2 k(4) cfg aligned_size [OF i] t] unfolding sel n by blast
  obtain new where new: "es' = new @ es0" "length new \<le> 1"
    by (rule miss_entries [OF m t]) (use that in auto)
  note bz = miss_busy [OF m t]
  have last: "es1 = [] \<and> new = [] \<and> m_dev c' = snd (settle (c_write_extent c) (m_bufs c) (m_dev c) (rev es2))" if "\<not> fits"
    using bz(2) [OF that] o(4,6) that new(1) by simp
  have iff: "r = KES_ERROR_BUSY \<longleftrightarrow> \<not> spare (c_config c) (es1 @ leftover (c_write_extent c) (m_bufs c) (m_dev c) es2) n"
    using bz(1) o(2,3) by simp
  show ?thesis using g(1,2) new o(1,2,5) iff last bz(1) by (intro exI [of _ r] exI [of _ c'] exI [of _ q] exI [of _ new] exI [of _ es1] exI [of _ es2]) simp
qed

text \<open>An extent larger than the whole sample cache, looked up while another extent is held.\<close>

definition big_id :: kes_extent_id where
  "big_id = sample_id\<lparr>id_start_block := 16, id_block_count := 4096\<rparr>"

lemma big_id_ok: "id_ok big_id"
  by (simp add: id_ok_def big_id_def sample_id_def KES_IS_POWER_OF_2_def)

theorem eviction_order_witness:
  "\<exists>(c :: ram kes_cache) a b c' q. cache_ok c [(a, b)] \<and> busy b \<and>
    kes_cache_get_extent (Some c) (Some big_id) (Some None) = Some (KES_ERROR_BUSY, Some c', Some q) \<and> cache_ok c' [(a, b)] \<and> m_dev c' = m_dev c"
proof -
  obtain c :: "ram kes_cache" and a b where c: "cache_ok c [(a, b)]" "slot [(a, b)] sample_id = Some (a, b)" "e_ref_count b = 1" "\<not> dirty b"
    "c_config c = sample_cfg" by (rule sample_held)
  define n where "n = unat (KES_ALIGN (extent_data_size big_id) KES_CACHE_ALIGNMENT)"
  have "key (e_id b) = key sample_id" using slot_SomeD [OF c(2)] by simp
  then have miss: "slot [(a, b)] big_id = None" by (simp add: slot_def kes_extent_equal_key key_def big_id_def sample_id_def)
  obtain r c' q new es1 es2 where e: "kes_cache_get_extent (Some c) (Some big_id) (Some None) = Some (r, Some c', Some q)" "[(a, b)] = es1 @ es2"
    "cache_ok c' (new @ es1 @ leftover (c_write_extent c) (m_bufs c) (m_dev c) es2)"
    "r = KES_ERROR_BUSY \<longleftrightarrow> \<not> spare (c_config c) (es1 @ leftover (c_write_extent c) (m_bufs c) (m_dev c) es2) n"
    "r = KES_ERROR_BUSY \<longrightarrow> es1 = [] \<and> new = [] \<and> m_dev c' = snd (settle (c_write_extent c) (m_bufs c) (m_dev c) (rev es2))"
    using eviction_order [OF c(1) big_id_ok miss n_def] by metis
  have "n = 16777216" by (simp add: n_def extent_data_size_def big_id_def sample_id_def KES_ALIGN_def)
  then have "\<not> spare (c_config c) es n" for es by (simp add: spare_def c(5) sample_cfg_def kes_cache_get_default_config_def)
  then have bz: "r = KES_ERROR_BUSY" "es1 = []" "new = []" "es2 = [(a, b)]" using e(2,4,5) by auto
  have one: "settle_one (c_write_extent c) (m_bufs c) (m_dev c) b = (b, m_dev c)" using c(4) by (simp add: settle_one_def split: option.split)
  have "leftover (c_write_extent c) (m_bufs c) (m_dev c) es2 = [(a, b)]" "m_dev c' = m_dev c" "busy b"
    using leftover_snoc [OF one, of "[]" a] settle_snoc [OF one, of "[]" a] e(5) bz c(3) by (simp_all add: stuck_def busy_def)
  then show ?thesis using c(1) e(1,3) bz
    by (intro exI [of _ c] exI [of _ a] exI [of _ b] exI [of _ c'] exI [of _ q]) simp
qed

section \<open>Entries in use\<close>

text \<open>
  C6. Pointers stay valid: an entry with a reference or a pin survives every call, whatever fails and
  whatever the call is about, at the same address, for the same extent and with the same buffer. The bytes
  in the buffer change only by a write of a client of that extent, or when a load that had failed is tried again.
\<close>

theorem in_use_survives:
  assumes ok: "cache_ok c es" and n: "bounded n es" "n < 2 ^ 32 - 1" and x: "call_ok x" and ab: "(a, b) \<in> set es" and b: "busy b"
  shows "\<exists>r c' e. exec x c = Some (r, Inr c') \<and> m_heap c' a = Some e \<and> e_id e = e_id b \<and> e_data e = e_data b \<and> e_data_size e = e_data_size b \<and>
    (touches x b \<or> m_bufs c' (the (e_data b)) = m_bufs c (the (e_data b)))"
proof -
  have ref: "refines (exec x c) (vstep x (es, core c))" by (rule exec_refines [OF ok x n])
  have "\<exists>r s. vstep x (es, core c) = (r, Inr s)" using ab b
    by (cases x) (auto simp: on_slot_def Let_def filter_empty_conv split: option.splits prod.splits if_splits)
  then obtain r c' es' where e: "exec x c = Some (r, Inr c')" "cache_ok c' es'" "vstep x (es, core c) = (r, Inr (es', core c'))"
    using ref by (cases "exec x c") (auto simp: refines_def split: prod.splits sum.splits)
  have m: "map_of (fst (es, core c)) a = Some b" using ab cache_okD(4) [OF ok] by simp
  have f: "fresh (snd (es, core c)) (fst (es, core c))" using cache_okD(2) [OF ok] by (simp add: tidy_def fresh_def)
  have "stays (\<not> touches x b) a b (es, core c) (es', core c')" by (rule stays_step [OF cache_ok_sound [OF ok] f m b e(3)])
  then obtain b' where b': "map_of es' a = Some b'" "e_id b' = e_id b" "e_data b' = e_data b" "e_data_size b' = e_data_size b"
    "touches x b \<or> m_bufs c' (the (e_data b)) = m_bufs c (the (e_data b))" by (auto simp: stays_def)
  have "bodies c' a = Some b'" using cache_okD(1) [OF e(2)] b'(1) by (simp add: holds_def)
  then obtain en where "m_heap c' a = Some en" "extent_body.truncate en = b'" by (auto simp: bodies_def)
  then show ?thesis using e(1) b' by auto
qed

theorem in_use_survives_witness:
  "\<exists>(c :: ram kes_cache) a b. busy b \<and> (\<exists>r c' e. exec (Get big_id) c = Some (r, Inr c') \<and> m_heap c' a = Some e \<and> e_id e = e_id b \<and> e_data e = e_data b \<and>
    e_data_size e = e_data_size b \<and> (touches (Get big_id :: ram call) b \<or> m_bufs c' (the (e_data b)) = m_bufs c (the (e_data b))))"
proof -
  obtain c :: "ram kes_cache" and a b where c: "cache_ok c [(a, b)]" "e_ref_count b = 1" "e_pin_count b = 0" by (rule sample_held)
  have "bounded 1 [(a, b)]" "busy b" using c by (simp_all add: bounded_def busy_def)
  moreover have "(1 :: nat) < 2 ^ 32 - 1" "call_ok (Get big_id :: ram call)" "(a, b) \<in> set [(a, b)]" by simp_all
  ultimately show ?thesis using in_use_survives [OF c(1)] by blast
qed

section \<open>Write-back\<close>

text \<open>The sample extent held and dirty.\<close>

lemma sample_dirty:
  obtains c :: "ram kes_cache" and a b where "cache_ok c [(a, b)]" "slot [(a, b)] sample_id = Some (a, b)" "dirty b" "busy b"
    "c_write_extent c = Some ram_write"
proof -
  obtain c :: "ram kes_cache" and a b where h: "cache_ok c [(a, b)]" "slot [(a, b)] sample_id = Some (a, b)" "e_ref_count b = 1"
    "\<not> dirty b" "c_write_extent c = Some ram_write" by (rule sample_held)
  obtain c' where m: "cache_ok c' (case slot [(a, b)] sample_id of Some (x, y) \<Rightarrow> if dirty y then [(a, b)] else at x dirty_body [(a, b)] | _ \<Rightarrow> [(a, b)])"
    "core c' = (case slot [(a, b)] sample_id of Some (x, y) \<Rightarrow>
        if dirty y then core c else stats (\<lambda>s. s\<lparr>cs_entries_dirty := cs_entries_dirty s + 1\<rparr>) (core c) | _ \<Rightarrow> core c)"
    by (rule mark_dirty_eq [OF h(1), of sample_id])
  have "c_write_extent (core c') = Some ram_write" unfolding m(2) using h by (simp add: stats_def)
  moreover have "cache_ok c' [(a, dirty_body b)]" using m(1) h by (simp add: at_def)
  moreover have "slot [(a, dirty_body b)] sample_id = Some (a, dirty_body b)" using h(2)
    by (simp add: slot_def dirty_body_def split: if_splits)
  ultimately show thesis using that [of c' a "dirty_body b"] h(3) by (simp add: dirty_body_def dirty_def busy_def)
qed

text \<open>
  C33. Flushing an extent: a dirty entry is written once, with the bytes of its buffer, and if that works it is clean,
  its error is forgotten and the counters of flushes, of bytes written and of dirty entries follow; if it fails the
  entry stays dirty, is in the error state, and the answer is an I/O error. A clean entry is not written. No buffer changes.
\<close>

theorem flush_correct:
  assumes ok: "cache_ok c es" and s: "slot es i = Some (a, b)" and w: "c_write_extent c = Some wr" and p: "e_data b = Some p" "m_bufs c p = Some buf"
    and r: "wr (m_dev c) i (take (unat (e_data_size b)) buf) (e_data_size b) = (r, d)"
  shows "\<exists>c' b'. kes_cache_flush_extent (Some c) (Some i) = Some (if dirty b \<and> r \<noteq> KES_SUCCESS then KES_ERROR_IO else KES_SUCCESS, Some c') \<and>
    cache_ok c' (at a (\<lambda>_. b') es) \<and> alike b b' \<and> m_bufs c' = m_bufs c \<and>
    (if \<not> dirty b then b' = b \<and> m_dev c' = m_dev c \<and> c_stats c' = c_stats c
     else m_dev c' = d \<and> (if r = KES_SUCCESS then \<not> dirty b' \<and> \<not> failed b' \<and>
         c_stats c' = (c_stats c)\<lparr>cs_bytes_written := cs_bytes_written (c_stats c) + e_data_size b, cs_flushes := cs_flushes (c_stats c) + 1,
           cs_entries_dirty := cs_entries_dirty (c_stats c) - 1\<rparr>
       else dirty b' \<and> failed b' \<and> c_stats c' = c_stats c))"
proof -
  obtain c' where c': "kes_cache_flush_extent (Some c) (Some i) =
      Some (case slot es i of None \<Rightarrow> KES_ERROR_NOTFOUND | Some (a, b) \<Rightarrow> flush_code c i b, Some c')"
    "cache_ok c' (case slot es i of Some (a, b) \<Rightarrow> at a (\<lambda>_. flush_body (flush_back c i b) b) es | _ \<Rightarrow> es)"
    "core c' = (case slot es i of Some (a, b) \<Rightarrow> flush_core (flush_back c i b) b (core c) | _ \<Rightarrow> core c)" by (rule flush_eq [OF ok])
  define b' where "b' = flush_body (flush_back c i b) b"
  have f: "flush_back c i b = (if dirty b then Some (r, d) else None)" using w p r by (simp add: flush_back_def)
  have cc: "core c' = flush_core (flush_back c i b) b (core c)" using c'(3) s by simp
  have k: "m_bufs (core c') = m_bufs c" "m_dev (core c') = (if dirty b then d else m_dev c)"
    "c_stats (core c') = (if dirty b \<and> r = KES_SUCCESS then (c_stats c)\<lparr>cs_bytes_written := cs_bytes_written (c_stats c) + e_data_size b,
       cs_flushes := cs_flushes (c_stats c) + 1, cs_entries_dirty := cs_entries_dirty (c_stats c) - 1\<rparr> else c_stats c)"
    unfolding cc f by (simp_all add: flush_core_def stats_def)
  have d: "dirty b \<Longrightarrow> dirty b' = (r \<noteq> KES_SUCCESS) \<and> failed b' = (r \<noteq> KES_SUCCESS)" "\<not> dirty b \<Longrightarrow> b' = b" "alike b b'"
    using dirty_flush [of c i b r d] f by (auto simp: b'_def flush_body_def alike_def)
  show ?thesis using c'(1,2) s k d f by (intro exI [of _ c'] exI [of _ b']) (auto simp: b'_def flush_code_def)
qed

theorem flush_correct_witness:
  "\<exists>(c :: ram kes_cache) c' a b'. kes_cache_flush_extent (Some c) (Some sample_id) = Some (KES_SUCCESS, Some c') \<and>
     cache_ok c' (at a (\<lambda>_. b') [(a, b')]) \<and> \<not> dirty b' \<and> cs_flushes (c_stats c') = cs_flushes (c_stats c) + 1"
proof -
  obtain c :: "ram kes_cache" and a b where c: "cache_ok c [(a, b)]" "slot [(a, b)] sample_id = Some (a, b)" "dirty b"
    "c_write_extent c = Some ram_write" by (rule sample_dirty)
  obtain e p buf where e: "e_data b = Some p" "m_bufs c p = Some buf" by (rule slot_entry [OF c(1,2)])
  have w: "ram_write (m_dev c) sample_id bs n = (KES_SUCCESS, (m_dev c)(key sample_id := bs))" for bs n by (simp add: ram_write_def)
  obtain c' b' where "kes_cache_flush_extent (Some c) (Some sample_id) = Some (KES_SUCCESS, Some c')" "cache_ok c' (at a (\<lambda>_. b') [(a, b)])"
    "\<not> dirty b'" "c_stats c' = (c_stats c)\<lparr>cs_bytes_written := cs_bytes_written (c_stats c) + e_data_size b,
       cs_flushes := cs_flushes (c_stats c) + 1, cs_entries_dirty := cs_entries_dirty (c_stats c) - 1\<rparr>"
    using flush_correct [OF c(1,2,4) e w] c(3) by auto
  then show ?thesis
    by (intro exI [of _ c] exI [of _ c'] exI [of _ a] exI [of _ b']) (auto simp: at_def)
qed

text \<open>Marking the most recently used entry dirty and flushing it: its buffer goes to the device, whatever is in it.\<close>

lemma mark_then_flush:
  assumes ok: "cache_ok c ((a, b) # es)" and b: "e_id b = i" "e_data b = Some p" "m_bufs c p = Some buf" "\<not> dirty b"
    and wr: "c_write_extent c = Some wr" "wr (m_dev c) i (take (unat (extent_data_size i)) buf) (extent_data_size i) = (KES_SUCCESS, d')"
  obtains c2 c3 b' where "kes_cache_mark_dirty (Some c) (Some i) = Some (KES_SUCCESS, Some c2)"
    "kes_cache_flush_extent (Some c2) (Some i) = Some (KES_SUCCESS, Some c3)" "cache_ok c3 ((a, b') # es)"
    "e_id b' = i" "\<not> failed b'" "e_data b' = Some p" "m_bufs c3 = m_bufs c" "m_dev c3 = d'"
proof -
  have a: "a \<notin> fst ` set es" using cache_okD(4) [OF ok] by auto
  have sz: "e_data_size b = extent_data_size i" using cache_okD(2) [OF ok] b(1) by (simp add: tidy_def resting_def)
  have sl: "slot ((a, y) # es) i = Some (a, y)" if "e_id y = i" for y using that by (simp add: slot_def kes_extent_equal_key)
  obtain c2 where m: "kes_cache_mark_dirty (Some c) (Some i) = Some (KES_SUCCESS, Some c2)" "cache_ok c2 ((a, dirty_body b) # es)"
    "core c2 = stats (\<lambda>s. s\<lparr>cs_entries_dirty := cs_entries_dirty s + 1\<rparr>) (core c)"
    by (rule mark_dirty_eq [OF ok, of i]) (use sl [OF b(1)] b(4) at_other [OF a] in \<open>auto simp: at_def\<close>)
  have "m_bufs (core c2) = m_bufs c \<and> m_dev (core c2) = m_dev c \<and> c_write_extent (core c2) = Some wr"
    unfolding m(3) using wr(1) by (simp add: stats_def)
  then have k2: "m_bufs c2 = m_bufs c" "m_dev c2 = m_dev c" "c_write_extent c2 = Some wr" by simp_all
  have fb: "flush_back c2 i (dirty_body b) = Some (KES_SUCCESS, d')"
    using wr(2) k2 b(2,3) sz by (simp add: flush_back_def dirty_body_def dirty_def)
  define b' where "b' = flush_body (Some (KES_SUCCESS, d')) (dirty_body b)"
  have b': "e_id b' = i" "\<not> failed b'" "e_data b' = Some p" using b(1,2) by (simp_all add: b'_def flush_body_def dirty_body_def failed_def)
  obtain c3 where f: "kes_cache_flush_extent (Some c2) (Some i) = Some (KES_SUCCESS, Some c3)" "cache_ok c3 ((a, b') # es)"
    "core c3 = flush_core (Some (KES_SUCCESS, d')) (dirty_body b) (core c2)"
    by (rule flush_eq [OF m(2), of i])
       (use sl [of "dirty_body b"] b(1) fb at_other [OF a] in \<open>auto simp: at_def b'_def flush_code_def dirty_body_def dirty_def\<close>)
  have "m_bufs (core c3) = m_bufs c \<and> m_dev (core c3) = d'" unfolding f(3) using k2(1) by (simp add: flush_core_def stats_def)
  then show thesis using that [OF m(1) f(1,2) b'] by simp
qed

text \<open>
  C28. An extent whose load failed stays in the cache, and \<open>kes_cache_mark_dirty\<close> accepts it: the answers of \<open>Get\<close> (an error), \<open>Mark_Dirty\<close> and \<open>Flush\<close>
  (both SUCCESS) do not tell the client that the flush has written the buffer of the failed load over the extent on the device: the bytes the
  read callback left there, if any, and uninitialised memory after them. The other extents keep their content. The next lookup then succeeds and hands out this buffer.
\<close>

theorem mark_dirty_after_failed_load:
  assumes ok: "cache_ok c es" and i: "id_ok i" and s: "slot es i = None" and rd: "c_read_extent c = Some rd" and wr: "c_write_extent c = Some wr"
    and room: "room_for c (KES_ALIGN (extent_data_size i) KES_CACHE_ALIGNMENT)" and mem: "m_sched c = []"
    and n: "n = unat (KES_ALIGN (extent_data_size i) KES_CACHE_ALIGNMENT)" and p: "p = m_next c + 1"
    and r: "rd (m_dev c) i (take (unat (extent_data_size i)) (map (m_junk c p) [0..<n])) (extent_data_size i) = (r, bs, d)" "r \<noteq> KES_SUCCESS"
    and io: "reads content rd" "writes content wr" "\<forall>d i bs n. fst (wr d i bs n) = KES_SUCCESS"
  shows "\<exists>e c'. run [Get i, Mark_Dirty i, Flush i, Get i] c =
      Some ([(e, None), (KES_SUCCESS, None), (KES_SUCCESS, None), (KES_SUCCESS, Some p)], Inr c') \<and> e \<noteq> KES_SUCCESS \<and>
    content (m_dev c') = (content (m_dev c))(key i := take (unat (extent_data_size i)) (bs @ drop (length bs) (map (m_junk c p) [0..<n]))) \<and>
    m_bufs c' p = Some (bs @ drop (length bs) (map (m_junk c p) [0..<n]))"
proof -
  let ?buf = "bs @ drop (length bs) (map (m_junk c p) [0..<n])"
  let ?e = "if r = KES_SUCCESS \<or> r = KES_ERROR_INVALID then r else KES_ERROR_IO"
  obtain c1 a b where g: "kes_cache_get_extent (Some c) (Some i) (Some None) = Some (?e, Some c1, Some None)" "cache_ok c1 ((a, b) # es)"
    "e_id b = i" "e_data b = Some p" "e_state b = KES_EXTENT_ERROR" "m_bufs c1 = (m_bufs c)(p \<mapsto> ?buf)" "m_dev c1 = d"
    using miss_outcome [OF ok i s rd room mem n p r(1)] r(2) by auto
  obtain c1' es1 e1 q where st: "kes_cache_get_extent (Some c) (Some i) (Some None) = Some (e1, Some c1', Some q)"
    "get_step i (es, core c) = ((e1, q), es1, core c1')" by (rule get_eq [OF ok i])
  have w1: "c_write_extent c1 = Some wr" using get_step_calm(1) [OF st(2)] st(1) g(1) wr by (simp add: calm_def)
  obtain d' where d': "wr d i (take (unat (extent_data_size i)) ?buf) (extent_data_size i) = (KES_SUCCESS, d')"
    using io(3) by (metis prod.collapse)
  obtain c2 c3 b' where f: "kes_cache_mark_dirty (Some c1) (Some i) = Some (KES_SUCCESS, Some c2)"
    "kes_cache_flush_extent (Some c2) (Some i) = Some (KES_SUCCESS, Some c3)" "cache_ok c3 ((a, b') # es)"
    "e_id b' = i" "\<not> failed b'" "e_data b' = Some p" "m_bufs c3 = m_bufs c1" "m_dev c3 = d'"
    by (rule mark_then_flush [OF g(2-4), of ?buf wr d']) (use g(5-7) w1 d' in \<open>simp_all add: dirty_def\<close>)
  have sl: "slot ((a, b') # es) i = Some (a, b')" using f(4) by (simp add: slot_def kes_extent_equal_key)
  obtain c4 where h: "kes_cache_get_extent (Some c3) (Some i) (Some None) = Some (KES_SUCCESS, Some c4, Some (Some p))"
    "m_bufs c4 = m_bufs c3" "m_dev c4 = m_dev c3" using hit_outcome [OF f(3) i sl f(5)] f(6) by auto
  have "content d = content (m_dev c)" by (rule readsD(1) [OF io(1) r(1)])
  moreover have "content d' = (content d)(key i := take (unat (extent_data_size i)) ?buf)" using writesD [OF io(2) d'] by (auto simp: fun_eq_iff)
  ultimately have "content (m_dev c4) = (content (m_dev c))(key i := take (unat (extent_data_size i)) ?buf)" using h(3) f(8) by simp
  moreover have "m_bufs c4 p = Some ?buf" using h(2) f(7) g(6) by simp
  moreover have "run [Get i, Mark_Dirty i, Flush i, Get i] c = Some ([(?e, None), (KES_SUCCESS, None), (KES_SUCCESS, None), (KES_SUCCESS, Some p)], Inr c4)"
    using g(1) f(1,2) h(1) by (simp add: run_def plain_def)
  moreover have "?e \<noteq> KES_SUCCESS" using r(2) by simp
  ultimately show ?thesis by blast
qed

text \<open>The sample device has sevens in every extent; after the failed load the extent is full of whatever the new buffer had in it.\<close>

theorem mark_dirty_after_failed_load_witness:
  "\<exists>e (c' :: ram kes_cache). run [Get sample_id, Mark_Dirty sample_id, Flush sample_id, Get sample_id] sample_bad =
      Some ([(e, None), (KES_SUCCESS, None), (KES_SUCCESS, None), (KES_SUCCESS, Some (m_next sample_bad + 1))], Inr c') \<and> e \<noteq> KES_SUCCESS \<and>
    m_dev sample_bad (key sample_id) = replicate 4096 7 \<and> m_dev c' (key sample_id) = replicate 4096 0"
proof -
  have junk: "m_junk sample_bad = (\<lambda>_ _. 0)" "m_dev sample_bad = (\<lambda>_. replicate 4096 7)"
    using sample_open_sel(4) by (simp_all add: sample_bad_def sample_open_def sample_cache_def kes_cache_create_def sample_cfg_def
      kes_cache_get_default_config_def sample_mach_def may_fail_def mach.defs)
  have rd: "bad_read (m_dev sample_bad) sample_id buf n = (KES_ERROR_IO, [], m_dev sample_bad)" for buf n by (simp add: bad_read_def)
  have io: "reads (\<lambda>d. d) bad_read" by (simp add: reads_def bad_read_def)
  have sel: "slot [] sample_id = None" "c_write_extent sample_bad = Some ram_write" by (simp_all add: slot_def sample_bad_def sample_open_sel)
  show ?thesis
    using mark_dirty_after_failed_load [OF sample_bad_ok sample_id_ok sel(1) sample_bad_sel(1) sel(2) sample_bad_room sample_bad_sel(2) refl refl rd _ io ram_io(2)]
      ram_io(3) junk by (fastforce simp: sample_size map_replicate_const)
qed

section \<open>Removal\<close>

text \<open>
  C34. Invalidating an extent: NOTFOUND when it is not cached and BUSY when it is referenced or pinned,
  both without any effect on the entries, buffers and statistics. Otherwise the entry is discarded without being written, dirty or not,
  its buffer is freed, and the counters of entries, memory and dirty entries follow.
\<close>

theorem invalidate_correct:
  assumes ok: "cache_ok c es"
  shows "\<exists>c'. kes_cache_invalidate (Some c) (Some i) = Some (case slot es i of None \<Rightarrow> KES_ERROR_NOTFOUND
       | Some (a, b) \<Rightarrow> if busy b then KES_ERROR_BUSY else KES_SUCCESS, Some c') \<and> m_dev c' = m_dev c \<and>
    (case slot es i of
       None \<Rightarrow> cache_ok c' es \<and> m_bufs c' = m_bufs c \<and> c_stats c' = c_stats c
     | Some (a, b) \<Rightarrow> if busy b then cache_ok c' es \<and> m_bufs c' = m_bufs c \<and> c_stats c' = c_stats c
         else cache_ok c' (filter (\<lambda>(x, y). x \<noteq> a) es) \<and> m_bufs c' = (m_bufs c)(the (e_data b) := None) \<and>
           c_stats c' = (c_stats c)\<lparr>cs_memory_used := cs_memory_used (c_stats c) - KES_ALIGN (e_data_size b) KES_CACHE_ALIGNMENT,
             cs_entries_cached := cs_entries_cached (c_stats c) - 1,
             cs_entries_dirty := cs_entries_dirty (c_stats c) - (if dirty b then 1 else 0)\<rparr>)"
proof -
  obtain c' where c': "kes_cache_invalidate (Some c) (Some i) = Some (case slot es i of None \<Rightarrow> KES_ERROR_NOTFOUND
       | Some (a, b) \<Rightarrow> if busy b then KES_ERROR_BUSY else KES_SUCCESS, Some c')"
    "cache_ok c' (case slot es i of Some (a, b) \<Rightarrow> if busy b then es else drop_at a es | _ \<Rightarrow> es)"
    "core c' = (case slot es i of Some (a, b) \<Rightarrow> if busy b then core c
        else if dirty b then stats (\<lambda>s. s\<lparr>cs_entries_dirty := cs_entries_dirty s - 1\<rparr>) (evict_core b (core c))
        else evict_core b (core c) | _ \<Rightarrow> core c)" by (rule invalidate_eq [OF ok])
  have k: "m_bufs (core c') = (case slot es i of Some (a, b) \<Rightarrow> if busy b then m_bufs c else (m_bufs c)(the (e_data b) := None) | _ \<Rightarrow> m_bufs c)"
    "m_dev (core c') = m_dev c"
    "c_stats (core c') = (case slot es i of Some (a, b) \<Rightarrow> if busy b then c_stats c
       else (c_stats c)\<lparr>cs_memory_used := cs_memory_used (c_stats c) - KES_ALIGN (e_data_size b) KES_CACHE_ALIGNMENT,
             cs_entries_cached := cs_entries_cached (c_stats c) - 1,
             cs_entries_dirty := cs_entries_dirty (c_stats c) - (if dirty b then 1 else 0)\<rparr> | _ \<Rightarrow> c_stats c)"
    unfolding c'(3) by (simp_all add: evict_core_def stats_def split: option.splits)
  show ?thesis using c'(1,2) k by (intro exI [of _ c']) (auto simp: drop_at_def split: option.splits)
qed

theorem invalidate_correct_witness:
  "\<exists>(c :: ram kes_cache) c' a b. kes_cache_invalidate (Some c) (Some sample_id) = Some (KES_ERROR_BUSY, Some c') \<and>
    cache_ok c' [(a, b)] \<and> dirty b \<and> m_bufs c' = m_bufs c"
proof -
  obtain c :: "ram kes_cache" and a b where c: "cache_ok c [(a, b)]" "slot [(a, b)] sample_id = Some (a, b)" "dirty b" "busy b" by (rule sample_dirty)
  show ?thesis using invalidate_correct [OF c(1), of sample_id] c by fastforce
qed

text \<open>
  C35. Destroying a cache always returns. If no entry is referenced or pinned, every entry and buffer is freed and the
  answer is SUCCESS. Otherwise the answer is BUSY and exactly the entries in use stay, in their order;
  the others are discarded all the same, the background threads are stopped, and the counter of dirty entries is not
  told. In both cases nothing is written to the device: dirty data have to be flushed before.
\<close>

theorem destroy_correct:
  assumes ok: "cache_ok c es"
  shows "if \<exists>(a, b) \<in> set es. busy b
    then \<exists>c'. kes_cache_destroy (Some c) = Some (KES_ERROR_BUSY, Some (Inr c')) \<and> cache_ok c' (filter (\<lambda>(a, b). busy b) es) \<and>
      c_bg_threads c' = None \<and> m_dev c' = m_dev c \<and> cs_entries_dirty (c_stats c') = cs_entries_dirty (c_stats c)
    else \<exists>m. kes_cache_destroy (Some c) = Some (KES_SUCCESS, Some (Inl m)) \<and> m_heap m = (\<lambda>_. None) \<and> m_bufs m = (\<lambda>_. None) \<and> m_dev m = m_dev c"
  using ok
proof (cases rule: destroy_eq)
  case (busy c')
  have dr: "c_bg_threads (drain es k) = c_bg_threads k \<and> m_dev (drain es k) = m_dev k \<and>
      cs_entries_dirty (c_stats (drain es k)) = cs_entries_dirty (c_stats k)" for k :: "'a kes_cache"
    by (induction es k rule: drain.induct) (auto simp: evict_core_def stats_def)
  have "c_bg_threads (core c') = None \<and> m_dev (core c') = m_dev c \<and> cs_entries_dirty (c_stats (core c')) = cs_entries_dirty (c_stats c)"
    unfolding busy(4) using dr by simp
  then show ?thesis using busy(1-3) by auto
next
  case (gone m)
  then have "\<not> (\<exists>(a, b) \<in> set es. busy b)" by auto
  then show ?thesis using gone(2-5) by auto
qed

theorem destroy_correct_witness:
  "\<exists>(c :: ram kes_cache) c' a b. kes_cache_destroy (Some c) = Some (KES_ERROR_BUSY, Some (Inr c')) \<and> cache_ok c' [(a, b)] \<and> c_bg_threads c' = None"
proof -
  obtain c :: "ram kes_cache" and a b where c: "cache_ok c [(a, b)]" "busy b" by (rule sample_dirty)
  show ?thesis using destroy_correct [OF c(1)] c(2) by auto
qed

section \<open>The counter of dirty entries\<close>




section \<open>Background threads\<close>

text \<open>
  C37. The background threads: \<open>kes_cache_start\<close> answers INVALID when none are configured and EXISTS
  when they run already, and with memory and threads available it starts all of them; whenever it fails no thread is left
  behind that did not run before. A wake-up of a running thread (which holds the cache lock when its wait
  ends and takes it again for the next wait) writes every dirty entry back if the device works, and only entries in use or with a failed
  load stay in the cache. Among other threads that keep the cache in order a background thread never gets stuck, and it ends, with the lock released, when
  one of its waits ends with \<open>shutdown\<close> set. \<open>kes_cache_stop\<close> joins all threads, and a thread woken then
  ends without touching an entry.
\<close>

theorem background_threads:
  assumes ok: "cache_ok c es" and w: "c_write_extent c = Some wr" "\<forall>d i bs n. fst (wr d i bs n) = KES_SUCCESS"
  shows "\<exists>r c1. kes_cache_start (Some c) = Some (r, Some c1) \<and> cache_ok c1 es \<and>
    (cc_background_threads (c_config c) \<le> 0 \<longrightarrow> r = KES_ERROR_INVALID) \<and>
    (cc_background_threads (c_config c) > 0 \<and> c_bg_threads c \<noteq> None \<longrightarrow> r = KES_ERROR_EXISTS) \<and>
    (cc_background_threads (c_config c) > 0 \<and> c_bg_threads c = None \<and> m_sched c = [] \<longrightarrow> r = KES_SUCCESS) \<and>
    (if r = KES_SUCCESS then c_bg_threads c1 = Some (replicate (nat (cc_background_threads (c_config c))) True) \<and>
       (\<exists>c2 es2. bg_wakeup (c1\<lparr>c_cache_lock := True\<rparr>) = Some (True, c2\<lparr>c_cache_lock := True\<rparr>) \<and> cache_ok c2 es2 \<and>
          (\<forall>(a, b) \<in> set es2. \<not> dirty b \<and> (busy b \<or> failed b)))
     else c_bg_threads c1 = c_bg_threads c) \<and>
    (\<forall>ws. ws \<noteq> [] \<and> (\<forall>w \<in> set ws. \<forall>d. in_order (snd w d)) \<and> (\<forall>d. shuts_down (snd (last ws) d)) \<longrightarrow>
       (\<exists>c4 es4. cache_bg_thread_func ws c1 = Some (True, c4) \<and> cache_ok c4 es4)) \<and>
    (\<exists>c3. kes_cache_stop (Some c1) = Some (KES_SUCCESS, Some c3) \<and> cache_ok c3 es \<and> c_bg_threads c3 = None \<and>
       bg_wakeup (c3\<lparr>c_cache_lock := True\<rparr>) = Some (False, c3\<lparr>c_cache_lock := False\<rparr>))"
proof -
  obtain c1 where s: "kes_cache_start (Some c) = Some (start_code c, Some c1)" "cache_ok c1 es"
    "start_code c = KES_SUCCESS \<longrightarrow> c_bg_threads c1 = Some (replicate (nat (cc_background_threads (c_config c))) True) \<and> \<not> c_shutdown c1"
    "start_code c \<noteq> KES_SUCCESS \<longrightarrow> c_bg_threads c1 = c_bg_threads c" by (rule start_eq [OF ok]) blast
  have w1: "c_write_extent c1 = Some wr" using start_rest [OF s(1)] w(1) by simp
  have codes: "cc_background_threads (c_config c) \<le> 0 \<longrightarrow> start_code c = KES_ERROR_INVALID"
    "cc_background_threads (c_config c) > 0 \<and> c_bg_threads c \<noteq> None \<longrightarrow> start_code c = KES_ERROR_EXISTS"
    "cc_background_threads (c_config c) > 0 \<and> c_bg_threads c = None \<and> m_sched c = [] \<longrightarrow> start_code c = KES_SUCCESS"
    by (simp_all add: start_code_def Let_def)
  have wake: "\<exists>c2 es2. bg_wakeup (c1\<lparr>c_cache_lock := True\<rparr>) = Some (True, c2\<lparr>c_cache_lock := True\<rparr>) \<and> cache_ok c2 es2 \<and>
      (\<forall>(a, b) \<in> set es2. \<not> dirty b \<and> (busy b \<or> failed b))" if sd: "\<not> c_shutdown c1"
  proof -
    obtain c2 es2 where b: "bg_wakeup (c1\<lparr>c_cache_lock := True\<rparr>) = Some (True, c2\<lparr>c_cache_lock := True\<rparr>)"
      "cache_ok c2 es2" "fold visit (map fst es) (es, core c1) = (es2, core c2)"
      by (rule bg_wakeup_eq [OF s(2)]) (use sd in simp)
    have "\<forall>(a, b) \<in> set es2. \<not> dirty b \<and> \<not> evictable b False"
      using sweep_working [of "core c1" wr "[]" es es2 "core c2"] w1 w(2) b(3) cache_okD(4) [OF s(2)] by auto
    moreover have "\<forall>(a, b) \<in> set es2. resting b" using cache_okD(2) [OF b(2)] by (simp add: tidy_def)
    ultimately have "\<forall>(a, b) \<in> set es2. \<not> dirty b \<and> (busy b \<or> failed b)"
      by (fastforce simp: evictable_def busy_def dirty_def failed_def resting_def)
    then show ?thesis using b(1,2) by blast
  qed
  have thread: "\<exists>c4 es4. cache_bg_thread_func ws c1 = Some (True, c4) \<and> cache_ok c4 es4"
    if ws: "ws \<noteq> [] \<and> (\<forall>w \<in> set ws. \<forall>d. in_order (snd w d)) \<and> (\<forall>d. shuts_down (snd (last ws) d))" for ws
  proof -
    obtain c4 es4 where t: "cache_bg_thread_func ws c1 = Some (c_shutdown c4, c4\<lparr>c_cache_lock := \<not> c_shutdown c4\<rparr>)"
      "cache_ok c4 es4" "c_shutdown c4" using bg_thread_eq [OF s(2)] ws by blast
    moreover have "c4\<lparr>c_cache_lock := False\<rparr> = c4" using cache_okD(5) [OF t(2)] by (cases c4) simp
    ultimately show ?thesis by auto
  qed
  define c3 where "c3 = c1\<lparr>c_shutdown := True, c_bg_threads := None\<rparr>"
  note st = stop_eq [OF s(2) c3_def]
  have "bg_wakeup (c3\<lparr>c_cache_lock := True\<rparr>) = Some (False, c3\<lparr>c_cache_lock := False\<rparr>)"
    by (simp add: bg_wakeup_def unlock_cache_def c3_def)
  then have stop: "\<exists>c3. kes_cache_stop (Some c1) = Some (KES_SUCCESS, Some c3) \<and> cache_ok c3 es \<and> c_bg_threads c3 = None \<and>
       bg_wakeup (c3\<lparr>c_cache_lock := True\<rparr>) = Some (False, c3\<lparr>c_cache_lock := False\<rparr>)"
    using st by (intro exI [of _ c3]) (simp add: c3_def)
  have fin: "if start_code c = KES_SUCCESS then c_bg_threads c1 = Some (replicate (nat (cc_background_threads (c_config c))) True) \<and>
       (\<exists>c2 es2. bg_wakeup (c1\<lparr>c_cache_lock := True\<rparr>) = Some (True, c2\<lparr>c_cache_lock := True\<rparr>) \<and> cache_ok c2 es2 \<and>
          (\<forall>(a, b) \<in> set es2. \<not> dirty b \<and> (busy b \<or> failed b)))
     else c_bg_threads c1 = c_bg_threads c" using s(3,4) wake by simp
  show ?thesis by (rule exI [of _ "start_code c"], rule exI [of _ c1]) (intro conjI s(1,2) codes fin stop allI impI thread; blast)
qed

text \<open>Other threads that only look on, that synchronise, or that set \<open>shutdown\<close> as \<open>kes_cache_stop\<close> does.\<close>

lemma others_in_order:
  "in_order Some" "in_order (\<lambda>c. Option.bind (kes_cache_sync (Some c)) snd)" "in_order (\<lambda>c. Some (c\<lparr>c_shutdown := True\<rparr>))"
proof -
  show "in_order Some" by (auto simp: in_order_def)
  show "in_order (\<lambda>c. Option.bind (kes_cache_sync (Some c)) snd)"
    unfolding in_order_def by (intro allI impI, rule sync_eq) auto
  show "in_order (\<lambda>c. Some (c\<lparr>c_shutdown := True\<rparr>))"
    unfolding in_order_def
  proof (intro allI impI)
    fix c es
    assume ok: "cache_ok c es"
    have "cache_ok (c\<lparr>c_shutdown := True\<rparr>) es"
      by (rule cache_ok_cong [OF ok]) (use cache_okD [OF ok] in \<open>simp_all add: read_ok_def threads_ok_def\<close>)
    then show "\<exists>c' es'. Some (c\<lparr>c_shutdown := True\<rparr>) = Some c' \<and> cache_ok c' es'" by blast
  qed
qed

theorem background_threads_witness:
  "\<exists>(c :: ram kes_cache) a b r c1. dirty b \<and> kes_cache_start (Some c) = Some (r, Some c1) \<and> cache_ok c1 [(a, b)] \<and>
    (\<exists>c4. cache_bg_thread_func [((0, 0), \<lambda>_ c. Option.bind (kes_cache_sync (Some c)) snd), ((5, 0), \<lambda>_ c. Some (c\<lparr>c_shutdown := True\<rparr>))] c1 = Some (True, c4)) \<and>
    (\<exists>c3. kes_cache_stop (Some c1) = Some (KES_SUCCESS, Some c3) \<and> cache_ok c3 [(a, b)] \<and> c_bg_threads c3 = None)"
proof -
  obtain c :: "ram kes_cache" and a b where c: "cache_ok c [(a, b)]" "dirty b" "c_write_extent c = Some ram_write" by (rule sample_dirty)
  let ?ws = "[((0, 0), \<lambda>_ c. Option.bind (kes_cache_sync (Some c)) snd), ((5, 0), \<lambda>_ c. Some (c\<lparr>c_shutdown := True\<rparr>))] :: ram wait list"
  have ws: "?ws \<noteq> [] \<and> (\<forall>w \<in> set ?ws. \<forall>d. in_order (snd w d)) \<and> (\<forall>d. shuts_down (snd (last ?ws) d))"
    using others_in_order by (simp add: shuts_down_def)
  show ?thesis using background_threads [OF c(1,3)] c(2) ram_io(3) ws by blast
qed

text \<open>The deadline of a wait lies the configured interval ahead and is a valid time for a nonnegative interval;
  for a negative one the nanoseconds may come out negative, which \<open>pthread_cond_timedwait\<close> refuses.\<close>

lemma bg_deadline_valid:
  assumes "0 \<le> snd now" "snd now < 1000000000" "0 \<le> ms"
  shows "0 \<le> snd (bg_deadline now ms)" "snd (bg_deadline now ms) < 1000000000"
    "fst (bg_deadline now ms) * 1000000000 + snd (bg_deadline now ms) = fst now * 1000000000 + snd now + ms * 1000000"
proof -
  define q r where "q = ms div 1000" and "r = ms mod 1000"
  have m: "ms = q * 1000 + r" "0 \<le> r" "r < 1000" by (simp_all add: q_def r_def)
  have "sgn ms * (\<bar>ms\<bar> div 1000) = q" using assms(3) by (cases "ms = 0") (simp_all add: q_def)
  then have b: "bg_deadline now ms = (let nsec = snd now + r * 1000000 in
      if nsec \<ge> 1000000000 then (fst now + q + 1, nsec - 1000000000) else (fst now + q, nsec))"
    using m(1) by (simp add: bg_deadline_def Let_def)
  show "0 \<le> snd (bg_deadline now ms)" "snd (bg_deadline now ms) < 1000000000"
    "fst (bg_deadline now ms) * 1000000000 + snd (bg_deadline now ms) = fst now * 1000000000 + snd now + ms * 1000000"
    unfolding b using assms m by (simp_all add: Let_def)
qed

lemma bg_deadline_negative: "bg_deadline (100, 0) (- 1) = (100, - 1000000)"
  by (simp add: bg_deadline_def Let_def)

end
