(* ===== verification/Kes_Cache_Race.thy ===== *)
theory Kes_Cache_Race
  imports Kes_Cache_Upkeep
begin

text \<open>
  Two threads in the cache: \<open>kes_cache_get_extent\<close> cut in two at the point where it retries a failed load, which
  is where it releases the lock of the entry for the time of the read callback, and what another
  thread may do to the entry in between.
\<close>

section \<open>The lookup before and after the unlocked window\<close>

text \<open>The retry up to the release of the entry's lock, and from the call of the callback on.\<close>

definition retry_begin :: "'d kes_cache \<Rightarrow> addr \<Rightarrow> 'd kes_cache option" where
  "retry_begin c a = do {
     c1 \<leftarrow> upd c a (\<lambda>e. e\<lparr>e_state := KES_EXTENT_LOADING\<rparr>);
     unlock_entry c1 a }"

definition retry_end :: "'d kes_cache \<Rightarrow> kes_extent_id \<Rightarrow> addr \<Rightarrow> 'd kes_cache option" where
  "retry_end c i a = do {
     (retry_result, c3) \<leftarrow> load_data c i a;
     c4 \<leftarrow> lock_entry c3 a;
     c5 \<leftarrow> upd c4 a (\<lambda>e. e\<lparr>e_state := if retry_result = KES_SUCCESS then KES_EXTENT_CLEAN else KES_EXTENT_ERROR\<rparr>);
     c6 \<leftarrow> unlock_entry c5 a;
     c7 \<leftarrow> (if retry_result = KES_SUCCESS then add_bytes_read c6 a else Some c6);
     lock_entry c7 a }"

lemma retry_load_split: "retry_load c i a = do { c1 \<leftarrow> retry_begin c a; retry_end c1 i a }"
  by (simp add: retry_load_def retry_begin_def retry_end_def)

text \<open>A lookup of a cached entry whose load failed, up to the window, and the rest of it. A lookup with a bad id, of a cache that is
  being destroyed, of an extent that is not cached or of an entry that needs no retry does not reach the window: \<open>None\<close>.\<close>

definition hit_to_retry :: "'d kes_cache \<Rightarrow> addr \<Rightarrow> 'd kes_cache option" where
  "hit_to_retry c a = do {
     c1 \<leftarrow> lock_entry c a;
     c2 \<leftarrow> unpin_lookup c1 a;
     c3 \<leftarrow> wait_loaded c2 a;
     e \<leftarrow> m_heap c3 a;
     if e_state e AND KES_EXTENT_ERROR \<noteq> 0 \<and> e_state e AND KES_EXTENT_DIRTY = 0 then retry_begin c3 a else None }"

definition get_to_retry :: "'d kes_cache \<Rightarrow> kes_extent_id \<Rightarrow> (addr \<times> 'd kes_cache) option" where
  "get_to_retry c i =
     (if \<not> KES_IS_POWER_OF_2 (id_block_size i) \<or> id_block_size i < KES_MIN_BLOCK_SIZE \<or> id_block_size i > KES_MAX_BLOCK_SIZE then None
      else if id_block_count i = 0 then None
      else do {
        c1 \<leftarrow> lock_cache c;
        if c_destroying c1 then None
        else do {
          c2 \<leftarrow> unlock_cache (c1\<lparr>c_inflight_lookups := c_inflight_lookups c1 + 1\<rparr>);
          (entry, c3) \<leftarrow> hash_find c2 i;
          a \<leftarrow> entry;
          c4 \<leftarrow> hit_to_retry c3 a;
          Some (a, c4) } })"

definition get_from_retry ::
    "'d kes_cache \<Rightarrow> kes_extent_id \<Rightarrow> addr \<Rightarrow> (int \<times> 'd kes_cache option \<times> addr option option) option" where
  "get_from_retry c i a = do {
     c4 \<leftarrow> retry_end c i a;
     e4 \<leftarrow> m_heap c4 a;
     if e_state e4 AND KES_EXTENT_ERROR \<noteq> 0 then do {
       c5 \<leftarrow> unlock_entry c4 a;
       c6 \<leftarrow> end_lookup c5;
       Some (KES_ERROR_IO, Some c6, Some None) }
     else do {
       let (now, c5) = get_timestamp c4;
       c6 \<leftarrow> upd c5 a (\<lambda>e. e\<lparr>e_ref_count := e_ref_count e + 1, e_access_time := now,
               e_access_count := e_access_count e + 1\<rparr>);
       c7 \<leftarrow> unlock_entry c6 a;
       c8 \<leftarrow> lock_cache c7;
       c9 \<leftarrow> lru_touch c8 a;
       let c10 = stats (\<lambda>s. s\<lparr>cs_hits := cs_hits s + 1\<rparr>) c9;
       c11 \<leftarrow> unlock_cache (c10\<lparr>c_inflight_lookups := c_inflight_lookups c10 - 1\<rparr>);
       Some (KES_SUCCESS, Some c11, Some (e_data e4)) } }"

text \<open>The state in the window: the entry is unlocked and loading, without a reference or a pin.\<close>

definition in_window :: "'d kes_cache \<Rightarrow> addr \<Rightarrow> 'd kes_cache" where
  "in_window c a = c\<lparr>c_inflight_lookups := c_inflight_lookups c + 1,
     m_heap := (m_heap c)(a \<mapsto> (the (m_heap c a))\<lparr>e_state := KES_EXTENT_LOADING\<rparr>)\<rparr>"

lemma get_to_retry_eq:
  assumes ok: "cache_ok c es" and s: "slot es i = Some (a, b)" and i: "id_ok i" and f: "failed b" "\<not> dirty b"
  shows "get_to_retry c i = Some (a, in_window c a)"
proof -
  note k = cache_okD [OF ok]
  obtain e where e: "m_heap c a = Some e" "extent_body.truncate e = b" "\<not> e_lock e" "e_lookup_pins e = 0" "e_state e AND KES_EXTENT_LOADING = 0"
    by (rule slot_entry [OF ok s])
  have st: "e_state e AND KES_EXTENT_ERROR \<noteq> 0" "e_state e AND KES_EXTENT_DIRTY = 0" using e(2) f by (auto simp: failed_def dirty_def)
  let ?c = "c\<lparr>c_inflight_lookups := c_inflight_lookups c + 1\<rparr>"
  have h: "holds ?c es" using k(1) by simp
  have hf: "hash_find ?c i = Some (Some a, ?c\<lparr>m_heap := (m_heap c)(a \<mapsto> e\<lparr>e_lookup_pins := 1\<rparr>)\<rparr>)"
    using hash_find_eq [OF h k(3), of i] s e by simp
  show ?thesis using e st k(5,8) hf i unfolding id_ok_guard
    by (simp add: get_to_retry_def hit_to_retry_def lock_cache_def unlock_cache_def lock_entry_def unlock_entry_def unpin_lookup_def upd_def wait_loaded_def
        retry_begin_def in_window_def)
qed

lemma get_in_window:
  assumes ok: "cache_ok c es" and s: "slot es i = Some (a, b)" and i: "id_ok i" and f: "failed b" "\<not> dirty b"
  shows "kes_cache_get_extent (Some c) (Some i) (Some None) = get_from_retry (in_window c a) i a"
proof -
  note k = cache_okD [OF ok]
  obtain e where e: "m_heap c a = Some e" "extent_body.truncate e = b" "\<not> e_lock e" "e_lookup_pins e = 0" "e_state e AND KES_EXTENT_LOADING = 0"
    by (rule slot_entry [OF ok s])
  have st: "e_state e AND KES_EXTENT_ERROR \<noteq> 0" "e_state e AND KES_EXTENT_DIRTY = 0" using e(2) f by (auto simp: failed_def dirty_def)
  let ?c = "c\<lparr>c_inflight_lookups := c_inflight_lookups c + 1\<rparr>"
  have h: "holds ?c es" using k(1) by simp
  have hf: "hash_find ?c i = Some (Some a, ?c\<lparr>m_heap := (m_heap c)(a \<mapsto> e\<lparr>e_lookup_pins := 1\<rparr>)\<rparr>)"
    using hash_find_eq [OF h k(3), of i] s e(1,4) by simp
  have g: "kes_cache_get_extent (Some c) (Some i) (Some None) =
      (case get_extent_hit (?c\<lparr>m_heap := (m_heap c)(a \<mapsto> e\<lparr>e_lookup_pins := 1\<rparr>)\<rparr>) i a of None \<Rightarrow> None
       | Some (r, buf, c5) \<Rightarrow> Some (r, Some c5, Some buf))"
    using i k(5,8) hf unfolding id_ok_guard
    by (simp add: kes_cache_get_extent_def lock_cache_def unlock_cache_def split: option.splits)
  have rb: "retry_begin (?c\<lparr>m_heap := (m_heap c)(a \<mapsto> e\<lparr>e_lock := True\<rparr>)\<rparr>) a = Some (in_window c a)"
    using e by (simp add: retry_begin_def upd_def unlock_entry_def in_window_def)
  have "get_extent_hit (?c\<lparr>m_heap := (m_heap c)(a \<mapsto> e\<lparr>e_lookup_pins := 1\<rparr>)\<rparr>) i a = do {
      c4 \<leftarrow> retry_end (in_window c a) i a;
      e4 \<leftarrow> m_heap c4 a;
      if e_state e4 AND KES_EXTENT_ERROR \<noteq> 0 then do {
        c5 \<leftarrow> unlock_entry c4 a; c6 \<leftarrow> end_lookup c5; Some (KES_ERROR_IO, None, c6) }
      else do {
        let (now, c5) = get_timestamp c4;
        c6 \<leftarrow> upd c5 a (\<lambda>e. e\<lparr>e_ref_count := e_ref_count e + 1, e_access_time := now, e_access_count := e_access_count e + 1\<rparr>);
        c7 \<leftarrow> unlock_entry c6 a;
        c8 \<leftarrow> lock_cache c7;
        c9 \<leftarrow> lru_touch c8 a;
        let c10 = stats (\<lambda>s. s\<lparr>cs_hits := cs_hits s + 1\<rparr>) c9;
        c11 \<leftarrow> unlock_cache (c10\<lparr>c_inflight_lookups := c_inflight_lookups c10 - 1\<rparr>);
        Some (KES_SUCCESS, e_data e4, c11) } }"
    using e st rb by (simp add: get_extent_hit_def lock_entry_def unpin_lookup_def upd_def wait_loaded_def retry_load_split)
  then show ?thesis unfolding g get_from_retry_def
    by (simp add: Let_def split: Option.bind_splits option.splits prod.splits)
qed

section \<open>A sweep in the window\<close>

lemma window_holds:
  assumes ok: "cache_ok c es" and s: "slot es i = Some (a, b)"
  shows "holds (in_window c a) (at a (\<lambda>_. b\<lparr>e_state := KES_EXTENT_LOADING\<rparr>) es)"
proof -
  obtain e where e: "m_heap c a = Some e" "extent_body.truncate e = b" by (rule slot_entry [OF ok s])
  have t: "extent_body.truncate (e\<lparr>e_state := KES_EXTENT_LOADING\<rparr>) = b\<lparr>e_state := KES_EXTENT_LOADING\<rparr>" using e(2) by simp
  have "holds (in_window c a) (at a (\<lambda>_. extent_body.truncate (e\<lparr>e_state := KES_EXTENT_LOADING\<rparr>)) es)"
    by (rule holds_upd' [OF cache_okD(1) [OF ok] e(1)]) (use e(1) in \<open>simp_all add: in_window_def\<close>)
  then show ?thesis unfolding t .
qed

lemma sweep_in_window:
  assumes ok: "cache_ok c [(a, b)]" and s: "slot [(a, b)] i = Some (a, b)" and b: "\<not> busy b"
  obtains c2 where "kes_cache_sync (Some (in_window c a)) = Some (KES_SUCCESS, Some c2)" "holds c2 []" "m_bufs c2 = (\<lambda>_. None)"
proof -
  note k = cache_okD [OF ok]
  obtain e p buf where e: "m_heap c a = Some e" "extent_body.truncate e = b" "resting b" "\<not> e_lock e" "e_lookup_pins e = 0"
    "e_data b = Some p" "m_bufs c p = Some buf" by (rule slot_entry [OF ok s])
  define w where "w = in_window c a"
  define e1 where "e1 = e\<lparr>e_state := KES_EXTENT_LOADING\<rparr>"
  have w: "m_heap w = (m_heap c)(a \<mapsto> e1)" "\<not> c_cache_lock w" "m_bufs w = m_bufs c" using e(1) k(5) by (simp_all add: w_def in_window_def e1_def)
  have h: "holds w [(a, b\<lparr>e_state := KES_EXTENT_LOADING\<rparr>)]" using window_holds [OF ok s] by (simp add: at_def w_def)
  then have hd: "c_mru_head w = Some a" "e_list_next e1 = None" using w(1) by (auto simp: holds_def lru_def)
  define c4 where "c4 = w\<lparr>m_heap := (m_heap w)(a \<mapsto> e1\<lparr>e_lock := True\<rparr>)\<rparr>"
  have t: "extent_body.truncate (e1\<lparr>e_lock := True\<rparr>) = b\<lparr>e_state := KES_EXTENT_LOADING, e_lock := True\<rparr>" using e(2) by (simp add: e1_def)
  have "holds c4 (at a (\<lambda>_. extent_body.truncate (e1\<lparr>e_lock := True\<rparr>)) [(a, b\<lparr>e_state := KES_EXTENT_LOADING\<rparr>)])"
    by (rule holds_upd' [OF h, of a e1]) (simp_all add: w(1) c4_def)
  then have h4: "holds c4 ([] @ (a, b\<lparr>e_state := KES_EXTENT_LOADING, e_lock := True\<rparr>) # [])" unfolding t by (simp add: at_def)
  have ev: "evictable (b\<lparr>e_state := KES_EXTENT_LOADING, e_lock := True\<rparr>) False"
    using b e(3) by (simp add: evictable_def busy_def resting_def)
  obtain c2 where c2: "try_evict_entry_locked c4 a False = Some (True, c2)" "holds c2 ([] @ [])"
    "core c2 = core (evict_core (b\<lparr>e_state := KES_EXTENT_LOADING, e_lock := True\<rparr>) c4)"
    by (rule evict_holds [OF h4 refl ev, of p]) (use e w k(5) in \<open>simp_all add: resting_def c4_def\<close>)
  have nd: "e_state (e1\<lparr>e_lock := True\<rparr>) AND KES_EXTENT_DIRTY = 0" by (simp add: e1_def)
  have "e_lookup_pins e1 = 0" "\<not> e_lock e1" using e by (simp_all add: e1_def)
  note e1 = this
  have fl: "flush_dirty c4 a = Some c4" using nd by (simp add: flush_dirty_def c4_def)
  have sw: "sweep_flush_and_maybe_evict (w\<lparr>m_heap := (m_heap w)(a \<mapsto> e1\<lparr>e_lookup_pins := 1\<rparr>)\<rparr>) a = Some c2"
    using e1 fl c2(1) by (simp add: sweep_flush_and_maybe_evict_def lock_entry_def unpin_lookup_def upd_def c4_def)
  have "cache_sweep w = Some c2" using w(1,2) hd e1 sw
    by (simp add: cache_sweep_def cache_sweep_loop.simps lock_cache_def unlock_cache_def pin_next_def pin_lookup_def pin_list_next_def upd_def)
  moreover have "m_bufs c2 = (\<lambda>_. None)"
  proof -
    have "m_bufs (core c2) = (m_bufs c)(p := None)" unfolding c2(3) using e(6) w(3) by (simp add: evict_core_def stats_def c4_def)
    moreover have "dom (m_bufs c) = {p}" using dom_bufs(2) [OF ok] e(6) by simp
    then have "(m_bufs c)(p := None) = (\<lambda>_. None)" by (auto simp: fun_eq_iff dom_def)
    ultimately show ?thesis by simp
  qed
  ultimately show thesis using that [of c2] c2(2) by (simp add: kes_cache_sync_def w_def)
qed

text \<open>
  C38. The retry of a failed load races with a sweep. Alone, the lookup goes through its unlocked window (\<open>get_to_retry\<close>,
  then \<open>get_from_retry\<close>) and returns. But in the window the entry is only marked as loading; it has no reference, no pin and no waiter, and
  eviction does not look at the mark: if another thread (a background thread, or a caller of \<open>kes_cache_sync\<close>) sweeps the cache meanwhile,
  the entry and its buffer are freed, and the rest of the lookup reads into freed memory and locks a freed mutex.
\<close>

theorem retry_races_with_sweep:
  assumes ok: "cache_ok c [(a, b)]" and s: "slot [(a, b)] i = Some (a, b)" and i: "id_ok i" and f: "failed b" "\<not> dirty b" "\<not> busy b"
  shows "\<exists>c1 c2 r. get_to_retry c i = Some (a, c1) \<and>
    kes_cache_get_extent (Some c) (Some i) (Some None) = get_from_retry c1 i a \<and> get_from_retry c1 i a = Some r \<and>
    kes_cache_sync (Some c1) = Some (KES_SUCCESS, Some c2) \<and> m_heap c2 a = None \<and> m_bufs c2 (the (e_data b)) = None \<and>
    get_from_retry c2 i a = None"
proof -
  have g: "get_to_retry c i = Some (a, in_window c a)" by (rule get_to_retry_eq [OF ok s i f(1,2)])
  have w: "kes_cache_get_extent (Some c) (Some i) (Some None) = get_from_retry (in_window c a) i a" by (rule get_in_window [OF ok s i f(1,2)])
  obtain r where r: "kes_cache_get_extent (Some c) (Some i) (Some None) = Some r" using get_eq [OF ok i] by metis
  obtain c2 where c2: "kes_cache_sync (Some (in_window c a)) = Some (KES_SUCCESS, Some c2)" "holds c2 []" "m_bufs c2 = (\<lambda>_. None)"
    by (rule sweep_in_window [OF ok s f(3)])
  have h: "m_heap c2 a = None" using no_entry_of [OF c2(2)] by simp
  then have "retry_end c2 i a = None"
    by (simp add: retry_end_def load_data_def lock_entry_def split: option.splits)
  then have "get_from_retry c2 i a = None" by (simp add: get_from_retry_def)
  moreover have "get_from_retry (in_window c a) i a = Some r" using w r by simp
  ultimately show ?thesis using g w c2 h by (intro exI [of _ "in_window c a"] exI [of _ c2] exI [of _ r]) simp
qed

theorem retry_races_with_sweep_witness:
  "\<exists>(c :: ram kes_cache) a c1 c2 r. get_to_retry c sample_id = Some (a, c1) \<and>
    kes_cache_get_extent (Some c) (Some sample_id) (Some None) = Some r \<and> kes_cache_sync (Some c1) = Some (KES_SUCCESS, Some c2) \<and>
    m_heap c2 a = None \<and> get_from_retry c2 sample_id a = None"
proof -
  obtain c :: "ram kes_cache" and a b where c: "cache_ok c [(a, b)]" "slot [(a, b)] sample_id = Some (a, b)" "failed b" "\<not> dirty b" "\<not> busy b"
    by (rule sample_failed)
  show ?thesis using retry_races_with_sweep [OF c(1,2) sample_id_ok c(3-5)] by metis
qed

end
