(* ===== verification/Spec2Isabelle.thy ===== *)
theory Spec2Isabelle
  imports Kes_World Kes_Example_Contract Kes_Cache_Race
begin

text \<open>
  \<^bold>\<open>Verification of KES, the KANEK extents storage library.\<close>

  KES is a C library in three parts. The \<^emph>\<open>block bitmap\<close> (\<open>src/kes_bitmap.c\<close>) records which blocks of a
  storage are in use. The \<^emph>\<open>storage layer\<close> (\<open>src/kes_storage.c\<close>) keeps a descriptor, a bitmap and user data in one
  file, hands out extents (runs of blocks), frees, reads and writes them, and lets several handles and
  processes share the file through \<open>flock\<close>: every operation reloads descriptor and bitmap from the
  file under the lock and persists them before it releases it. The \<^emph>\<open>extent cache\<close> (\<open>src/kes_cache.c\<close>)
  keeps extents in memory behind read and write callbacks: a hash table with intrusive chains, an LRU list through
  the same entries, reference and pin counts, dirty and error states, eviction within configured limits, and background threads that
  write dirty entries back. The storage layer calls the bitmap; the cache reaches a device only
  through its callbacks, and nothing in the repository connects the two. The \<^emph>\<open>example program\<close> (\<open>examples/example_kes_usage.c\<close>) is a
  client of the storage layer.

  \<^bold>\<open>Conventions.\<close> Integers of the sources are words of their width (\<open>u8\<close> to \<open>u64\<close>, wrapping), \<open>int\<close> results are
  \<open>int\<close>. A NULL pointer argument is \<open>None\<close>. A call that would not return properly (undefined behaviour, a
  dangling pointer, a lock taken twice by one thread, an endless loop) has the outer value \<open>None\<close>, so that every
  theorem of the form \<open>f x = Some y\<close> says that the call is defined, ends, and what it gives. Loops are structural recursion
  over the number of rounds left, or \<open>partial_function (option)\<close> where they follow pointers; no fuel is used anywhere.

  \<^bold>\<open>Theories and sources.\<close>
  \<^item> \<open>Kes_Prelude\<close>, \<open>Kes_Types\<close> (\<open>include/kes/kes_types.h\<close>): word types, general lemmas; codes, constants, structs, macros.
  \<^item> \<open>Kes_Os\<close>: the POSIX calls the library uses, over files with holes, open file descriptions with positions and \<open>flock\<close> locks, and a schedule
    of faults that lets any call fail or a write stop short (only giving a lock back never fails). The interface \<open>random_access\<close> is interpreted on the file operations.
  \<^item> \<open>Kes_Bitmap\<close> (\<open>kes_bitmap.c\<close>): every function over a byte array; the interface \<open>block_allocator\<close> states the search and the range operations as
    operations on the set of used blocks and is interpreted on them.
  \<^item> \<open>Kes_Storage\<close> (\<open>kes_storage.c\<close>): every function but one, with \<open>kfl_crc32c\<close>, which is not part of the repository, as the parameter \<open>crc\<close>; no
    theorem assumes anything about it. \<open>Kes_Stats\<close>: \<open>kes_storage_get_stats\<close> with its floating-point arithmetic as rationals rounded to 53 bits.
  \<^item> \<open>Kes_Disk\<close>, \<open>Kes_Extent\<close>, \<open>Kes_Lifecycle\<close>, \<open>Kes_Io\<close>: the on-disk format and its coherence, allocation and freeing against the set of
    used blocks on disk, creating, opening, synchronising and closing, reading and writing. \<open>Kes_World\<close>: many handles, any
    interleaving of operations, as a step relation with its invariant. \<open>Kes_Contract\<close>, \<open>Kes_Io_Contract\<close>: the properties of the storage layer.
  \<^item> \<open>Kes_Example\<close> (\<open>examples/example_kes_usage.c\<close>): the program as a list of phases over its variables, the operating system and its output, with the formatting of
    numbers and strings. \<open>Kes_Example_Contract\<close>: phases composed as in a Hoare logic, the text the program prints and the file it leaves.
  \<^item> \<open>Kes_Links\<close>: intrusive doubly linked lists (interface \<open>linked\<close>, interpreted on the two pairs of links of an entry).
    \<open>Kes_Cache\<close> (\<open>kes_cache.c\<close>): every function over an explicit heap of entries and buffers with its locks, pins, allocation failures, callbacks and clock;
    a background thread is a loop over its waits, each with what the other threads did to the cache meanwhile.
  \<^item> \<open>Kes_Cache_Inv\<close>, \<open>Kes_Cache_Ok\<close>: the pointer structure and the invariant between two calls, which abstract a cache to the list of its entries.
    \<open>Kes_Cache_Sweep\<close>, \<open>Kes_Cache_Ops\<close>, \<open>Kes_Cache_Get\<close>, \<open>Kes_Cache_Miss\<close>, \<open>Kes_Cache_Life\<close>: every operation keeps the invariant and computes an equation on that list.
  \<^item> \<open>Kes_Machine\<close>, \<open>Kes_Cache_World\<close>: sequences of calls, the abstract machine on lists of entries, and the simulation between the code and it (interface \<open>simulation\<close>).
    \<open>Kes_Cache_Store\<close>: the content clients see and that it changes by their writes only. \<open>Kes_Cache_Laws\<close>, \<open>Kes_Cache_Held\<close>: eviction order, exact counters, entries in use.
    \<open>Kes_Cache_Contract\<close>, \<open>Kes_Cache_Upkeep\<close>: the properties of the cache.
    \<open>Kes_Cache_Race\<close>: a lookup cut at the point where it retries a failed load without a lock, and a sweep of another thread in between.
  \<^item> This theory: the property that spans all handles of a storage.

  \<^bold>\<open>What the theorems show.\<close> Storage: without faults an allocation takes the first free run on disk and a free releases exactly its extent; with any
  faults no block that is in use is handed out or released, locks are returned and user data survive; over any interleaving through any number of handles the extents handed out
  stay disjoint, inside the user area and marked in use (closes without faults, writes without a wrapping offset); data written are read back and writes touch nothing else; closing and opening restore the state. The example program prints exactly
  the expected text and leaves the expected file, or a call that fails stops it with status 1, after exactly the lines before that call and the report of the error. Bitmap:
  search, ranges, counting and the image on disk against the set of used blocks. Cache: from its creation on every sequence of calls is safe, refines the abstract machine and keeps limits and counters exact (the counter of dirty entries as long as the cache is not destroyed); the cache is
  transparent and \<open>kes_cache_sync\<close> makes it durable for clients that do not throw their changes away (\<open>careful_run\<close>); entries in use never move or vanish; eviction follows the LRU order, goes no further than
  needed and drops exactly what may be dropped; every operation does what its
  documentation says on each branch, errors included. Some theorems state where the code does not: the wrapping sum in the bounds check of extent I/O,
  a close that overwrites newer state after a failed reload, uninitialised memory written to the device when an extent is marked dirty after its load failed, the counter of dirty entries after a refused destruction, statistics after a foreign free,
  and a use after free when a sweep runs while a lookup retries a failed load.

  \<^bold>\<open>Bounds and hypotheses.\<close> Device sizes are below \<open>2 ^ 63\<close> (file offsets are signed). Cache configurations satisfy \<open>config_ok\<close>, limits for which the sums in \<open>make_room_for_new_entry\<close>
  do not wrap; the documented maxima are far below. Sequences have fewer than \<open>2 ^ 32\<close> calls, so that reference and pin counts do not wrap.
  A read callback does not write beyond the size it is given (\<open>call_ok\<close>). Transparency and durability also ask that the callbacks read and write extents of a device (\<open>reads\<close>, \<open>writes\<close>), where extents with different ids do not overlap, and
  that each call is \<open>careful\<close> in the state in which it is made: no marking as dirty of an extent that is not held and whose load failed, no invalidation of changes that are not written back, no change of the callbacks, no destruction.

  \<^bold>\<open>Not modelled.\<close> Interleavings inside one operation: the storage layer's operations are atomic under its mutex and the file lock, whose discipline the model
  checks, but for the cache one thread runs each operation from start to end, so that the races its pins and condition variables guard against do not occur
  (the wait for a load by another thread is \<open>None\<close>); the one exception is \<open>Kes_Cache_Race\<close>. Trace output; the fields \<open>memory_pool\<close>, \<open>pool_size\<close> and \<open>free_list\<close>, which no function reads; \<open>device_handle\<close>, which is only passed on to the callbacks (the device behind it is \<open>m_dev\<close>); the
  bucket array, locks and struct of a cache as heap objects of their own; the end of a thread inside \<open>pthread_join\<close>, which only takes it out of the array (that the threads end once they are told to is proved of their loop); the contents of
  \<open>kfl_crc32c\<close>; tests and benchmarks.
\<close>

section \<open>Many handles on one storage\<close>

lemma create_world_ok:
  assumes run: "kes_storage_create crc os (Some c) True = Some (KES_SUCCESS, Some s, os1)"
    and os: "unlocked os" and c: "cfg_flags c AND KES_STORAGE_READONLY = 0" "cfg_device_path c = Some path"
      "unat (cfg_device_size c) < 2 ^ 63"
  shows "world_ok (sto_desc s) path \<lparr>w_os = os1, w_handles = [s], w_live = []\<rparr>"
proof -
  have v: "validate_config (Some c) = KES_SUCCESS"
    using run by (auto simp: kes_storage_create_def Let_def split: if_splits)
  obtain r st os' where C: "kes_storage_create crc os (Some c) True = Some (r, st, os')"
    "r = KES_SUCCESS \<longrightarrow> (\<exists>s x f. st = Some s \<and> created crc os c s x f os')"
    by (rule kes_storage_create_spec [OF v c(3)])
  then obtain x f where x: "created crc os c s x f os1" using run by auto
  have ses: "session os1 s x f (sto_desc s)" by (rule created_session [OF x os c(1)])
  have "of_path x = path" "os_files os1 path = Some f" using x c(2) by (auto simp: created_def)
  then show ?thesis using ses by (auto simp: world_ok_def live_ok_def session_def)
qed

text \<open>
  C3. Exclusive ownership across handles: start from a freshly created storage and run any
  sequence of opens (not read-only ones), allocations, frees of extents handed out, writes into such extents, syncs and closes through any number of handles on
  the same file. Any I/O call of opens, allocations, frees, writes and syncs may fail; closes
  run without faults (a close whose reload fails writes a stale bitmap), and the offset and size of a write have a sum below
  \<open>2 ^ 64\<close> (otherwise the bounds check wraps). At every point the extents handed out and not yet freed lie inside the user
  area, are pairwise disjoint and are marked as used in the bitmap on disk, and no file lock is held
  between operations. Nor does any operation get stuck there: through every handle an allocation, a free and a sync return.
\<close>

theorem multi_handle_exclusive:
  assumes "kes_storage_create crc os (Some c) True = Some (KES_SUCCESS, Some s, os1)" "unlocked os"
    and "cfg_flags c AND KES_STORAGE_READONLY = 0" "cfg_device_path c = Some path" "unat (cfg_device_size c) < 2 ^ 63"
    and "w_reach crc path \<lparr>w_os = os1, w_handles = [s], w_live = []\<rparr> w"
  shows "\<exists>f. os_files (w_os w) path = Some f \<and> unlocked (w_os w) \<and>
    (\<forall>e \<in> set (w_live w). ext_inside (sto_desc s) e \<and> ext_blocks e \<noteq> {} \<and> ext_blocks e \<subseteq> disk_used (sto_desc s) f) \<and>
    (\<forall>j < length (w_live w). \<forall>i < j. ext_blocks (w_live w ! i) \<inter> ext_blocks (w_live w ! j) = {}) \<and>
    (\<forall>i < length (w_handles w). \<forall>rq e.
       (\<exists>r t e' os'. kes_extent_allocate crc (Some (w_handles w ! i)) (Some rq) (Some e) (w_os w) = Some (r, Some t, Some e', os')) \<and>
       (\<exists>r t os'. kes_extent_free crc (Some (w_handles w ! i)) (Some e) (w_os w) = Some (r, Some t, os')) \<and>
       (\<exists>r t os'. kes_storage_sync crc (Some (w_handles w ! i)) (w_os w) = Some (r, Some t, os')))"
proof -
  have ok: "world_ok (sto_desc s) path w" by (rule w_reach_ok [OF assms(6) create_world_ok [OF assms(1-5)]])
  then obtain f where f: "os_files (w_os w) path = Some f" "unlocked (w_os w)" "disk_static (sto_desc s) f"
    "live_ok (sto_desc s) (disk_used (sto_desc s) f) (w_live w)" by (auto simp: world_ok_def)
  have live: "ext_inside (sto_desc s) e \<and> ext_blocks e \<noteq> {} \<and> ext_blocks e \<subseteq> disk_used (sto_desc s) f"
    if "e \<in> set (w_live w)" for e
    using live_inside [OF f(4) that f(3)] f(4) that by (auto simp: live_ok_def ext_blocks_def)
  have disj: "\<forall>j < length (w_live w). \<forall>i < j. ext_blocks (w_live w ! i) \<inter> ext_blocks (w_live w ! j) = {}"
    using f(4) by (auto simp: live_ok_def sorted_wrt_iff_nth_less)
  show ?thesis
    by (intro exI [of _ f] conjI f(1,2) disj ballI allI impI world_progress [OF ok]) (use live in simp_all)
qed

text \<open>Two handles on the sample storage, one block allocated through each.\<close>

definition one_block :: kes_extent_request where
  "one_block = sample_request\<lparr>rq_block_count := 1\<rparr>"

lemma one_block_allocates:
  assumes "session os s x f L" "disk_coherent crc L f" "quiet os" "card (disk_used L f) < unat (d_user_blocks L)"
  obtains s' e' f' os' where
    "kes_extent_allocate crc (Some s) (Some one_block) (Some sample_extent) os = Some (KES_SUCCESS, Some s', Some e', os')"
    "session os' s' x f' L" "disk_coherent crc L f'" "quiet os'" "disk_used L f' = disk_used L f \<union> ext_blocks e'"
    "x_block_count e' = 1" "os_files os' (of_path x) = Some f'"
proof -
  have n: "rq_block_count one_block \<noteq> 0" "unat (rq_block_count one_block) = 1" "rq_block_count one_block = 1"
    by (simp_all add: one_block_def)
  have "\<not> {..<unat (d_user_blocks L)} \<subseteq> disk_used L f"
  proof
    assume "{..<unat (d_user_blocks L)} \<subseteq> disk_used L f"
    then have "unat (d_user_blocks L) \<le> card (disk_used L f)"
      using card_mono [of "disk_used L f" "{..<unat (d_user_blocks L)}"] disk_used_bounded(1) [of L f] assms(2)
        finite_subset [of "disk_used L f" "{..<unat (d_user_blocks L)}"] by (simp add: disk_coherent_def)
    then show False using assms(4) by simp
  qed
  then obtain j where "j < unat (d_user_blocks L)" "j \<notin> disk_used L f" by auto
  then have "fits (disk_used L f) (unat (d_user_blocks L)) 1 j" by (simp add: fits_def)
  then show thesis using that allocate_correct_raw [OF assms(1-3) n(1), of sample_extent] n(2,3) by auto
qed

theorem multi_handle_exclusive_witness:
  "\<exists>s os1 w e g f. kes_storage_create sum_crc sample_os (Some sample_config) True = Some (KES_SUCCESS, Some s, os1) \<and>
     w_reach sum_crc ''dev'' \<lparr>w_os = os1, w_handles = [s], w_live = []\<rparr> w \<and> length (w_handles w) = 2 \<and>
     w_live w = [g, e] \<and> ext_blocks e \<inter> ext_blocks g = {} \<and> os_files (w_os w) ''dev'' = Some f \<and>
     ext_blocks e \<union> ext_blocks g \<subseteq> disk_used (sto_desc s) f"
proof -
  obtain s x f os1 where S: "kes_storage_create sum_crc sample_os (Some sample_config) True = Some (KES_SUCCESS, Some s, os1)"
    "created sum_crc sample_os sample_config s x f os1" "session os1 s x f (sto_desc s)" "quiet os1" "of_path x = ''dev''"
    by (rule sample_created)
  let ?L = "sto_desc s"
  have c: "disk_coherent sum_crc ?L f" "disk_used ?L f = {}" "3 \<le> unat (d_user_blocks ?L)" "layout_ok ?L"
    using S(2) by (simp_all add: created_def)
  obtain s2 e f2 os2 where A: "kes_extent_allocate sum_crc (Some s) (Some one_block) (Some sample_extent) os1 =
      Some (KES_SUCCESS, Some s2, Some e, os2)" "session os2 s2 x f2 ?L" "disk_coherent sum_crc ?L f2" "quiet os2"
    "disk_used ?L f2 = disk_used ?L f \<union> ext_blocks e" "x_block_count e = 1" "os_files os2 (of_path x) = Some f2"
    by (rule one_block_allocates [OF S(3) c(1) S(4)]) (use c in simp_all)
  have st2: "disk_static ?L f2" "unlocked os2" "d_bitmap_checksum (disk_desc f2) = sum_crc 0 (disk_bits ?L f2)"
    using A(2,3) by (simp_all add: session_def disk_coherent_def)
  obtain r h os3 where O: "kes_storage_open sum_crc os2 (Some ''dev'') 0 True = Some (r, h, os3)"
    "os_files os3 = os_files os2"
    "r = KES_SUCCESS \<longrightarrow> (\<exists>t y. h = Some t \<and> of_path y = ''dev'' \<and> opened sum_crc ?L f2 0 os2 t y os3)"
    "r = KES_ERROR_CORRUPT \<longrightarrow> d_bitmap_checksum (disk_desc f2) \<noteq> sum_crc 0 (disk_bits ?L f2)"
    "quiet os2 \<longrightarrow> r = KES_SUCCESS \<or> r = KES_ERROR_CORRUPT"
    by (rule kes_storage_open_spec [OF A(7) [unfolded S(5)] st2(1) c(4) st2(2)])
  have r: "r = KES_SUCCESS" using O(4,5) A(4) st2(3) by blast
  then obtain t y where t: "h = Some t" "of_path y = ''dev''" "opened sum_crc ?L f2 0 os2 t y os3" using O(3) by blast
  have ses3: "session os3 t y f2 ?L"
    by (rule opened_session [OF t(3) _ st2(2) _ st2(1) c(4)]) (use O(2) A(7) t(2) S(5) in simp_all)
  let ?os3 = "os3\<lparr>os_sched := []\<rparr>"
  have ses4: "session ?os3 t y f2 ?L"
    using ses3 by (auto simp: session_def fd_on_def fd_get_same [of ?os3 os3] unlocked_def)
  have room: "quiet ?os3" "card (disk_used ?L f2) < unat (d_user_blocks ?L)"
    using A(5,6) c by (simp_all add: quiet_def ext_blocks_def)
  obtain t2 g f3 os4 where B: "kes_extent_allocate sum_crc (Some t) (Some one_block) (Some sample_extent) ?os3 =
      Some (KES_SUCCESS, Some t2, Some g, os4)" "disk_used ?L f3 = disk_used ?L f2 \<union> ext_blocks g"
    "os_files os4 (of_path y) = Some f3"
    by (rule one_block_allocates [OF ses4 A(3) room])
  let ?w0 = "\<lparr>w_os = os1, w_handles = [s], w_live = []\<rparr>" and ?w1 = "\<lparr>w_os = os2, w_handles = [s2], w_live = [e]\<rparr>"
    and ?w2 = "\<lparr>w_os = os3, w_handles = [t, s2], w_live = [e]\<rparr>" and ?w3 = "\<lparr>w_os = ?os3, w_handles = [t, s2], w_live = [e]\<rparr>"
    and ?w4 = "\<lparr>w_os = os4, w_handles = [t2, s2], w_live = [g, e]\<rparr>"
  have "w_step sum_crc ''dev'' ?w0 ?w1" using w_step.allocates [of 0 ?w0 sum_crc one_block sample_extent] A(1) by simp
  moreover have "w_step sum_crc ''dev'' ?w1 ?w2" using w_step.opens [of sum_crc ?w1 "''dev''" 0 t os3] O(1) r t(1) by simp
  moreover have "w_step sum_crc ''dev'' ?w2 ?w3" using w_step.faults [of sum_crc "''dev''" ?w2 "[]"] by simp
  moreover have "w_step sum_crc ''dev'' ?w3 ?w4" using w_step.allocates [of 0 ?w3 sum_crc one_block sample_extent] B(1) by simp
  ultimately have reach: "w_reach sum_crc ''dev'' ?w0 ?w4" by (meson w_reach.intros)
  have os: "unlocked sample_os" "cfg_flags sample_config AND KES_STORAGE_READONLY = 0"
    "cfg_device_path sample_config = Some ''dev''" "unat (cfg_device_size sample_config) < 2 ^ 63"
    using sample_os_unlocked by (simp_all add: sample_config_def)
  from multi_handle_exclusive [OF S(1) os reach] obtain f4 where
    F: "os_files os4 ''dev'' = Some f4" "\<forall>z \<in> set [g, e]. ext_blocks z \<subseteq> disk_used ?L f4"
    "\<forall>j < length [g, e]. \<forall>i < j. ext_blocks ([g, e] ! i) \<inter> ext_blocks ([g, e] ! j) = {}"
    by auto
  have "ext_blocks g \<inter> ext_blocks e = {}" using F(3) [rule_format, of 1 0] by simp
  then show ?thesis using S(1) reach F(1,2) by (intro exI [of _ s] exI [of _ os1] exI [of _ ?w4]) auto
qed

end
